(* ===== verification/Prelude.thy ===== *)
theory Prelude
  imports Main "HOL-Library.Word" "HOL-Library.Monad_Syntax"
begin

text \<open>
  Shared vocabulary of the development: the machine types of the target (an ARM7 with
  32-bit \<open>int\<close>, \<open>unsigned int\<close> and pointers), the theorem collections the component
  theories fill, and the generic facts on lists, options and words they share.

  Conventions used everywhere:
  \<^item> a C pointer that may be \<open>NULL\<close> is an \<open>option\<close> (\<open>NULL\<close> is \<^const>\<open>None\<close>);
  \<^item> an operation that dereferences pointers returns an \<open>option\<close>: \<^const>\<open>None\<close> is a
    fault (a dereference of \<open>NULL\<close> or of a pointer that points to no object of the
    expected type), so ``the code never faults'' is a statement that can be proved;
  \<^item> \<open>unsigned int\<close> is a 32-bit word, \<open>int\<close> counters that the code keeps in a small
    range are \<open>int\<close>.
\<close>

unbundle bit_operations_syntax

type_synonym u8 = "8 word"
type_synonym u16 = "16 word"
type_synonym u32 = "32 word"
type_synonym addr = "32 word"

named_theorems chain_simps \<open>paths along the next and prev pointers\<close>
named_theorems ring_rules \<open>effect of a queue operation on a family of rings\<close>
named_theorems sched_rules \<open>effect of a scheduler routine on the kernel invariant\<close>

subsection \<open>Lists\<close>

lemma set_remove1_distinct [simp]: "distinct xs \<Longrightarrow> set (remove1 x xs) = set xs - {x}"
  by (rule set_remove1_eq)

lemma remove1_split: "x \<notin> set ys \<Longrightarrow> remove1 x (ys @ x # zs) = ys @ zs"
  by (simp add: remove1_append)

lemma hd_append_single: "xs \<noteq> [] \<Longrightarrow> hd (xs @ [x]) = hd xs"
  by simp

lemma hd_remove1: "xs \<noteq> [] \<Longrightarrow> hd xs \<noteq> x \<Longrightarrow> hd (remove1 x xs) = hd xs"
  by (cases xs) auto

lemma remove1_Nil_iff: "distinct xs \<Longrightarrow> remove1 x xs = [] \<longleftrightarrow> set xs \<subseteq> {x}"
  by (cases xs) (auto simp: subset_singleton_iff)

subsection \<open>Options\<close>

lemma bind_eq_Some: "Option.bind m f = Some y \<longleftrightarrow> (\<exists>x. m = Some x \<and> f x = Some y)"
  by (rule bind_eq_Some_conv)

subsection \<open>Words\<close>

lemma bit_word_exp [simp]:
  "bit (2 ^ n :: 'a::len word) m \<longleftrightarrow> m = n \<and> n < LENGTH('a)"
  by (auto simp: bit_exp_iff)

lemma word_zero_iff_bit: "(w :: 'a::len word) = 0 \<longleftrightarrow> (\<forall>n < LENGTH('a). \<not> bit w n)"
  by (auto simp: bit_eq_iff bit_imp_le_length)

text \<open>The isolation of the lowest set bit, \<open>w AND - w\<close>.\<close>

lemma odd_and_minus: "odd (v :: 'a::len word) \<Longrightarrow> v AND - v = 1"
proof -
  assume "odd v"
  have "NOT v AND 1 = 0" using \<open>odd v\<close> by (simp add: and_one_eq even_not_iff mod2_eq_if)
  then have "NOT v + 1 = NOT v OR 1" by (simp add: disjunctive_add_eq_or)
  then have "v AND - v = v AND (NOT v OR 1)" by (simp add: minus_eq_not_plus_1)
  also have "\<dots> = v AND 1" by (simp add: bit.conj_disj_distrib)
  also have "\<dots> = 1" using \<open>odd v\<close> by (simp add: and_one_eq mod2_eq_if)
  finally show ?thesis .
qed

lemma lowest_bit_isolated:
  assumes "bit (w :: 'a::len word) k" "\<And>j. j < k \<Longrightarrow> \<not> bit w j"
  shows "w AND - w = 2 ^ k"
proof -
  let ?v = "drop_bit k w"
  have w: "w = push_bit k ?v"
  proof (rule bit_word_eqI)
    fix n assume "n < LENGTH('a)"
    then show "bit w n = bit (push_bit k ?v) n"
      using assms(2) [of n] by (cases "k \<le> n") (auto simp: bit_push_bit_iff bit_drop_bit_eq)
  qed
  have "odd ?v" using assms(1) by (simp add: bit_iff_odd_drop_bit)
  then have "?v AND - ?v = 1" by (rule odd_and_minus)
  moreover have "- w = push_bit k (- ?v)"
    by (subst w) (simp add: push_bit_minus)
  ultimately have "w AND - w = push_bit k 1"
    by (subst (1) w) (simp flip: push_bit_and)
  then show ?thesis by simp
qed

text \<open>Sums, products and differences of 32-bit words as natural numbers.\<close>

lemma unat_add_small: "unat (a :: u32) + unat b < 2 ^ 32 \<Longrightarrow> unat (a + b) = unat a + unat b"
  by (simp add: unat_word_ariths)

lemma unat_mul_small:
  assumes "unat (b :: u32) * m < 2 ^ 32" "0 < unat b"
  shows "unat (b * of_nat m) = unat b * m"
proof -
  have "m \<le> unat b * m" using assms(2) by simp
  then have "m < 2 ^ 32" using assms(1) by linarith
  then have "unat (of_nat m :: u32) = m" by (simp add: unat_of_nat take_bit_eq_mod)
  then show ?thesis using assms(1) by (simp add: unat_word_ariths)
qed

lemma unat_u32_less: "unat (w :: u32) < 2 ^ 32"
  using unsigned_less [of w] by simp

lemma unat_of_nat_u32: "k < 2 ^ 32 \<Longrightarrow> unat (of_nat k :: u32) = k"
  by (simp add: unat_of_nat take_bit_nat_eq_self)

lemma unat_minus_u32:
  "unat (x - y :: u32) = (if unat y \<le> unat x then unat x - unat y else unat x + 2 ^ 32 - unat y)"
  by (simp add: unat_sub_if')

lemma unat_minus_of_nat:
  fixes x :: u32
  assumes "k < 2 ^ 32"
  shows "unat (x - of_nat k) = (if k \<le> unat x then unat x - k else unat x + 2 ^ 32 - k)"
  using unat_minus_u32 [of x "of_nat k"] unfolding unat_of_nat_u32 [OF assms] .

lemma unat_pred: "(w :: u32) \<noteq> 0 \<Longrightarrow> unat w = Suc (unat (w - 1)) \<and> unat (w - 1) < 2 ^ 32"
  using unat_minus_u32 [of w 1] unat_u32_less [of "w - 1"] by (auto simp: word_unat_eq_iff)

end
