(* ===== verification/Cdll.thy ===== *)
theory Cdll
  imports Prelude
begin

text \<open>
  The circular doubly linked lists of \<open>src/TNKernel/tn_utils.c\<close>, the only container of
  the kernel: ready lists, wait queues, the timeout list and the creation list are all
  \<open>CDLL_QUEUE\<close>s, whose nodes are embedded in other structures.

  The memory of all nodes is one record \<open>qmem\<close>, two functions from node addresses to
  node addresses; the operations are the assignments of the source in their order.
  The abstraction is a family of rings: \<open>rings m L\<close> says that the queue heads in the
  domain of \<open>L\<close> carry the disjoint lists \<open>L\<close> names, and the lemmas of \<open>ring_rules\<close>
  state each operation as the list operation it implements, all other queues unchanged.
\<close>

record 'n qmem =
  prv :: "'n \<Rightarrow> 'n"
  nxt :: "'n \<Rightarrow> 'n"

definition set_prv :: "'n \<Rightarrow> 'n \<Rightarrow> 'n qmem \<Rightarrow> 'n qmem" where
  "set_prv n v m = m\<lparr>prv := (prv m)(n := v)\<rparr>"

definition set_nxt :: "'n \<Rightarrow> 'n \<Rightarrow> 'n qmem \<Rightarrow> 'n qmem" where
  "set_nxt n v m = m\<lparr>nxt := (nxt m)(n := v)\<rparr>"

section \<open>The operations\<close>

definition queue_reset :: "'n \<Rightarrow> 'n qmem \<Rightarrow> 'n qmem" where
  "queue_reset que m = set_prv que que (set_nxt que que m)"

definition is_queue_empty :: "'n qmem \<Rightarrow> 'n \<Rightarrow> bool" where
  "is_queue_empty m que = (nxt m que = que \<and> prv m que = que)"

definition queue_add_head :: "'n \<Rightarrow> 'n \<Rightarrow> 'n qmem \<Rightarrow> 'n qmem" where
  "queue_add_head que entry m =
     (let m = set_nxt entry (nxt m que) m;
          m = set_prv entry que m;
          m = set_prv (nxt m entry) entry m
      in set_nxt que entry m)"

definition queue_add_tail :: "'n \<Rightarrow> 'n \<Rightarrow> 'n qmem \<Rightarrow> 'n qmem" where
  "queue_add_tail que entry m =
     (let m = set_nxt entry que m;
          m = set_prv entry (prv m que) m;
          m = set_nxt (prv m entry) entry m
      in set_prv que entry m)"

text \<open>\<open>queue_remove_head\<close> checks its argument for \<open>NULL\<close>, so the argument is a pointer.\<close>

definition queue_remove_head :: "'n option \<Rightarrow> 'n qmem \<Rightarrow> 'n option \<times> 'n qmem" where
  "queue_remove_head que m =
     (case que of
        None \<Rightarrow> (None, m)
      | Some que \<Rightarrow>
          if nxt m que = que then (None, m)
          else let entry = nxt m que;
                   m = set_prv (nxt m entry) que m;
                   m = set_nxt que (nxt m entry) m
               in (Some entry, m))"

definition queue_remove_tail :: "'n \<Rightarrow> 'n qmem \<Rightarrow> 'n option \<times> 'n qmem" where
  "queue_remove_tail que m =
     (if prv m que = que then (None, m)
      else let entry = prv m que;
               m = set_nxt (prv m entry) que m;
               m = set_prv que (prv m entry) m
           in (Some entry, m))"

definition queue_remove_entry :: "'n \<Rightarrow> 'n qmem \<Rightarrow> 'n qmem" where
  "queue_remove_entry entry m =
     (let m = set_nxt (prv m entry) (nxt m entry) m
      in set_prv (nxt m entry) (prv m entry) m)"

text \<open>
  The search loop of \<open>queue_contains_entry\<close> need not end on a damaged list:
  \<^const>\<open>None\<close> is a loop that does not return.
\<close>

partial_function (option) queue_contains_loop :: "'n qmem \<Rightarrow> 'n \<Rightarrow> 'n \<Rightarrow> 'n \<Rightarrow> bool option" where
  "queue_contains_loop m que entry curr_que =
     (if curr_que = entry then Some True
      else if nxt m curr_que = que then Some False
      else queue_contains_loop m que entry (nxt m curr_que))"

definition queue_contains_entry :: "'n qmem \<Rightarrow> 'n \<Rightarrow> 'n \<Rightarrow> bool option" where
  "queue_contains_entry m que entry = queue_contains_loop m que entry (nxt m que)"

section \<open>Paths and rings\<close>

lemma set_prv_simps [simp]:
  "prv (set_prv n v m) = (prv m)(n := v)" "nxt (set_prv n v m) = nxt m"
  by (simp_all add: set_prv_def)

lemma set_nxt_simps [simp]:
  "nxt (set_nxt n v m) = (nxt m)(n := v)" "prv (set_nxt n v m) = prv m"
  by (simp_all add: set_nxt_def)

text \<open>\<open>chain m a xs b\<close>: from \<open>a\<close> the next pointers pass through \<open>xs\<close> to \<open>b\<close>, and the prev
  pointers lead back along the same nodes.\<close>

fun chain :: "'n qmem \<Rightarrow> 'n \<Rightarrow> 'n list \<Rightarrow> 'n \<Rightarrow> bool" where
  "chain m a [] b \<longleftrightarrow> nxt m a = b \<and> prv m b = a"
| "chain m a (x # xs) b \<longleftrightarrow> nxt m a = x \<and> prv m x = a \<and> chain m x xs b"

definition ring :: "'n qmem \<Rightarrow> 'n \<Rightarrow> 'n list \<Rightarrow> bool" where
  "ring m q xs \<longleftrightarrow> chain m q xs q \<and> distinct (q # xs)"

lemma chain_append [chain_simps]:
  "chain m a (xs @ x # ys) b \<longleftrightarrow> chain m a xs x \<and> chain m x ys b"
  by (induction xs arbitrary: a) auto

lemma chain_cong:
  assumes "\<And>n. n \<in> insert a (set xs) \<Longrightarrow> nxt m' n = nxt m n"
    and "\<And>n. n \<in> insert b (set xs) \<Longrightarrow> prv m' n = prv m n"
  shows "chain m' a xs b = chain m a xs b"
  using assms by (induction xs arbitrary: a) auto

lemma chain_last: "chain m a (xs @ [x]) b \<Longrightarrow> nxt m x = b \<and> prv m b = x"
  by (simp add: chain_append)

lemma chain_prv: "chain m a xs b \<Longrightarrow> prv m b = (if xs = [] then a else last xs)"
  by (induction xs arbitrary: a) auto

lemma ring_cong:
  assumes "\<And>n. n \<in> set (q # xs) \<Longrightarrow> nxt m' n = nxt m n"
    and "\<And>n. n \<in> set (q # xs) \<Longrightarrow> prv m' n = prv m n"
  shows "ring m' q xs = ring m q xs"
  unfolding ring_def using assms by (subst chain_cong[where m = m]) auto

lemma ring_empty [simp]: "ring m q [] \<longleftrightarrow> nxt m q = q \<and> prv m q = q"
  by (simp add: ring_def)

lemma ring_hd: "ring m q (x # xs) \<Longrightarrow> nxt m q = x \<and> prv m x = q"
  by (simp add: ring_def)

lemma ring_last: "ring m q xs \<Longrightarrow> prv m q = last (q # xs)"
  by (auto simp: ring_def dest: chain_prv)

lemma ring_nxt:
  assumes "ring m q (ys @ n # zs)"
  shows "nxt m n = hd (zs @ [q])"
proof -
  have "chain m a (ys @ n # zs) b \<Longrightarrow> nxt m n = hd (zs @ [b])" for a b
    by (induction ys arbitrary: a) (cases zs, auto)
  with assms show ?thesis by (auto simp: ring_def)
qed

lemma ring_is_empty: "ring m q xs \<Longrightarrow> is_queue_empty m q \<longleftrightarrow> xs = []"
  by (cases xs) (auto simp: is_queue_empty_def ring_def)

lemma ring_unique: "ring m q xs \<Longrightarrow> ring m q ys \<Longrightarrow> xs = ys"
proof -
  have "\<lbrakk>chain m a xs q; chain m a ys q; q \<notin> set xs; q \<notin> set ys\<rbrakk> \<Longrightarrow> xs = ys" for a
  proof (induction xs arbitrary: a ys)
    case Nil
    then show ?case by (cases ys) auto
  next
    case (Cons x xs)
    then show ?case by (cases ys) auto
  qed
  then show "ring m q xs \<Longrightarrow> ring m q ys \<Longrightarrow> xs = ys"
    by (auto simp: ring_def)
qed

section \<open>Single rings\<close>

lemma ring_reset: "ring (queue_reset q m) q []"
  by (simp add: queue_reset_def)

lemma ring_add_tail:
  assumes r: "ring m q xs" and e: "e \<notin> set (q # xs)"
  shows "ring (queue_add_tail q e m) q (xs @ [e])"
proof (cases xs rule: rev_cases)
  case Nil
  with r e show ?thesis by (auto simp: ring_def queue_add_tail_def Let_def)
next
  case (snoc ys y)
  let ?m = "queue_add_tail q e m"
  from r snoc have c: "chain m q ys y" and y: "nxt m y = q" "prv m q = y"
    and d: "distinct (q # ys @ [y])"
    by (auto simp: ring_def chain_append)
  from d e snoc y have "chain ?m q ys y = chain m q ys y"
    by (intro chain_cong) (auto simp: queue_add_tail_def Let_def)
  with c have "chain ?m q ys y" by simp
  moreover have "chain ?m y [e] q"
    using d e snoc y by (auto simp: queue_add_tail_def Let_def)
  ultimately show ?thesis using snoc d e by (auto simp: ring_def chain_append)
qed

lemma ring_add_head:
  assumes r: "ring m q xs" and e: "e \<notin> set (q # xs)"
  shows "ring (queue_add_head q e m) q (e # xs)"
proof (cases xs)
  case Nil
  with r e show ?thesis by (auto simp: ring_def queue_add_head_def Let_def)
next
  case (Cons y ys)
  let ?m = "queue_add_head q e m"
  from r Cons have c: "chain m y ys q" and y: "nxt m q = y" and d: "distinct (q # y # ys)"
    by (auto simp: ring_def)
  from d e Cons y have "chain ?m y ys q = chain m y ys q"
    by (intro chain_cong) (auto simp: queue_add_head_def Let_def)
  with c d e Cons y show ?thesis by (auto simp: ring_def queue_add_head_def Let_def)
qed

lemma ring_remove_entry:
  assumes r: "ring m q xs" and e: "e \<in> set xs"
  shows "ring (queue_remove_entry e m) q (remove1 e xs)"
proof -
  from e obtain ys zs where xs: "xs = ys @ e # zs" by (auto simp: in_set_conv_decomp)
  from r xs have c: "chain m q ys e" "chain m e zs q" and d: "distinct (q # ys @ e # zs)"
    by (auto simp: ring_def chain_append)
  let ?m = "queue_remove_entry e m"
  let ?p = "prv m e" and ?n = "nxt m e"
  have p: "?p = last (q # ys)" using c(1) by (auto dest: chain_prv)
  have n: "?n = hd (zs @ [q])" using c(2) by (cases zs) auto
  have pe: "?p \<noteq> e" using p d by (auto split: if_splits)
  have m: "nxt ?m = (nxt m)(?p := ?n)" "prv ?m = (prv m)(?n := ?p)"
    using pe by (auto simp: queue_remove_entry_def Let_def)
  have "chain ?m q (ys @ zs) q"
  proof (cases ys rule: rev_cases)
    case Nil
    show ?thesis
    proof (cases zs)
      case (Cons z zs')
      have "chain ?m z zs' q = chain m z zs' q"
        using d p n Nil Cons by (intro chain_cong) (auto simp: m)
      with c Nil Cons p n d show ?thesis by (auto simp: m)
    qed (use Nil c p n d in \<open>auto simp: m\<close>)
  next
    case (snoc ys' y)
    have "chain ?m q ys' y = chain m q ys' y"
      using d p n snoc by (cases zs; intro chain_cong) (auto simp: m)
    moreover have "chain m q ys' y" using c snoc by (simp add: chain_append)
    moreover have "chain ?m y zs q"
    proof (cases zs)
      case (Cons z zs')
      have "chain ?m z zs' q = chain m z zs' q"
        using d p n snoc Cons by (intro chain_cong) (auto simp: m)
      with c snoc Cons p n d show ?thesis by (auto simp: m)
    qed (use snoc c p n d in \<open>auto simp: m\<close>)
    ultimately show ?thesis using snoc by (simp add: chain_append)
  qed
  with xs d show ?thesis by (simp add: ring_def remove1_split)
qed

lemma ring_entry_prv:
  assumes "ring m q xs" "e \<in> set xs"
  shows "prv m e \<noteq> e"
proof -
  from assms(2) obtain ys zs where xs: "xs = ys @ e # zs" by (auto simp: in_set_conv_decomp)
  with assms(1) have "chain m q ys e" "distinct (q # ys @ e # zs)"
    by (auto simp: ring_def chain_append)
  then show ?thesis by (auto dest!: chain_prv split: if_splits)
qed

lemma ring_remove_entry_self: "ring m e [] \<Longrightarrow> queue_remove_entry e m = m"
  by (simp add: queue_remove_entry_def set_nxt_def set_prv_def Let_def fun_upd_idem)

lemma ring_remove_head_eq:
  "ring m q (x # xs) \<Longrightarrow> queue_remove_head (Some q) m = (Some x, queue_remove_entry x m)"
  by (cases xs) (auto simp: ring_def queue_remove_head_def queue_remove_entry_def Let_def
      set_nxt_def set_prv_def)

lemma ring_remove_tail_eq:
  assumes "ring m q (xs @ [x])"
  shows "queue_remove_tail q m = (Some x, queue_remove_entry x m)"
proof -
  from assms have x: "nxt m x = q" "prv m q = x" "x \<noteq> q" "prv m x \<noteq> x"
    by (auto simp: ring_def chain_append split: if_splits dest!: chain_prv)
  then show ?thesis
    by (simp add: queue_remove_tail_def queue_remove_entry_def Let_def set_nxt_def set_prv_def)
qed

lemma contains_loop_chain:
  assumes "chain m c xs q" "q \<notin> set (c # xs)"
  shows "queue_contains_loop m q e c = Some (e \<in> set (c # xs))"
  using assms
proof (induction xs arbitrary: c)
  case Nil
  then show ?case by (subst queue_contains_loop.simps) auto
next
  case (Cons x xs)
  then show ?case by (subst queue_contains_loop.simps) auto
qed

lemma ring_contains_entry:
  assumes "ring m q xs" "e \<noteq> q"
  shows "queue_contains_entry m q e = Some (e \<in> set xs)"
proof (cases xs)
  case Nil
  with assms show ?thesis
    by (simp add: queue_contains_entry_def queue_contains_loop.simps)
next
  case (Cons y ys)
  with assms show ?thesis
    by (auto simp: queue_contains_entry_def ring_def contains_loop_chain)
qed

section \<open>Families of rings\<close>

text \<open>
  \<open>rings m L\<close>: every head in the domain of \<open>L\<close> carries the list \<open>L\<close> names, and no node is
  in two rings. A node that belongs to no ring is free; a node that points to itself (after
  \<open>queue_reset\<close>) is a ring of its own with no entry.
\<close>

definition rings :: "'n qmem \<Rightarrow> ('n \<rightharpoonup> 'n list) \<Rightarrow> bool" where
  "rings m L \<longleftrightarrow>
     (\<forall>q xs. L q = Some xs \<longrightarrow> ring m q xs) \<and>
     (\<forall>q xs q' xs'. L q = Some xs \<longrightarrow> L q' = Some xs' \<longrightarrow> q \<noteq> q' \<longrightarrow>
        set (q # xs) \<inter> set (q' # xs') = {})"

definition free :: "('n \<rightharpoonup> 'n list) \<Rightarrow> 'n \<Rightarrow> bool" where
  "free L n \<longleftrightarrow> (\<forall>q xs. L q = Some xs \<longrightarrow> n \<notin> set (q # xs))"

definition linked :: "('n \<rightharpoonup> 'n list) \<Rightarrow> 'n \<Rightarrow> bool" where
  "linked L n \<longleftrightarrow> (\<exists>q xs. L q = Some xs \<and> n \<in> set xs)"

lemma freeD: "free L n \<Longrightarrow> L q = Some xs \<Longrightarrow> n \<noteq> q \<and> n \<notin> set xs"
  by (auto simp: free_def)

lemma rings_ring: "rings m L \<Longrightarrow> L q = Some xs \<Longrightarrow> ring m q xs"
  by (simp add: rings_def)

lemma rings_disjoint:
  "rings m L \<Longrightarrow> L q = Some xs \<Longrightarrow> L q' = Some xs' \<Longrightarrow> q \<noteq> q' \<Longrightarrow>
   set (q # xs) \<inter> set (q' # xs') = {}"
  unfolding rings_def by blast

lemma rings_distinct: "rings m L \<Longrightarrow> L q = Some xs \<Longrightarrow> distinct (q # xs)"
  by (auto dest: rings_ring simp: ring_def)

lemma rings_head_not_linked: "rings m L \<Longrightarrow> L n = Some ys \<Longrightarrow> \<not> linked L n"
  unfolding linked_def
proof
  assume r: "rings m L" and n: "L n = Some ys" and "\<exists>q xs. L q = Some xs \<and> n \<in> set xs"
  then obtain q xs where q: "L q = Some xs" "n \<in> set xs" by blast
  show False
  proof (cases "q = n")
    case True
    with r q show False by (auto dest: rings_distinct)
  next
    case False
    with rings_disjoint [OF r q(1) n] q show False by auto
  qed
qed

lemma rings_unique_owner:
  "rings m L \<Longrightarrow> L q = Some xs \<Longrightarrow> L q' = Some xs' \<Longrightarrow> n \<in> set xs \<Longrightarrow> n \<in> set xs' \<Longrightarrow> q = q'"
  using rings_disjoint by fastforce

lemma not_linked_cases: "\<not> linked L n \<Longrightarrow> (\<And>ys. L n = Some ys \<Longrightarrow> P) \<Longrightarrow> (free L n \<Longrightarrow> P) \<Longrightarrow> P"
  by (cases "L n") (force simp: linked_def free_def)+

text \<open>The frame: an operation that writes only within one ring and free nodes.\<close>

lemma rings_update:
  assumes r: "rings m L"
    and fr: "\<And>n. n \<notin> W \<Longrightarrow> nxt m' n = nxt m n \<and> prv m' n = prv m n"
    and W: "\<And>q' xs'. L q' = Some xs' \<Longrightarrow> q' \<noteq> q \<Longrightarrow> set (q' # xs') \<inter> W = {}"
    and new: "ring m' q ys" "set (q # ys) \<subseteq> W"
  shows "rings m' (L(q \<mapsto> ys))"
proof -
  have keep: "ring m' q' xs'" if "L q' = Some xs'" "q' \<noteq> q" for q' xs'
  proof -
    have "ring m q' xs'" using r that by (simp add: rings_ring)
    moreover have "ring m' q' xs' = ring m q' xs'"
      using W [OF that] fr by (intro ring_cong) auto
    ultimately show ?thesis by simp
  qed
  have "set (q' # xs') \<inter> set (q # ys) = {}" if "L q' = Some xs'" "q' \<noteq> q" for q' xs'
    using W [OF that] new(2) by blast
  with keep new(1) r show ?thesis
    unfolding rings_def by (auto split: if_splits) blast+
qed

lemma rings_forget [ring_rules]: "rings m L \<Longrightarrow> rings m (L(q := None))"
  unfolding rings_def by (auto split: if_splits)

lemma rings_reset [ring_rules]:
  assumes "rings m L" "\<not> linked L n"
  shows "rings (queue_reset n m) (L(n \<mapsto> []))"
  using assms
  by (intro rings_update [where m = m and W = "{n}"])
     (auto simp: queue_reset_def linked_def)

lemma rings_add_tail [ring_rules]:
  assumes r: "rings m L" and q: "L q = Some xs" and e: "free L e"
  shows "rings (queue_add_tail q e m) (L(q \<mapsto> xs @ [e]))"
proof (rule rings_update [where W = "insert e (set (q # xs))"])
  have ring: "ring m q xs" using r q by (rule rings_ring)
  show "ring (queue_add_tail q e m) q (xs @ [e])"
    using ring freeD [OF e q] by (intro ring_add_tail) auto
  have "prv m q \<in> set (q # xs)" using ring_last [OF ring] by auto
  then show "nxt (queue_add_tail q e m) n = nxt m n \<and> prv (queue_add_tail q e m) n = prv m n"
    if "n \<notin> insert e (set (q # xs))" for n
    using that freeD [OF e q] by (auto simp: queue_add_tail_def Let_def)
  show "set (q' # xs') \<inter> insert e (set (q # xs)) = {}" if "L q' = Some xs'" "q' \<noteq> q" for q' xs'
    using rings_disjoint [OF r q that(1)] that(2) freeD [OF e that(1)] by auto
qed (use r in auto)

lemma rings_add_head [ring_rules]:
  assumes r: "rings m L" and q: "L q = Some xs" and e: "free L e"
  shows "rings (queue_add_head q e m) (L(q \<mapsto> e # xs))"
proof (rule rings_update [where W = "insert e (set (q # xs))"])
  have ring: "ring m q xs" using r q by (rule rings_ring)
  show "ring (queue_add_head q e m) q (e # xs)"
    using ring freeD [OF e q] by (intro ring_add_head) auto
  have "nxt m q \<in> set (q # xs)" using ring by (cases xs) (auto simp: ring_def)
  then show "nxt (queue_add_head q e m) n = nxt m n \<and> prv (queue_add_head q e m) n = prv m n"
    if "n \<notin> insert e (set (q # xs))" for n
    using that freeD [OF e q] by (auto simp: queue_add_head_def Let_def)
  show "set (q' # xs') \<inter> insert e (set (q # xs)) = {}" if "L q' = Some xs'" "q' \<noteq> q" for q' xs'
    using rings_disjoint [OF r q that(1)] that(2) freeD [OF e that(1)] by auto
qed (use r in auto)

lemma ring_closed:
  assumes "ring m q xs" "n \<in> set (q # xs)"
  shows "nxt m n \<in> set (q # xs)" "prv m n \<in> set (q # xs)"
proof -
  have "chain m a xs b \<Longrightarrow> n \<in> insert a (set xs) \<Longrightarrow> nxt m n \<in> insert b (set xs)" for a b
    by (induction xs arbitrary: a) auto
  with assms show "nxt m n \<in> set (q # xs)" by (auto simp: ring_def)
  have "chain m a xs b \<Longrightarrow> n \<in> insert b (set xs) \<Longrightarrow> prv m n \<in> insert a (set xs)" for a b
    by (induction xs arbitrary: a) auto
  with assms show "prv m n \<in> set (q # xs)" by (auto simp: ring_def)
qed

lemma rings_remove_entry [ring_rules]:
  assumes r: "rings m L" and q: "L q = Some xs" and e: "e \<in> set xs"
  shows "rings (queue_remove_entry e m) (L(q \<mapsto> remove1 e xs))"
proof (rule rings_update [where W = "set (q # xs)"])
  have ring: "ring m q xs" using r q by (rule rings_ring)
  show "ring (queue_remove_entry e m) q (remove1 e xs)"
    using ring e by (rule ring_remove_entry)
  have "prv m e \<in> set (q # xs)" "nxt m e \<in> set (q # xs)"
    using ring_closed [OF ring, of e] e by auto
  moreover have "prv m e \<noteq> e" using ring e by (rule ring_entry_prv)
  ultimately show "nxt (queue_remove_entry e m) n = nxt m n \<and> prv (queue_remove_entry e m) n = prv m n"
    if "n \<notin> set (q # xs)" for n
    using that by (auto simp: queue_remove_entry_def Let_def)
  show "set (q' # xs') \<inter> set (q # xs) = {}" if "L q' = Some xs'" "q' \<noteq> q" for q' xs'
    using rings_disjoint [OF r q that(1)] that(2) by auto
  show "set (q # remove1 e xs) \<subseteq> set (q # xs)"
    using set_remove1_subset [of e xs] by auto
qed (use r in auto)

lemma rings_frame:
  assumes "rings m L"
    and "\<And>q xs n. L q = Some xs \<Longrightarrow> n \<in> set (q # xs) \<Longrightarrow> nxt m' n = nxt m n \<and> prv m' n = prv m n"
  shows "rings m' L"
  using assms unfolding rings_def by (metis ring_cong)

lemma rings_remove_self [ring_rules]:
  "rings m L \<Longrightarrow> L e = Some [] \<Longrightarrow> queue_remove_entry e m = m"
  by (auto intro: ring_remove_entry_self dest: rings_ring)

lemma rings_remove_head:
  "rings m L \<Longrightarrow> L q = Some (x # xs) \<Longrightarrow>
   queue_remove_head (Some q) m = (Some x, queue_remove_entry x m)"
  by (rule ring_remove_head_eq) (rule rings_ring)

lemma rings_is_empty: "rings m L \<Longrightarrow> L q = Some xs \<Longrightarrow> is_queue_empty m q \<longleftrightarrow> xs = []"
  by (rule ring_is_empty) (rule rings_ring)

lemma rings_nxt_hd: "rings m L \<Longrightarrow> L q = Some (x # xs) \<Longrightarrow> nxt m q = x"
  by (auto dest: rings_ring ring_hd)

lemma free_upd: "free (L(q \<mapsto> xs)) n \<longleftrightarrow> free (L(q := None)) n \<and> n \<notin> set (q # xs)"
  by (auto simp: free_def split: if_splits)

lemma free_forget: "rings m L \<Longrightarrow> L n = Some [] \<Longrightarrow> free (L(n := None)) n"
  using rings_head_not_linked [of m L n "[]"] by (auto simp: free_def linked_def split: if_splits)

end
