(* ===== verification/Kernel_State.thy ===== *)
theory Kernel_State
  imports Cdll
begin

text \<open>
  The data model of the kernel: the structures and global variables of
  \<open>src/TNKernel/tn.h\<close> and \<open>tn.c\<close>, the container-of functions of \<open>tn_port.c\<close>, and the
  interrupt and context-switch primitives of \<open>tn_port_asm.s\<close>.

  Objects are named by natural numbers that stand for the addresses of their structures
  (a TCB by a \<open>tid\<close>, a semaphore by a \<open>sid\<close>, \<dots>); the \<open>CDLL_QUEUE\<close> nodes embedded in
  them are the constructors of \<open>qnode\<close>, so two nodes are equal exactly when they are the
  same member of the same structure. \<open>tn_ready_list[p]\<close> is \<open>ReadyL p\<close>.
\<close>

type_synonym tid = nat
type_synonym sid = nat
type_synonym eid = nat
type_synonym did = nat
type_synonym fid = nat
type_synonym mid = nat

datatype qnode =
    ReadyL int | CreateL | TimeoutL | LockedL | BlockedL
  | TaskQ tid | TimerQ tid | BlockQ tid | CreateQ tid | MutexQ tid
  | SemWaitQ sid | EventWaitQ eid | DqSendQ did | DqRecvQ did | FmpWaitQ fid
  | MtxWaitQ mid | MtxMutexQ mid | MtxLockQ mid

section \<open>Constants\<close>

abbreviation TN_NUM_PRIORITY :: int where "TN_NUM_PRIORITY \<equiv> 32"

abbreviation TN_ST_STATE_NOT_RUN :: int where "TN_ST_STATE_NOT_RUN \<equiv> 0"
abbreviation TN_ST_STATE_RUNNING :: int where "TN_ST_STATE_RUNNING \<equiv> 1"
abbreviation TN_WAIT_INFINITE :: u32 where "TN_WAIT_INFINITE \<equiv> 0xFFFFFFFF"
abbreviation TN_FILL_STACK_VAL :: u32 where "TN_FILL_STACK_VAL \<equiv> 0xFFFFFFFF"
abbreviation TN_MIN_STACK_SIZE :: int where "TN_MIN_STACK_SIZE \<equiv> 40"
abbreviation TN_TASK_START_ON_CREATION :: u32 where "TN_TASK_START_ON_CREATION \<equiv> 1"
abbreviation TN_TASK_TIMER :: u32 where "TN_TASK_TIMER \<equiv> 0x80"
abbreviation TN_TASK_IDLE :: u32 where "TN_TASK_IDLE \<equiv> 0x40"
abbreviation TN_EXIT_AND_DELETE_TASK :: int where "TN_EXIT_AND_DELETE_TASK \<equiv> 1"

abbreviation TN_ID_TASK :: u32 where "TN_ID_TASK \<equiv> 0x47ABCF69"
abbreviation TN_ID_SEMAPHORE :: u32 where "TN_ID_SEMAPHORE \<equiv> 0x6FA173EB"
abbreviation TN_ID_EVENT :: u32 where "TN_ID_EVENT \<equiv> 0x5E224F25"
abbreviation TN_ID_DATAQUEUE :: u32 where "TN_ID_DATAQUEUE \<equiv> 0x8C8A6C89"
abbreviation TN_ID_FSMEMORYPOOL :: u32 where "TN_ID_FSMEMORYPOOL \<equiv> 0x26B7CE8B"
abbreviation TN_ID_MUTEX :: u32 where "TN_ID_MUTEX \<equiv> 0x17129E45"

abbreviation TSK_STATE_RUNNABLE :: u32 where "TSK_STATE_RUNNABLE \<equiv> 0x01"
abbreviation TSK_STATE_WAIT :: u32 where "TSK_STATE_WAIT \<equiv> 0x04"
abbreviation TSK_STATE_SUSPEND :: u32 where "TSK_STATE_SUSPEND \<equiv> 0x08"
abbreviation TSK_STATE_WAITSUSP :: u32 where "TSK_STATE_WAITSUSP \<equiv> 0x0C"
abbreviation TSK_STATE_DORMANT :: u32 where "TSK_STATE_DORMANT \<equiv> 0x10"

abbreviation TSK_WAIT_REASON_SLEEP :: u32 where "TSK_WAIT_REASON_SLEEP \<equiv> 0x0001"
abbreviation TSK_WAIT_REASON_SEM :: u32 where "TSK_WAIT_REASON_SEM \<equiv> 0x0002"
abbreviation TSK_WAIT_REASON_EVENT :: u32 where "TSK_WAIT_REASON_EVENT \<equiv> 0x0004"
abbreviation TSK_WAIT_REASON_DQUE_WSEND :: u32 where "TSK_WAIT_REASON_DQUE_WSEND \<equiv> 0x0008"
abbreviation TSK_WAIT_REASON_DQUE_WRECEIVE :: u32 where "TSK_WAIT_REASON_DQUE_WRECEIVE \<equiv> 0x0010"
abbreviation TSK_WAIT_REASON_MUTEX_C :: u32 where "TSK_WAIT_REASON_MUTEX_C \<equiv> 0x0020"
abbreviation TSK_WAIT_REASON_MUTEX_C_BLK :: u32 where "TSK_WAIT_REASON_MUTEX_C_BLK \<equiv> 0x0040"
abbreviation TSK_WAIT_REASON_MUTEX_I :: u32 where "TSK_WAIT_REASON_MUTEX_I \<equiv> 0x0080"
abbreviation TSK_WAIT_REASON_WFIXMEM :: u32 where "TSK_WAIT_REASON_WFIXMEM \<equiv> 0x2000"

abbreviation TN_EVENT_ATTR_SINGLE :: u32 where "TN_EVENT_ATTR_SINGLE \<equiv> 1"
abbreviation TN_EVENT_ATTR_MULTI :: u32 where "TN_EVENT_ATTR_MULTI \<equiv> 2"
abbreviation TN_EVENT_ATTR_CLR :: u32 where "TN_EVENT_ATTR_CLR \<equiv> 4"
abbreviation TN_EVENT_WCOND_OR :: u32 where "TN_EVENT_WCOND_OR \<equiv> 8"
abbreviation TN_EVENT_WCOND_AND :: u32 where "TN_EVENT_WCOND_AND \<equiv> 0x10"
abbreviation TN_INVALID_VAL :: u32 where "TN_INVALID_VAL \<equiv> 0xFFFFFFFF"

abbreviation TN_MUTEX_ATTR_CEILING :: int where "TN_MUTEX_ATTR_CEILING \<equiv> 1"
abbreviation TN_MUTEX_ATTR_INHERIT :: int where "TN_MUTEX_ATTR_INHERIT \<equiv> 2"

abbreviation TERR_NO_ERR :: int where "TERR_NO_ERR \<equiv> 0"
abbreviation TERR_OVERFLOW :: int where "TERR_OVERFLOW \<equiv> -1"
abbreviation TERR_WCONTEXT :: int where "TERR_WCONTEXT \<equiv> -2"
abbreviation TERR_WSTATE :: int where "TERR_WSTATE \<equiv> -3"
abbreviation TERR_TIMEOUT :: int where "TERR_TIMEOUT \<equiv> -4"
abbreviation TERR_WRONG_PARAM :: int where "TERR_WRONG_PARAM \<equiv> -5"
abbreviation TERR_UNDERFLOW :: int where "TERR_UNDERFLOW \<equiv> -6"
abbreviation TERR_OUT_OF_MEM :: int where "TERR_OUT_OF_MEM \<equiv> -7"
abbreviation TERR_ILUSE :: int where "TERR_ILUSE \<equiv> -8"
abbreviation TERR_NOEXS :: int where "TERR_NOEXS \<equiv> -9"
abbreviation TERR_DLT :: int where "TERR_DLT \<equiv> -10"

abbreviation NO_TIME_SLICE :: u16 where "NO_TIME_SLICE \<equiv> 0"
abbreviation MAX_TIME_SLICE :: int where "MAX_TIME_SLICE \<equiv> 0xFFFE"

section \<open>Structures\<close>

text \<open>\<open>TN_TCB\<close>. The \<open>CDLL_QUEUE\<close> members are nodes of \<open>qnode\<close>, not fields.\<close>

record tn_tcb =
  task_stk :: addr
  pwait_queue :: "qnode option"
  blk_task :: "tid option"
  stk_start :: addr
  stk_size :: int
  task_func_addr :: addr
  task_func_param :: addr
  base_priority :: int
  priority :: int
  id_task :: u32
  task_state :: u32
  task_wait_reason :: u32
  task_wait_rc :: int
  tick_count :: u32
  tslice_count :: int
  ewait_pattern :: u32
  ewait_mode :: u32
  data_elem :: addr
  activate_count :: int
  wakeup_count :: int
  suspend_count :: int

record tn_sem =
  sem_count :: int
  sem_max_count :: int
  id_sem :: u32

record tn_event =
  ev_attr :: u32
  ev_pattern :: u32
  id_event :: u32

text \<open>\<open>data_fifo\<close> points to an array of the caller (\<^const>\<open>None\<close> for \<open>NULL\<close>), kept here as
  the list of its cells.\<close>

record tn_dque =
  data_fifo :: "addr list option"
  num_entries :: int
  tail_cnt :: int
  header_cnt :: int
  id_dque :: u32

record tn_fmp =
  block_size :: u32
  num_blocks :: int
  start_addr :: addr
  free_list :: addr
  fblkcnt :: int
  id_fmp :: u32

record tn_mutex =
  mtx_attr :: int
  holder :: "tid option"
  ceil_priority :: int
  mtx_cnt :: int
  id_mutex :: u32

text \<open>
  The global state. \<open>mem\<close> holds the queue nodes, \<open>mem32\<close> the cells of the memory pools that the
  kernel writes through pointers, \<open>stk_mem\<close> the stacks of the tasks (applications keep stacks
  and pools apart). \<open>irq_disabled\<close> is the interrupt mask of the CPSR, \<open>tn_task_exit_addr\<close> the link-time address of \<open>tn_task_exit\<close>.
\<close>

record kstate =
  mem :: "qnode qmem"
  tcbs :: "tid \<Rightarrow> tn_tcb"
  sems :: "sid \<Rightarrow> tn_sem"
  events :: "eid \<Rightarrow> tn_event"
  dques :: "did \<Rightarrow> tn_dque"
  fmps :: "fid \<Rightarrow> tn_fmp"
  mutexes :: "mid \<Rightarrow> tn_mutex"
  mem32 :: "addr \<Rightarrow> u32"
  stk_mem :: "addr \<Rightarrow> u32"
  tn_tslice_ticks :: "int \<Rightarrow> u16"
  tn_created_tasks_qty :: int
  tn_system_state :: int
  tn_next_task_to_run :: "tid option"
  tn_curr_run_task :: "tid option"
  tn_enable_switch_context :: int
  tn_context_switch_request :: bool
  tn_int_counter :: int
  tn_ready_to_run_bmp :: u32
  tn_idle_count :: u32
  irq_disabled :: bool
  tn_task_exit_addr :: addr

text \<open>The TCBs of the two system tasks.\<close>

definition tn_timer_task :: tid where "tn_timer_task = 0"
definition tn_idle_task :: tid where "tn_idle_task = 1"

lemma timer_not_idle [simp]: "tn_timer_task \<noteq> tn_idle_task" "tn_idle_task \<noteq> tn_timer_task"
  by (simp_all add: tn_timer_task_def tn_idle_task_def)

definition upd_tcb :: "tid \<Rightarrow> (tn_tcb \<Rightarrow> tn_tcb) \<Rightarrow> kstate \<Rightarrow> kstate" where
  "upd_tcb t f s = s\<lparr>tcbs := (tcbs s)(t := f (tcbs s t))\<rparr>"

definition on_mem :: "(qnode qmem \<Rightarrow> qnode qmem) \<Rightarrow> kstate \<Rightarrow> kstate" where
  "on_mem f s = s\<lparr>mem := f (mem s)\<rparr>"

section \<open>From a queue node to its structure (tn_port.c)\<close>

text \<open>
  The pointer arithmetic of these functions recovers a structure from the address of its
  member. On a node that is no such member the result would point into some other
  structure: a fault.
\<close>

definition get_task_by_tsk_queue :: "qnode option \<Rightarrow> tid option option" where
  "get_task_by_tsk_queue que =
     (case que of None \<Rightarrow> Some None | Some (TaskQ t) \<Rightarrow> Some (Some t) | _ \<Rightarrow> None)"

definition get_task_by_timer_queque :: "qnode option \<Rightarrow> tid option option" where
  "get_task_by_timer_queque que =
     (case que of None \<Rightarrow> Some None | Some (TimerQ t) \<Rightarrow> Some (Some t) | _ \<Rightarrow> None)"

definition get_task_by_block_queque :: "qnode option \<Rightarrow> tid option option" where
  "get_task_by_block_queque que =
     (case que of None \<Rightarrow> Some None | Some (BlockQ t) \<Rightarrow> Some (Some t) | _ \<Rightarrow> None)"

definition get_mutex_by_mutex_queque :: "qnode option \<Rightarrow> mid option option" where
  "get_mutex_by_mutex_queque que =
     (case que of None \<Rightarrow> Some None | Some (MtxMutexQ x) \<Rightarrow> Some (Some x) | _ \<Rightarrow> None)"

definition get_mutex_by_lock_mutex_queque :: "qnode option \<Rightarrow> mid option option" where
  "get_mutex_by_lock_mutex_queque que =
     (case que of None \<Rightarrow> Some None | Some (MtxLockQ x) \<Rightarrow> Some (Some x) | _ \<Rightarrow> None)"

definition get_mutex_by_wait_queque :: "qnode option \<Rightarrow> mid option option" where
  "get_mutex_by_wait_queque que =
     (case que of None \<Rightarrow> Some None | Some (MtxWaitQ x) \<Rightarrow> Some (Some x) | _ \<Rightarrow> None)"

lemmas get_task_defs = get_task_by_tsk_queue_def get_task_by_timer_queque_def
  get_task_by_block_queque_def

section \<open>Interrupts and context switches\<close>

text \<open>
  \<open>tn_disable_interrupt()\<close> saves the status register and masks interrupts,
  \<open>tn_enable_interrupt()\<close> restores what was saved. The variants for interrupt handlers
  are empty macros.
\<close>

definition tn_disable_interrupt :: "kstate \<Rightarrow> bool \<times> kstate" where
  "tn_disable_interrupt s = (irq_disabled s, s\<lparr>irq_disabled := True\<rparr>)"

definition tn_enable_interrupt :: "bool \<Rightarrow> kstate \<Rightarrow> kstate" where
  "tn_enable_interrupt sr s = s\<lparr>irq_disabled := sr\<rparr>"

text \<open>The conditions of \<open>TN_CHECK_NON_INT_CONTEXT\<close> and \<open>TN_CHECK_INT_CONTEXT\<close>: when they
  hold the service returns \<open>TERR_WCONTEXT\<close>.\<close>

definition bad_non_int_context :: "kstate \<Rightarrow> bool" where
  "bad_non_int_context s \<longleftrightarrow>
     tn_int_counter s > 0 \<or> (irq_disabled s \<and> tn_system_state s = TN_ST_STATE_RUNNING)"

definition bad_int_context :: "kstate \<Rightarrow> bool" where
  "bad_int_context s \<longleftrightarrow>
     tn_int_counter s > 1 \<or> (irq_disabled s \<and> tn_system_state s \<noteq> TN_ST_STATE_RUNNING)"

text \<open>
  \<open>tn_switch_context\<close> runs the chosen task, and returns to the caller at once when no
  task is chosen or the caller is. The registers of a task are kept on its own stack and
  are not part of the state.
\<close>

definition tn_switch_context :: "kstate \<Rightarrow> kstate" where
  "tn_switch_context s =
     (if tn_next_task_to_run s = None \<or> tn_next_task_to_run s = tn_curr_run_task s then s
      else s\<lparr>tn_curr_run_task := tn_next_task_to_run s\<rparr>)"

text \<open>\<open>tn_switch_context_exit\<close> loads the stack pointer of the next task unconditionally:
  a fault when there is none.\<close>

definition tn_switch_context_exit :: "kstate \<Rightarrow> kstate option" where
  "tn_switch_context_exit s =
     (case tn_next_task_to_run s of
        None \<Rightarrow> None
      | Some t \<Rightarrow> Some (s\<lparr>tn_curr_run_task := Some t, irq_disabled := False\<rparr>))"

text \<open>Entry and exit of \<open>tn_cpu_irq_isr\<close> around the handler.\<close>

definition irq_enter :: "kstate \<Rightarrow> kstate" where
  "irq_enter s = s\<lparr>tn_int_counter := tn_int_counter s + 1, irq_disabled := True\<rparr>"

definition irq_exit :: "kstate \<Rightarrow> kstate option" where
  "irq_exit s =
     (let s = s\<lparr>tn_int_counter := tn_int_counter s - 1\<rparr> in
      if tn_int_counter s \<noteq> 0 then Some s
      else if \<not> tn_context_switch_request s then Some (s\<lparr>irq_disabled := False\<rparr>)
      else (case tn_next_task_to_run s of
              None \<Rightarrow> None
            | Some t \<Rightarrow> Some (s\<lparr>tn_context_switch_request := False,
                               tn_curr_run_task := Some t, irq_disabled := False\<rparr>)))"

text \<open>
  What a service does last: it returns a code to its caller, or it calls
  \<open>tn_switch_context()\<close> first and returns a fixed code when the caller runs again, or it
  returns then what its wait ended with (the caller's \<open>task_wait_rc\<close>), or (deletion of an
  object) it continues with the next iteration of its loop when the caller runs again.
\<close>

datatype kret = RC int | SWITCH_RC int | SWITCH_WAIT_RC | SWITCH_LOOP

definition resumed_rc :: "tid \<Rightarrow> kstate \<Rightarrow> int" where
  "resumed_rc t s = task_wait_rc (tcbs s t)"

section \<open>Lowest set bit (ffs_asm)\<close>

text \<open>
  The routine isolates the lowest bit \<open>X\<close> of the bitmap, multiplies it by
  \<open>0x0450fbaf\<close> and looks the top six bits up in a table.
\<close>

definition ffs_table :: "nat list" where
  "ffs_table =
    [0,  1,  2, 13,  3,  7,  0, 14,
     4,  0,  8,  0,  0,  0,  0, 15,
    11,  5,  0,  0,  9,  0,  0, 26,
     0,  0,  0,  0,  0, 22, 28, 16,
    32, 12,  6,  0,  0,  0,  0,  0,
    10,  0,  0, 25,  0,  0, 21, 27,
    31,  0,  0,  0,  0, 24,  0, 20,
    30,  0, 23, 19, 29, 18, 17,  0]"

definition ffs_asm :: "u32 \<Rightarrow> nat" where
  "ffs_asm val =
     (let r0 = val AND (0 - val) in
      if r0 = 0 then 0
      else let r0 = r0 OR push_bit 4 r0;
               r0 = r0 OR push_bit 6 r0;
               r0 = push_bit 16 r0 - r0
           in ffs_table ! unat (drop_bit 26 r0))"

section \<open>Initial stack frame (tn_stack_init)\<close>

text \<open>The words pushed under the entry point and the return address: register values for
  debugging, R12 down to R1.\<close>

definition stack_fill :: "u32 list" where
  "stack_fill = [0x12121212, 0x11111111, 0x10101010, 0x09090909, 0x08080808, 0x07070707,
     0x06060606, 0x05050505, 0x04040404, 0x03030303, 0x02020202, 0x01010101]"

fun push_words :: "u32 list \<Rightarrow> addr \<Rightarrow> (addr \<Rightarrow> u32) \<Rightarrow> addr \<times> (addr \<Rightarrow> u32)" where
  "push_words [] stk m = (stk, m)"
| "push_words (w # ws) stk m = push_words ws (stk - 4) (m(stk := w))"

definition tn_stack_init ::
  "addr \<Rightarrow> addr \<Rightarrow> addr \<Rightarrow> addr \<Rightarrow> (addr \<Rightarrow> u32) \<Rightarrow> addr \<times> (addr \<Rightarrow> u32)" where
  "tn_stack_init exit_addr task_func stack_start param m =
     (let (stk, m) = push_words ([task_func AND NOT 1, exit_addr] @ stack_fill @ [param])
                       stack_start m
      in (stk, m(stk := if task_func AND 1 \<noteq> 0 then 0x33 else 0x13)))"

section \<open>Projections\<close>

lemma upd_tcb_simps [simp]:
  "tcbs (upd_tcb t f s) = (tcbs s)(t := f (tcbs s t))"
  "mem (upd_tcb t f s) = mem s"
  "sems (upd_tcb t f s) = sems s"
  "events (upd_tcb t f s) = events s"
  "dques (upd_tcb t f s) = dques s"
  "fmps (upd_tcb t f s) = fmps s"
  "mutexes (upd_tcb t f s) = mutexes s"
  "mem32 (upd_tcb t f s) = mem32 s"
  "stk_mem (upd_tcb t f s) = stk_mem s"
  "tn_tslice_ticks (upd_tcb t f s) = tn_tslice_ticks s"
  "tn_created_tasks_qty (upd_tcb t f s) = tn_created_tasks_qty s"
  "tn_system_state (upd_tcb t f s) = tn_system_state s"
  "tn_next_task_to_run (upd_tcb t f s) = tn_next_task_to_run s"
  "tn_curr_run_task (upd_tcb t f s) = tn_curr_run_task s"
  "tn_enable_switch_context (upd_tcb t f s) = tn_enable_switch_context s"
  "tn_context_switch_request (upd_tcb t f s) = tn_context_switch_request s"
  "tn_int_counter (upd_tcb t f s) = tn_int_counter s"
  "tn_ready_to_run_bmp (upd_tcb t f s) = tn_ready_to_run_bmp s"
  "tn_idle_count (upd_tcb t f s) = tn_idle_count s"
  "irq_disabled (upd_tcb t f s) = irq_disabled s"
  "tn_task_exit_addr (upd_tcb t f s) = tn_task_exit_addr s"
  by (simp_all add: upd_tcb_def)

lemma on_mem_simps [simp]:
  "mem (on_mem f s) = f (mem s)"
  "tcbs (on_mem f s) = tcbs s"
  "sems (on_mem f s) = sems s"
  "events (on_mem f s) = events s"
  "dques (on_mem f s) = dques s"
  "fmps (on_mem f s) = fmps s"
  "mutexes (on_mem f s) = mutexes s"
  "mem32 (on_mem f s) = mem32 s"
  "stk_mem (on_mem f s) = stk_mem s"
  "tn_tslice_ticks (on_mem f s) = tn_tslice_ticks s"
  "tn_created_tasks_qty (on_mem f s) = tn_created_tasks_qty s"
  "tn_system_state (on_mem f s) = tn_system_state s"
  "tn_next_task_to_run (on_mem f s) = tn_next_task_to_run s"
  "tn_curr_run_task (on_mem f s) = tn_curr_run_task s"
  "tn_enable_switch_context (on_mem f s) = tn_enable_switch_context s"
  "tn_context_switch_request (on_mem f s) = tn_context_switch_request s"
  "tn_int_counter (on_mem f s) = tn_int_counter s"
  "tn_ready_to_run_bmp (on_mem f s) = tn_ready_to_run_bmp s"
  "tn_idle_count (on_mem f s) = tn_idle_count s"
  "irq_disabled (on_mem f s) = irq_disabled s"
  "tn_task_exit_addr (on_mem f s) = tn_task_exit_addr s"
  by (simp_all add: on_mem_def)

lemma get_task_simps [simp]:
  "get_task_by_tsk_queue (Some (TaskQ t)) = Some (Some t)"
  "get_task_by_timer_queque (Some (TimerQ t)) = Some (Some t)"
  "get_task_by_block_queque (Some (BlockQ t)) = Some (Some t)"
  "get_task_by_tsk_queue None = Some None"
  by (simp_all add: get_task_defs)

section \<open>What the initial stack frame occupies\<close>

lemma push_words_frame:
  assumes "push_words ws stk m = (stk', m')"
  shows "stk' = stk - 4 * of_nat (length ws)" "(\<And>k. k < length ws \<Longrightarrow> a \<noteq> stk - 4 * of_nat k) \<Longrightarrow> m' a = m a"
proof -
  have "stk' = stk - 4 * of_nat (length ws) \<and> ((\<forall>k < length ws. a \<noteq> stk - 4 * of_nat k) \<longrightarrow> m' a = m a)"
    using assms
  proof (induction ws arbitrary: stk m)
    case (Cons w ws)
    then have ih: "stk' = stk - 4 - 4 * of_nat (length ws)"
      "(\<forall>k < length ws. a \<noteq> stk - 4 - 4 * of_nat k) \<longrightarrow> m' a = (m(stk := w)) a" by auto
    have "m' a = m a" if "\<forall>k < length (w # ws). a \<noteq> stk - 4 * of_nat k"
    proof -
      have "a \<noteq> stk - 4 - 4 * of_nat k" if "k < length ws" for k
        using \<open>\<forall>k < length (w # ws). _\<close> [rule_format, of "Suc k"] that by (simp add: algebra_simps)
      with ih(2) that [rule_format, of 0] show ?thesis by simp
    qed
    with ih(1) show ?case by (simp add: algebra_simps)
  qed simp
  then show "stk' = stk - 4 * of_nat (length ws)" "(\<And>k. k < length ws \<Longrightarrow> a \<noteq> stk - 4 * of_nat k) \<Longrightarrow> m' a = m a" by blast+
qed

section \<open>The table lookup finds the lowest bit\<close>

lemma ffs_asm_power: "k < 32 \<Longrightarrow> ffs_asm (2 ^ k) = Suc k"
proof -
  have "list_all (\<lambda>k. ffs_asm (2 ^ k) = Suc k) [0..<32]" by code_simp
  then show "k < 32 \<Longrightarrow> ffs_asm (2 ^ k) = Suc k" by (auto simp: list_all_iff)
qed

lemma ffs_asm_lowest:
  assumes "bit (w :: u32) k" "\<And>j. j < k \<Longrightarrow> \<not> bit w j"
  shows "ffs_asm w = Suc k"
proof -
  have k: "k < 32" using bit_imp_le_length [OF assms(1)] by simp
  have "ffs_asm w = ffs_asm (2 ^ k)"
    using lowest_bit_isolated [OF assms] lowest_bit_isolated [of "2 ^ k :: u32" k] k
    by (simp add: ffs_asm_def)
  with k show ?thesis by (simp add: ffs_asm_power)
qed
end
