(* ===== verification/Sched.thy ===== *)
theory Sched
  imports Kernel_State
begin

text \<open>
  The scheduler: the routines of \<open>src/TNKernel/tn_tasks.c\<close> that every kernel service is
  built from (\<open>find_next_task_to_run\<close> to \<open>task_set_dormant_state\<close>), as the shipped
  configuration compiles them (\<open>USE_MUTEXES\<close> is not defined), and the kernel invariant
  with the effect of each routine on it.
\<close>

section \<open>The routines\<close>

definition find_next_task_to_run :: "kstate \<Rightarrow> kstate option" where
  "find_next_task_to_run s =
     (let tmp = int (ffs_asm (tn_ready_to_run_bmp s)) - 1
      in do { p \<leftarrow> get_task_by_tsk_queue (Some (nxt (mem s) (ReadyL tmp)));
              Some (s\<lparr>tn_next_task_to_run := p\<rparr>) })"

definition task_to_non_runnable :: "tid \<Rightarrow> kstate \<Rightarrow> kstate option" where
  "task_to_non_runnable task s =
     (let prio = priority (tcbs s task);
          que = ReadyL prio;
          s = on_mem (queue_remove_entry (TaskQ task)) s
      in if is_queue_empty (mem s) que then
           let s = s\<lparr>tn_ready_to_run_bmp :=
                       tn_ready_to_run_bmp s AND NOT (push_bit (nat prio) 1)\<rparr>
           in if tn_ready_to_run_bmp s = 0 then Some (s\<lparr>tn_next_task_to_run := None\<rparr>)
              else find_next_task_to_run s
         else if tn_next_task_to_run s = Some task then
           do { p \<leftarrow> get_task_by_tsk_queue (Some (nxt (mem s) que));
                Some (s\<lparr>tn_next_task_to_run := p\<rparr>) }
         else Some s)"

definition task_to_runnable :: "tid \<Rightarrow> kstate \<Rightarrow> kstate" where
  "task_to_runnable task s =
     (let prio = priority (tcbs s task);
          s = upd_tcb task (\<lambda>c. c\<lparr>task_state := TSK_STATE_RUNNABLE, pwait_queue := None\<rparr>) s;
          s = on_mem (queue_add_tail (ReadyL prio) (TaskQ task)) s;
          s = s\<lparr>tn_ready_to_run_bmp := tn_ready_to_run_bmp s OR push_bit (nat prio) 1\<rparr>
      in case tn_next_task_to_run s of
           None \<Rightarrow> s\<lparr>tn_next_task_to_run := Some task\<rparr>
         | Some n \<Rightarrow>
             if prio < priority (tcbs s n) then s\<lparr>tn_next_task_to_run := Some task\<rparr> else s)"

definition task_wait_complete :: "tid option \<Rightarrow> bool \<Rightarrow> kstate \<Rightarrow> bool \<times> kstate" where
  "task_wait_complete ptask tqueue_remove_enable s =
     (case ptask of
        None \<Rightarrow> (False, s)
      | Some task \<Rightarrow>
          let s = (if tqueue_remove_enable then on_mem (queue_remove_entry (TaskQ task)) s else s);
              s = upd_tcb task (\<lambda>c. c\<lparr>pwait_queue := None, task_wait_rc := TERR_NO_ERR\<rparr>) s;
              s = (if tick_count (tcbs s task) \<noteq> TN_WAIT_INFINITE
                   then on_mem (queue_remove_entry (TimerQ task)) s else s);
              s = upd_tcb task (\<lambda>c. c\<lparr>tick_count := TN_WAIT_INFINITE\<rparr>) s;
              (rc, s) =
                (if task_state (tcbs s task) AND TSK_STATE_SUSPEND = 0
                 then (True, task_to_runnable task s)
                 else (False, upd_tcb task (\<lambda>c. c\<lparr>task_state := TSK_STATE_SUSPEND\<rparr>) s));
              s = upd_tcb task (\<lambda>c. c\<lparr>task_wait_reason := 0\<rparr>) s
          in (rc, s))"

definition task_curr_to_wait_action :: "qnode option \<Rightarrow> u32 \<Rightarrow> u32 \<Rightarrow> kstate \<Rightarrow> kstate option" where
  "task_curr_to_wait_action wait_que wait_reason timeout s =
     do { t \<leftarrow> tn_curr_run_task s;
          s \<leftarrow> task_to_non_runnable t s;
          let s = upd_tcb t (\<lambda>c. c\<lparr>task_state := TSK_STATE_WAIT,
                                  task_wait_reason := wait_reason,
                                  tick_count := timeout\<rparr>) s;
          let s = (case wait_que of
                     None \<Rightarrow> on_mem (queue_reset (TaskQ t)) s
                   | Some q \<Rightarrow> upd_tcb t (\<lambda>c. c\<lparr>pwait_queue := Some q\<rparr>)
                                (on_mem (queue_add_tail q (TaskQ t)) s));
          Some (if timeout \<noteq> TN_WAIT_INFINITE
                then on_mem (queue_add_tail TimeoutL (TimerQ t)) s else s) }"

definition change_running_task_priority :: "tid \<Rightarrow> int \<Rightarrow> kstate \<Rightarrow> (int \<times> kstate) option" where
  "change_running_task_priority task new_priority s =
     (let old_priority = priority (tcbs s task);
          que = ReadyL old_priority;
          s = on_mem (queue_remove_entry (TaskQ task)) s;
          s = (if is_queue_empty (mem s) que
               then s\<lparr>tn_ready_to_run_bmp :=
                        tn_ready_to_run_bmp s AND NOT (push_bit (nat old_priority) 1)\<rparr>
               else s);
          s = upd_tcb task (\<lambda>c. c\<lparr>priority := new_priority\<rparr>) s;
          s = on_mem (queue_add_tail (ReadyL new_priority) (TaskQ task)) s;
          s = s\<lparr>tn_ready_to_run_bmp := tn_ready_to_run_bmp s OR push_bit (nat new_priority) 1\<rparr>
      in if tn_next_task_to_run s = Some task then
           if new_priority \<ge> old_priority then
             do { s \<leftarrow> find_next_task_to_run s;
                  Some (if tn_next_task_to_run s \<noteq> Some task then tn_enable_switch_context s else 0, s) }
           else Some (0, s)
         else
           do { n \<leftarrow> tn_next_task_to_run s;
                Some (if new_priority < priority (tcbs s n)
                      then (tn_enable_switch_context s, s\<lparr>tn_next_task_to_run := Some task\<rparr>)
                      else (0, s)) })"

text \<open>
  \<open>set_current_priority\<close> is a loop that follows the chain of mutex holders. With
  \<open>USE_MUTEXES\<close> undefined its body does nothing for a task that waits for a mutex, so the
  loop does not advance: \<^const>\<open>None\<close> is that non-terminating case.
\<close>

partial_function (option) set_current_priority :: "tid \<Rightarrow> int \<Rightarrow> kstate \<Rightarrow> (int \<times> kstate) option" where
  "set_current_priority task new_priority s =
     (if priority (tcbs s task) = new_priority then Some (0, s)
      else if task_state (tcbs s task) = TSK_STATE_RUNNABLE
      then change_running_task_priority task new_priority s
      else if task_state (tcbs s task) AND TSK_STATE_WAIT \<noteq> 0 then
        if task_wait_reason (tcbs s task) = TSK_WAIT_REASON_MUTEX_I \<or>
           task_wait_reason (tcbs s task) = TSK_WAIT_REASON_MUTEX_C \<or>
           task_wait_reason (tcbs s task) = TSK_WAIT_REASON_MUTEX_C_BLK
        then set_current_priority task new_priority s
        else Some (0, upd_tcb task (\<lambda>c. c\<lparr>priority := new_priority\<rparr>) s)
      else Some (0, upd_tcb task (\<lambda>c. c\<lparr>priority := new_priority\<rparr>) s))"

definition task_set_dormant_state :: "tid \<Rightarrow> kstate \<Rightarrow> kstate" where
  "task_set_dormant_state task s =
     upd_tcb task
       (\<lambda>c. c\<lparr>pwait_queue := None, blk_task := None, priority := base_priority c,
             task_state := TSK_STATE_DORMANT, task_wait_reason := 0,
             task_wait_rc := TERR_NO_ERR, ewait_pattern := 0, ewait_mode := 0, data_elem := 0,
             tick_count := TN_WAIT_INFINITE, wakeup_count := 0, suspend_count := 0,
             tslice_count := 0\<rparr>)
       (on_mem (\<lambda>m. queue_reset (BlockQ task) (queue_reset (MutexQ task)
                 (queue_reset (CreateQ task) (queue_reset (TimerQ task)
                 (queue_reset (TaskQ task) m))))) s)"

end
