(* ===== verification/Sched_Inv.thy ===== *)
theory Sched_Inv
  imports Sched
begin

text \<open>
  The kernel invariant and the effect of the scheduler routines on it.

  \<open>kinv X s L\<close> relates a kernel state to the queues \<open>L\<close> it holds: the memory consists of
  disjoint rings, the ready bitmap is exact, \<open>tn_next_task_to_run\<close> heads the ready list of
  the best priority, and every task is in exactly the queue its state says. The tasks of
  \<open>X\<close> are in transit: they have been taken out of one queue and not yet put into the next.
\<close>

section \<open>The invariant\<close>

fun wait_hdr :: "qnode \<Rightarrow> bool" where
  "wait_hdr (SemWaitQ _) = True"
| "wait_hdr (EventWaitQ _) = True"
| "wait_hdr (DqSendQ _) = True"
| "wait_hdr (DqRecvQ _) = True"
| "wait_hdr (FmpWaitQ _) = True"
| "wait_hdr (MtxWaitQ _) = True"
| "wait_hdr _ = False"

fun create_node :: "qnode \<Rightarrow> bool" where
  "create_node CreateL = True"
| "create_node (CreateQ _) = True"
| "create_node _ = False"

text \<open>Which nodes a queue may hold, by the kind of its head.\<close>

definition elem_ok :: "qnode \<Rightarrow> qnode \<Rightarrow> bool" where
  "elem_ok q n =
     (case n of
        TaskQ _ \<Rightarrow> (case q of ReadyL p \<Rightarrow> 0 \<le> p \<and> p < TN_NUM_PRIORITY | _ \<Rightarrow> wait_hdr q)
      | TimerQ _ \<Rightarrow> q = TimeoutL
      | BlockQ _ \<Rightarrow> q = BlockedL
      | MtxLockQ _ \<Rightarrow> q = LockedL
      | MtxMutexQ _ \<Rightarrow> (case q of MutexQ _ \<Rightarrow> True | _ \<Rightarrow> False)
      | _ \<Rightarrow> False)"

definition in_q :: "(qnode \<rightharpoonup> qnode list) \<Rightarrow> qnode \<Rightarrow> qnode \<Rightarrow> bool" where
  "in_q L q n \<longleftrightarrow> (\<exists>xs. L q = Some xs \<and> n \<in> set xs)"

definition prio_ok :: "int \<Rightarrow> bool" where
  "prio_ok p \<longleftrightarrow> 0 \<le> p \<and> p < TN_NUM_PRIORITY"

definition waiting :: "tn_tcb \<Rightarrow> bool" where
  "waiting c \<longleftrightarrow> task_state c = TSK_STATE_WAIT \<or> task_state c = TSK_STATE_WAITSUSP"

text \<open>The queue a task belongs to.\<close>

definition home :: "tn_tcb \<Rightarrow> qnode option" where
  "home c = (if task_state c = TSK_STATE_RUNNABLE then Some (ReadyL (priority c))
             else if waiting c then pwait_queue c else None)"

definition tcb_ok :: "tn_tcb \<Rightarrow> bool" where
  "tcb_ok c \<longleftrightarrow>
     task_state c \<in> {0, TSK_STATE_RUNNABLE, TSK_STATE_WAIT, TSK_STATE_SUSPEND,
                     TSK_STATE_WAITSUSP, TSK_STATE_DORMANT} \<and>
     prio_ok (priority c) \<and> prio_ok (base_priority c) \<and>
     (id_task c = TN_ID_TASK \<or> id_task c = 0 \<and> task_state c \<in> {0, TSK_STATE_DORMANT}) \<and>
     (if waiting c then (\<forall>q. pwait_queue c = Some q \<longrightarrow> wait_hdr q)
      else pwait_queue c = None)"

definition inv_lists :: "(qnode \<rightharpoonup> qnode list) \<Rightarrow> bool" where
  "inv_lists L \<longleftrightarrow>
     (\<forall>q xs n. L q = Some xs \<longrightarrow> n \<in> set xs \<longrightarrow> elem_ok q n) \<and>
     (\<forall>q. create_node q \<longrightarrow> L q = None) \<and>
     (\<forall>p. prio_ok p \<longrightarrow> L (ReadyL p) \<noteq> None) \<and> L TimeoutL \<noteq> None \<and> L BlockedL = Some []"

definition inv_bmp :: "u32 \<Rightarrow> (qnode \<rightharpoonup> qnode list) \<Rightarrow> bool" where
  "inv_bmp b L \<longleftrightarrow> (\<forall>p. prio_ok p \<longrightarrow> (bit b (nat p) \<longleftrightarrow> L (ReadyL p) \<noteq> Some []))"

definition inv_next :: "tid option \<Rightarrow> (qnode \<rightharpoonup> qnode list) \<Rightarrow> bool" where
  "inv_next n L \<longleftrightarrow>
     (case n of
        None \<Rightarrow> \<forall>p. prio_ok p \<longrightarrow> L (ReadyL p) = Some []
      | Some t \<Rightarrow> \<exists>p xs. prio_ok p \<and> L (ReadyL p) = Some (TaskQ t # xs) \<and>
                    (\<forall>p'. 0 \<le> p' \<longrightarrow> p' < p \<longrightarrow> L (ReadyL p') = Some []))"

definition inv_place :: "tid set \<Rightarrow> (tid \<Rightarrow> tn_tcb) \<Rightarrow> (qnode \<rightharpoonup> qnode list) \<Rightarrow> bool" where
  "inv_place X T L \<longleftrightarrow>
     (\<forall>t q. in_q L q (TaskQ t) \<longleftrightarrow> t \<notin> X \<and> home (T t) = Some q) \<and>
     (\<forall>t. t \<notin> X \<longrightarrow> waiting (T t) \<longrightarrow> pwait_queue (T t) = None \<longrightarrow> L (TaskQ t) = Some [])"

definition inv_timer :: "(tid \<Rightarrow> tn_tcb) \<Rightarrow> (qnode \<rightharpoonup> qnode list) \<Rightarrow> bool" where
  "inv_timer T L \<longleftrightarrow>
     (\<forall>t. in_q L TimeoutL (TimerQ t) \<longleftrightarrow> waiting (T t) \<and> tick_count (T t) \<noteq> TN_WAIT_INFINITE)"

text \<open>
  The creation list is kept apart: \<open>task_set_dormant_state\<close> re-initialises the node of a task
  that is still linked there, so it is no ring in general. All that holds is that its nodes
  point to nodes of its kind, which keeps the damage away from the other queues.
\<close>

definition inv_create :: "qnode qmem \<Rightarrow> (tid \<Rightarrow> tn_tcb) \<Rightarrow> bool" where
  "inv_create m T \<longleftrightarrow>
     create_node (nxt m CreateL) \<and> create_node (prv m CreateL) \<and>
     (\<forall>t. id_task (T t) = TN_ID_TASK \<longrightarrow>
        create_node (nxt m (CreateQ t)) \<and> create_node (prv m (CreateQ t)))"

definition kinv :: "tid set \<Rightarrow> kstate \<Rightarrow> (qnode \<rightharpoonup> qnode list) \<Rightarrow> bool" where
  "kinv X s L \<longleftrightarrow>
     rings (mem s) L \<and> inv_lists L \<and> inv_bmp (tn_ready_to_run_bmp s) L \<and>
     inv_next (tn_next_task_to_run s) L \<and> inv_place X (tcbs s) L \<and> inv_timer (tcbs s) L \<and>
     (\<forall>t. tcb_ok (tcbs s t)) \<and> inv_create (mem s) (tcbs s)"

section \<open>Consequences\<close>

lemma kinvD:
  assumes "kinv X s L"
  shows "rings (mem s) L" "inv_lists L" "inv_bmp (tn_ready_to_run_bmp s) L"
    "inv_next (tn_next_task_to_run s) L" "inv_place X (tcbs s) L" "inv_timer (tcbs s) L"
    "tcb_ok (tcbs s t)" "inv_create (mem s) (tcbs s)"
  using assms by (simp_all add: kinv_def)

lemma kinvI:
  assumes "rings (mem s) L" "inv_lists L" "inv_bmp (tn_ready_to_run_bmp s) L"
    "inv_next (tn_next_task_to_run s) L" "inv_place X (tcbs s) L" "inv_timer (tcbs s) L"
    "\<And>t. tcb_ok (tcbs s t)" "inv_create (mem s) (tcbs s)"
  shows "kinv X s L"
  using assms by (simp add: kinv_def)

lemma inv_lists_elem: "inv_lists L \<Longrightarrow> L q = Some xs \<Longrightarrow> n \<in> set xs \<Longrightarrow> elem_ok q n"
  by (auto simp: inv_lists_def)

lemma inv_lists_ready: "inv_lists L \<Longrightarrow> prio_ok p \<Longrightarrow> \<exists>xs. L (ReadyL p) = Some xs"
  by (auto simp: inv_lists_def)

lemma elem_ok_TaskQ: "elem_ok q (TaskQ t) \<longleftrightarrow> (\<exists>p. q = ReadyL p \<and> prio_ok p) \<or> wait_hdr q"
  by (cases q) (auto simp: elem_ok_def prio_ok_def)

lemma elem_ok_TimerQ: "elem_ok q (TimerQ t) \<longleftrightarrow> q = TimeoutL"
  by (simp add: elem_ok_def)

lemma elem_ok_ReadyL: "elem_ok (ReadyL p) n \<Longrightarrow> \<exists>t. n = TaskQ t"
  by (cases n) (auto simp: elem_ok_def)

lemma wait_hdr_elem: "wait_hdr q \<Longrightarrow> elem_ok q n \<Longrightarrow> \<exists>t. n = TaskQ t"
  by (cases n) (auto simp: elem_ok_def split: qnode.splits)

lemma linked_TaskQ: "linked L (TaskQ t) \<longleftrightarrow> (\<exists>q. in_q L q (TaskQ t))"
  by (auto simp: linked_def in_q_def)

lemma linked_TimerQ: "inv_lists L \<Longrightarrow> linked L (TimerQ t) \<longleftrightarrow> in_q L TimeoutL (TimerQ t)"
  by (auto simp: linked_def in_q_def dest: inv_lists_elem simp: elem_ok_TimerQ)

lemma kinv_home:
  "kinv X s L \<Longrightarrow> t \<notin> X \<Longrightarrow> home (tcbs s t) = Some q \<Longrightarrow> \<exists>xs. L q = Some xs \<and> TaskQ t \<in> set xs"
  by (auto dest!: kinvD(5) simp: inv_place_def in_q_def)

lemma kinv_in_q:
  "kinv X s L \<Longrightarrow> L q = Some xs \<Longrightarrow> TaskQ t \<in> set xs \<Longrightarrow> t \<notin> X \<and> home (tcbs s t) = Some q"
  unfolding kinv_def inv_place_def in_q_def by blast

lemma home_ReadyL:
  "tcb_ok c \<Longrightarrow> home c = Some (ReadyL p) \<longleftrightarrow> task_state c = TSK_STATE_RUNNABLE \<and> priority c = p"
  by (auto simp: home_def tcb_ok_def waiting_def)

lemma home_wait: "wait_hdr q \<Longrightarrow> home c = Some q \<longleftrightarrow> waiting c \<and> pwait_queue c = Some q"
  by (cases q) (auto simp: home_def waiting_def)

lemma tcb_ok_runnable:
  "tcb_ok c \<Longrightarrow> task_state c = TSK_STATE_RUNNABLE \<Longrightarrow>
   prio_ok (priority c) \<and> id_task c = TN_ID_TASK \<and> pwait_queue c = None"
  by (auto simp: tcb_ok_def waiting_def)

lemma tcb_ok_waiting: "tcb_ok c \<Longrightarrow> waiting c \<Longrightarrow> prio_ok (priority c) \<and> id_task c = TN_ID_TASK"
  by (auto simp: tcb_ok_def waiting_def)

text \<open>The invariant reads only part of a task control block.\<close>

definition tcb_view :: "tn_tcb \<Rightarrow> u32 \<times> int \<times> int \<times> qnode option \<times> u32 \<times> u32" where
  "tcb_view c = (task_state c, priority c, base_priority c, pwait_queue c, tick_count c, id_task c)"

lemma kinv_cong:
  assumes "mem s' = mem s" "tn_ready_to_run_bmp s' = tn_ready_to_run_bmp s"
    "tn_next_task_to_run s' = tn_next_task_to_run s"
    "\<And>t. tcb_view (tcbs s' t) = tcb_view (tcbs s t)"
  shows "kinv X s' L = kinv X s L"
proof -
  have eq: "task_state (tcbs s' t) = task_state (tcbs s t)"
    "priority (tcbs s' t) = priority (tcbs s t)" "base_priority (tcbs s' t) = base_priority (tcbs s t)"
    "pwait_queue (tcbs s' t) = pwait_queue (tcbs s t)" "tick_count (tcbs s' t) = tick_count (tcbs s t)"
    "id_task (tcbs s' t) = id_task (tcbs s t)" for t
    using assms(4) [of t] by (simp_all add: tcb_view_def)
  then show ?thesis
    unfolding kinv_def inv_place_def inv_timer_def inv_create_def tcb_ok_def home_def waiting_def
    by (simp add: assms(1-3))
qed

lemma kinv_upd_tcb_other:
  "(\<And>c. tcb_view (f c) = tcb_view c) \<Longrightarrow> kinv X (upd_tcb t f s) L = kinv X s L"
  by (rule kinv_cong) auto

lemma kinv_other_fields [simp]:
  "kinv X (s\<lparr>sems := v1\<rparr>) L = kinv X s L"
  "kinv X (s\<lparr>events := v2\<rparr>) L = kinv X s L"
  "kinv X (s\<lparr>dques := v3\<rparr>) L = kinv X s L"
  "kinv X (s\<lparr>fmps := v4\<rparr>) L = kinv X s L"
  "kinv X (s\<lparr>mem32 := v5\<rparr>) L = kinv X s L"
  "kinv X (s\<lparr>tn_tslice_ticks := v6\<rparr>) L = kinv X s L"
  "kinv X (s\<lparr>tn_created_tasks_qty := v7\<rparr>) L = kinv X s L"
  "kinv X (s\<lparr>tn_curr_run_task := v8\<rparr>) L = kinv X s L"
  "kinv X (s\<lparr>tn_context_switch_request := v9\<rparr>) L = kinv X s L"
  "kinv X (s\<lparr>tn_int_counter := v10\<rparr>) L = kinv X s L"
  "kinv X (s\<lparr>irq_disabled := v11\<rparr>) L = kinv X s L"
  "kinv X (s\<lparr>tn_idle_count := v12\<rparr>) L = kinv X s L"
  "kinv X (s\<lparr>tn_system_state := v13\<rparr>) L = kinv X s L"
  "kinv X (s\<lparr>stk_mem := v14\<rparr>) L = kinv X s L"
  by (simp_all add: kinv_def)

lemma kinv_switch [simp]: "kinv X (tn_switch_context s) L = kinv X s L"
  by (simp add: tn_switch_context_def)

lemma kinv_enable [simp]: "kinv X (tn_enable_interrupt sr s) L = kinv X s L"
  by (simp add: tn_enable_interrupt_def)

section \<open>Queue steps on the parts of the invariant\<close>

definition kmem :: "qnode qmem \<Rightarrow> (qnode \<rightharpoonup> qnode list) \<Rightarrow> (tid \<Rightarrow> tn_tcb) \<Rightarrow> bool" where
  "kmem m L T \<longleftrightarrow> rings m L \<and> inv_lists L \<and> inv_create m T"

lemma kinv_kmem: "kinv X s L \<Longrightarrow> kmem (mem s) L (tcbs s)"
  by (simp add: kmem_def kinv_def)

lemma kmemD: "kmem m L T \<Longrightarrow> rings m L" "kmem m L T \<Longrightarrow> inv_lists L"
  by (simp_all add: kmem_def)

lemma inv_lists_upd:
  assumes "inv_lists L" "\<And>n. n \<in> set ys \<Longrightarrow> elem_ok q n" "\<not> create_node q" "q = BlockedL \<Longrightarrow> ys = []"
  shows "inv_lists (L(q \<mapsto> ys))"
  using assms by (auto simp: inv_lists_def split: if_splits)

lemma inv_create_frame:
  assumes "inv_create m T"
    and "\<And>n. create_node n \<Longrightarrow> nxt m' n = nxt m n \<and> prv m' n = prv m n"
    and "\<And>t. id_task (T' t) = TN_ID_TASK \<Longrightarrow> id_task (T t) = TN_ID_TASK"
  shows "inv_create m' T'"
  using assms by (auto simp: inv_create_def)

lemma not_create_ring:
  assumes "inv_lists L" "L q = Some xs" "n \<in> set (q # xs)"
  shows "\<not> create_node n"
proof (cases "n = q")
  case True
  with assms show ?thesis by (auto simp: inv_lists_def)
next
  case False
  with assms have "elem_ok q n" by (auto dest: inv_lists_elem)
  then show ?thesis by (cases n) (auto simp: elem_ok_def)
qed

lemma kmem_tcbs:
  "kmem m L T \<Longrightarrow> (\<And>t. id_task (T' t) = TN_ID_TASK \<Longrightarrow> id_task (T t) = TN_ID_TASK) \<Longrightarrow> kmem m L T'"
  by (auto simp: kmem_def intro: inv_create_frame)

lemma kmem_remove:
  assumes k: "kmem m L T" and q: "L q = Some xs" and e: "e \<in> set xs"
  shows "kmem (queue_remove_entry e m) (L(q \<mapsto> remove1 e xs)) T"
proof -
  from k have r: "rings m L" and l: "inv_lists L" and c: "inv_create m T" by (auto simp: kmem_def)
  have ring: "ring m q xs" using r q by (rule rings_ring)
  have w: "prv m e \<in> set (q # xs)" "nxt m e \<in> set (q # xs)"
    using ring_closed [OF ring, of e] e by auto
  have pe: "prv m e \<noteq> e" using ring e by (rule ring_entry_prv)
  have "inv_lists (L(q \<mapsto> remove1 e xs))"
  proof (rule inv_lists_upd [OF l])
    show "elem_ok q n" if "n \<in> set (remove1 e xs)" for n
      using that set_remove1_subset [of e xs] inv_lists_elem [OF l q] by blast
    show "\<not> create_node q" using not_create_ring [OF l q] by simp
    show "remove1 e xs = []" if "q = BlockedL" using that l q e by (auto simp: inv_lists_def)
  qed
  moreover have "inv_create (queue_remove_entry e m) T"
    using c
  proof (rule inv_create_frame)
    fix n assume "create_node n"
    then have "n \<notin> set (q # xs)" using not_create_ring [OF l q] by blast
    with w pe show "nxt (queue_remove_entry e m) n = nxt m n \<and> prv (queue_remove_entry e m) n = prv m n"
      by (auto simp: queue_remove_entry_def Let_def)
  qed
  moreover have "rings (queue_remove_entry e m) (L(q \<mapsto> remove1 e xs))"
    using r q e by (rule rings_remove_entry)
  ultimately show ?thesis by (simp add: kmem_def)
qed

lemma kmem_add_tail:
  assumes k: "kmem m L T" and q: "L q = Some xs" and e: "free L e" "elem_ok q e" "q \<noteq> BlockedL"
  shows "kmem (queue_add_tail q e m) (L(q \<mapsto> xs @ [e])) T"
proof -
  from k have r: "rings m L" and l: "inv_lists L" and c: "inv_create m T" by (auto simp: kmem_def)
  have w: "prv m q \<in> set (q # xs)" using ring_last [OF rings_ring [OF r q]] by auto
  have ce: "\<not> create_node e" using e(2) by (cases e) (auto simp: elem_ok_def)
  have "inv_lists (L(q \<mapsto> xs @ [e]))"
    using inv_lists_elem [OF l q] e not_create_ring [OF l q] by (intro inv_lists_upd [OF l]) auto
  moreover have "inv_create (queue_add_tail q e m) T"
    using c
  proof (rule inv_create_frame)
    fix n assume n: "create_node n"
    then have "n \<notin> set (q # xs)" using not_create_ring [OF l q] by blast
    with w n ce show "nxt (queue_add_tail q e m) n = nxt m n \<and> prv (queue_add_tail q e m) n = prv m n"
      using freeD [OF e(1) q] by (auto simp: queue_add_tail_def Let_def)
  qed
  moreover have "rings (queue_add_tail q e m) (L(q \<mapsto> xs @ [e]))"
    using r q e(1) by (rule rings_add_tail)
  ultimately show ?thesis by (simp add: kmem_def)
qed

definition own_node :: "qnode \<Rightarrow> bool" where
  "own_node q = (case q of TaskQ _ \<Rightarrow> True | TimerQ _ \<Rightarrow> True | BlockQ _ \<Rightarrow> True | MutexQ _ \<Rightarrow> True | _ \<Rightarrow> wait_hdr q)"

lemma kmem_reset:
  assumes k: "kmem m L T" and n: "\<not> linked L n" "own_node n"
  shows "kmem (queue_reset n m) (L(n \<mapsto> [])) T"
proof -
  from k have r: "rings m L" and l: "inv_lists L" and c: "inv_create m T" by (auto simp: kmem_def)
  have cn: "\<not> create_node n" using n(2) by (cases n) (auto simp: own_node_def)
  have "inv_lists (L(n \<mapsto> []))" using cn by (intro inv_lists_upd [OF l]) auto
  moreover have "inv_create (queue_reset n m) T"
    using c by (rule inv_create_frame) (use cn in \<open>auto simp: queue_reset_def\<close>)
  moreover have "rings (queue_reset n m) (L(n \<mapsto> []))" using r n(1) by (rule rings_reset)
  ultimately show ?thesis by (simp add: kmem_def)
qed

lemma kmem_forget: "kmem m L T \<Longrightarrow> own_node n \<Longrightarrow> kmem m (L(n := None)) T"
  by (auto simp: kmem_def inv_lists_def own_node_def intro: rings_forget split: qnode.splits)

lemma kmem_free_TaskQ:
  assumes "kmem m L T" "\<not> linked L (TaskQ t)"
  shows "free (L(TaskQ t := None)) (TaskQ t)"
  using assms by (auto simp: free_def linked_def)

text \<open>The bitmap.\<close>

lemma inv_bmp_clear:
  "inv_bmp b L \<Longrightarrow> prio_ok p \<Longrightarrow> inv_bmp (b AND NOT (push_bit (nat p) 1)) (L(ReadyL p \<mapsto> []))"
  by (auto simp: inv_bmp_def prio_ok_def bit_simps eq_nat_nat_iff)

lemma inv_bmp_keep:
  "inv_bmp b L \<Longrightarrow> L (ReadyL p) \<noteq> Some [] \<Longrightarrow> ys \<noteq> [] \<Longrightarrow> inv_bmp b (L(ReadyL p \<mapsto> ys))"
  by (auto simp: inv_bmp_def)

lemma inv_bmp_set:
  "inv_bmp b L \<Longrightarrow> prio_ok p \<Longrightarrow> ys \<noteq> [] \<Longrightarrow>
   inv_bmp (b OR push_bit (nat p) 1) (L(ReadyL p \<mapsto> ys))"
  by (auto simp: inv_bmp_def prio_ok_def bit_simps eq_nat_nat_iff)

lemma inv_bmp_other: "(\<And>p. q \<noteq> ReadyL p) \<Longrightarrow> inv_bmp b (L(q := v)) = inv_bmp b L"
  by (auto simp: inv_bmp_def)

lemma inv_next_other: "(\<And>p. q \<noteq> ReadyL p) \<Longrightarrow> inv_next n (L(q := v)) = inv_next n L"
  by (auto simp: inv_next_def split: option.splits)

lemma inv_timer_other: "q \<noteq> TimeoutL \<Longrightarrow> inv_timer T (L(q := v)) = inv_timer T L"
  by (auto simp: inv_timer_def in_q_def)

text \<open>Placement: taking a task out, putting it into a queue, leaving it on its own.\<close>

lemma inv_place_remove:
  assumes p: "inv_place X T L" and r: "rings m L" and q: "L q = Some xs" "TaskQ t \<in> set xs"
  shows "inv_place (insert t X) T (L(q \<mapsto> remove1 (TaskQ t) xs))"
proof -
  have d: "distinct xs" using rings_distinct [OF r q(1)] by simp
  have u: "L q' = Some ys \<Longrightarrow> TaskQ t \<in> set ys \<Longrightarrow> q' = q" for q' ys
    using rings_unique_owner [OF r _ q(1) _ q(2)] by blast
  have nq: "q \<noteq> TaskQ t'" if "t' \<notin> X" "waiting (T t')" "pwait_queue (T t') = None" for t'
    using p that q by (auto simp: inv_place_def)
  have "in_q (L(q \<mapsto> remove1 (TaskQ t) xs)) q' (TaskQ t') \<longleftrightarrow> t' \<noteq> t \<and> in_q L q' (TaskQ t')" for q' t'
    using d q by (cases "q' = q") (auto simp: in_q_def dest: u)
  note in_eq = this
  show ?thesis
    unfolding inv_place_def in_eq using p nq by (auto simp: inv_place_def)
qed

lemma not_in_own_node: "inv_lists L \<Longrightarrow> \<not> in_q L (TaskQ t) n"
  unfolding in_q_def by (cases n) (auto dest: inv_lists_elem simp: elem_ok_def)

lemma inv_place_add:
  assumes p: "inv_place X T L" and l: "inv_lists L" and t: "t \<in> X"
    and c: "home c = Some q" and q: "L q = Some xs" and nq: "\<And>t'. q \<noteq> TaskQ t'"
    and w: "waiting c \<Longrightarrow> pwait_queue c = Some q"
  shows "inv_place (X - {t}) (T(t := c)) (L(TaskQ t := None, q \<mapsto> xs @ [TaskQ t]))"
proof -
  have nt: "\<not> in_q L q' (TaskQ t)" for q' using p t by (auto simp: inv_place_def)
  have "in_q (L(TaskQ t := None, q \<mapsto> xs @ [TaskQ t])) q' (TaskQ t') \<longleftrightarrow>
        (t' = t \<and> q' = q) \<or> in_q L q' (TaskQ t')" for q' t'
    using q nq not_in_own_node [OF l, of t "TaskQ t'"] by (auto simp: in_q_def)
  note in_eq = this
  show ?thesis
    unfolding inv_place_def in_eq using p t c w nq nq [symmetric] nt
    by (auto simp: inv_place_def)
qed

lemma inv_place_solo:
  assumes p: "inv_place X T L" and l: "inv_lists L" and t: "t \<in> X"
    and c: "waiting c" "pwait_queue c = None"
  shows "inv_place (X - {t}) (T(t := c)) (L(TaskQ t \<mapsto> []))"
proof -
  have nt: "\<not> in_q L q' (TaskQ t)" for q' using p t by (auto simp: inv_place_def)
  have "in_q (L(TaskQ t \<mapsto> [])) q' (TaskQ t') \<longleftrightarrow> in_q L q' (TaskQ t')" for q' t'
    using not_in_own_node [OF l, of t "TaskQ t'"] by (auto simp: in_q_def)
  note in_eq = this
  have "home c = None" using c by (auto simp: home_def waiting_def)
  then show ?thesis
    unfolding inv_place_def in_eq using p t c nt by (simp add: inv_place_def)
qed

lemma inv_place_idle:
  assumes p: "inv_place X T L" and t: "t \<in> X" and c: "home c = None" "\<not> waiting c"
  shows "inv_place (X - {t}) (T(t := c)) L"
proof -
  have nt: "\<not> in_q L q' (TaskQ t)" for q' using p t by (auto simp: inv_place_def)
  show ?thesis
    unfolding inv_place_def using p t c nt by (simp add: inv_place_def)
qed

lemma inv_place_transit: "t \<in> X \<Longrightarrow> inv_place X (T(t := c)) L = inv_place X T L"
  by (auto simp: inv_place_def)

lemma inv_place_same:
  "home c = home (T t) \<Longrightarrow> waiting c = waiting (T t) \<Longrightarrow> pwait_queue c = pwait_queue (T t) \<Longrightarrow>
   inv_place X (T(t := c)) L = inv_place X T L"
  by (auto simp: inv_place_def)

lemma inv_place_other:
  assumes "inv_place X T L" "\<And>t. q \<noteq> TaskQ t" "L q = Some xs"
    "\<And>t. TaskQ t \<in> set ys \<longleftrightarrow> TaskQ t \<in> set xs"
  shows "inv_place X T (L(q \<mapsto> ys))"
proof -
  have "in_q (L(q \<mapsto> ys)) q' (TaskQ t') \<longleftrightarrow> in_q L q' (TaskQ t')" for q' t'
    using assms(3,4) by (auto simp: in_q_def)
  with assms(1) assms(2) assms(2) [symmetric] show ?thesis by (simp add: inv_place_def)
qed

text \<open>Timeouts.\<close>

lemma inv_timer_none:
  "inv_timer T L \<Longrightarrow> \<not> in_q L TimeoutL (TimerQ t) \<Longrightarrow>
   \<not> (waiting c \<and> tick_count c \<noteq> TN_WAIT_INFINITE) \<Longrightarrow> inv_timer (T(t := c)) L"
  by (auto simp: inv_timer_def)

lemma inv_timer_add:
  "inv_timer T L \<Longrightarrow> L TimeoutL = Some xs \<Longrightarrow> waiting c \<Longrightarrow> tick_count c \<noteq> TN_WAIT_INFINITE \<Longrightarrow>
   inv_timer (T(t := c)) (L(TimeoutL \<mapsto> xs @ [TimerQ t]))"
  by (auto simp: inv_timer_def in_q_def)

lemma inv_timer_remove:
  "inv_timer T L \<Longrightarrow> L TimeoutL = Some xs \<Longrightarrow> distinct xs \<Longrightarrow>
   \<not> (waiting c \<and> tick_count c \<noteq> TN_WAIT_INFINITE) \<Longrightarrow>
   inv_timer (T(t := c)) (L(TimeoutL \<mapsto> remove1 (TimerQ t) xs))"
  by (auto simp: inv_timer_def in_q_def)

lemma inv_timer_same:
  "waiting c = waiting (T t) \<Longrightarrow> (tick_count c = TN_WAIT_INFINITE) = (tick_count (T t) = TN_WAIT_INFINITE) \<Longrightarrow>
   inv_timer (T(t := c)) L = inv_timer T L"
  by (auto simp: inv_timer_def)

section \<open>The scheduler routines\<close>

lemma inv_bmp_zero:
  assumes "inv_bmp 0 L" "inv_lists L"
  shows "inv_next None L"
  using assms by (auto simp: inv_bmp_def inv_next_def inv_lists_def)

lemma ready_cons:
  assumes "rings m L" "inv_lists L" "L (ReadyL p) = Some xs" "xs \<noteq> []"
  obtains t ys where "xs = TaskQ t # ys" "nxt m (ReadyL p) = TaskQ t"
proof -
  from assms(4) obtain x ys where xs: "xs = x # ys" by (cases xs) auto
  with inv_lists_elem [OF assms(2,3)] obtain t where "x = TaskQ t"
    by (auto dest: elem_ok_ReadyL)
  with xs rings_nxt_hd [OF assms(1), of "ReadyL p" x ys] assms(3) that show thesis by simp
qed

lemma find_next_ok:
  assumes r: "rings (mem s) L" and l: "inv_lists L"
    and b: "inv_bmp (tn_ready_to_run_bmp s) L" and nz: "tn_ready_to_run_bmp s \<noteq> 0"
  shows "\<exists>t. find_next_task_to_run s = Some (s\<lparr>tn_next_task_to_run := Some t\<rparr>) \<and> inv_next (Some t) L"
proof -
  let ?b = "tn_ready_to_run_bmp s"
  from nz obtain n where n: "n < 32" "bit ?b n" by (auto simp: word_zero_iff_bit)
  define k where "k = (LEAST n. bit ?b n)"
  have k: "bit ?b k" and least: "\<And>j. j < k \<Longrightarrow> \<not> bit ?b j"
    unfolding k_def using n(2) by (auto intro: LeastI dest: not_less_Least)
  have "k \<le> n" unfolding k_def using n(2) by (rule Least_le)
  with n have pk: "prio_ok (int k)" by (simp add: prio_ok_def)
  have f: "ffs_asm ?b = Suc k" using k least by (rule ffs_asm_lowest)
  from pk l obtain xs where xs: "L (ReadyL (int k)) = Some xs" by (auto dest: inv_lists_ready)
  with b pk k have "xs \<noteq> []" by (auto simp: inv_bmp_def)
  with r l xs obtain t ys where t: "xs = TaskQ t # ys" "nxt (mem s) (ReadyL (int k)) = TaskQ t"
    by (rule ready_cons)
  have "L (ReadyL p') = Some []" if "0 \<le> p'" "p' < int k" for p'
  proof -
    have "prio_ok p'" using that pk by (simp add: prio_ok_def)
    moreover have "\<not> bit ?b (nat p')" using that by (intro least) simp
    ultimately show ?thesis using b by (auto simp: inv_bmp_def)
  qed
  with pk xs t have "inv_next (Some t) L" by (auto simp: inv_next_def)
  moreover have "find_next_task_to_run s = Some (s\<lparr>tn_next_task_to_run := Some t\<rparr>)"
    using f t by (simp add: find_next_task_to_run_def)
  ultimately show ?thesis by blast
qed

lemma inv_next_keep_remove:
  assumes "inv_next (Some n) L" "L (ReadyL p) = Some xs" "prio_ok p" "n \<noteq> t"
    "remove1 (TaskQ t) xs \<noteq> []"
  shows "inv_next (Some n) (L(ReadyL p \<mapsto> remove1 (TaskQ t) xs))"
proof -
  from assms(1) obtain p0 ys where p0: "prio_ok p0" "L (ReadyL p0) = Some (TaskQ n # ys)"
    and best: "\<And>p'. 0 \<le> p' \<Longrightarrow> p' < p0 \<Longrightarrow> L (ReadyL p') = Some []"
    by (auto simp: inv_next_def)
  have "\<not> p < p0" using best [of p] assms(2,3,5) by (auto simp: prio_ok_def)
  with p0 best assms(2,4) show ?thesis
    unfolding inv_next_def by (cases "p = p0") (auto intro!: exI [of _ p0])
qed

lemma inv_next_Some_remove:
  assumes "inv_next (Some t) L" "L (ReadyL p) = Some xs" "TaskQ t \<in> set xs" "prio_ok p"
    "rings m L"
  obtains ys where "xs = TaskQ t # ys" "\<And>p'. 0 \<le> p' \<Longrightarrow> p' < p \<Longrightarrow> L (ReadyL p') = Some []"
proof -
  from assms(1) obtain p0 zs where p0: "L (ReadyL p0) = Some (TaskQ t # zs)"
    and best: "\<And>p'. 0 \<le> p' \<Longrightarrow> p' < p0 \<Longrightarrow> L (ReadyL p') = Some []"
    by (auto simp: inv_next_def)
  have "ReadyL p = ReadyL p0"
    using rings_unique_owner [OF assms(5,2) p0, of "TaskQ t"] assms(3) by auto
  with p0 best assms(2) that show thesis by auto
qed

text \<open>Taking a runnable task out of its ready list, before the bitmap and the choice of the
  next task are repaired.\<close>

lemma runnable_in_ready:
  assumes k: "kinv X s L" and t: "t \<notin> X" "task_state (tcbs s t) = TSK_STATE_RUNNABLE"
    and q: "L (ReadyL (priority (tcbs s t))) = Some xs"
  shows "TaskQ t \<in> set xs" "prio_ok (priority (tcbs s t))"
  using kinv_home [OF k t(1)] t(2) q tcb_ok_runnable [OF kinvD(7) [OF k] t(2)]
  by (auto simp: home_def)

lemma ready_removed:
  assumes k: "kinv X s L" and t: "t \<notin> X" "task_state (tcbs s t) = TSK_STATE_RUNNABLE"
    and q: "L (ReadyL (priority (tcbs s t))) = Some xs"
  defines "m \<equiv> queue_remove_entry (TaskQ t) (mem s)"
    and "L' \<equiv> L(ReadyL (priority (tcbs s t)) \<mapsto> remove1 (TaskQ t) xs)"
  shows "kmem m L' (tcbs s)" "inv_place (insert t X) (tcbs s) L'" "inv_timer (tcbs s) L'"
    "is_queue_empty m (ReadyL (priority (tcbs s t))) \<longleftrightarrow> remove1 (TaskQ t) xs = []"
    "inv_bmp b L' \<Longrightarrow> inv_next n L' \<Longrightarrow>
     kinv (insert t X) (s\<lparr>mem := m, tn_ready_to_run_bmp := b, tn_next_task_to_run := n\<rparr>) L'"
proof -
  note tin = runnable_in_ready(1) [OF k t q]
  show km: "kmem m L' (tcbs s)" unfolding m_def L'_def
    using kinv_kmem [OF k] q tin by (rule kmem_remove)
  show place: "inv_place (insert t X) (tcbs s) L'" unfolding L'_def
    using kinvD(5) [OF k] kinvD(1) [OF k] q tin by (rule inv_place_remove)
  show timer: "inv_timer (tcbs s) L'" unfolding L'_def
    using kinvD(6) [OF k] by (simp add: inv_timer_other)
  show "is_queue_empty m (ReadyL (priority (tcbs s t))) \<longleftrightarrow> remove1 (TaskQ t) xs = []"
    using rings_is_empty [OF kmemD(1) [OF km]] by (simp add: L'_def)
  show "kinv (insert t X) (s\<lparr>mem := m, tn_ready_to_run_bmp := b, tn_next_task_to_run := n\<rparr>) L'"
    if "inv_bmp b L'" "inv_next n L'"
    using that km place timer kinvD(7) [OF k] by (auto simp: kinv_def kmem_def)
qed

lemma non_runnable_last:
  assumes k: "kinv X s L" and t: "t \<notin> X" "task_state (tcbs s t) = TSK_STATE_RUNNABLE"
    and q: "L (ReadyL (priority (tcbs s t))) = Some xs" and last: "remove1 (TaskQ t) xs = []"
  defines "m \<equiv> queue_remove_entry (TaskQ t) (mem s)"
    and "L' \<equiv> L(ReadyL (priority (tcbs s t)) \<mapsto> remove1 (TaskQ t) xs)"
  shows "\<exists>b n. inv_bmp b L' \<and> inv_next n L' \<and>
     task_to_non_runnable t s = Some (s\<lparr>mem := m, tn_ready_to_run_bmp := b, tn_next_task_to_run := n\<rparr>)"
proof -
  note rem = ready_removed [OF k t q, folded m_def L'_def]
  let ?b = "tn_ready_to_run_bmp s AND NOT (push_bit (nat (priority (tcbs s t))) 1)"
  define s1 where "s1 = s\<lparr>mem := m, tn_ready_to_run_bmp := ?b\<rparr>"
  have b: "inv_bmp ?b L'"
    using inv_bmp_clear [OF kinvD(3) [OF k] runnable_in_ready(2) [OF k t q]] last
    by (simp add: L'_def)
  show ?thesis
  proof (cases "?b = 0")
    case True
    have "inv_next None L'" using b True kmemD(2) [OF rem(1)] by (auto intro: inv_bmp_zero)
    with True b rem(4) last show ?thesis
      by (intro exI [of _ ?b] exI [of _ None])
         (simp add: task_to_non_runnable_def on_mem_def Let_def flip: m_def)
  next
    case False
    then obtain n where n: "find_next_task_to_run s1 = Some (s1\<lparr>tn_next_task_to_run := Some n\<rparr>)"
      "inv_next (Some n) L'"
      using find_next_ok [of s1 L'] kmemD [OF rem(1)] b by (auto simp: s1_def)
    with False b rem(4) last show ?thesis
      by (intro exI [of _ ?b] exI [of _ "Some n"])
         (simp add: task_to_non_runnable_def on_mem_def Let_def s1_def flip: m_def)
  qed
qed

lemma non_runnable_more:
  assumes k: "kinv X s L" and t: "t \<notin> X" "task_state (tcbs s t) = TSK_STATE_RUNNABLE"
    and q: "L (ReadyL (priority (tcbs s t))) = Some xs" and more: "remove1 (TaskQ t) xs \<noteq> []"
  defines "m \<equiv> queue_remove_entry (TaskQ t) (mem s)"
    and "L' \<equiv> L(ReadyL (priority (tcbs s t)) \<mapsto> remove1 (TaskQ t) xs)"
  shows "\<exists>b n. inv_bmp b L' \<and> inv_next n L' \<and>
     task_to_non_runnable t s = Some (s\<lparr>mem := m, tn_ready_to_run_bmp := b, tn_next_task_to_run := n\<rparr>)"
proof -
  let ?p = "priority (tcbs s t)" and ?b = "tn_ready_to_run_bmp s"
  note rem = ready_removed [OF k t q, folded m_def L'_def]
  note tin = runnable_in_ready [OF k t q]
  have b: "inv_bmp ?b L'" unfolding L'_def
    using kinvD(3) [OF k] q tin(1) more by (intro inv_bmp_keep) auto
  show ?thesis
  proof (cases "tn_next_task_to_run s = Some t")
    case True
    then obtain ys where best: "\<And>p'. 0 \<le> p' \<Longrightarrow> p' < ?p \<Longrightarrow> L (ReadyL p') = Some []"
      using inv_next_Some_remove [OF _ q tin kinvD(1) [OF k]] kinvD(4) [OF k] by metis
    obtain n zs where n: "remove1 (TaskQ t) xs = TaskQ n # zs" "nxt m (ReadyL ?p) = TaskQ n"
      using ready_cons [OF kmemD [OF rem(1)], of ?p "remove1 (TaskQ t) xs"] more
      by (auto simp: L'_def)
    have "inv_next (Some n) L'" using n tin(2) best by (auto simp: inv_next_def L'_def)
    with True b more rem(4) n show ?thesis
      by (intro exI [of _ ?b] exI [of _ "Some n"])
         (simp add: task_to_non_runnable_def on_mem_def Let_def flip: m_def)
  next
    case nt: False
    obtain n where n: "tn_next_task_to_run s = Some n"
      using kinvD(4) [OF k] q tin by (cases "tn_next_task_to_run s") (auto simp: inv_next_def)
    then have "inv_next (tn_next_task_to_run s) L'" unfolding L'_def
      using kinvD(4) [OF k] q tin nt more by (auto intro: inv_next_keep_remove)
    with nt b more rem(4) show ?thesis
      by (intro exI [of _ ?b] exI [of _ "tn_next_task_to_run s"])
         (simp add: task_to_non_runnable_def on_mem_def Let_def flip: m_def)
  qed
qed

lemma task_to_non_runnable_ok:
  assumes k: "kinv X s L" and t: "t \<notin> X" "task_state (tcbs s t) = TSK_STATE_RUNNABLE"
    and q: "L (ReadyL (priority (tcbs s t))) = Some xs"
  obtains b n s' where
    "s' = s\<lparr>mem := queue_remove_entry (TaskQ t) (mem s), tn_ready_to_run_bmp := b,
            tn_next_task_to_run := n\<rparr>"
    "task_to_non_runnable t s = Some s'"
    "kinv (insert t X) s' (L(ReadyL (priority (tcbs s t)) \<mapsto> remove1 (TaskQ t) xs))"
proof -
  obtain b n where "inv_bmp b (L(ReadyL (priority (tcbs s t)) \<mapsto> remove1 (TaskQ t) xs))"
    "inv_next n (L(ReadyL (priority (tcbs s t)) \<mapsto> remove1 (TaskQ t) xs))"
    "task_to_non_runnable t s = Some (s\<lparr>mem := queue_remove_entry (TaskQ t) (mem s),
       tn_ready_to_run_bmp := b, tn_next_task_to_run := n\<rparr>)"
    using non_runnable_last [OF k t q] non_runnable_more [OF k t q] by metis
  then show thesis using that ready_removed(5) [OF k t q] by blast
qed

lemma kinv_next:
  assumes k: "kinv X s L" and n: "tn_next_task_to_run s = Some a"
  shows "a \<notin> X" "task_state (tcbs s a) = TSK_STATE_RUNNABLE"
    "prio_ok (priority (tcbs s a))" "\<exists>ys. L (ReadyL (priority (tcbs s a))) = Some (TaskQ a # ys)"
    "0 \<le> p' \<Longrightarrow> p' < priority (tcbs s a) \<Longrightarrow> L (ReadyL p') = Some []"
proof -
  from kinvD(4) [OF k] n obtain p ys where p: "prio_ok p" "L (ReadyL p) = Some (TaskQ a # ys)"
    "\<forall>p'. 0 \<le> p' \<longrightarrow> p' < p \<longrightarrow> L (ReadyL p') = Some []"
    by (auto simp: inv_next_def)
  with kinv_in_q [OF k p(2), of a] home_ReadyL [OF kinvD(7) [OF k], of a p]
  show "a \<notin> X" "task_state (tcbs s a) = TSK_STATE_RUNNABLE"
    "prio_ok (priority (tcbs s a))" "\<exists>ys. L (ReadyL (priority (tcbs s a))) = Some (TaskQ a # ys)"
    "0 \<le> p' \<Longrightarrow> p' < priority (tcbs s a) \<Longrightarrow> L (ReadyL p') = Some []"
    by auto
qed

lemma inv_next_add_keep:
  assumes "L (ReadyL pa) = Some (TaskQ a # ys)" "prio_ok pa" "L (ReadyL p) = Some xs" "pa \<le> p"
    "\<And>p'. 0 \<le> p' \<Longrightarrow> p' < pa \<Longrightarrow> L (ReadyL p') = Some []"
  shows "inv_next (Some a) (L(ReadyL p \<mapsto> xs @ zs))"
  using assms by (cases "p = pa") (auto simp: inv_next_def intro!: exI [of _ pa])

lemma inv_next_add_new:
  assumes "prio_ok p" "\<And>p'. 0 \<le> p' \<Longrightarrow> p' < p \<Longrightarrow> L (ReadyL p') = Some []"
  shows "inv_next (Some t) (L(ReadyL p \<mapsto> [TaskQ t]))"
  using assms by (auto simp: inv_next_def)

lemma task_to_runnable_next:
  assumes k: "kinv X s L" and p: "prio_ok p" and q: "L (ReadyL p) = Some xs"
  shows "inv_next (case tn_next_task_to_run s of None \<Rightarrow> Some t
                   | Some n \<Rightarrow> if p < priority (tcbs s n) then Some t else Some n)
           (L(ReadyL p \<mapsto> xs @ [TaskQ t]))"
proof (cases "tn_next_task_to_run s")
  case None
  with kinvD(4) [OF k] p q show ?thesis
    by (auto simp: inv_next_def prio_ok_def)
next
  case (Some n)
  note n = kinv_next [OF k Some]
  show ?thesis
  proof (cases "p < priority (tcbs s n)")
    case True
    with n(5) [of p] p q have "xs = []" by (simp add: prio_ok_def)
    with True Some n p show ?thesis by (auto intro!: inv_next_add_new)
  next
    case False
    with Some n q show ?thesis by (auto intro!: inv_next_add_keep)
  qed
qed

lemma task_to_runnable_ok [sched_rules]:
  assumes k: "kinv X s L" and t: "t \<in> X" and id: "id_task (tcbs s t) = TN_ID_TASK"
    and tm: "\<not> (waiting (tcbs s t) \<and> tick_count (tcbs s t) \<noteq> TN_WAIT_INFINITE)"
    and q: "L (ReadyL (priority (tcbs s t))) = Some xs"
  shows "kinv (X - {t}) (task_to_runnable t s)
           (L(TaskQ t := None, ReadyL (priority (tcbs s t)) \<mapsto> xs @ [TaskQ t]))"
proof -
  let ?p = "priority (tcbs s t)"
  let ?c = "(tcbs s t)\<lparr>task_state := TSK_STATE_RUNNABLE, pwait_queue := None\<rparr>"
  let ?L = "L(TaskQ t := None, ReadyL ?p \<mapsto> xs @ [TaskQ t])"
  have ok: "tcb_ok ?c" and p: "prio_ok ?p"
    using kinvD(7) [OF k, of t] id by (auto simp: tcb_ok_def waiting_def)
  have nl: "\<not> linked L (TaskQ t)"
    using kinvD(5) [OF k] t by (auto simp: inv_place_def linked_TaskQ)
  have km: "kmem (queue_add_tail (ReadyL ?p) (TaskQ t) (mem s)) ?L ((tcbs s)(t := ?c))"
    using q p kmem_free_TaskQ [OF kinv_kmem [OF k] nl]
    by (intro kmem_tcbs [OF kmem_add_tail [OF kmem_forget [OF kinv_kmem [OF k]]]])
       (auto simp: elem_ok_TaskQ own_node_def split: if_splits)
  have place: "inv_place (X - {t}) ((tcbs s)(t := ?c)) ?L"
    using q by (intro inv_place_add [OF kinvD(5) [OF k] kinvD(2) [OF k] t])
       (auto simp: home_def waiting_def)
  have "\<not> in_q L TimeoutL (TimerQ t)" using kinvD(6) [OF k] tm by (simp add: inv_timer_def)
  then have timer: "inv_timer ((tcbs s)(t := ?c)) ?L"
    by (intro inv_timer_none) (auto simp: inv_timer_other kinvD(6) [OF k] in_q_def waiting_def)
  have bmp: "inv_bmp (tn_ready_to_run_bmp s OR push_bit (nat ?p) 1) ?L"
    using p by (intro inv_bmp_set) (auto simp: inv_bmp_other kinvD(3) [OF k])
  have "?L = L(ReadyL ?p \<mapsto> xs @ [TaskQ t], TaskQ t := None)" by (rule fun_upd_twist) simp
  then have nx: "inv_next (case tn_next_task_to_run s of None \<Rightarrow> Some t
       | Some n \<Rightarrow> if ?p < priority (tcbs s n) then Some t else Some n) ?L"
    using task_to_runnable_next [OF k p q, of t] by (simp add: inv_next_other)
  show ?thesis
    using km place timer bmp nx ok kinvD(7) [OF k]
    unfolding kinv_def kmem_def task_to_runnable_def Let_def
    by (auto split: option.splits)
qed

text \<open>A task that is in no queue may count as in transit.\<close>

lemma kinv_to_transit:
  assumes k: "kinv X s L" and h: "home (tcbs s t) = None"
  shows "kinv (insert t X) s L"
proof -
  have "inv_place (insert t X) (tcbs s) L"
    using kinvD(5) [OF k] h by (auto simp: inv_place_def)
  then show ?thesis using k by (simp add: kinv_def)
qed

lemma wait_detach [sched_rules]:
  assumes k: "kinv X s L" and q: "wait_hdr q" "L q = Some xs" "TaskQ t \<in> set xs"
  shows "kinv (insert t X) (on_mem (queue_remove_entry (TaskQ t)) s) (L(q \<mapsto> remove1 (TaskQ t) xs))"
proof -
  have nq: "q \<noteq> TimeoutL" "\<And>p. q \<noteq> ReadyL p" using q(1) by auto
  have "kmem (queue_remove_entry (TaskQ t) (mem s)) (L(q \<mapsto> remove1 (TaskQ t) xs)) (tcbs s)"
    using kinv_kmem [OF k] q(2,3) by (rule kmem_remove)
  moreover have "inv_place (insert t X) (tcbs s) (L(q \<mapsto> remove1 (TaskQ t) xs))"
    using kinvD(5,1) [OF k] q(2,3) by (rule inv_place_remove)
  ultimately show ?thesis
    using kinvD [OF k] nq by (auto simp: kinv_def kmem_def inv_bmp_other inv_next_other inv_timer_other)
qed

text \<open>The effect of \<open>task_wait_complete\<close> up to the point where the task is made runnable.\<close>

definition clear_wait :: "tid \<Rightarrow> kstate \<Rightarrow> kstate" where
  "clear_wait t s =
     upd_tcb t (\<lambda>c. c\<lparr>tick_count := TN_WAIT_INFINITE\<rparr>)
       (let s = upd_tcb t (\<lambda>c. c\<lparr>pwait_queue := None, task_wait_rc := TERR_NO_ERR\<rparr>) s
        in if tick_count (tcbs s t) \<noteq> TN_WAIT_INFINITE
           then on_mem (queue_remove_entry (TimerQ t)) s else s)"

lemma clear_wait_ok:
  assumes k: "kinv X s L" and t: "t \<in> X" "waiting (tcbs s t)"
  obtains L2 where "kinv X (clear_wait t s) L2" "\<And>q. q \<noteq> TimeoutL \<Longrightarrow> L2 q = L q"
    "L2 TimeoutL = map_option (remove1 (TimerQ t)) (L TimeoutL)"
proof -
  let ?c = "(tcbs s t)\<lparr>pwait_queue := None, task_wait_rc := TERR_NO_ERR, tick_count := TN_WAIT_INFINITE\<rparr>"
  let ?T = "(tcbs s)(t := ?c)"
  have ok: "tcb_ok ?c" using kinvD(7) [OF k, of t] t(2) by (auto simp: tcb_ok_def waiting_def)
  have T: "tcbs (clear_wait t s) = ?T" by (simp add: clear_wait_def Let_def)
  have place: "inv_place X ?T L" using kinvD(5) [OF k] t(1) by (simp add: inv_place_transit)
  have other: "tn_ready_to_run_bmp (clear_wait t s) = tn_ready_to_run_bmp s"
    "tn_next_task_to_run (clear_wait t s) = tn_next_task_to_run s"
    by (simp_all add: clear_wait_def Let_def)
  obtain xs where xs: "L TimeoutL = Some xs" using kinvD(2) [OF k] by (auto simp: inv_lists_def)
  show thesis
  proof (cases "tick_count (tcbs s t) = TN_WAIT_INFINITE")
    case True
    have "inv_timer ?T L" using kinvD(6) [OF k] t True
      by (intro inv_timer_none) (auto simp: inv_timer_def)
    moreover have "kmem (mem s) L ?T" by (rule kmem_tcbs [OF kinv_kmem [OF k]]) (auto split: if_splits)
    moreover have "mem (clear_wait t s) = mem s" using True by (simp add: clear_wait_def Let_def)
    ultimately have "kinv X (clear_wait t s) L"
      using kinvD [OF k] place ok by (intro kinvI) (auto simp: T other kmem_def)
    moreover have "TimerQ t \<notin> set xs" using kinvD(6) [OF k] True xs by (auto simp: inv_timer_def in_q_def)
    ultimately show thesis using that [of L] xs by (simp add: remove1_idem)
  next
    case False
    let ?L = "L(TimeoutL \<mapsto> remove1 (TimerQ t) xs)"
    have tin: "TimerQ t \<in> set xs" using kinvD(6) [OF k] t False xs by (auto simp: inv_timer_def in_q_def)
    have "inv_timer ?T ?L" using rings_distinct [OF kinvD(1) [OF k] xs]
      by (intro inv_timer_remove [OF kinvD(6) [OF k] xs]) auto
    moreover have "kmem (queue_remove_entry (TimerQ t) (mem s)) ?L ?T"
      by (rule kmem_tcbs [OF kmem_remove [OF kinv_kmem [OF k] xs tin]]) (auto split: if_splits)
    moreover have "mem (clear_wait t s) = queue_remove_entry (TimerQ t) (mem s)"
      using False by (simp add: clear_wait_def Let_def)
    moreover have "inv_place X ?T ?L"
      using place xs set_remove1_subset [of "TimerQ t" xs] rings_distinct [OF kinvD(1) [OF k] xs]
      by (intro inv_place_other) auto
    ultimately have "kinv X (clear_wait t s) ?L"
      using kinvD [OF k] ok
      by (intro kinvI) (auto simp: T other kmem_def inv_bmp_other inv_next_other)
    then show thesis using that xs by simp
  qed
qed

lemma task_wait_complete_unfold:
  "task_wait_complete (Some t) False s =
     (if task_state (tcbs s t) AND TSK_STATE_SUSPEND = 0
      then (True, upd_tcb t (\<lambda>c. c\<lparr>task_wait_reason := 0\<rparr>) (task_to_runnable t (clear_wait t s)))
      else (False, upd_tcb t (\<lambda>c. c\<lparr>task_wait_reason := 0\<rparr>)
                     (upd_tcb t (\<lambda>c. c\<lparr>task_state := TSK_STATE_SUSPEND\<rparr>) (clear_wait t s))))"
  by (simp add: task_wait_complete_def clear_wait_def Let_def)

lemma task_wait_complete_remove:
  "task_wait_complete (Some t) True s =
   task_wait_complete (Some t) False (on_mem (queue_remove_entry (TaskQ t)) s)"
  by (simp add: task_wait_complete_def)

text \<open>The queues other than the ready lists and the timeout list, which only object
  operations change.\<close>

definition same_waits :: "(qnode \<rightharpoonup> qnode list) \<Rightarrow> (qnode \<rightharpoonup> qnode list) \<Rightarrow> bool" where
  "same_waits L L' \<longleftrightarrow> (\<forall>q. wait_hdr q \<longrightarrow> L' q = L q)"

lemma task_wait_complete_ok:
  assumes k: "kinv X s L" and t: "t \<in> X" "waiting (tcbs s t)"
  obtains L' where "kinv (X - {t}) (snd (task_wait_complete (Some t) False s)) L'" "same_waits L L'"
    "L' TimeoutL = map_option (remove1 (TimerQ t)) (L TimeoutL)"
proof -
  obtain L2 where k2: "kinv X (clear_wait t s) L2" and L2: "\<And>q. q \<noteq> TimeoutL \<Longrightarrow> L2 q = L q"
    and L2t: "L2 TimeoutL = map_option (remove1 (TimerQ t)) (L TimeoutL)"
    using clear_wait_ok [OF k t] by metis
  have L2w: "L2 q = L q" if "wait_hdr q" for q using that L2 [of q] by (cases q) auto
  let ?s = "clear_wait t s"
  have c: "tick_count (tcbs ?s t) = TN_WAIT_INFINITE" "id_task (tcbs ?s t) = TN_ID_TASK"
    "priority (tcbs ?s t) = priority (tcbs s t)" "pwait_queue (tcbs ?s t) = None"
    using tcb_ok_waiting [OF kinvD(7) [OF k] t(2)] by (simp_all add: clear_wait_def Let_def)
  have view: "kinv Y (upd_tcb t (\<lambda>c. c\<lparr>task_wait_reason := 0\<rparr>) s') L' = kinv Y s' L'" for Y s' L'
    by (rule kinv_upd_tcb_other) (simp add: tcb_view_def)
  show thesis
  proof (cases "task_state (tcbs s t) AND TSK_STATE_SUSPEND = 0")
    case True
    obtain xs where xs: "L2 (ReadyL (priority (tcbs ?s t))) = Some xs"
      using inv_lists_ready [OF kinvD(2) [OF k2]] tcb_ok_waiting [OF kinvD(7) [OF k] t(2)]
      by (auto simp: c)
    have "kinv (X - {t}) (task_to_runnable t ?s)
        (L2(TaskQ t := None, ReadyL (priority (tcbs ?s t)) \<mapsto> xs @ [TaskQ t]))"
      using k2 t(1) c xs by (intro task_to_runnable_ok) auto
    moreover have "same_waits L (L2(TaskQ t := None, ReadyL (priority (tcbs ?s t)) \<mapsto> xs @ [TaskQ t]))"
      using L2w by (auto simp: same_waits_def)
    ultimately show thesis using True that L2t by (auto simp: task_wait_complete_unfold view)
  next
    case False
    let ?c = "(tcbs ?s t)\<lparr>task_state := TSK_STATE_SUSPEND\<rparr>"
    have "tcb_ok ?c" using kinvD(7) [OF k2, of t] c by (auto simp: tcb_ok_def waiting_def)
    moreover have "inv_place (X - {t}) ((tcbs ?s)(t := ?c)) L2"
      using kinvD(5) [OF k2] t(1) by (rule inv_place_idle) (auto simp: home_def waiting_def)
    moreover have "inv_timer ((tcbs ?s)(t := ?c)) L2"
      using kinvD(6) [OF k2] c(1) by (intro inv_timer_none) (auto simp: inv_timer_def waiting_def)
    moreover have "kmem (mem ?s) L2 ((tcbs ?s)(t := ?c))"
      by (rule kmem_tcbs [OF kinv_kmem [OF k2]]) (auto split: if_splits)
    ultimately have "kinv (X - {t}) (upd_tcb t (\<lambda>c. c\<lparr>task_state := TSK_STATE_SUSPEND\<rparr>) ?s) L2"
      using kinvD [OF k2] by (intro kinvI) (auto simp: kmem_def)
    moreover have "same_waits L L2" using L2w by (auto simp: same_waits_def)
    ultimately show thesis using False that L2t by (auto simp: task_wait_complete_unfold view)
  qed
qed

lemma same_waits_refl [simp]: "same_waits L L"
  by (simp add: same_waits_def)

lemma same_waitsD: "same_waits L L' \<Longrightarrow> wait_hdr q \<Longrightarrow> L' q = L q"
  by (simp add: same_waits_def)

text \<open>Waking the first task of a wait queue, as every signalling service does it.\<close>

lemma wake_head_ok:
  assumes k: "kinv {} s L" and q: "wait_hdr q" "L q = Some (n # xs)"
  obtains t where "n = TaskQ t" "waiting (tcbs s t)" "pwait_queue (tcbs s t) = Some q"
    "queue_remove_head (Some q) (mem s) = (Some (TaskQ t), queue_remove_entry (TaskQ t) (mem s))"
    "kinv {t} (on_mem (queue_remove_entry (TaskQ t)) s) (L(q \<mapsto> xs))"
proof -
  obtain t where n: "n = TaskQ t"
    using inv_lists_elem [OF kinvD(2) [OF k] q(2)] wait_hdr_elem [OF q(1)] by auto
  have "kinv (insert t {}) (on_mem (queue_remove_entry (TaskQ t)) s) (L(q \<mapsto> remove1 (TaskQ t) (n # xs)))"
    using q n by (intro wait_detach [OF k]) auto
  with n have "kinv {t} (on_mem (queue_remove_entry (TaskQ t)) s) (L(q \<mapsto> xs))" by simp
  moreover have "waiting (tcbs s t)" "pwait_queue (tcbs s t) = Some q"
    using kinv_in_q [OF k q(2), of t] home_wait [OF q(1)] n by auto
  ultimately show thesis
    using that n rings_remove_head [OF kinvD(1) [OF k] q(2)] by blast
qed

text \<open>A waiting task leaves whatever queue it waits in (release, timeout, termination).\<close>

lemma wait_leave:
  assumes k: "kinv {} s L" and t: "waiting (tcbs s t)"
  obtains L' where "kinv {t} (on_mem (queue_remove_entry (TaskQ t)) s) L'"
    "\<And>q. q \<noteq> TaskQ t \<Longrightarrow> wait_hdr q \<Longrightarrow>
       L' q = (if pwait_queue (tcbs s t) = Some q then map_option (remove1 (TaskQ t)) (L q) else L q)"
    "L' TimeoutL = L TimeoutL"
proof (cases "pwait_queue (tcbs s t)")
  case None
  then have "home (tcbs s t) = None" using t by (auto simp: home_def waiting_def)
  then have "kinv {t} s L" using kinv_to_transit [OF k] by simp
  moreover have "queue_remove_entry (TaskQ t) (mem s) = mem s"
    using kinvD(5) [OF k] t None
    by (intro rings_remove_self [OF kinvD(1) [OF k]]) (auto simp: inv_place_def)
  ultimately show thesis using None by (intro that [of L]) (auto simp: on_mem_def)
next
  case (Some q)
  have w: "wait_hdr q" using kinvD(7) [OF k, of t] t Some by (auto simp: tcb_ok_def)
  then obtain xs where xs: "L q = Some xs" "TaskQ t \<in> set xs"
    using kinv_home [OF k, of t q] t Some home_wait [OF w] by auto
  show thesis
    using wait_detach [OF k w xs] Some xs w by (intro that [of "L(q \<mapsto> remove1 (TaskQ t) xs)"]) auto
qed

text \<open>Blocking the running task.\<close>

definition enter_wait :: "tid \<Rightarrow> qnode option \<Rightarrow> u32 \<Rightarrow> kstate \<Rightarrow> kstate" where
  "enter_wait t wq r s =
     upd_tcb t (\<lambda>c. c\<lparr>task_state := TSK_STATE_WAIT, task_wait_reason := r,
                     tick_count := TN_WAIT_INFINITE, pwait_queue := wq\<rparr>)
       (on_mem (case wq of None \<Rightarrow> queue_reset (TaskQ t) | Some q \<Rightarrow> queue_add_tail q (TaskQ t)) s)"

definition arm_timer :: "tid \<Rightarrow> u32 \<Rightarrow> kstate \<Rightarrow> kstate" where
  "arm_timer t timeout s =
     (if timeout = TN_WAIT_INFINITE then s
      else upd_tcb t (\<lambda>c. c\<lparr>tick_count := timeout\<rparr>) (on_mem (queue_add_tail TimeoutL (TimerQ t)) s))"

lemma enter_wait_ok:
  assumes k: "kinv {t} s L" and c0: "\<not> waiting (tcbs s t)" "id_task (tcbs s t) = TN_ID_TASK"
    and wq: "\<And>q. wq = Some q \<Longrightarrow> wait_hdr q \<and> L q = Some ys"
  shows "kinv {} (enter_wait t wq r s)
           (case wq of None \<Rightarrow> L(TaskQ t \<mapsto> []) | Some q \<Rightarrow> L(TaskQ t := None, q \<mapsto> ys @ [TaskQ t]))"
    (is "kinv {} _ ?L")
proof -
  let ?c = "(tcbs s t)\<lparr>task_state := TSK_STATE_WAIT, task_wait_reason := r,
              tick_count := TN_WAIT_INFINITE, pwait_queue := wq\<rparr>"
  let ?T = "(tcbs s)(t := ?c)"
  let ?m = "(case wq of None \<Rightarrow> queue_reset (TaskQ t) | Some q \<Rightarrow> queue_add_tail q (TaskQ t)) (mem s)"
  have c: "waiting ?c" "tcb_ok ?c" "home ?c = wq"
    using kinvD(7) [OF k, of t] c0 wq by (auto simp: tcb_ok_def waiting_def home_def)
  have nl: "\<not> linked L (TaskQ t)" using kinvD(5) [OF k] by (auto simp: inv_place_def linked_TaskQ)
  have L: "?L q = L q" if "\<not> wait_hdr q" "q \<noteq> TaskQ t" for q
    using that wq by (auto split: option.splits)
  have km: "kmem ?m ?L (tcbs s)"
  proof (cases wq)
    case None
    then show ?thesis using kmem_reset [OF kinv_kmem [OF k] nl] by (simp add: own_node_def)
  next
    case (Some q)
    with wq have q: "wait_hdr q" "L q = Some ys" by auto
    then have "q \<noteq> TaskQ t" "q \<noteq> BlockedL" by auto
    with q have "kmem (queue_add_tail q (TaskQ t) (mem s)) (L(TaskQ t := None, q \<mapsto> ys @ [TaskQ t])) (tcbs s)"
      using kmem_free_TaskQ [OF kinv_kmem [OF k] nl]
      by (intro kmem_add_tail [OF kmem_forget [OF kinv_kmem [OF k]]]) (auto simp: elem_ok_TaskQ own_node_def)
    with Some show ?thesis by simp
  qed
  have "kmem ?m ?L ?T" by (rule kmem_tcbs [OF km]) (auto split: if_splits)
  moreover have "inv_place {} ?T ?L"
  proof (cases wq)
    case None
    then show ?thesis using inv_place_solo [OF kinvD(5,2) [OF k], of t ?c] c by simp
  next
    case (Some q)
    with wq have q: "wait_hdr q" "L q = Some ys" by auto
    have "q \<noteq> TaskQ t'" for t' using q(1) by auto
    with Some q show ?thesis using inv_place_add [OF kinvD(5,2) [OF k], of t ?c q ys] c by simp
  qed
  moreover have "\<not> in_q L TimeoutL (TimerQ t)" using kinvD(6) [OF k] c0 by (simp add: inv_timer_def)
  then have "inv_timer ?T ?L"
    using kinvD(6) [OF k] L [of TimeoutL] by (auto simp: inv_timer_def in_q_def)
  moreover have "inv_bmp (tn_ready_to_run_bmp s) ?L" "inv_next (tn_next_task_to_run s) ?L"
    using kinvD(3,4) [OF k] L by (auto simp: inv_bmp_def inv_next_def split: option.split)
  ultimately show ?thesis
    using kinvD(7) [OF k] c(2) by (intro kinvI) (auto simp: enter_wait_def kmem_def)
qed

lemma arm_timer_ok:
  assumes k: "kinv {} s L" and c: "waiting (tcbs s t)" "tick_count (tcbs s t) = TN_WAIT_INFINITE"
  obtains L' where "kinv {} (arm_timer t timeout s) L'" "\<And>q. q \<noteq> TimeoutL \<Longrightarrow> q \<noteq> TimerQ t \<Longrightarrow> L' q = L q"
proof (cases "timeout = TN_WAIT_INFINITE")
  case True
  then show thesis using k that [of L] by (simp add: arm_timer_def)
next
  case False
  obtain xs where xs: "L TimeoutL = Some xs" using kinvD(2) [OF k] by (auto simp: inv_lists_def)
  let ?c = "(tcbs s t)\<lparr>tick_count := timeout\<rparr>" and ?L = "L(TimerQ t := None, TimeoutL \<mapsto> xs @ [TimerQ t])"
  have "\<not> in_q L TimeoutL (TimerQ t)" using kinvD(6) [OF k] c by (simp add: inv_timer_def)
  then have "free (L(TimerQ t := None)) (TimerQ t)"
    using linked_TimerQ [OF kinvD(2) [OF k], of t] by (auto simp: free_def linked_def)
  then have "kmem (queue_add_tail TimeoutL (TimerQ t) (mem s)) ?L (tcbs s)"
    using xs by (intro kmem_add_tail [OF kmem_forget [OF kinv_kmem [OF k]]]) (auto simp: elem_ok_TimerQ own_node_def)
  then have "kmem (queue_add_tail TimeoutL (TimerQ t) (mem s)) ?L ((tcbs s)(t := ?c))"
    by (rule kmem_tcbs) (auto split: if_splits)
  moreover have "inv_place {} ((tcbs s)(t := ?c)) ?L"
  proof -
    have "in_q ?L q (TaskQ t') \<longleftrightarrow> in_q L q (TaskQ t')" for q t'
      using inv_lists_elem [OF kinvD(2) [OF k], of "TimerQ t" _ "TaskQ t'"] xs
      by (cases "q = TimerQ t") (auto simp: in_q_def elem_ok_TaskQ)
    then have "inv_place {} (tcbs s) ?L"
      using kinvD(5) [OF k] unfolding inv_place_def by simp
    then show ?thesis by (subst inv_place_same) (auto simp: home_def waiting_def)
  qed
  moreover have "inv_timer ((tcbs s)(t := ?c)) ?L"
    using c False xs by (intro inv_timer_add) (auto simp: waiting_def inv_timer_other kinvD(6) [OF k])
  moreover have "tcb_ok ?c" using kinvD(7) [OF k, of t] by (auto simp: tcb_ok_def waiting_def)
  ultimately have "kinv {} (arm_timer t timeout s) ?L"
    using kinvD [OF k] False
    by (intro kinvI) (auto simp: arm_timer_def kmem_def inv_bmp_other inv_next_other)
  then show thesis using that by simp
qed

lemma task_curr_to_wait_ok:
  assumes k: "kinv {} s L"
    and t: "tn_curr_run_task s = Some t" "task_state (tcbs s t) = TSK_STATE_RUNNABLE"
    and wq: "\<And>q. wq = Some q \<Longrightarrow> wait_hdr q \<and> L q = Some ys"
  obtains s' L' m b n where
    "task_curr_to_wait_action wq r timeout s = Some s'"
    "s' = s\<lparr>mem := m, tn_ready_to_run_bmp := b, tn_next_task_to_run := n,
            tcbs := (tcbs s)(t := (tcbs s t)\<lparr>task_state := TSK_STATE_WAIT, task_wait_reason := r,
                                    tick_count := timeout, pwait_queue := wq\<rparr>)\<rparr>"
    "kinv {} s' L'"
    "\<And>q. wait_hdr q \<Longrightarrow> L' q = (if wq = Some q then Some (ys @ [TaskQ t]) else L q)"
proof -
  note c = tcb_ok_runnable [OF kinvD(7) [OF k] t(2)]
  obtain xs where xs: "L (ReadyL (priority (tcbs s t))) = Some xs"
    using inv_lists_ready [OF kinvD(2) [OF k]] c by blast
  let ?L1 = "L(ReadyL (priority (tcbs s t)) \<mapsto> remove1 (TaskQ t) xs)"
  obtain b n s1 where s1: "s1 = s\<lparr>mem := queue_remove_entry (TaskQ t) (mem s),
      tn_ready_to_run_bmp := b, tn_next_task_to_run := n\<rparr>"
    "task_to_non_runnable t s = Some s1" "kinv {t} s1 ?L1"
    by (rule task_to_non_runnable_ok [OF k _ t(2) xs]) (simp, blast)
  let ?L2 = "case wq of None \<Rightarrow> ?L1(TaskQ t \<mapsto> []) | Some q \<Rightarrow> ?L1(TaskQ t := None, q \<mapsto> ys @ [TaskQ t])"
  have k2: "kinv {} (enter_wait t wq r s1) ?L2"
    using s1 t(2) c wq by (intro enter_wait_ok) (auto simp: waiting_def)
  obtain L' where L': "kinv {} (arm_timer t timeout (enter_wait t wq r s1)) L'"
    "\<And>q. q \<noteq> TimeoutL \<Longrightarrow> q \<noteq> TimerQ t \<Longrightarrow> L' q = ?L2 q"
    using arm_timer_ok [OF k2, of t timeout] by (auto simp: enter_wait_def waiting_def)
  have "task_curr_to_wait_action wq r timeout s = Some (arm_timer t timeout (enter_wait t wq r s1))"
    using t(1) s1(2) c s1(1)
    by (cases wq) (auto simp: task_curr_to_wait_action_def arm_timer_def enter_wait_def Let_def
        intro!: kstate.equality)
  moreover have "arm_timer t timeout (enter_wait t wq r s1) =
      s\<lparr>mem := mem (arm_timer t timeout (enter_wait t wq r s1)), tn_ready_to_run_bmp := b,
        tn_next_task_to_run := n,
        tcbs := (tcbs s)(t := (tcbs s t)\<lparr>task_state := TSK_STATE_WAIT, task_wait_reason := r,
                                    tick_count := timeout, pwait_queue := wq\<rparr>)\<rparr>"
    by (intro kstate.equality) (auto simp: s1(1) arm_timer_def enter_wait_def)
  moreover have "L' q = (if wq = Some q then Some (ys @ [TaskQ t]) else L q)" if "wait_hdr q" for q
    using that L'(2) [of q] wq by (cases q) (auto split: option.split)
  ultimately show thesis using L'(1) that by blast
qed

end
