(* ===== verification/Sched_Ops.thy ===== *)
theory Sched_Ops
  imports Sched_Inv
begin

text \<open>
  The scheduler routines that move a task between priorities or make it dormant, and the
  steps on the list of created tasks: their effect on the kernel invariant. Changing the
  priority of a runnable task keeps the bitmap exact and the choice of the next task right;
  making a task dormant resets every queue node it owns.
\<close>

section \<open>Changing the priority of a runnable task\<close>

lemma ready_moved:
  assumes k: "kinv {} s L" and t: "task_state (tcbs s t) = TSK_STATE_RUNNABLE"
    and q: "L (ReadyL (priority (tcbs s t))) = Some xs" and p: "prio_ok p"
    and q': "(L(ReadyL (priority (tcbs s t)) \<mapsto> remove1 (TaskQ t) xs)) (ReadyL p) = Some zs"
  defines "m \<equiv> queue_add_tail (ReadyL p) (TaskQ t) (queue_remove_entry (TaskQ t) (mem s))"
    and "L' \<equiv> L(ReadyL (priority (tcbs s t)) \<mapsto> remove1 (TaskQ t) xs, ReadyL p \<mapsto> zs @ [TaskQ t])"
    and "T \<equiv> (tcbs s)(t := (tcbs s t)\<lparr>priority := p\<rparr>)"
  shows "kmem m L' T" "inv_place {} T L'" "inv_timer T L'" "tcb_ok (T t')"
proof -
  let ?L1 = "L(ReadyL (priority (tcbs s t)) \<mapsto> remove1 (TaskQ t) xs)"
  note rem = ready_removed [OF k _ t q, simplified]
  have "linked L (TaskQ t)" using runnable_in_ready(1) [OF k _ t q] q by (auto simp: linked_def)
  then have "L (TaskQ t) = None" using rings_head_not_linked [OF kinvD(1) [OF k]] by (cases "L (TaskQ t)") auto
  then have none: "?L1(TaskQ t := None) = ?L1" by (simp add: fun_upd_idem)
  have nl: "\<not> linked ?L1 (TaskQ t)" using rem(2) by (auto simp: inv_place_def linked_TaskQ)
  have f: "free ?L1 (TaskQ t)" using kmem_free_TaskQ [OF rem(1) nl] none by simp
  have "kmem m L' (tcbs s)" unfolding m_def L'_def
    using rem(1) q' f p by (intro kmem_add_tail) (auto simp: elem_ok_TaskQ)
  then show "kmem m L' T" by (rule kmem_tcbs) (auto simp: T_def split: if_splits)
  show "inv_place {} T L'"
    using inv_place_add [OF rem(2) kmemD(2) [OF rem(1)], of t "(tcbs s t)\<lparr>priority := p\<rparr>" "ReadyL p" zs]
      t q' none by (simp add: home_def waiting_def T_def L'_def)
  have "inv_timer T L = inv_timer (tcbs s) L" unfolding T_def by (rule inv_timer_same) (auto simp: waiting_def)
  then show "inv_timer T L'" using kinvD(6) [OF k] by (simp add: L'_def inv_timer_other)
  have "tcb_ok ((tcbs s t)\<lparr>priority := p\<rparr>)"
    using kinvD(7) [OF k, of t] p t by (simp add: tcb_ok_def waiting_def)
  then show "tcb_ok (T t')" using kinvD(7) [OF k, of t'] by (simp add: T_def)
qed

lemma inv_bmp_moved:
  assumes "inv_bmp b L" "prio_ok p0" "prio_ok p" "L (ReadyL p0) = Some xs" "xs \<noteq> []"
  shows "inv_bmp ((if ys = [] then b AND NOT (push_bit (nat p0) 1) else b) OR push_bit (nat p) 1)
           (L(ReadyL p0 \<mapsto> ys, ReadyL p \<mapsto> zs @ [x]))"
proof (rule inv_bmp_set [OF _ assms(3)])
  show "inv_bmp (if ys = [] then b AND NOT (push_bit (nat p0) 1) else b) (L(ReadyL p0 \<mapsto> ys))"
  proof (cases "ys = []")
    case True
    show ?thesis unfolding True using inv_bmp_clear [OF assms(1,2)] by (simp only: if_True simp_thms)
  next
    case False
    then show ?thesis using inv_bmp_keep [OF assms(1)] assms(4,5) by simp
  qed
qed simp

lemma inv_next_moved:
  assumes k: "kinv {} s L" and t: "task_state (tcbs s t) = TSK_STATE_RUNNABLE"
    and q: "L (ReadyL (priority (tcbs s t))) = Some xs" and p: "prio_ok p"
    and q': "(L(ReadyL (priority (tcbs s t)) \<mapsto> remove1 (TaskQ t) xs)) (ReadyL p) = Some zs"
    and n: "tn_next_task_to_run s = Some n" "n \<noteq> t"
  shows "inv_next (if p < priority (tcbs s n) then Some t else Some n)
     (L(ReadyL (priority (tcbs s t)) \<mapsto> remove1 (TaskQ t) xs, ReadyL p \<mapsto> zs @ [TaskQ t]))"
proof -
  let ?p0 = "priority (tcbs s t)" and ?pn = "priority (tcbs s n)"
  let ?L1 = "L(ReadyL ?p0 \<mapsto> remove1 (TaskQ t) xs)"
  note nx = kinv_next [OF k n(1)]
  note tin = runnable_in_ready [OF k _ t q, simplified]
  have "\<not> ?p0 < ?pn" using nx(5) [of ?p0] tin q by (auto simp: prio_ok_def)
  moreover obtain ys where ys: "L (ReadyL ?pn) = Some (TaskQ n # ys)" using nx(4) by blast
  ultimately have hd: "\<exists>ys. ?L1 (ReadyL ?pn) = Some (TaskQ n # ys)"
    and below: "\<And>p'. 0 \<le> p' \<Longrightarrow> p' < ?pn \<Longrightarrow> ?L1 (ReadyL p') = Some []"
    using q n(2) nx(5) by auto
  show ?thesis
  proof (cases "p < ?pn")
    case True
    with below [of p] p q' have "zs = []" by (auto simp: prio_ok_def)
    with True below p show ?thesis by (auto intro!: inv_next_add_new)
  next
    case False
    with hd below nx(3) q' show ?thesis by (auto intro!: inv_next_add_keep)
  qed
qed

lemma change_running_task_priority_ok:
  assumes k: "kinv {} s L" and t: "task_state (tcbs s t) = TSK_STATE_RUNNABLE" and p: "prio_ok p"
  obtains rc m b n s' L' where
    "change_running_task_priority t p s = Some (rc, s')"
    "s' = s\<lparr>mem := m, tn_ready_to_run_bmp := b, tn_next_task_to_run := n,
            tcbs := (tcbs s)(t := (tcbs s t)\<lparr>priority := p\<rparr>)\<rparr>"
    "kinv {} s' L'" "same_waits L L'"
    "rc = (if n = tn_next_task_to_run s then 0 else tn_enable_switch_context s)"
proof -
  let ?p0 = "priority (tcbs s t)" and ?T = "(tcbs s)(t := (tcbs s t)\<lparr>priority := p\<rparr>)"
  have p0: "prio_ok ?p0" using tcb_ok_runnable [OF kinvD(7) [OF k] t] by simp
  obtain xs where q: "L (ReadyL ?p0) = Some xs" using inv_lists_ready [OF kinvD(2) [OF k] p0] by blast
  note rem = ready_removed [OF k _ t q, simplified]
  obtain zs where q': "(L(ReadyL ?p0 \<mapsto> remove1 (TaskQ t) xs)) (ReadyL p) = Some zs"
    using inv_lists_ready [OF kmemD(2) [OF rem(1)] p] by blast
  let ?m = "queue_add_tail (ReadyL p) (TaskQ t) (queue_remove_entry (TaskQ t) (mem s))"
  let ?b = "(if remove1 (TaskQ t) xs = [] then tn_ready_to_run_bmp s AND NOT (push_bit (nat ?p0) 1)
             else tn_ready_to_run_bmp s) OR push_bit (nat p) 1"
  let ?L = "L(ReadyL ?p0 \<mapsto> remove1 (TaskQ t) xs, ReadyL p \<mapsto> zs @ [TaskQ t])"
  note mv = ready_moved [OF k t q p q']
  have tin: "TaskQ t \<in> set xs" using runnable_in_ready(1) [OF k _ t q] by simp
  have ne: "xs \<noteq> []" using tin by auto
  have bmp: "inv_bmp ?b ?L" using kinvD(3) [OF k] p0 p q ne by (rule inv_bmp_moved)
  define s1 where "s1 = s\<lparr>mem := ?m, tn_ready_to_run_bmp := ?b, tcbs := ?T\<rparr>"
  have fin: "kinv {} (s1\<lparr>tn_next_task_to_run := n\<rparr>) ?L" if "inv_next n ?L" for n
    using that mv bmp by (intro kinvI) (auto simp: s1_def kmem_def)
  have waits: "same_waits L ?L" by (auto simp: same_waits_def)
  have eq: "change_running_task_priority t p s =
      (if tn_next_task_to_run s = Some t then
         if p \<ge> ?p0 then
           do { s \<leftarrow> find_next_task_to_run s1;
                Some (if tn_next_task_to_run s \<noteq> Some t then tn_enable_switch_context s else 0, s) }
         else Some (0, s1)
       else
         do { n \<leftarrow> tn_next_task_to_run s1;
              Some (if p < priority (tcbs s1 n)
                    then (tn_enable_switch_context s1, s1\<lparr>tn_next_task_to_run := Some t\<rparr>)
                    else (0, s1)) })"
  proof -
    let ?s0 = "on_mem (queue_remove_entry (TaskQ t)) s"
    let ?sb = "if is_queue_empty (mem ?s0) (ReadyL ?p0)
               then ?s0\<lparr>tn_ready_to_run_bmp := tn_ready_to_run_bmp ?s0 AND NOT (push_bit (nat ?p0) 1)\<rparr>
               else ?s0"
    let ?sa = "on_mem (queue_add_tail (ReadyL p) (TaskQ t)) (upd_tcb t (\<lambda>c. c\<lparr>priority := p\<rparr>) ?sb)"
    have s1: "?sa\<lparr>tn_ready_to_run_bmp := tn_ready_to_run_bmp ?sa OR push_bit (nat p) 1\<rparr> = s1"
      using rem(4) by (intro kstate.equality) (simp_all add: s1_def)
    have "tn_next_task_to_run s1 = tn_next_task_to_run s" by (simp add: s1_def)
    then show ?thesis unfolding change_running_task_priority_def Let_def s1 by (simp cong: if_cong)
  qed
  have s1n: "tn_next_task_to_run s1 = tn_next_task_to_run s"
    "tn_enable_switch_context s1 = tn_enable_switch_context s" by (simp_all add: s1_def)
  have "\<exists>n. inv_next n ?L \<and> change_running_task_priority t p s =
      Some (if n = tn_next_task_to_run s then 0 else tn_enable_switch_context s,
            s1\<lparr>tn_next_task_to_run := n\<rparr>)"
  proof (cases "tn_next_task_to_run s = Some t")
    case nt: True
    note nx = kinv_next [OF k nt]
    show ?thesis
    proof (cases "?p0 \<le> p")
      case True
      have "bit ?b (nat p)" using bmp p by (auto simp: inv_bmp_def)
      then have "?b \<noteq> 0" by (metis bit_0_eq bot_apply bot_bool_def)
      then obtain n where "find_next_task_to_run s1 = Some (s1\<lparr>tn_next_task_to_run := Some n\<rparr>)"
        "inv_next (Some n) ?L"
        using find_next_ok [of s1 ?L] mv(1) bmp by (auto simp: s1_def kmem_def)
      with True nt show ?thesis unfolding eq by (intro exI [of _ "Some n"]) (simp add: s1n)
    next
      case False
      then have "zs = []" using nx(5) [of p] p q' by (auto simp: prio_ok_def)
      with False nx(5) p have "inv_next (Some t) ?L" by (auto intro!: inv_next_add_new)
      with False nt show ?thesis unfolding eq by (intro exI [of _ "Some t"]) (simp add: s1_def)
    qed
  next
    case nt: False
    obtain n where n: "tn_next_task_to_run s = Some n"
      using kinvD(4) [OF k] q ne p0 by (cases "tn_next_task_to_run s") (auto simp: inv_next_def)
    with nt have "n \<noteq> t" by auto
    note mvn = inv_next_moved [OF k t q p q' n this]
    show ?thesis
    proof (cases "p < priority (tcbs s n)")
      case True
      with mvn n nt \<open>n \<noteq> t\<close> show ?thesis unfolding eq
        by (intro exI [of _ "Some t"]) (simp add: s1_def)
    next
      case False
      with mvn n nt \<open>n \<noteq> t\<close> show ?thesis unfolding eq
        by (intro exI [of _ "Some n"]) (simp add: s1_def)
    qed
  qed
  then obtain n where n: "inv_next n ?L" "change_running_task_priority t p s =
      Some (if n = tn_next_task_to_run s then 0 else tn_enable_switch_context s,
            s1\<lparr>tn_next_task_to_run := n\<rparr>)" by blast
  show thesis
    by (rule that [where m = ?m and b = ?b, OF n(2) _ fin [OF n(1)] waits refl])
       (simp add: s1_def)
qed

section \<open>Creation list and dormant tasks\<close>

text \<open>The creation list is apart from every other queue.\<close>

lemma kmem_create_only:
  assumes k: "kmem m L T" and c: "inv_create m' T'"
    and fr: "\<And>n. \<not> create_node n \<Longrightarrow> nxt m' n = nxt m n \<and> prv m' n = prv m n"
  shows "kmem m' L T'"
proof -
  have "rings m' L"
    using kmemD(1) [OF k]
  proof (rule rings_frame)
    fix q xs n assume "L q = Some xs" "n \<in> set (q # xs)"
    then have "\<not> create_node n" using not_create_ring [OF kmemD(2) [OF k]] by blast
    then show "nxt m' n = nxt m n \<and> prv m' n = prv m n" by (rule fr)
  qed
  with k c show ?thesis by (simp add: kmem_def)
qed

lemma kmem_create_reset:
  assumes "kmem m L T" shows "kmem (queue_reset (CreateQ t) m) L (T(t := c))"
  using assms
  by (rule kmem_create_only) (use assms in \<open>auto simp: kmem_def inv_create_def queue_reset_def\<close>)

lemma kmem_create_add:
  assumes "kmem m L T" shows "kmem (queue_add_tail CreateL (CreateQ t) m) L (T(t := c))"
proof (rule kmem_create_only [OF assms])
  have "create_node (prv m CreateL)" using assms by (auto simp: kmem_def inv_create_def)
  then show "nxt (queue_add_tail CreateL (CreateQ t) m) n = nxt m n \<and>
        prv (queue_add_tail CreateL (CreateQ t) m) n = prv m n" if "\<not> create_node n" for n
    using that by (auto simp: queue_add_tail_def Let_def)
  show "inv_create (queue_add_tail CreateL (CreateQ t) m) (T(t := c))"
    using assms by (auto simp: kmem_def inv_create_def queue_add_tail_def Let_def)
qed

lemma kmem_create_remove:
  assumes k: "kmem m L T" and id: "id_task (T t) = TN_ID_TASK"
    and T': "\<And>t. id_task (T' t) = TN_ID_TASK \<Longrightarrow> id_task (T t) = TN_ID_TASK"
  shows "kmem (queue_remove_entry (CreateQ t) m) L T'"
proof (rule kmem_create_only [OF k])
  have c: "create_node (prv m (CreateQ t))" "create_node (nxt m (CreateQ t))"
    using k id by (auto simp: kmem_def inv_create_def)
  then show "nxt (queue_remove_entry (CreateQ t) m) n = nxt m n \<and>
        prv (queue_remove_entry (CreateQ t) m) n = prv m n" if "\<not> create_node n" for n
    using that by (auto simp: queue_remove_entry_def Let_def)
  show "inv_create (queue_remove_entry (CreateQ t) m) T'"
    using k c T' unfolding kmem_def inv_create_def queue_remove_entry_def Let_def
    by (simp split: if_split) metis
qed

text \<open>Every node of a task is reset, and the task belongs to no queue any more.\<close>

definition dormant_queues :: "tid \<Rightarrow> (qnode \<rightharpoonup> qnode list) \<Rightarrow> (qnode \<rightharpoonup> qnode list)" where
  "dormant_queues t L = L(TaskQ t \<mapsto> [], TimerQ t \<mapsto> [], MutexQ t \<mapsto> [], BlockQ t \<mapsto> [])"

lemma not_linked_own:
  "inv_lists L \<Longrightarrow> \<not> linked L (MutexQ t)" "inv_lists L \<Longrightarrow> \<not> linked L (BlockQ t)"
  unfolding linked_def inv_lists_def by (auto simp: elem_ok_def) fastforce+

lemma kmem_dormant:
  assumes k: "kmem m L T" and t: "\<not> linked L (TaskQ t)" "\<not> linked L (TimerQ t)"
  shows "kmem (queue_reset (BlockQ t) (queue_reset (MutexQ t) (queue_reset (CreateQ t)
           (queue_reset (TimerQ t) (queue_reset (TaskQ t) m))))) (dormant_queues t L) (T(t := c))"
proof -
  have k1: "kmem (queue_reset (TimerQ t) (queue_reset (TaskQ t) m)) (L(TaskQ t \<mapsto> [], TimerQ t \<mapsto> [])) T"
    using t by (intro kmem_reset k) (auto simp: own_node_def linked_def)
  note k2 = kmem_create_reset [OF k1, of t c]
  have "\<not> linked (L(TaskQ t \<mapsto> [], TimerQ t \<mapsto> [])) (MutexQ t)"
    using not_linked_own(1) [OF kmemD(2) [OF k1]] .
  from kmem_reset [OF k2 this] have k3: "kmem (queue_reset (MutexQ t) (queue_reset (CreateQ t)
      (queue_reset (TimerQ t) (queue_reset (TaskQ t) m))))
      (L(TaskQ t \<mapsto> [], TimerQ t \<mapsto> [], MutexQ t \<mapsto> [])) (T(t := c))" by (simp add: own_node_def)
  have "\<not> linked (L(TaskQ t \<mapsto> [], TimerQ t \<mapsto> [], MutexQ t \<mapsto> [])) (BlockQ t)"
    using not_linked_own(2) [OF kmemD(2) [OF k3]] by (simp add: own_node_def)
  from kmem_reset [OF k3 this] show ?thesis by (simp add: own_node_def dormant_queues_def)
qed

lemma dormant_ok:
  assumes k: "kinv {t} s L" and nt: "\<not> in_q L TimeoutL (TimerQ t)"
    and c0: "id_task c0 = TN_ID_TASK" "prio_ok (base_priority c0)"
  shows "kinv {} (task_set_dormant_state t (upd_tcb t (\<lambda>_. c0) s)) (dormant_queues t L)"
proof -
  let ?s = "task_set_dormant_state t (upd_tcb t (\<lambda>_. c0) s)" and ?L = "dormant_queues t L"
  have l: "inv_lists L" by (rule kinvD(2) [OF k])
  have nl: "\<not> linked L (TaskQ t)" using kinvD(5) [OF k] by (auto simp: inv_place_def linked_TaskQ)
  have c: "tcb_ok (tcbs ?s t)" "home (tcbs ?s t) = None" "\<not> waiting (tcbs ?s t)"
    "\<And>t'. t' \<noteq> t \<Longrightarrow> tcbs ?s t' = tcbs s t'"
    using c0 by (auto simp: task_set_dormant_state_def tcb_ok_def waiting_def home_def)
  have T: "tcbs ?s = (tcbs s)(t := tcbs ?s t)" using c(4) by auto
  have in_eq: "in_q ?L q (TaskQ t') \<longleftrightarrow> in_q L q (TaskQ t')" for q t'
    using inv_lists_elem [OF l, of q _ "TaskQ t'"] by (auto simp: in_q_def dormant_queues_def elem_ok_TaskQ)
  have "kmem (mem ?s) ?L (tcbs ?s)"
    using kmem_dormant [OF kinv_kmem [OF k] nl] nt linked_TimerQ [OF l]
    by (subst T) (simp add: task_set_dormant_state_def)
  moreover have "inv_place {} (tcbs ?s) ?L"
    using inv_place_idle [OF kinvD(5) [OF k] _ c(2,3)] in_eq T
    by (auto simp: inv_place_def dormant_queues_def)
  moreover have "inv_timer (tcbs ?s) ?L"
    using kinvD(6) [OF k] nt c(3) by (subst T) (auto simp: inv_timer_def in_q_def dormant_queues_def)
  moreover have "inv_bmp b ?L = inv_bmp b L" "inv_next n ?L = inv_next n L" for b n
    by (simp_all add: dormant_queues_def inv_bmp_other inv_next_other)
  moreover have "tn_ready_to_run_bmp ?s = tn_ready_to_run_bmp s" "tn_next_task_to_run ?s = tn_next_task_to_run s"
    by (simp_all add: task_set_dormant_state_def)
  moreover have "tcb_ok (tcbs ?s t')" for t' using c(1,4) kinvD(7) [OF k, of t'] by (cases "t' = t") auto
  ultimately show ?thesis using kinvD(3,4) [OF k] by (intro kinvI) (auto simp: kmem_def)
qed

lemma same_waits_dormant [simp]: "same_waits L (dormant_queues t L)"
  by (auto simp: same_waits_def dormant_queues_def)

end
