(* ===== verification/Dque_Fifo.thy ===== *)
theory Dque_Fifo
  imports Kernel_State
begin

text \<open>
  The storage of a data queue: \<open>dque_fifo_write\<close> and \<open>dque_fifo_read\<close> of
  \<open>src/TNKernel/tn_utils.c\<close>, a ring buffer of \<open>num_entries\<close> cells with a head and a tail
  index. The locale \<open>bounded_fifo\<close> states what a client of such a buffer relies on; the
  ring buffer is shown to implement it, with a capacity of \<open>num_entries - 1\<close> items.
\<close>

section \<open>The code\<close>

text \<open>\<open>store\<close> and \<open>fetch\<close> are the accesses to the caller's array: a fault when there is no
  array or the index is outside it.\<close>

definition fifo_store :: "int \<Rightarrow> addr \<Rightarrow> addr list option \<Rightarrow> addr list option" where
  "fifo_store i v a =
     do { xs \<leftarrow> a; if 0 \<le> i \<and> nat i < length xs then Some (xs[nat i := v]) else None }"

definition fifo_fetch :: "int \<Rightarrow> addr list option \<Rightarrow> addr option" where
  "fifo_fetch i a = do { xs \<leftarrow> a; if 0 \<le> i \<and> nat i < length xs then Some (xs ! nat i) else None }"

definition fifo_write :: "addr \<Rightarrow> tn_dque \<Rightarrow> (int \<times> tn_dque) option" where
  "fifo_write data_ptr d =
     (if num_entries d \<le> 0 then Some (TERR_OUT_OF_MEM, d)
      else if (tail_cnt d = 0 \<and> header_cnt d = num_entries d - 1) \<or> header_cnt d = tail_cnt d - 1
      then Some (TERR_OVERFLOW, d)
      else do { xs \<leftarrow> fifo_store (header_cnt d) data_ptr (data_fifo d);
                let d = d\<lparr>data_fifo := Some xs, header_cnt := header_cnt d + 1\<rparr>;
                Some (TERR_NO_ERR,
                      if header_cnt d \<ge> num_entries d then d\<lparr>header_cnt := 0\<rparr> else d) })"

definition fifo_read :: "tn_dque \<Rightarrow> (int \<times> addr option \<times> tn_dque) option" where
  "fifo_read d =
     (if num_entries d \<le> 0 then Some (TERR_OUT_OF_MEM, None, d)
      else if tail_cnt d = header_cnt d then Some (TERR_UNDERFLOW, None, d)
      else do { v \<leftarrow> fifo_fetch (tail_cnt d) (data_fifo d);
                let d = d\<lparr>tail_cnt := tail_cnt d + 1\<rparr>;
                Some (TERR_NO_ERR, Some v,
                      if tail_cnt d \<ge> num_entries d then d\<lparr>tail_cnt := 0\<rparr> else d) })"

text \<open>The functions themselves take pointers. Of the pointer \<open>data_ptr\<close> that a read stores its
  value through, only whether it is \<open>NULL\<close> is an argument; the stored value is part of the
  result.\<close>

definition dque_fifo_write :: "did option \<Rightarrow> addr \<Rightarrow> kstate \<Rightarrow> (int \<times> kstate) option" where
  "dque_fifo_write dque data_ptr s =
     (case dque of
        None \<Rightarrow> Some (TERR_WRONG_PARAM, s)
      | Some d \<Rightarrow> do { (rc, q) \<leftarrow> fifo_write data_ptr (dques s d);
                     Some (rc, s\<lparr>dques := (dques s)(d := q)\<rparr>) })"

definition dque_fifo_read :: "did option \<Rightarrow> bool \<Rightarrow> kstate \<Rightarrow> (int \<times> addr option \<times> kstate) option" where
  "dque_fifo_read dque data_ptr_null s =
     (case dque of
        None \<Rightarrow> Some (TERR_WRONG_PARAM, None, s)
      | Some d \<Rightarrow>
          if data_ptr_null then Some (TERR_WRONG_PARAM, None, s)
          else do { (rc, v, q) \<leftarrow> fifo_read (dques s d);
                     Some (rc, v, s\<lparr>dques := (dques s)(d := q)\<rparr>) })"

section \<open>What a client relies on\<close>

locale bounded_fifo =
  fixes wf :: "'q \<Rightarrow> bool" and contents :: "'q \<Rightarrow> 'a list" and capacity :: "'q \<Rightarrow> nat"
    and put :: "'a \<Rightarrow> 'q \<Rightarrow> 'q option" and get :: "'q \<Rightarrow> ('a \<times> 'q) option"
  assumes put_room: "wf q \<Longrightarrow> length (contents q) < capacity q \<Longrightarrow>
      \<exists>q'. put x q = Some q' \<and> wf q' \<and> contents q' = contents q @ [x] \<and> capacity q' = capacity q"
    and put_full: "wf q \<Longrightarrow> length (contents q) = capacity q \<Longrightarrow> put x q = None"
    and get_some: "wf q \<Longrightarrow> contents q = x # xs \<Longrightarrow>
      \<exists>q'. get q = Some (x, q') \<and> wf q' \<and> contents q' = xs \<and> capacity q' = capacity q"
    and get_empty: "wf q \<Longrightarrow> contents q = [] \<Longrightarrow> get q = None"
    and bounded: "wf q \<Longrightarrow> length (contents q) \<le> capacity q"
begin

fun put_all :: "'a list \<Rightarrow> 'q \<Rightarrow> 'q option" where
  "put_all [] q = Some q"
| "put_all (x # xs) q = do { q \<leftarrow> put x q; put_all xs q }"

fun get_n :: "nat \<Rightarrow> 'q \<Rightarrow> ('a list \<times> 'q) option" where
  "get_n 0 q = Some ([], q)"
| "get_n (Suc n) q = do { (x, q) \<leftarrow> get q; (xs, q) \<leftarrow> get_n n q; Some (x # xs, q) }"

lemma put_all_contents:
  "wf q \<Longrightarrow> length (contents q) + length xs \<le> capacity q \<Longrightarrow>
   \<exists>q'. put_all xs q = Some q' \<and> wf q' \<and> contents q' = contents q @ xs \<and> capacity q' = capacity q"
proof (induction xs arbitrary: q)
  case (Cons x xs)
  then obtain q1 where "put x q = Some q1" "wf q1" "contents q1 = contents q @ [x]" "capacity q1 = capacity q"
    using put_room [of q x] by auto
  with Cons.IH [of q1] Cons.prems show ?case by auto
qed simp

lemma get_n_contents:
  "wf q \<Longrightarrow> n \<le> length (contents q) \<Longrightarrow>
   \<exists>q'. get_n n q = Some (take n (contents q), q') \<and> wf q' \<and> contents q' = drop n (contents q)"
proof (induction n arbitrary: q)
  case (Suc n)
  then obtain x xs where c: "contents q = x # xs" by (cases "contents q") auto
  with Suc.prems obtain q1 where "get q = Some (x, q1)" "wf q1" "contents q1 = xs"
    using get_some [of q x xs] by auto
  with Suc.IH [of q1] Suc.prems c show ?case by auto
qed simp

lemma put_fails_iff: "wf q \<Longrightarrow> put x q = None \<longleftrightarrow> length (contents q) = capacity q"
  using put_room [of q x] put_full [of q x] bounded [of q] by fastforce

lemma get_fails_iff: "wf q \<Longrightarrow> get q = None \<longleftrightarrow> contents q = []"
  using get_some [of q] get_empty [of q] by (cases "contents q") fastforce+

text \<open>What is put in comes out, in the same order, after what was there before.\<close>

lemma fifo_order:
  assumes "wf q" "length (contents q) + length xs \<le> capacity q"
  shows "\<exists>q1 q2. put_all xs q = Some q1 \<and>
    get_n (length (contents q) + length xs) q1 = Some (contents q @ xs, q2) \<and> contents q2 = []"
proof -
  from put_all_contents [OF assms] obtain q1 where q1: "put_all xs q = Some q1" "wf q1"
    "contents q1 = contents q @ xs" by blast
  with get_n_contents [OF q1(2), of "length (contents q) + length xs"] show ?thesis by auto
qed

end

section \<open>The ring buffer implements it\<close>

definition fifo_wf :: "tn_dque \<Rightarrow> bool" where
  "fifo_wf d \<longleftrightarrow> num_entries d \<le> 0 \<or>
     (\<exists>xs. data_fifo d = Some xs \<and> num_entries d \<le> int (length xs) \<and>
       0 \<le> tail_cnt d \<and> tail_cnt d < num_entries d \<and> 0 \<le> header_cnt d \<and> header_cnt d < num_entries d)"

definition fifo_count :: "tn_dque \<Rightarrow> nat" where
  "fifo_count d = (if num_entries d \<le> 0 then 0 else nat ((header_cnt d - tail_cnt d) mod num_entries d))"

definition fifo_contents :: "tn_dque \<Rightarrow> addr list" where
  "fifo_contents d =
     map (\<lambda>k. the (data_fifo d) ! nat ((tail_cnt d + int k) mod num_entries d)) [0..<fifo_count d]"

definition fifo_capacity :: "tn_dque \<Rightarrow> nat" where
  "fifo_capacity d = nat (num_entries d - 1)"

definition fifo_full :: "tn_dque \<Rightarrow> bool" where
  "fifo_full d \<longleftrightarrow> fifo_count d = fifo_capacity d"

text \<open>Success and failure of the two functions, as a client sees them.\<close>

definition fifo_put :: "addr \<Rightarrow> tn_dque \<Rightarrow> tn_dque option" where
  "fifo_put x d = (case fifo_write x d of Some (rc, d') \<Rightarrow> if rc = TERR_NO_ERR then Some d' else None | None \<Rightarrow> None)"

definition fifo_get :: "tn_dque \<Rightarrow> (addr \<times> tn_dque) option" where
  "fifo_get d = (case fifo_read d of Some (_, Some v, d') \<Rightarrow> Some (v, d') | _ \<Rightarrow> None)"

lemma length_fifo_contents [simp]: "length (fifo_contents d) = fifo_count d"
  by (simp add: fifo_contents_def)

lemma mod_wrap:
  "0 < (n :: int) \<Longrightarrow> 0 \<le> a + n \<Longrightarrow> a < n \<Longrightarrow> a mod n = (if 0 \<le> a then a else a + n)"
  using mod_add_self2 [of a n] mod_pos_pos_trivial [of "a + n" n] mod_pos_pos_trivial [of a n]
  by (simp split: if_split)

lemma fifo_wfD:
  assumes "fifo_wf d" "0 < num_entries d"
  shows "0 \<le> tail_cnt d" "tail_cnt d < num_entries d" "0 \<le> header_cnt d" "header_cnt d < num_entries d"
    "\<exists>xs. data_fifo d = Some xs \<and> num_entries d \<le> int (length xs)"
  using assms by (auto simp: fifo_wf_def)

lemma fifo_count_eq:
  assumes "fifo_wf d" "0 < num_entries d"
  shows "int (fifo_count d) =
    (if tail_cnt d \<le> header_cnt d then header_cnt d - tail_cnt d
     else header_cnt d - tail_cnt d + num_entries d)"
  using fifo_wfD [OF assms] assms(2) mod_wrap [of "num_entries d" "header_cnt d - tail_cnt d"]
  by (simp add: fifo_count_def)

lemma fifo_full_flag:
  assumes "fifo_wf d" "0 < num_entries d"
  shows "(tail_cnt d = 0 \<and> header_cnt d = num_entries d - 1) \<or> header_cnt d = tail_cnt d - 1 \<longleftrightarrow> fifo_full d"
proof -
  have "fifo_full d \<longleftrightarrow> int (fifo_count d) = num_entries d - 1"
    using assms(2) by (auto simp: fifo_full_def fifo_capacity_def)
  then show ?thesis using fifo_count_eq [OF assms] fifo_wfD [OF assms] by auto
qed

lemma fifo_empty_flag:
  assumes "fifo_wf d" "0 < num_entries d"
  shows "tail_cnt d = header_cnt d \<longleftrightarrow> fifo_count d = 0"
  using fifo_count_eq [OF assms] fifo_wfD [OF assms] by (auto split: if_splits)

lemma fifo_count_le: "fifo_count d \<le> fifo_capacity d"
proof (cases "0 < num_entries d")
  case True
  then have "(header_cnt d - tail_cnt d) mod num_entries d \<le> num_entries d - 1"
    using pos_mod_bound [of "num_entries d"] by (simp add: zle_diff1_eq)
  with True show ?thesis by (simp add: fifo_count_def fifo_capacity_def nat_mono)
qed (simp add: fifo_count_def)

text \<open>The cell of an item, and that a cell in use is not the one a write fills.\<close>

lemma fifo_cell_header:
  assumes "fifo_wf d" "0 < num_entries d"
  shows "(tail_cnt d + int (fifo_count d)) mod num_entries d = header_cnt d"
  using fifo_count_eq [OF assms] fifo_wfD [OF assms] by auto

lemma fifo_cell_used:
  assumes wf: "fifo_wf d" "0 < num_entries d" and k: "k < fifo_count d"
  shows "(tail_cnt d + int k) mod num_entries d \<noteq> header_cnt d"
    "0 \<le> (tail_cnt d + int k) mod num_entries d" "(tail_cnt d + int k) mod num_entries d < num_entries d"
proof -
  show "(tail_cnt d + int k) mod num_entries d \<noteq> header_cnt d"
    using fifo_count_eq [OF wf] fifo_wfD [OF wf] k
      mod_wrap [of "num_entries d" "tail_cnt d + int k - num_entries d"] by (auto split: if_splits)
qed (use wf in simp_all)

definition fifo_wrap :: "tn_dque \<Rightarrow> int \<Rightarrow> int" where
  "fifo_wrap d i = (if i + 1 \<ge> num_entries d then 0 else i + 1)"

lemma fifo_write_room:
  assumes wf: "fifo_wf d" "0 < num_entries d" and room: "\<not> fifo_full d"
  obtains xs where "data_fifo d = Some xs"
    "fifo_write x d = Some (TERR_NO_ERR, d\<lparr>data_fifo := Some (xs[nat (header_cnt d) := x]),
                                           header_cnt := fifo_wrap d (header_cnt d)\<rparr>)"
proof -
  note b = fifo_wfD [OF wf]
  from b(5) obtain xs where "data_fifo d = Some xs" "num_entries d \<le> int (length xs)" by blast
  then show thesis
    using that wf(2) b room fifo_full_flag [OF wf]
    by (auto simp: fifo_write_def fifo_store_def fifo_wrap_def Let_def)
qed

lemma fifo_read_some:
  assumes wf: "fifo_wf d" "0 < num_entries d" and ne: "fifo_count d \<noteq> 0"
  obtains xs where "data_fifo d = Some xs"
    "fifo_read d = Some (TERR_NO_ERR, Some (xs ! nat (tail_cnt d)), d\<lparr>tail_cnt := fifo_wrap d (tail_cnt d)\<rparr>)"
proof -
  note b = fifo_wfD [OF wf]
  from b(5) obtain xs where "data_fifo d = Some xs" "num_entries d \<le> int (length xs)" by blast
  then show thesis
    using that wf(2) b ne fifo_empty_flag [OF wf]
    by (auto simp: fifo_read_def fifo_fetch_def fifo_wrap_def Let_def)
qed

lemma fifo_write_wf: "fifo_wf d \<Longrightarrow> fifo_write x d = Some (rc, d') \<Longrightarrow> fifo_wf d'"
  by (auto simp: fifo_write_def fifo_wf_def fifo_store_def Let_def split: if_splits option.splits)

lemma fifo_read_wf: "fifo_wf d \<Longrightarrow> fifo_read d = Some (rc, v, d') \<Longrightarrow> fifo_wf d'"
  by (auto simp: fifo_read_def fifo_wf_def fifo_fetch_def Let_def split: if_splits option.splits)

lemma fifo_write_contents:
  assumes wf: "fifo_wf d" "0 < num_entries d" and room: "\<not> fifo_full d"
    and w: "fifo_write x d = Some (rc, d')"
  shows "rc = TERR_NO_ERR" "fifo_contents d' = fifo_contents d @ [x]" "fifo_capacity d' = fifo_capacity d"
proof -
  note b = fifo_wfD [OF wf]
  obtain xs where xs: "data_fifo d = Some xs"
    "fifo_write x d = Some (TERR_NO_ERR, d\<lparr>data_fifo := Some (xs[nat (header_cnt d) := x]),
                                           header_cnt := fifo_wrap d (header_cnt d)\<rparr>)"
    using fifo_write_room [OF wf room] by blast
  with w have d': "d' = d\<lparr>data_fifo := Some (xs[nat (header_cnt d) := x]),
                         header_cnt := fifo_wrap d (header_cnt d)\<rparr>" and "rc = TERR_NO_ERR" by auto
  then show "rc = TERR_NO_ERR" "fifo_capacity d' = fifo_capacity d" by (simp_all add: fifo_capacity_def)
  have len: "num_entries d \<le> int (length xs)" using b(5) xs(1) by auto
  have "int (fifo_count d') = int (fifo_count d) + 1"
    using fifo_count_eq [OF wf] fifo_count_eq [OF fifo_write_wf [OF wf(1) w]] wf(2) b
      fifo_full_flag [OF wf] room by (auto simp: d' fifo_wrap_def split: if_splits)
  then have c: "fifo_count d' = Suc (fifo_count d)" by simp
  have "xs[nat (header_cnt d) := x] ! nat ((tail_cnt d + int k) mod num_entries d) =
        xs ! nat ((tail_cnt d + int k) mod num_entries d)" if "k < fifo_count d" for k
    using fifo_cell_used [OF wf that] b by (intro nth_list_update_neq) (auto simp: eq_nat_nat_iff)
  moreover have "xs[nat (header_cnt d) := x] ! nat (header_cnt d) = x" using b len by simp
  ultimately show "fifo_contents d' = fifo_contents d @ [x]"
    using xs(1) fifo_cell_header [OF wf] unfolding fifo_contents_def c by (simp add: d')
qed

lemma fifo_read_contents:
  assumes wf: "fifo_wf d" "0 < num_entries d" and ne: "fifo_count d \<noteq> 0"
    and r: "fifo_read d = Some (rc, v, d')"
  shows "rc = TERR_NO_ERR" "v = Some (hd (fifo_contents d))" "fifo_contents d' = tl (fifo_contents d)"
    "fifo_capacity d' = fifo_capacity d"
proof -
  note b = fifo_wfD [OF wf]
  obtain xs where xs: "data_fifo d = Some xs"
    "fifo_read d = Some (TERR_NO_ERR, Some (xs ! nat (tail_cnt d)), d\<lparr>tail_cnt := fifo_wrap d (tail_cnt d)\<rparr>)"
    using fifo_read_some [OF wf ne] by blast
  with r have d': "d' = d\<lparr>tail_cnt := fifo_wrap d (tail_cnt d)\<rparr>" and "rc = TERR_NO_ERR"
    and v: "v = Some (xs ! nat (tail_cnt d))" by auto
  then show "rc = TERR_NO_ERR" "fifo_capacity d' = fifo_capacity d" by (simp_all add: fifo_capacity_def)
  have "int (fifo_count d) = int (fifo_count d') + 1"
    using fifo_count_eq [OF wf] fifo_count_eq [OF fifo_read_wf [OF wf(1) r]] wf(2) b
      fifo_empty_flag [OF wf] ne by (auto simp: d' fifo_wrap_def split: if_splits)
  then have c: "fifo_count d = Suc (fifo_count d')" by simp
  then show "v = Some (hd (fifo_contents d))" using v xs(1) b wf(2) by (simp add: fifo_contents_def upt_rec)
  have "(fifo_wrap d (tail_cnt d) + int k) mod num_entries d = (tail_cnt d + int (Suc k)) mod num_entries d" for k
  proof (cases "tail_cnt d + 1 \<ge> num_entries d")
    case True
    then have "tail_cnt d + int (Suc k) = int k + num_entries d" using b by simp
    then have "(tail_cnt d + int (Suc k)) mod num_entries d = int k mod num_entries d"
      by (simp only: mod_add_self2)
    with True show ?thesis by (simp add: fifo_wrap_def)
  next
    case False
    then show ?thesis by (simp add: fifo_wrap_def add.assoc)
  qed
  then show "fifo_contents d' = tl (fifo_contents d)"
    unfolding fifo_contents_def c d' by (simp add: upt_conv_Cons map_Suc_upt [symmetric] o_def del: upt_Suc)
qed


lemma fifo_put_eq:
  assumes wf: "fifo_wf d"
  shows "fifo_put x d = None \<longleftrightarrow> fifo_full d"
    "fifo_put x d = Some d' \<Longrightarrow> fifo_wf d' \<and> fifo_contents d' = fifo_contents d @ [x] \<and> fifo_capacity d' = fifo_capacity d"
proof -
  have zero: "num_entries d \<le> 0 \<Longrightarrow> fifo_full d"
    by (simp add: fifo_full_def fifo_count_def fifo_capacity_def)
  have "fifo_full d \<Longrightarrow> fifo_put x d = None"
    using fifo_full_flag [OF wf] by (auto simp: fifo_put_def fifo_write_def)
  moreover have "fifo_put x d \<noteq> None" if nf: "\<not> fifo_full d"
  proof -
    have "0 < num_entries d" using nf zero by linarith
    then show ?thesis by (rule fifo_write_room [OF wf _ nf, of x]) (simp add: fifo_put_def)
  qed
  ultimately show full: "fifo_put x d = None \<longleftrightarrow> fifo_full d" by blast
  assume p: "fifo_put x d = Some d'"
  with full have nf: "\<not> fifo_full d" by simp
  then have n: "0 < num_entries d"
    by (auto simp: fifo_full_def fifo_count_def fifo_capacity_def split: if_splits)
  from p have w: "fifo_write x d = Some (TERR_NO_ERR, d')"
    by (auto simp: fifo_put_def split: option.splits if_splits)
  show "fifo_wf d' \<and> fifo_contents d' = fifo_contents d @ [x] \<and> fifo_capacity d' = fifo_capacity d"
    using fifo_write_wf [OF wf w] fifo_write_contents [OF wf n nf w] by simp
qed

lemma fifo_get_eq:
  assumes wf: "fifo_wf d"
  shows "fifo_get d = None \<longleftrightarrow> fifo_contents d = []"
    "fifo_contents d = x # xs \<Longrightarrow> \<exists>d'. fifo_get d = Some (x, d') \<and> fifo_wf d' \<and>
       fifo_contents d' = xs \<and> fifo_capacity d' = fifo_capacity d"
proof -
  have some: "\<exists>d'. fifo_get d = Some (x, d') \<and> fifo_wf d' \<and>
       fifo_contents d' = xs \<and> fifo_capacity d' = fifo_capacity d" if c: "fifo_contents d = x # xs" for x xs
  proof -
    have ne: "fifo_count d \<noteq> 0" using c length_fifo_contents [of d] by (simp del: length_fifo_contents)
    then have n: "0 < num_entries d" by (auto simp: fifo_count_def split: if_splits)
    obtain rc v d' where r: "fifo_read d = Some (rc, v, d')" using fifo_read_some [OF wf n ne] by blast
    with fifo_read_contents [OF wf n ne r] fifo_read_wf [OF wf r] c show ?thesis
      by (auto simp: fifo_get_def)
  qed
  then show "fifo_contents d = x # xs \<Longrightarrow> \<exists>d'. fifo_get d = Some (x, d') \<and> fifo_wf d' \<and>
       fifo_contents d' = xs \<and> fifo_capacity d' = fifo_capacity d" by blast
  have "fifo_get d = None" if "fifo_contents d = []"
  proof (cases "0 < num_entries d")
    case True
    have "fifo_count d = 0" using that length_fifo_contents [of d] by (simp del: length_fifo_contents)
    with True show ?thesis using fifo_empty_flag [OF wf True] by (simp add: fifo_get_def fifo_read_def)
  qed (simp add: fifo_get_def fifo_read_def)
  with some show "fifo_get d = None \<longleftrightarrow> fifo_contents d = []" by (cases "fifo_contents d") fastforce+
qed

interpretation dq: bounded_fifo fifo_wf fifo_contents fifo_capacity fifo_put fifo_get
proof
  show "\<exists>q'. fifo_put x q = Some q' \<and> fifo_wf q' \<and> fifo_contents q' = fifo_contents q @ [x] \<and>
      fifo_capacity q' = fifo_capacity q"
    if "fifo_wf q" "length (fifo_contents q) < fifo_capacity q" for q x
    using fifo_put_eq [OF that(1), of x] that(2) by (cases "fifo_put x q") (auto simp: fifo_full_def)
qed (auto simp: fifo_put_eq(1) fifo_get_eq fifo_full_def fifo_count_le dest: fifo_get_eq(2))

end
