(* ===== verification/System_Inv.thy ===== *)
theory System_Inv
  imports Sched_Ops Dque_Fifo
begin

text \<open>
  The system invariant: the kernel invariant of the scheduler together with what ties tasks
  to the objects they wait for. A task waits for an object only while the object has nothing
  to give, for the reason its control block records, in the queue of an object that exists.

  The theory also holds the two code fragments that every object's services repeat: taking
  the first waiter out of a wait queue, and the loop that releases all waiters of an object
  that is deleted; and their effect on the invariant.
\<close>

section \<open>Code the object services share\<close>

text \<open>\<open>que = queue_remove_head(&...); task = get_task_by_tsk_queue(que);\<close>\<close>

definition wait_queue_pop :: "qnode \<Rightarrow> kstate \<Rightarrow> (tid option \<times> kstate) option" where
  "wait_queue_pop q s =
     (let (que, m) = queue_remove_head (Some q) (mem s)
      in do { task \<leftarrow> get_task_by_tsk_queue que; Some (task, s\<lparr>mem := m\<rparr>) })"

text \<open>
  The loop of the delete services, up to the next context switch: \<open>(True, sr, s)\<close> when a task
  was made runnable and \<open>tn_switch_context()\<close> is called, \<open>(False, sr, s)\<close> when no waiter is
  left. \<open>sr\<close> is the local \<open>tn_save_status_reg\<close>. When the caller runs again it continues with
  the next iteration, so a deletion is a sequence of such segments.
\<close>

partial_function (option) delete_waiters :: "qnode \<Rightarrow> bool \<Rightarrow> kstate \<Rightarrow> (bool \<times> bool \<times> kstate) option" where
  "delete_waiters q sr s =
     (if is_queue_empty (mem s) q then Some (False, sr, s)
      else
        let (sr, s) = (if \<not> irq_disabled s then tn_disable_interrupt s else (sr, s))
        in do { (task, s) \<leftarrow> wait_queue_pop q s;
                let (woken, s) = task_wait_complete task False s;
                if woken
                then do { t \<leftarrow> task;
                          Some (True, sr, tn_enable_interrupt sr
                                 (upd_tcb t (\<lambda>c. c\<lparr>task_wait_rc := TERR_DLT\<rparr>) s)) }
                else delete_waiters q sr s })"

text \<open>How a service ends after it has called \<open>task_wait_complete\<close>: with a context switch when
  the task became runnable (for interrupt handlers: with a request for one).\<close>

definition wake_ret :: "bool \<Rightarrow> bool \<times> kstate \<Rightarrow> kret \<times> kstate" where
  "wake_ret sr = (\<lambda>(woken, s). (if woken then SWITCH_RC TERR_NO_ERR else RC TERR_NO_ERR,
                                tn_enable_interrupt sr s))"

definition wake_iret :: "bool \<times> kstate \<Rightarrow> int \<times> kstate" where
  "wake_iret = (\<lambda>(woken, s). (TERR_NO_ERR,
                              if woken then s\<lparr>tn_context_switch_request := True\<rparr> else s))"

text \<open>The release condition of an event flag.\<close>

definition event_cond :: "u32 \<Rightarrow> u32 \<Rightarrow> u32 \<Rightarrow> bool" where
  "event_cond pattern wait_mode wait_pattern =
     (if wait_mode AND TN_EVENT_WCOND_OR \<noteq> 0 then pattern AND wait_pattern \<noteq> 0
      else pattern AND wait_pattern = wait_pattern)"

section \<open>The invariant\<close>

text \<open>The object of a wait queue exists.\<close>

definition live :: "kstate \<Rightarrow> qnode \<Rightarrow> bool" where
  "live s q =
     (case q of
        SemWaitQ i \<Rightarrow> id_sem (sems s i) = TN_ID_SEMAPHORE
      | EventWaitQ i \<Rightarrow> id_event (events s i) = TN_ID_EVENT
      | DqSendQ i \<Rightarrow> id_dque (dques s i) = TN_ID_DATAQUEUE
      | DqRecvQ i \<Rightarrow> id_dque (dques s i) = TN_ID_DATAQUEUE
      | FmpWaitQ i \<Rightarrow> id_fmp (fmps s i) = TN_ID_FSMEMORYPOOL
      | _ \<Rightarrow> False)"

text \<open>Why a task waits in a queue: the wait reason, and that the object has nothing for it.\<close>

definition wait_cause :: "kstate \<Rightarrow> tn_tcb \<Rightarrow> qnode \<Rightarrow> bool" where
  "wait_cause s c q =
     (case q of
        SemWaitQ i \<Rightarrow> task_wait_reason c = TSK_WAIT_REASON_SEM \<and> sem_count (sems s i) = 0
      | EventWaitQ i \<Rightarrow> task_wait_reason c = TSK_WAIT_REASON_EVENT \<and>
          \<not> event_cond (ev_pattern (events s i)) (ewait_mode c) (ewait_pattern c)
      | DqSendQ i \<Rightarrow> task_wait_reason c = TSK_WAIT_REASON_DQUE_WSEND \<and> fifo_full (dques s i)
      | DqRecvQ i \<Rightarrow> task_wait_reason c = TSK_WAIT_REASON_DQUE_WRECEIVE \<and> fifo_count (dques s i) = 0
      | FmpWaitQ i \<Rightarrow> task_wait_reason c = TSK_WAIT_REASON_WFIXMEM \<and> fblkcnt (fmps s i) = 0
      | _ \<Rightarrow> False)"

definition wait_ok :: "kstate \<Rightarrow> tn_tcb \<Rightarrow> bool" where
  "wait_ok s c \<longleftrightarrow> waiting c \<longrightarrow>
     (case pwait_queue c of
        None \<Rightarrow> task_wait_reason c = TSK_WAIT_REASON_SLEEP
      | Some q \<Rightarrow> live s q \<and> wait_cause s c q)"

text \<open>A data queue does not hold senders and receivers at the same time.\<close>

definition dque_sides :: "(tid \<Rightarrow> tn_tcb) \<Rightarrow> bool" where
  "dque_sides T \<longleftrightarrow>
     (\<forall>t t' i. waiting (T t) \<longrightarrow> waiting (T t') \<longrightarrow> pwait_queue (T t) = Some (DqSendQ i) \<longrightarrow>
        pwait_queue (T t') \<noteq> Some (DqRecvQ i))"

text \<open>
  The objects on their own: counters in range, buffers well formed, free lists intact. The
  \<open>max_count\<close> of a semaphore is 0 after a rejected attempt to create it again.
\<close>

definition sem_wf :: "tn_sem \<Rightarrow> bool" where
  "sem_wf x \<longleftrightarrow> (id_sem x = TN_ID_SEMAPHORE \<longrightarrow>
     0 \<le> sem_count x \<and> 0 \<le> sem_max_count x \<and> (0 < sem_max_count x \<longrightarrow> sem_count x \<le> sem_max_count x))"

fun free_chain :: "(addr \<Rightarrow> u32) \<Rightarrow> nat \<Rightarrow> addr \<Rightarrow> addr list" where
  "free_chain m 0 a = []"
| "free_chain m (Suc n) a = a # free_chain m n (m a)"

definition free_blocks :: "kstate \<Rightarrow> fid \<Rightarrow> addr list" where
  "free_blocks s i = (if id_fmp (fmps s i) = TN_ID_FSMEMORYPOOL
     then free_chain (mem32 s) (nat (fblkcnt (fmps s i))) (free_list (fmps s i)) else [])"

definition fmp_wf :: "kstate \<Rightarrow> bool" where
  "fmp_wf s \<longleftrightarrow>
     (\<forall>i. id_fmp (fmps s i) = TN_ID_FSMEMORYPOOL \<longrightarrow>
        0 \<le> fblkcnt (fmps s i) \<and> fblkcnt (fmps s i) \<le> num_blocks (fmps s i)) \<and>
     (\<forall>i. distinct (free_blocks s i) \<and> 0 \<notin> set (free_blocks s i)) \<and>
     (\<forall>i j. i \<noteq> j \<longrightarrow> set (free_blocks s i) \<inter> set (free_blocks s j) = {})"

definition objects_wf :: "kstate \<Rightarrow> bool" where
  "objects_wf s \<longleftrightarrow> (\<forall>i. sem_wf (sems s i)) \<and>
     (\<forall>i. id_dque (dques s i) = TN_ID_DATAQUEUE \<longrightarrow> fifo_wf (dques s i)) \<and> fmp_wf s"

text \<open>
  The two system tasks. The idle task is always runnable, at the lowest priority; the timer
  task is runnable or asleep, and alone at priority 0.
\<close>

definition system_tasks :: "(tid \<Rightarrow> tn_tcb) \<Rightarrow> bool" where
  "system_tasks T \<longleftrightarrow>
     task_state (T tn_idle_task) = TSK_STATE_RUNNABLE \<and> priority (T tn_idle_task) = TN_NUM_PRIORITY - 1 \<and>
     id_task (T tn_timer_task) = TN_ID_TASK \<and>
     priority (T tn_timer_task) = 0 \<and> base_priority (T tn_timer_task) = 0 \<and>
     (task_state (T tn_timer_task) = TSK_STATE_RUNNABLE \<or>
      task_state (T tn_timer_task) = TSK_STATE_WAIT \<and> pwait_queue (T tn_timer_task) = None \<and>
      tick_count (T tn_timer_task) = TN_WAIT_INFINITE) \<and>
     (\<forall>t. id_task (T t) = TN_ID_TASK \<longrightarrow> t \<noteq> tn_timer_task \<longrightarrow>
        priority (T t) \<noteq> 0 \<and> base_priority (T t) \<noteq> 0)"

definition inv_objs :: "kstate \<Rightarrow> (qnode \<rightharpoonup> qnode list) \<Rightarrow> bool" where
  "inv_objs s L \<longleftrightarrow>
     (\<forall>t. wait_ok s (tcbs s t)) \<and> (\<forall>q. live s q \<longrightarrow> L q \<noteq> None) \<and> dque_sides (tcbs s) \<and>
     objects_wf s \<and> system_tasks (tcbs s) \<and> tn_enable_switch_context s = 1"

definition sinv :: "kstate \<Rightarrow> (qnode \<rightharpoonup> qnode list) \<Rightarrow> bool" where
  "sinv s L \<longleftrightarrow> kinv {} s L \<and> inv_objs s L"

definition system_inv :: "kstate \<Rightarrow> bool" where
  "system_inv s \<longleftrightarrow> (\<exists>L. sinv s L)"

lemma live_wait_hdr: "live s q \<Longrightarrow> wait_hdr q"
  by (cases q) (auto simp: live_def)

lemma sinvD:
  assumes "sinv s L"
  shows "kinv {} s L" "wait_ok s (tcbs s t)" "live s q \<Longrightarrow> L q \<noteq> None" "dque_sides (tcbs s)"
    "objects_wf s" "system_tasks (tcbs s)" "tn_enable_switch_context s = 1"
  using assms by (auto simp: sinv_def inv_objs_def)

lemma sinv_queue:
  assumes "sinv s L" "live s q"
  obtains xs where "L q = Some xs" "ring (mem s) q xs"
  using sinvD(3) [OF assms] rings_ring [OF kinvD(1) [OF sinvD(1) [OF assms(1)]]] by blast

lemma sinv_empty:
  assumes "sinv s L" "L q = Some xs"
  shows "is_queue_empty (mem s) q \<longleftrightarrow> xs = []"
  using rings_is_empty [OF kinvD(1) [OF sinvD(1) [OF assms(1)]] assms(2)] .

lemma sinv_waiter:
  assumes "sinv s L" "wait_hdr q" "L q = Some xs"
  shows "TaskQ t \<in> set xs \<longleftrightarrow> waiting (tcbs s t) \<and> pwait_queue (tcbs s t) = Some q"
proof
  assume "TaskQ t \<in> set xs"
  with kinv_in_q [OF sinvD(1) [OF assms(1)] assms(3)] home_wait [OF assms(2)]
  show "waiting (tcbs s t) \<and> pwait_queue (tcbs s t) = Some q" by auto
next
  assume "waiting (tcbs s t) \<and> pwait_queue (tcbs s t) = Some q"
  then have "home (tcbs s t) = Some q" using home_wait [OF assms(2)] by simp
  then show "TaskQ t \<in> set xs" using kinv_home [OF sinvD(1) [OF assms(1)], of t q] assms(3) by auto
qed

lemma sinv_waiter_cause:
  assumes "sinv s L" "wait_hdr q" "L q = Some (n # xs)"
  obtains t where "n = TaskQ t" "waiting (tcbs s t)" "pwait_queue (tcbs s t) = Some q" "live s q"
    "wait_cause s (tcbs s t) q"
proof -
  obtain t where t: "n = TaskQ t"
    using inv_lists_elem [OF kinvD(2) [OF sinvD(1) [OF assms(1)]] assms(3)] wait_hdr_elem [OF assms(2)] by auto
  have "waiting (tcbs s t)" "pwait_queue (tcbs s t) = Some q"
    using sinv_waiter [OF assms, of t] t by auto
  moreover from this have "live s q" "wait_cause s (tcbs s t) q"
    using sinvD(2) [OF assms(1), of t] by (auto simp: wait_ok_def)
  ultimately show thesis using that t by blast
qed

section \<open>Frames\<close>

text \<open>What the object part of the invariant reads of the state.\<close>

lemma objs_read [simp]:
  "live (s\<lparr>mem := v1\<rparr>) = live s" "live (s\<lparr>tcbs := v2\<rparr>) = live s"
  "live (s\<lparr>tn_ready_to_run_bmp := v3\<rparr>) = live s" "live (s\<lparr>tn_next_task_to_run := v4\<rparr>) = live s"
  "live (s\<lparr>irq_disabled := v5\<rparr>) = live s" "live (s\<lparr>tn_curr_run_task := v6\<rparr>) = live s"
  "live (s\<lparr>mem32 := v7\<rparr>) = live s"
  "wait_cause (s\<lparr>mem := v1\<rparr>) = wait_cause s" "wait_cause (s\<lparr>tcbs := v2\<rparr>) = wait_cause s"
  "wait_cause (s\<lparr>tn_ready_to_run_bmp := v3\<rparr>) = wait_cause s"
  "wait_cause (s\<lparr>tn_next_task_to_run := v4\<rparr>) = wait_cause s"
  "wait_cause (s\<lparr>irq_disabled := v5\<rparr>) = wait_cause s"
  "wait_cause (s\<lparr>tn_curr_run_task := v6\<rparr>) = wait_cause s"
  "wait_cause (s\<lparr>mem32 := v7\<rparr>) = wait_cause s"
  by (intro ext; simp add: live_def wait_cause_def cong: qnode.case_cong)+

definition same_objects :: "kstate \<Rightarrow> kstate \<Rightarrow> bool" where
  "same_objects s s' \<longleftrightarrow> sems s' = sems s \<and> events s' = events s \<and> dques s' = dques s \<and>
     fmps s' = fmps s \<and> mem32 s' = mem32 s \<and> tn_enable_switch_context s' = tn_enable_switch_context s"

lemma same_objectsD:
  assumes "same_objects s s'"
  shows "live s' = live s" "wait_cause s' = wait_cause s" "wait_ok s' = wait_ok s"
    "objects_wf s' = objects_wf s" "tn_enable_switch_context s' = tn_enable_switch_context s"
proof -
  note eq = assms [unfolded same_objects_def]
  show l: "live s' = live s" and w: "wait_cause s' = wait_cause s"
    by (intro ext; simp add: live_def wait_cause_def eq cong: qnode.case_cong)+
  show "wait_ok s' = wait_ok s" by (intro ext) (simp add: wait_ok_def l w split: option.split)
  show "objects_wf s' = objects_wf s" "tn_enable_switch_context s' = tn_enable_switch_context s"
    by (simp_all add: objects_wf_def fmp_wf_def free_blocks_def eq)
qed

lemma fmp_wf_cong: "fmps s' = fmps s \<Longrightarrow> mem32 s' = mem32 s \<Longrightarrow> fmp_wf s' = fmp_wf s"
  by (simp only: fmp_wf_def free_blocks_def)

text \<open>Fields outside the invariant.\<close>

lemma sinv_frame:
  assumes "same_objects s s'" "mem s' = mem s" "tn_ready_to_run_bmp s' = tn_ready_to_run_bmp s"
    "tn_next_task_to_run s' = tn_next_task_to_run s" "tcbs s' = tcbs s"
  shows "sinv s' L = sinv s L"
proof -
  have "kinv {} s' L = kinv {} s L" by (rule kinv_cong) (simp_all add: assms)
  then show ?thesis by (simp add: sinv_def inv_objs_def same_objectsD [OF assms(1)] assms(5))
qed

lemma sinv_other_fields [simp]:
  "sinv (s\<lparr>tn_curr_run_task := v8\<rparr>) L = sinv s L"
  "sinv (s\<lparr>tn_context_switch_request := v9\<rparr>) L = sinv s L"
  "sinv (s\<lparr>tn_int_counter := v10\<rparr>) L = sinv s L"
  "sinv (s\<lparr>irq_disabled := v11\<rparr>) L = sinv s L"
  "sinv (s\<lparr>tn_idle_count := v12\<rparr>) L = sinv s L"
  "sinv (s\<lparr>tn_tslice_ticks := v6\<rparr>) L = sinv s L"
  "sinv (s\<lparr>tn_created_tasks_qty := v7\<rparr>) L = sinv s L"
  "sinv (s\<lparr>stk_mem := v14\<rparr>) L = sinv s L"
  by (rule sinv_frame; simp add: same_objects_def)+

lemma sinv_switch [simp]: "sinv (tn_switch_context s) L = sinv s L"
  by (simp add: tn_switch_context_def)

lemma sinv_enable [simp]: "sinv (tn_enable_interrupt sr s) L = sinv s L"
  by (simp add: tn_enable_interrupt_def)

text \<open>One task changes, the objects stay: it stops waiting, or starts to.\<close>

lemma system_tasks_upd:
  assumes "system_tasks T" "priority c = priority (T t)" "base_priority c = base_priority (T t)"
    "id_task c = id_task (T t)" "t = tn_idle_task \<Longrightarrow> task_state c = TSK_STATE_RUNNABLE"
    "t = tn_timer_task \<Longrightarrow> task_state c = TSK_STATE_RUNNABLE"
  shows "system_tasks (T(t := c))"
  using assms by (auto simp: system_tasks_def)

lemma inv_objs_upd:
  assumes i: "inv_objs s L" and so: "same_objects s s'" and T: "tcbs s' = (tcbs s)(t := c)"
    and c: "wait_ok s c" "dque_sides ((tcbs s)(t := c))" "system_tasks ((tcbs s)(t := c))"
    and L: "\<And>q. live s q \<Longrightarrow> L' q \<noteq> None"
  shows "inv_objs s' L'"
  using i c L unfolding inv_objs_def T same_objectsD [OF so] by simp

lemma wait_ok_idle: "\<not> waiting c \<Longrightarrow> wait_ok s c"
  by (simp add: wait_ok_def)

lemma dque_sides_idle: "dque_sides T \<Longrightarrow> \<not> waiting c \<Longrightarrow> dque_sides (T(t := c))"
  by (auto simp: dque_sides_def)

section \<open>Completing a wait\<close>

definition wake_tcb :: "tn_tcb \<Rightarrow> tn_tcb" where
  "wake_tcb c = c\<lparr>pwait_queue := None, task_wait_rc := TERR_NO_ERR, tick_count := TN_WAIT_INFINITE,
     task_state := if task_state c AND TSK_STATE_SUSPEND = 0 then TSK_STATE_RUNNABLE else TSK_STATE_SUSPEND,
     task_wait_reason := 0\<rparr>"

lemma wake_tcb_not_waiting [simp]: "\<not> waiting (wake_tcb c)"
  by (simp add: wake_tcb_def waiting_def)

lemma wake_tcb_simps [simp]:
  "priority (wake_tcb c) = priority c" "base_priority (wake_tcb c) = base_priority c"
  "id_task (wake_tcb c) = id_task c" "data_elem (wake_tcb c) = data_elem c"
  "ewait_pattern (wake_tcb c) = ewait_pattern c" "task_wait_rc (wake_tcb c) = TERR_NO_ERR"
  "activate_count (wake_tcb c) = activate_count c" "wakeup_count (wake_tcb c) = wakeup_count c"
  "pwait_queue (wake_tcb c) = None"
  by (simp_all add: wake_tcb_def)

lemma task_to_runnable_shape:
  "\<exists>m b n. task_to_runnable t s = s\<lparr>mem := m, tn_ready_to_run_bmp := b, tn_next_task_to_run := n,
      tcbs := (tcbs s)(t := (tcbs s t)\<lparr>task_state := TSK_STATE_RUNNABLE, pwait_queue := None\<rparr>)\<rparr>"
  (is "\<exists>m b n. _ = ?s m b n")
proof -
  let ?r = "task_to_runnable t s"
  have "?r = ?s (mem ?r) (tn_ready_to_run_bmp ?r) (tn_next_task_to_run ?r)"
    by (intro kstate.equality) (auto simp: task_to_runnable_def Let_def split: option.splits)
  then show ?thesis by blast
qed

lemma task_wait_complete_shape:
  "\<exists>m b n. task_wait_complete (Some t) r s =
     (task_state (tcbs s t) AND TSK_STATE_SUSPEND = 0,
      s\<lparr>mem := m, tn_ready_to_run_bmp := b, tn_next_task_to_run := n,
        tcbs := (tcbs s)(t := wake_tcb (tcbs s t))\<rparr>) \<and>
     (task_state (tcbs s t) AND TSK_STATE_SUSPEND = 0 \<or> n = tn_next_task_to_run s)"
proof -
  define s0 where "s0 = (if r then on_mem (queue_remove_entry (TaskQ t)) s else s)"
  have s0: "task_wait_complete (Some t) r s = task_wait_complete (Some t) False s0"
    "s0 = s\<lparr>mem := mem s0\<rparr>"
    by (simp_all add: s0_def task_wait_complete_remove on_mem_def)
  define m1 where "m1 = mem (clear_wait t s0)"
  have m1: "clear_wait t s0 = s\<lparr>mem := m1, tcbs := (tcbs s)(t := (tcbs s t)\<lparr>pwait_queue := None,
      task_wait_rc := TERR_NO_ERR, tick_count := TN_WAIT_INFINITE\<rparr>)\<rparr>"
    unfolding m1_def by (intro kstate.equality) (simp_all add: clear_wait_def Let_def s0_def)
  obtain m b n where r: "task_to_runnable t (clear_wait t s0) =
     (clear_wait t s0)\<lparr>mem := m, tn_ready_to_run_bmp := b, tn_next_task_to_run := n,
      tcbs := (tcbs (clear_wait t s0))(t := (tcbs (clear_wait t s0) t)\<lparr>task_state := TSK_STATE_RUNNABLE, pwait_queue := None\<rparr>)\<rparr>"
    using task_to_runnable_shape by blast
  have st: "task_state (tcbs s0 t) = task_state (tcbs s t)" by (simp add: s0_def)
  show ?thesis
  proof (cases "task_state (tcbs s t) AND TSK_STATE_SUSPEND = 0")
    case True
    then have "task_wait_complete (Some t) r s = (True, s\<lparr>mem := m, tn_ready_to_run_bmp := b,
        tn_next_task_to_run := n, tcbs := (tcbs s)(t := wake_tcb (tcbs s t))\<rparr>)"
      unfolding s0(1) task_wait_complete_unfold st m1 r [unfolded m1] wake_tcb_def
      by (simp add: upd_tcb_def) (intro kstate.equality; simp; intro ext; auto intro!: tn_tcb.equality)
    with True show ?thesis by auto
  next
    case False
    then have "task_wait_complete (Some t) r s = (False, s\<lparr>mem := m1, tn_ready_to_run_bmp := tn_ready_to_run_bmp s,
        tn_next_task_to_run := tn_next_task_to_run s, tcbs := (tcbs s)(t := wake_tcb (tcbs s t))\<rparr>)"
      unfolding s0(1) task_wait_complete_unfold st m1 wake_tcb_def
      by (simp add: upd_tcb_def)
    with False show ?thesis
      by (intro exI [of _ m1] exI [of _ "tn_ready_to_run_bmp s"] exI [of _ "tn_next_task_to_run s"]) simp
  qed
qed


text \<open>Releasing a waiter of a queue; \<open>f\<close> is what the service stores in its control
  block before the wait ends (the data item, the event pattern).\<close>

lemma wake_member:
  assumes i: "sinv s L" and q: "wait_hdr q" "L q = Some xs" "TaskQ t \<in> set xs"
    and f: "\<And>c. tcb_view (f c) = tcb_view c"
  obtains s' L' m b nx where "waiting (tcbs s t)" "pwait_queue (tcbs s t) = Some q"
    "task_wait_complete (Some t) False (upd_tcb t f (on_mem (queue_remove_entry (TaskQ t)) s)) =
       (task_state (tcbs s t) AND TSK_STATE_SUSPEND = 0, s')"
    "s' = s\<lparr>mem := m, tn_ready_to_run_bmp := b, tn_next_task_to_run := nx,
            tcbs := (tcbs s)(t := wake_tcb (f (tcbs s t)))\<rparr>"
    "task_state (tcbs s t) AND TSK_STATE_SUSPEND = 0 \<or> nx = tn_next_task_to_run s"
    "sinv s' L'" "\<And>q'. wait_hdr q' \<Longrightarrow> L' q' = (if q' = q then Some (remove1 (TaskQ t) xs) else L q')"
proof -
  note k = sinvD(1) [OF i]
  have t: "waiting (tcbs s t)" "pwait_queue (tcbs s t) = Some q"
    using kinv_in_q [OF k q(2,3)] home_wait [OF q(1)] by auto
  let ?s1 = "upd_tcb t f (on_mem (queue_remove_entry (TaskQ t)) s)" and ?L = "L(q \<mapsto> remove1 (TaskQ t) xs)"
  have fc: "task_state (f c) = task_state c" "priority (f c) = priority c" "id_task (f c) = id_task c"
    "base_priority (f c) = base_priority c" for c using f [of c] by (auto simp: tcb_view_def)
  have k1: "kinv {t} ?s1 ?L" using wait_detach [OF k q] f by (simp add: kinv_upd_tcb_other)
  have w1: "waiting (tcbs ?s1 t)" using t(1) by (simp add: waiting_def fc)
  obtain L' where L': "kinv ({t} - {t}) (snd (task_wait_complete (Some t) False ?s1)) L'"
    "same_waits ?L L'"
    using task_wait_complete_ok [OF k1 _ w1] by auto
  obtain m b nx where sh: "task_wait_complete (Some t) False ?s1 =
     (task_state (tcbs ?s1 t) AND TSK_STATE_SUSPEND = 0,
      ?s1\<lparr>mem := m, tn_ready_to_run_bmp := b, tn_next_task_to_run := nx,
        tcbs := (tcbs ?s1)(t := wake_tcb (tcbs ?s1 t))\<rparr>)"
    and nx: "task_state (tcbs ?s1 t) AND TSK_STATE_SUSPEND = 0 \<or> nx = tn_next_task_to_run ?s1"
    using task_wait_complete_shape by blast
  define s' where "s' = s\<lparr>mem := m, tn_ready_to_run_bmp := b, tn_next_task_to_run := nx,
            tcbs := (tcbs s)(t := wake_tcb (f (tcbs s t)))\<rparr>"
  have sh': "task_wait_complete (Some t) False ?s1 = (task_state (tcbs s t) AND TSK_STATE_SUSPEND = 0, s')"
    unfolding sh s'_def by (simp add: fc upd_tcb_def on_mem_def)
  have LL: "L' q' = (if q' = q then Some (remove1 (TaskQ t) xs) else L q')" if "wait_hdr q'" for q'
    using same_waitsD [OF L'(2) that] by simp
  have ti: "t \<noteq> tn_idle_task" "t \<noteq> tn_timer_task"
    using sinvD(6) [OF i] t by (auto simp: system_tasks_def waiting_def)
  have "inv_objs s' L'"
  proof (rule inv_objs_upd)
    show "inv_objs s L" using i by (simp add: sinv_def)
    show "system_tasks ((tcbs s)(t := wake_tcb (f (tcbs s t))))"
      using sinvD(6) [OF i] ti by (intro system_tasks_upd) (auto simp: fc)
    show "L' q' \<noteq> None" if "live s q'" for q'
      using LL [OF live_wait_hdr [OF that]] sinvD(3) [OF i that] q(2) by auto
  qed (use sinvD(4) [OF i] in \<open>auto simp: s'_def same_objects_def wait_ok_idle dque_sides_idle\<close>)
  with L'(1) sh' have "sinv s' L'" by (simp add: sinv_def)
  moreover have "task_state (tcbs s t) AND TSK_STATE_SUSPEND = 0 \<or> nx = tn_next_task_to_run s"
    using nx by (simp add: fc)
  ultimately show thesis using that [OF t sh' s'_def] LL by blast
qed

lemma wake_head:
  assumes i: "sinv s L" and q: "wait_hdr q" "L q = Some (n # xs)"
    and f: "\<And>c. tcb_view (f c) = tcb_view c"
  obtains t s' L' m b nx where "n = TaskQ t" "waiting (tcbs s t)" "pwait_queue (tcbs s t) = Some q"
    "wait_queue_pop q s = Some (Some t, on_mem (queue_remove_entry (TaskQ t)) s)"
    "task_wait_complete (Some t) False (upd_tcb t f (on_mem (queue_remove_entry (TaskQ t)) s)) =
       (task_state (tcbs s t) AND TSK_STATE_SUSPEND = 0, s')"
    "s' = s\<lparr>mem := m, tn_ready_to_run_bmp := b, tn_next_task_to_run := nx,
            tcbs := (tcbs s)(t := wake_tcb (f (tcbs s t)))\<rparr>"
    "task_state (tcbs s t) AND TSK_STATE_SUSPEND = 0 \<or> nx = tn_next_task_to_run s"
    "sinv s' L'" "\<And>q'. wait_hdr q' \<Longrightarrow> L' q' = (if q' = q then Some xs else L q')"
proof -
  obtain t where n: "n = TaskQ t"
    using inv_lists_elem [OF kinvD(2) [OF sinvD(1) [OF i]] q(2)] wait_hdr_elem [OF q(1)] by auto
  have t: "TaskQ t \<in> set (n # xs)" "remove1 (TaskQ t) (n # xs) = xs" by (simp_all add: n)
  have pop: "wait_queue_pop q s = Some (Some t, on_mem (queue_remove_entry (TaskQ t)) s)"
    using rings_remove_head [OF kinvD(1) [OF sinvD(1) [OF i]] q(2)] n by (simp add: wait_queue_pop_def on_mem_def)
  show thesis
    by (rule wake_member [of s L q "n # xs" t f, OF i q t(1) f, unfolded t(2)]) (rule that [OF n _ _ pop])
qed

section \<open>Starting a wait\<close>

text \<open>The service stores something in the control block of a task that does not wait.\<close>

lemma sinv_upd_running:
  assumes "\<And>c. tcb_view (f c) = tcb_view c" "\<not> waiting (tcbs s t)"
  shows "sinv (upd_tcb t f s) L = sinv s L"
proof -
  let ?c = "f (tcbs s t)"
  have v: "task_state ?c = task_state (tcbs s t)" "priority ?c = priority (tcbs s t)"
    "base_priority ?c = base_priority (tcbs s t)" "pwait_queue ?c = pwait_queue (tcbs s t)"
    "tick_count ?c = tick_count (tcbs s t)" "id_task ?c = id_task (tcbs s t)"
    using assms(1) [of "tcbs s t"] by (simp_all add: tcb_view_def)
  have so: "same_objects s (upd_tcb t f s)" by (simp add: same_objects_def)
  have w: "waiting ?c = waiting (tcbs s t)" by (simp add: waiting_def v)
  let ?T = "tcbs (upd_tcb t f s)"
  have T: "task_state (?T t') = task_state (tcbs s t')" "priority (?T t') = priority (tcbs s t')"
    "base_priority (?T t') = base_priority (tcbs s t')" "pwait_queue (?T t') = pwait_queue (tcbs s t')"
    "tick_count (?T t') = tick_count (tcbs s t')" "id_task (?T t') = id_task (tcbs s t')"
    "waiting (?T t') = waiting (tcbs s t')" for t' by (simp_all add: v w)
  have "wait_ok s (?T t') = wait_ok s (tcbs s t')" for t'
    using assms(2) w by (cases "t' = t") (simp_all add: wait_ok_def)
  moreover have "dque_sides ?T = dque_sides (tcbs s)" by (simp only: dque_sides_def T)
  moreover have "system_tasks ?T = system_tasks (tcbs s)" by (simp only: system_tasks_def T)
  ultimately show ?thesis
    unfolding sinv_def inv_objs_def same_objectsD [OF so] kinv_upd_tcb_other [of f, OF assms(1)] by simp
qed

definition wait_tcb :: "qnode option \<Rightarrow> u32 \<Rightarrow> u32 \<Rightarrow> tn_tcb \<Rightarrow> tn_tcb" where
  "wait_tcb wq r timeout c = c\<lparr>task_state := TSK_STATE_WAIT, task_wait_reason := r,
     tick_count := timeout, pwait_queue := wq\<rparr>"

lemma block_current:
  assumes i: "sinv s L"
    and t: "tn_curr_run_task s = Some t" "task_state (tcbs s t) = TSK_STATE_RUNNABLE" "t \<noteq> tn_idle_task"
      "t = tn_timer_task \<Longrightarrow> wq = None \<and> timeout = TN_WAIT_INFINITE"
    and wq: "\<And>q. wq = Some q \<Longrightarrow> live s q \<and> L q = Some ys \<and> wait_cause s (wait_tcb wq r timeout (tcbs s t)) q"
      "wq = None \<Longrightarrow> r = TSK_WAIT_REASON_SLEEP"
    and ds: "dque_sides ((tcbs s)(t := wait_tcb wq r timeout (tcbs s t)))"
  obtains s' L' m b n where
    "task_curr_to_wait_action wq r timeout s = Some s'"
    "s' = s\<lparr>mem := m, tn_ready_to_run_bmp := b, tn_next_task_to_run := n,
            tcbs := (tcbs s)(t := wait_tcb wq r timeout (tcbs s t))\<rparr>"
    "sinv s' L'"
    "\<And>q. wait_hdr q \<Longrightarrow> L' q = (if wq = Some q then Some (ys @ [TaskQ t]) else L q)"
proof -
  have "wait_hdr q \<and> L q = Some ys" if "wq = Some q" for q
    using wq(1) [OF that] live_wait_hdr by blast
  note h = this
  obtain s' L' m b n where s': "task_curr_to_wait_action wq r timeout s = Some s'"
    "s' = s\<lparr>mem := m, tn_ready_to_run_bmp := b, tn_next_task_to_run := n,
            tcbs := (tcbs s)(t := wait_tcb wq r timeout (tcbs s t))\<rparr>"
    "kinv {} s' L'" "\<And>q. wait_hdr q \<Longrightarrow> L' q = (if wq = Some q then Some (ys @ [TaskQ t]) else L q)"
    by (rule task_curr_to_wait_ok [OF sinvD(1) [OF i] t(1,2), of wq ys r timeout, folded wait_tcb_def])
       (erule h, rule that)
  have "inv_objs s' L'"
  proof (rule inv_objs_upd [OF _ _ _ _ ds])
    show "inv_objs s L" using i by (simp add: sinv_def)
    show "wait_ok s (wait_tcb wq r timeout (tcbs s t))"
      using wq by (auto simp: wait_ok_def wait_tcb_def split: option.split)
    show "system_tasks ((tcbs s)(t := wait_tcb wq r timeout (tcbs s t)))"
      using sinvD(6) [OF i] t(3,4) by (auto simp: system_tasks_def wait_tcb_def)
    show "L' q' \<noteq> None" if "live s q'" for q'
      using s'(4) [OF live_wait_hdr [OF that]] sinvD(3) [OF i that] by auto
  qed (use s'(2) in \<open>auto simp: same_objects_def\<close>)
  with s'(3) have "sinv s' L'" by (simp add: sinv_def)
  from s'(1,2) this s'(4) show thesis by (rule that)
qed

section \<open>Releasing a task from whatever it waits for\<close>

lemma wake_any:
  assumes i: "sinv s L" and t: "waiting (tcbs s t)"
  obtains s' L' m b nx where
    "task_wait_complete (Some t) True s = (task_state (tcbs s t) AND TSK_STATE_SUSPEND = 0, s')"
    "s' = s\<lparr>mem := m, tn_ready_to_run_bmp := b, tn_next_task_to_run := nx,
            tcbs := (tcbs s)(t := wake_tcb (tcbs s t))\<rparr>"
    "task_state (tcbs s t) AND TSK_STATE_SUSPEND = 0 \<or> nx = tn_next_task_to_run s"
    "sinv s' L'" "\<And>q. wait_hdr q \<Longrightarrow>
       L' q = (if pwait_queue (tcbs s t) = Some q then map_option (remove1 (TaskQ t)) (L q) else L q)"
    "L' TimeoutL = map_option (remove1 (TimerQ t)) (L TimeoutL)"
proof -
  let ?s1 = "on_mem (queue_remove_entry (TaskQ t)) s"
  obtain L1 where L1: "kinv {t} ?s1 L1"
    "\<And>q. q \<noteq> TaskQ t \<Longrightarrow> wait_hdr q \<Longrightarrow>
       L1 q = (if pwait_queue (tcbs s t) = Some q then map_option (remove1 (TaskQ t)) (L q) else L q)"
    "L1 TimeoutL = L TimeoutL"
    using wait_leave [OF sinvD(1) [OF i] t] by metis
  obtain L' where L': "kinv ({t} - {t}) (snd (task_wait_complete (Some t) False ?s1)) L'" "same_waits L1 L'"
    "L' TimeoutL = map_option (remove1 (TimerQ t)) (L TimeoutL)"
    using task_wait_complete_ok [OF L1(1)] t L1(3) by auto
  obtain m b nx where sh: "task_wait_complete (Some t) True s =
     (task_state (tcbs s t) AND TSK_STATE_SUSPEND = 0,
      s\<lparr>mem := m, tn_ready_to_run_bmp := b, tn_next_task_to_run := nx,
        tcbs := (tcbs s)(t := wake_tcb (tcbs s t))\<rparr>)"
    and nx: "task_state (tcbs s t) AND TSK_STATE_SUSPEND = 0 \<or> nx = tn_next_task_to_run s"
    using task_wait_complete_shape by blast
  define s' where "s' = s\<lparr>mem := m, tn_ready_to_run_bmp := b, tn_next_task_to_run := nx,
        tcbs := (tcbs s)(t := wake_tcb (tcbs s t))\<rparr>"
  have LL: "L' q = (if pwait_queue (tcbs s t) = Some q then map_option (remove1 (TaskQ t)) (L q) else L q)"
    if "wait_hdr q" for q
    using same_waitsD [OF L'(2) that] L1(2) [OF _ that] that by (cases q) auto
  have ti: "t \<noteq> tn_idle_task" using sinvD(6) [OF i] t by (auto simp: system_tasks_def waiting_def)
  have tt: "task_state (wake_tcb (tcbs s t)) = TSK_STATE_RUNNABLE" if "t = tn_timer_task"
    using sinvD(6) [OF i] t that by (auto simp: system_tasks_def waiting_def wake_tcb_def)
  have "inv_objs s' L'"
  proof (rule inv_objs_upd)
    show "inv_objs s L" using i by (simp add: sinv_def)
    show "system_tasks ((tcbs s)(t := wake_tcb (tcbs s t)))"
      using sinvD(6) [OF i] ti tt by (intro system_tasks_upd) auto
    show "L' q \<noteq> None" if "live s q" for q
      using LL [OF live_wait_hdr [OF that]] sinvD(3) [OF i that] by auto
  qed (use sinvD(4) [OF i] in \<open>auto simp: s'_def same_objects_def wait_ok_idle dque_sides_idle\<close>)
  moreover have "kinv {} s' L'" using L'(1) sh by (simp add: task_wait_complete_remove s'_def)
  ultimately show thesis using that [OF sh [folded s'_def] s'_def nx] LL L'(3) by (simp add: sinv_def)
qed

section \<open>Releasing all waiters\<close>

text \<open>Only the scheduler's variables, the task control blocks and the interrupt mask differ.\<close>

definition sched_only :: "kstate \<Rightarrow> kstate \<Rightarrow> bool" where
  "sched_only s s' \<longleftrightarrow> (\<exists>m b n T i. s' = s\<lparr>mem := m, tn_ready_to_run_bmp := b,
     tn_next_task_to_run := n, tcbs := T, irq_disabled := i\<rparr>)"

lemma sched_only_iff:
  "sched_only s s' \<longleftrightarrow> same_objects s s' \<and> mutexes s' = mutexes s \<and> tn_tslice_ticks s' = tn_tslice_ticks s \<and>
     tn_created_tasks_qty s' = tn_created_tasks_qty s \<and> tn_system_state s' = tn_system_state s \<and>
     tn_curr_run_task s' = tn_curr_run_task s \<and>
     tn_context_switch_request s' = tn_context_switch_request s \<and> tn_int_counter s' = tn_int_counter s \<and>
     tn_idle_count s' = tn_idle_count s \<and> tn_task_exit_addr s' = tn_task_exit_addr s \<and> stk_mem s' = stk_mem s"
  (is "_ = ?R")
proof
  assume ?R
  then have "s' = s\<lparr>mem := mem s', tn_ready_to_run_bmp := tn_ready_to_run_bmp s',
     tn_next_task_to_run := tn_next_task_to_run s', tcbs := tcbs s', irq_disabled := irq_disabled s'\<rparr>"
    by (intro kstate.equality) (simp_all add: same_objects_def)
  then show "sched_only s s'" unfolding sched_only_def by blast
qed (auto simp: sched_only_def same_objects_def)

lemma sched_only_refl [simp]: "sched_only s s"
  by (simp add: sched_only_iff same_objects_def)

lemma sched_only_trans: "sched_only s s' \<Longrightarrow> sched_only s' s'' \<Longrightarrow> sched_only s s''"
  by (simp add: sched_only_iff same_objects_def)

lemma sched_only_objects: "sched_only s s' \<Longrightarrow> same_objects s s'"
  by (simp add: sched_only_iff)

definition irq_off :: "bool \<Rightarrow> kstate \<Rightarrow> bool \<times> kstate" where
  "irq_off sr s = (if \<not> irq_disabled s then tn_disable_interrupt s else (sr, s))"

lemma irq_off_state: "irq_off sr s = (sr', s1) \<Longrightarrow> s1 = s\<lparr>irq_disabled := True\<rparr>"
  by (auto simp: irq_off_def tn_disable_interrupt_def split: if_splits)

lemma delete_waiters_step:
  assumes "L q = Some (n # xs)" "sinv s L"
  shows "delete_waiters q sr s =
     (case irq_off sr s of (sr, s) \<Rightarrow>
        do { (task, s) \<leftarrow> wait_queue_pop q s;
             let (woken, s) = task_wait_complete task False s;
             if woken
             then do { t \<leftarrow> task;
                       Some (True, sr, tn_enable_interrupt sr
                              (upd_tcb t (\<lambda>c. c\<lparr>task_wait_rc := TERR_DLT\<rparr>) s)) }
             else delete_waiters q sr s })"
  using sinv_empty [OF assms(2,1)]
  by (subst delete_waiters.simps) (simp add: irq_off_def)

text \<open>Tasks that waited may have been released, the others are as before.\<close>

definition only_woken :: "(tid \<Rightarrow> tn_tcb) \<Rightarrow> (tid \<Rightarrow> tn_tcb) \<Rightarrow> bool" where
  "only_woken T T' \<longleftrightarrow> (\<forall>t. T' t = T t \<or> waiting (T t) \<and>
     (task_state (T' t) = TSK_STATE_RUNNABLE \<or> task_state (T' t) = TSK_STATE_SUSPEND))"

lemma only_woken_refl [simp]: "only_woken T T"
  by (simp add: only_woken_def)

lemma only_woken_trans:
  assumes "only_woken T T'" "only_woken T' T''" shows "only_woken T T''"
  unfolding only_woken_def
proof
  fix t
  have "T' t = T t \<or> \<not> waiting (T' t) \<and> waiting (T t) \<and>
     (task_state (T' t) = TSK_STATE_RUNNABLE \<or> task_state (T' t) = TSK_STATE_SUSPEND)"
    using assms(1) by (auto simp: only_woken_def waiting_def)
  moreover have "T'' t = T' t \<or> waiting (T' t) \<and>
     (task_state (T'' t) = TSK_STATE_RUNNABLE \<or> task_state (T'' t) = TSK_STATE_SUSPEND)"
    using assms(2) by (simp add: only_woken_def)
  ultimately show "T'' t = T t \<or> waiting (T t) \<and>
     (task_state (T'' t) = TSK_STATE_RUNNABLE \<or> task_state (T'' t) = TSK_STATE_SUSPEND)" by auto
qed

lemma only_woken_wake: "waiting (T t) \<Longrightarrow> task_state c = task_state (wake_tcb c') \<Longrightarrow> only_woken T (T(t := c))"
  by (simp add: only_woken_def wake_tcb_def)

lemma only_wokenD:
  assumes "only_woken T T'"
  shows "task_state (T t) = TSK_STATE_RUNNABLE \<Longrightarrow> T' t = T t"
    "task_state (T' t) = TSK_STATE_DORMANT \<Longrightarrow> T' t = T t"
proof -
  have "T' t = T t \<or> waiting (T t) \<and>
     (task_state (T' t) = TSK_STATE_RUNNABLE \<or> task_state (T' t) = TSK_STATE_SUSPEND)"
    using assms by (simp add: only_woken_def)
  then show "task_state (T t) = TSK_STATE_RUNNABLE \<Longrightarrow> T' t = T t"
    "task_state (T' t) = TSK_STATE_DORMANT \<Longrightarrow> T' t = T t" by (auto simp: waiting_def)
qed

lemma delete_waiters_ok:
  assumes "sinv s L" "live s q" "L q = Some xs"
  shows "\<exists>sw sr' s' L'. delete_waiters q sr s = Some (sw, sr', s') \<and> sinv s' L' \<and> sched_only s s' \<and>
     only_woken (tcbs s) (tcbs s') \<and>
     (\<not> sw \<longrightarrow> L' q = Some [] \<and> tn_next_task_to_run s' = tn_next_task_to_run s)"
  using assms
proof (induction xs arbitrary: s L sr)
  case Nil
  then have "delete_waiters q sr s = Some (False, sr, s)"
    using sinv_empty [OF Nil(1,3)] by (subst delete_waiters.simps) simp
  with Nil show ?case by auto
next
  case (Cons n xs)
  have w: "wait_hdr q" using Cons.prems(2) by (rule live_wait_hdr)
  obtain sr1 s1 where s1: "irq_off sr s = (sr1, s1)" by fastforce
  note s1' = irq_off_state [OF s1]
  have i1: "sinv s1 L" using Cons.prems(1) by (simp add: s1')
  obtain t s2 L2 m b nx where t: "n = TaskQ t" "waiting (tcbs s1 t)" "pwait_queue (tcbs s1 t) = Some q"
    "wait_queue_pop q s1 = Some (Some t, on_mem (queue_remove_entry (TaskQ t)) s1)"
    "task_wait_complete (Some t) False (upd_tcb t id (on_mem (queue_remove_entry (TaskQ t)) s1)) =
       (task_state (tcbs s1 t) AND TSK_STATE_SUSPEND = 0, s2)"
    "s2 = s1\<lparr>mem := m, tn_ready_to_run_bmp := b, tn_next_task_to_run := nx,
            tcbs := (tcbs s1)(t := wake_tcb (id (tcbs s1 t)))\<rparr>"
    "task_state (tcbs s1 t) AND TSK_STATE_SUSPEND = 0 \<or> nx = tn_next_task_to_run s1"
    "sinv s2 L2" "\<And>q'. wait_hdr q' \<Longrightarrow> L2 q' = (if q' = q then Some xs else L q')"
    by (rule wake_head [OF i1 w Cons.prems(3), of id]) (simp, rule that)
  have [simp]: "upd_tcb t id s' = s'" for s' by (simp add: upd_tcb_def)
  have so: "sched_only s s2" unfolding t(6) s1' by (simp add: sched_only_iff same_objects_def)
  have T: "only_woken (tcbs s) (tcbs s2)" using t(2) unfolding t(6) s1' by (simp add: only_woken_wake)
  show ?case
  proof (cases "task_state (tcbs s1 t) AND TSK_STATE_SUSPEND = 0")
    case True
    let ?s3 = "upd_tcb t (\<lambda>c. c\<lparr>task_wait_rc := TERR_DLT\<rparr>) s2"
    have "sinv ?s3 L2" using t(6,8) by (subst sinv_upd_running) (auto simp: tcb_view_def)
    moreover have "delete_waiters q sr s = Some (True, sr1, tn_enable_interrupt sr1 ?s3)"
      using delete_waiters_step [OF Cons.prems(3,1), of sr] s1 t(4,5) True by simp
    moreover have "sched_only s (tn_enable_interrupt sr1 ?s3)"
      using so by (simp add: sched_only_iff same_objects_def tn_enable_interrupt_def)
    moreover have "only_woken (tcbs s) (tcbs (tn_enable_interrupt sr1 ?s3))"
      using t(2) unfolding t(6) s1' tn_enable_interrupt_def by (simp add: only_woken_wake)
    ultimately show ?thesis by (metis sinv_enable)
  next
    case False
    have l2: "live s2 q" using Cons.prems(2) same_objectsD(1) [OF sched_only_objects [OF so]] by simp
    obtain sw sr' s' L' where IH: "delete_waiters q sr1 s2 = Some (sw, sr', s')" "sinv s' L'" "sched_only s2 s'"
       "only_woken (tcbs s2) (tcbs s')" "\<not> sw \<Longrightarrow> L' q = Some [] \<and> tn_next_task_to_run s' = tn_next_task_to_run s2"
      using Cons.IH [OF t(8) l2, of sr1] t(9) [OF w] by auto
    have "delete_waiters q sr s = Some (sw, sr', s')"
      using delete_waiters_step [OF Cons.prems(3,1), of sr] s1 t(4,5) False IH(1) by simp
    moreover note only_woken_trans [OF T IH(4)]
    moreover have "tn_next_task_to_run s2 = tn_next_task_to_run s" using False t(6,7) s1' by simp
    ultimately show ?thesis using IH(2,5) sched_only_trans [OF so IH(3)] by auto
  qed
qed

end
