(* ===== verification/Service.thy ===== *)
theory Service
  imports System_Inv
begin

text \<open>
  The contract every kernel service satisfies, as a locale per kind of caller: services of
  tasks (\<open>kernel_service\<close>), those the start-up code may also call (\<open>init_service\<close>), and those
  of interrupt handlers (\<open>isr_service\<close>). A service never faults, keeps the system invariant,
  and leaves its caller runnable unless it ends in a context switch; the consequences that
  the whole system needs are proved once here.
\<close>

section \<open>Callers\<close>

definition running :: "kstate \<Rightarrow> bool" where
  "running s \<longleftrightarrow> (\<exists>t. tn_curr_run_task s = Some t \<and> task_state (tcbs s t) = TSK_STATE_RUNNABLE)"

text \<open>A task of the application is running, not one of the two system tasks.\<close>

definition user_running :: "kstate \<Rightarrow> bool" where
  "user_running s \<longleftrightarrow> (\<exists>t. tn_curr_run_task s = Some t \<and> task_state (tcbs s t) = TSK_STATE_RUNNABLE \<and>
     t \<noteq> tn_timer_task \<and> t \<noteq> tn_idle_task)"

lemma user_running_running: "user_running s \<Longrightarrow> running s"
  by (auto simp: user_running_def running_def)

text \<open>There is a current task, and it is not dormant: true also between the end of a service that
  blocks its caller and the context switch.\<close>

definition has_current :: "kstate \<Rightarrow> bool" where
  "has_current s \<longleftrightarrow> (\<exists>t. tn_curr_run_task s = Some t \<and> task_state (tcbs s t) \<noteq> TSK_STATE_DORMANT)"

lemma running_has_current: "running s \<Longrightarrow> has_current s"
  by (auto simp: running_def has_current_def)

text \<open>The running task is the one the scheduler has chosen.\<close>

definition scheduled :: "kstate \<Rightarrow> bool" where
  "scheduled s \<longleftrightarrow> tn_curr_run_task s = tn_next_task_to_run s"

text \<open>What happens when a service is done: it returns, or the processor switches.\<close>

definition after_call :: "kret \<times> kstate \<Rightarrow> kstate" where
  "after_call = (\<lambda>(r, s). case r of RC _ \<Rightarrow> s | _ \<Rightarrow> tn_switch_context s)"

definition call_ok :: "kstate \<Rightarrow> (kret \<times> kstate) option \<Rightarrow> bool" where
  "call_ok s res \<longleftrightarrow> (\<exists>r s'. res = Some (r, s') \<and> system_inv s' \<and>
     tn_curr_run_task s' = tn_curr_run_task s \<and> has_current s' \<and>
     (\<forall>c. r = RC c \<longrightarrow> running s' \<and> (scheduled s \<longrightarrow> scheduled s')))"

definition icall_ok :: "kstate \<Rightarrow> (int \<times> kstate) option \<Rightarrow> bool" where
  "icall_ok s res \<longleftrightarrow> (\<exists>rc s'. res = Some (rc, s') \<and> system_inv s' \<and>
     tn_curr_run_task s' = tn_curr_run_task s \<and>
     (\<forall>t. task_state (tcbs s t) = TSK_STATE_RUNNABLE \<longrightarrow> task_state (tcbs s' t) = TSK_STATE_RUNNABLE) \<and>
     (\<forall>t. task_state (tcbs s' t) = TSK_STATE_DORMANT \<longrightarrow> task_state (tcbs s t) = TSK_STATE_DORMANT) \<and>
     (tn_context_switch_request s' \<or> tn_next_task_to_run s' = tn_next_task_to_run s \<and>
        tn_context_switch_request s' = tn_context_switch_request s))"

text \<open>A service that stores a value through a pointer of its caller returns that value too.\<close>

definition drop_out :: "('r \<times> 'v \<times> kstate) option \<Rightarrow> ('r \<times> kstate) option" where
  "drop_out = map_option (\<lambda>(r, _, s). (r, s))"

lemma drop_out_simps [simp]: "drop_out (Some (r, v, s)) = Some (r, s)" "drop_out None = None"
  by (simp_all add: drop_out_def)

text \<open>The call reports an error and leaves the state alone.\<close>

definition rejected :: "(kret \<times> kstate) option \<Rightarrow> kstate \<Rightarrow> bool" where
  "rejected r s \<longleftrightarrow> (\<exists>rc. r = Some (RC rc, s) \<and> rc \<noteq> TERR_NO_ERR)"

lemma call_okI:
  "res = Some (r, s') \<Longrightarrow> sinv s' L \<Longrightarrow> tn_curr_run_task s' = tn_curr_run_task s \<Longrightarrow> has_current s' \<Longrightarrow>
   (\<And>c. r = RC c \<Longrightarrow> running s') \<Longrightarrow>
   (\<And>c. r = RC c \<Longrightarrow> scheduled s \<Longrightarrow> scheduled s') \<Longrightarrow> call_ok s res"
  unfolding call_ok_def system_inv_def by blast

lemma icall_okI:
  "res = Some (rc, s') \<Longrightarrow> sinv s' L \<Longrightarrow> tn_curr_run_task s' = tn_curr_run_task s \<Longrightarrow>
   (\<And>t. task_state (tcbs s t) = TSK_STATE_RUNNABLE \<Longrightarrow> task_state (tcbs s' t) = TSK_STATE_RUNNABLE) \<Longrightarrow>
   (\<And>t. task_state (tcbs s' t) = TSK_STATE_DORMANT \<Longrightarrow> task_state (tcbs s t) = TSK_STATE_DORMANT) \<Longrightarrow>
   tn_context_switch_request s' \<or> tn_next_task_to_run s' = tn_next_task_to_run s \<and>
     tn_context_switch_request s' = tn_context_switch_request s \<Longrightarrow> icall_ok s res"
  unfolding icall_ok_def system_inv_def by blast

text \<open>A service that changes nothing.\<close>

lemma call_ok_error:
  "system_inv s \<Longrightarrow> running s \<Longrightarrow> call_ok s (Some (RC c, s))"
  by (auto simp: call_ok_def running_has_current)

lemma icall_ok_error: "system_inv s \<Longrightarrow> icall_ok s (Some (c, s))"
  by (auto simp: icall_ok_def)

lemma system_invI: "sinv s L \<Longrightarrow> system_inv s"
  by (auto simp: system_inv_def)

lemma running_cong:
  "tn_curr_run_task s' = tn_curr_run_task s \<Longrightarrow>
   (\<And>t. task_state (tcbs s t) = TSK_STATE_RUNNABLE \<Longrightarrow> task_state (tcbs s' t) = TSK_STATE_RUNNABLE) \<Longrightarrow>
   running s \<Longrightarrow> running s'"
  by (auto simp: running_def)

section \<open>What the invariant gives\<close>

text \<open>There is always a task to run.\<close>

lemma sinv_next:
  assumes "sinv s L"
  obtains n where "tn_next_task_to_run s = Some n" "task_state (tcbs s n) = TSK_STATE_RUNNABLE"
proof (cases "tn_next_task_to_run s")
  case None
  note k = sinvD(1) [OF assms]
  have "home (tcbs s tn_idle_task) = Some (ReadyL 31)"
    using sinvD(6) [OF assms] by (simp add: system_tasks_def home_def)
  then obtain xs where "L (ReadyL 31) = Some xs" "TaskQ tn_idle_task \<in> set xs" using kinv_home [OF k] by blast
  with kinvD(4) [OF k] None show thesis by (auto simp: inv_next_def prio_ok_def)
next
  case (Some n)
  then show thesis using that kinv_next(2) [OF sinvD(1) [OF assms]] by blast
qed

lemma switch_running:
  assumes "system_inv s"
  shows "running (tn_switch_context s)" "scheduled (tn_switch_context s)" "system_inv (tn_switch_context s)"
proof -
  from assms obtain L where i: "sinv s L" by (auto simp: system_inv_def)
  then obtain n where "tn_next_task_to_run s = Some n" "task_state (tcbs s n) = TSK_STATE_RUNNABLE"
    by (rule sinv_next)
  then show "running (tn_switch_context s)" by (cases "tn_curr_run_task s = Some n") (auto simp: running_def tn_switch_context_def)
  show "scheduled (tn_switch_context s)"
    using \<open>tn_next_task_to_run s = Some n\<close> by (simp add: scheduled_def tn_switch_context_def)
  show "system_inv (tn_switch_context s)" using i by (auto simp: system_inv_def)
qed

text \<open>The task chosen to run is the first of the best priority among all runnable tasks.\<close>

lemma sinv_best:
  assumes "sinv s L" "tn_next_task_to_run s = Some n" "task_state (tcbs s t) = TSK_STATE_RUNNABLE"
  shows "priority (tcbs s n) \<le> priority (tcbs s t)"
proof (rule ccontr)
  assume a: "\<not> ?thesis"
  note k = sinvD(1) [OF assms(1)]
  have h: "home (tcbs s t) = Some (ReadyL (priority (tcbs s t)))" using assms(3) by (simp add: home_def)
  then obtain xs where xs: "L (ReadyL (priority (tcbs s t))) = Some xs" "TaskQ t \<in> set xs"
    using kinv_home [OF k] by blast
  have "0 \<le> priority (tcbs s t)" using tcb_ok_runnable [OF kinvD(7) [OF k] assms(3)] by (simp add: prio_ok_def)
  with kinv_next(5) [OF k assms(2), of "priority (tcbs s t)"] a xs show False by simp
qed

section \<open>Steps on objects\<close>

text \<open>An object changes, no task does.\<close>

lemma sinv_change_objects:
  assumes i: "sinv s L"
    and eq: "mem s' = mem s" "tn_ready_to_run_bmp s' = tn_ready_to_run_bmp s"
      "tn_next_task_to_run s' = tn_next_task_to_run s" "tcbs s' = tcbs s"
      "tn_enable_switch_context s' = tn_enable_switch_context s"
    and w: "\<And>t. waiting (tcbs s t) \<Longrightarrow> wait_ok s' (tcbs s t)"
    and l: "\<And>q. live s' q \<Longrightarrow> L q \<noteq> None" and o: "objects_wf s'"
  shows "sinv s' L"
proof -
  have "kinv {} s' L = kinv {} s L" by (rule kinv_cong) (simp_all add: eq)
  moreover have "wait_ok s' (tcbs s t)" for t using w [of t] by (cases "waiting (tcbs s t)") (auto simp: wait_ok_def)
  ultimately show ?thesis using sinvD [OF i] l o by (auto simp: sinv_def inv_objs_def eq)
qed

text \<open>The wait queue of an object that does not exist is initialised.\<close>

lemma sinv_reset_queue:
  assumes i: "sinv s L" and q: "wait_hdr q" "\<not> live s q"
  shows "sinv (on_mem (queue_reset q) s) (L(q \<mapsto> []))"
proof -
  note k = sinvD(1) [OF i]
  have none: "\<not> in_q L q (TaskQ t)" for t
    using kinv_in_q [OF k] home_wait [OF q(1)] sinvD(2) [OF i, of t] q(2)
    by (fastforce simp: in_q_def wait_ok_def)
  have nl: "\<not> linked L q"
    using q(1) inv_lists_elem [OF kinvD(2) [OF k], of _ _ q]
    by (cases q) (auto simp: linked_def elem_ok_def)
  have km: "kmem (queue_reset q (mem s)) (L(q \<mapsto> [])) (tcbs s)"
    using q(1) by (intro kmem_reset [OF kinv_kmem [OF k] nl]) (cases q, auto simp: own_node_def)
  have nq: "q \<noteq> TimeoutL" "\<And>p. q \<noteq> ReadyL p" "\<And>t. q \<noteq> TaskQ t" using q(1) by auto
  have in_eq: "in_q (L(q \<mapsto> [])) q' (TaskQ t) \<longleftrightarrow> in_q L q' (TaskQ t)" for q' t
    using none [of t] by (auto simp: in_q_def)
  have "inv_place {} (tcbs s) (L(q \<mapsto> []))"
    using kinvD(5) [OF k] nq(3) [symmetric] unfolding inv_place_def in_eq by simp
  with km have "kinv {} (on_mem (queue_reset q) s) (L(q \<mapsto> []))"
    using kinvD [OF k] nq by (intro kinvI) (auto simp: kmem_def inv_bmp_other inv_next_other inv_timer_other)
  moreover have "inv_objs (on_mem (queue_reset q) s) (L(q \<mapsto> []))"
  proof -
    have so: "same_objects s (on_mem (queue_reset q) s)" by (simp add: same_objects_def)
    show ?thesis using i by (auto simp: sinv_def inv_objs_def same_objectsD [OF so])
  qed
  ultimately show ?thesis by (simp add: sinv_def)
qed

text \<open>A task that is in no object's wait queue is not affected by what happens to objects.\<close>

lemma sinv_no_waiter:
  assumes "sinv s L" "wait_hdr q" "L q = Some []" "waiting (tcbs s t)"
  shows "pwait_queue (tcbs s t) \<noteq> Some q"
  using sinv_waiter [OF assms(1-3), of t] assms(4) by auto

lemma sinv_wait_cause:
  "sinv s L \<Longrightarrow> waiting (tcbs s t) \<Longrightarrow> pwait_queue (tcbs s t) = Some q \<Longrightarrow>
   live s q \<and> wait_cause s (tcbs s t) q"
  using sinvD(2) [of s L t] by (simp add: wait_ok_def)

section \<open>How services end\<close>

text \<open>The state \<open>s\<close> in which a service does its work agrees with the one it was called in on
  who runs, who is chosen and who is runnable.\<close>

definition same_sched :: "kstate \<Rightarrow> kstate \<Rightarrow> bool" where
  "same_sched s0 s \<longleftrightarrow> tn_curr_run_task s = tn_curr_run_task s0 \<and>
     tn_next_task_to_run s = tn_next_task_to_run s0 \<and>
     tn_context_switch_request s = tn_context_switch_request s0 \<and>
     (\<forall>t. task_state (tcbs s0 t) = TSK_STATE_RUNNABLE \<longrightarrow> task_state (tcbs s t) = TSK_STATE_RUNNABLE) \<and>
     (\<forall>t. task_state (tcbs s t) = TSK_STATE_DORMANT \<longrightarrow> task_state (tcbs s0 t) = TSK_STATE_DORMANT)"

lemma same_sched_refl [simp]: "same_sched s s"
  by (simp add: same_sched_def)

lemma same_sched_irq [simp]: "same_sched s0 (s\<lparr>irq_disabled := b\<rparr>) = same_sched s0 s"
  by (simp add: same_sched_def)

lemma same_sched_enable [simp]: "same_sched s0 (tn_enable_interrupt sr s) = same_sched s0 s"
  by (simp add: tn_enable_interrupt_def)

lemma call_ok_RC:
  assumes "sinv s L" "same_sched s0 s" "running s0"
  shows "call_ok s0 (Some (RC c, s))"
proof -
  have "running s" using assms(2,3) by (auto simp: same_sched_def intro: running_cong)
  then show ?thesis
    using assms(2) by (intro call_okI [OF refl assms(1)])
      (auto simp: same_sched_def scheduled_def running_has_current)
qed

lemma call_ok_SWITCH:
  assumes "sinv s L" "tn_curr_run_task s = tn_curr_run_task s0" "has_current s" "\<And>c. r \<noteq> RC c"
  shows "call_ok s0 (Some (r, s))"
  using assms(2-4) by (intro call_okI [OF refl assms(1)]) auto

lemma icall_ok_RC: "sinv s L \<Longrightarrow> same_sched s0 s \<Longrightarrow> icall_ok s0 (Some (c, s))"
  by (rule icall_okI [OF refl]) (auto simp: same_sched_def)

lemma wake_rets_ok:
  assumes i: "sinv s' L'" and s: "same_sched s0 s" and t: "waiting (tcbs s t)"
    and s': "s' = s\<lparr>mem := m, tn_ready_to_run_bmp := b, tn_next_task_to_run := nx, tcbs := (tcbs s)(t := c)\<rparr>"
    and c0: "task_state c \<noteq> TSK_STATE_DORMANT"
    and nx: "woken \<or> nx = tn_next_task_to_run s"
  shows "running s0 \<Longrightarrow> call_ok s0 (Some (wake_ret sr (woken, s')))"
    "icall_ok s0 (Some (wake_iret (woken, s')))"
proof -
  have r: "task_state (tcbs s' t') = TSK_STATE_RUNNABLE" if "task_state (tcbs s0 t') = TSK_STATE_RUNNABLE" for t'
    using that s t unfolding s' by (auto simp: same_sched_def waiting_def)
  have d: "task_state (tcbs s0 t') = TSK_STATE_DORMANT" if "task_state (tcbs s' t') = TSK_STATE_DORMANT" for t'
    using that s c0 unfolding s' by (cases "t' = t") (simp_all add: same_sched_def)
  have ss: "same_sched s0 s'" if "\<not> woken"
  proof -
    have "tn_curr_run_task s' = tn_curr_run_task s0" "tn_next_task_to_run s' = tn_next_task_to_run s0"
      "tn_context_switch_request s' = tn_context_switch_request s0"
      using that nx s unfolding s' by (auto simp: same_sched_def)
    with r d show ?thesis unfolding same_sched_def by blast
  qed
  have c: "tn_curr_run_task s' = tn_curr_run_task s0" using s unfolding s' by (simp add: same_sched_def)
  show "call_ok s0 (Some (wake_ret sr (woken, s')))" if "running s0"
  proof (cases woken)
    case True
    have "has_current s'" using running_cong [OF c r that] by (rule running_has_current)
    with True show ?thesis using i c
      by (auto simp: wake_ret_def tn_enable_interrupt_def has_current_def intro!: call_ok_SWITCH [where L = L'])
  next
    case False
    then show ?thesis using i ss that by (auto simp: wake_ret_def intro!: call_ok_RC [where L = L'])
  qed
  show "icall_ok s0 (Some (wake_iret (woken, s')))"
  proof (cases woken)
    case True
    then show ?thesis using i c r d by (auto simp: wake_iret_def intro!: icall_okI [OF refl, where L = L'])
  next
    case False
    then show ?thesis using i ss by (auto simp: wake_iret_def intro!: icall_ok_RC [where L = L'])
  qed
qed

lemma wake_calls_ok:
  assumes i: "sinv s L" and s: "same_sched s0 s" and q: "wait_hdr q" "L q = Some (n # xs)"
    and f: "\<And>c. tcb_view (f c) = tcb_view c"
  shows "\<exists>t s1. wait_queue_pop q s = Some (Some t, s1) \<and> tcbs s1 = tcbs s \<and> n = TaskQ t \<and>
    (running s0 \<longrightarrow> call_ok s0 (Some (wake_ret sr (task_wait_complete (Some t) False (upd_tcb t f s1))))) \<and>
    icall_ok s0 (Some (wake_iret (task_wait_complete (Some t) False (upd_tcb t f s1))))"
proof -
  obtain t s' L' m b nx where t: "n = TaskQ t" "waiting (tcbs s t)" "pwait_queue (tcbs s t) = Some q"
    "wait_queue_pop q s = Some (Some t, on_mem (queue_remove_entry (TaskQ t)) s)"
    "task_wait_complete (Some t) False (upd_tcb t f (on_mem (queue_remove_entry (TaskQ t)) s)) =
       (task_state (tcbs s t) AND TSK_STATE_SUSPEND = 0, s')"
    "s' = s\<lparr>mem := m, tn_ready_to_run_bmp := b, tn_next_task_to_run := nx,
            tcbs := (tcbs s)(t := wake_tcb (f (tcbs s t)))\<rparr>"
    "task_state (tcbs s t) AND TSK_STATE_SUSPEND = 0 \<or> nx = tn_next_task_to_run s"
    "sinv s' L'" "\<And>q'. wait_hdr q' \<Longrightarrow> L' q' = (if q' = q then Some xs else L q')"
    by (rule wake_head [OF i q f]) (rule that)
  have "task_state (wake_tcb (f (tcbs s t))) \<noteq> TSK_STATE_DORMANT" by (simp add: wake_tcb_def)
  note ok = wake_rets_ok [OF t(8) s t(2,6) this t(7)]
  with t(1,4,5) show ?thesis by auto
qed

text \<open>A service that may have released several tasks.\<close>

lemma wake_many_ok:
  assumes i: "sinv s' L'" and ow: "only_woken (tcbs s0) (tcbs s')"
    and c: "tn_curr_run_task s' = tn_curr_run_task s0" "tn_context_switch_request s' = tn_context_switch_request s0"
    and n: "wc \<or> tn_next_task_to_run s' = tn_next_task_to_run s0"
  shows "running s0 \<Longrightarrow> call_ok s0 (Some (wake_ret sr (wc, s')))" "icall_ok s0 (Some (wake_iret (wc, s')))"
proof -
  have st: "task_state (tcbs s0 t) = TSK_STATE_RUNNABLE \<Longrightarrow> task_state (tcbs s' t) = TSK_STATE_RUNNABLE"
    "task_state (tcbs s' t) = TSK_STATE_DORMANT \<Longrightarrow> task_state (tcbs s0 t) = TSK_STATE_DORMANT" for t
    using only_wokenD [OF ow, of t] by auto
  show "call_ok s0 (Some (wake_ret sr (wc, s')))" if r: "running s0"
  proof -
    have "running s'" using c(1) st(1) r by (rule running_cong)
    with i c n show ?thesis unfolding wake_ret_def prod.case
      by (intro call_okI [OF refl, where L = L'])
         (auto simp: tn_enable_interrupt_def running_def has_current_def scheduled_def split: if_splits)
  qed
  show "icall_ok s0 (Some (wake_iret (wc, s')))"
    unfolding wake_iret_def prod.case using i c n st by (intro icall_okI [OF refl, where L = L']) (auto split: if_splits)
qed

text \<open>The state in which a service has disabled interrupts.\<close>

lemma call_ok_from:
  assumes "call_ok s r" "same_sched s0 s"
  shows "call_ok s0 r"
  using assms by (auto simp: call_ok_def same_sched_def scheduled_def)

lemma icall_ok_from:
  assumes "icall_ok s r" "same_sched s0 s"
  shows "icall_ok s0 r"
proof -
  obtain rc s' where r: "r = Some (rc, s')" "system_inv s'" "tn_curr_run_task s' = tn_curr_run_task s"
    "\<forall>t. task_state (tcbs s t) = TSK_STATE_RUNNABLE \<longrightarrow> task_state (tcbs s' t) = TSK_STATE_RUNNABLE"
    "\<forall>t. task_state (tcbs s' t) = TSK_STATE_DORMANT \<longrightarrow> task_state (tcbs s t) = TSK_STATE_DORMANT"
    "tn_context_switch_request s' \<or> tn_next_task_to_run s' = tn_next_task_to_run s \<and>
        tn_context_switch_request s' = tn_context_switch_request s"
    using assms(1) unfolding icall_ok_def by blast
  have s: "tn_curr_run_task s = tn_curr_run_task s0" "tn_next_task_to_run s = tn_next_task_to_run s0"
    "tn_context_switch_request s = tn_context_switch_request s0"
    "\<forall>t. task_state (tcbs s0 t) = TSK_STATE_RUNNABLE \<longrightarrow> task_state (tcbs s t) = TSK_STATE_RUNNABLE"
    "\<forall>t. task_state (tcbs s t) = TSK_STATE_DORMANT \<longrightarrow> task_state (tcbs s0 t) = TSK_STATE_DORMANT"
    using assms(2) unfolding same_sched_def by blast+
  show ?thesis unfolding icall_ok_def
    by (intro exI [of _ rc] exI [of _ s'] conjI r(1,2)) (use r(3-6) s in \<open>simp, blast, blast, simp\<close>)
qed

lemma block_call_ok:
  assumes i: "sinv s L" and t: "tn_curr_run_task s = Some t" "task_state (tcbs s t) = TSK_STATE_RUNNABLE"
      "t \<noteq> tn_idle_task" "t \<noteq> tn_timer_task"
    and c0: "tn_curr_run_task s = tn_curr_run_task s0" and r: "\<And>c. r \<noteq> RC c"
    and q: "live s q" "L q = Some ys" "wait_cause s (wait_tcb (Some q) reason timeout (tcbs s t)) q"
    and ds: "dque_sides ((tcbs s)(t := wait_tcb (Some q) reason timeout (tcbs s t)))"
  obtains s' where "task_curr_to_wait_action (Some q) reason timeout s = Some s'"
    "call_ok s0 (Some (r, tn_enable_interrupt sr s'))"
proof -
  obtain s' L' m b n where s': "task_curr_to_wait_action (Some q) reason timeout s = Some s'"
    "s' = s\<lparr>mem := m, tn_ready_to_run_bmp := b, tn_next_task_to_run := n,
            tcbs := (tcbs s)(t := wait_tcb (Some q) reason timeout (tcbs s t))\<rparr>"
    "sinv s' L'"
    by (rule block_current [OF i t(1-3) _ _ _ ds, of ys]) (use t(4) q in auto)
  show thesis
    by (rule that [OF s'(1)], rule call_ok_SWITCH [where L = L'])
       (use s' c0 r t(1) in \<open>auto simp: tn_enable_interrupt_def has_current_def wait_tcb_def\<close>)
qed

lemma dque_sides_block:
  "dque_sides T \<Longrightarrow> (\<And>i. q \<noteq> DqSendQ i) \<Longrightarrow> (\<And>i. q \<noteq> DqRecvQ i) \<Longrightarrow>
   dque_sides (T(t := wait_tcb (Some q) r timeout c))"
  by (auto simp: dque_sides_def wait_tcb_def)

text \<open>The segment of a deletion that ends in a context switch.\<close>

lemma only_woken_running:
  assumes "only_woken (tcbs s) (tcbs s')" "tn_curr_run_task s' = tn_curr_run_task s" "running s"
  shows "running s'"
  using assms(2) _ assms(3) by (rule running_cong) (simp add: only_wokenD(1) [OF assms(1)])

lemma only_woken_sched:
  assumes "only_woken (tcbs s) (tcbs s')" "sched_only s s'" "tn_next_task_to_run s' = tn_next_task_to_run s"
  shows "same_sched s s'"
  using assms(2,3) only_wokenD [OF assms(1)] unfolding same_sched_def sched_only_iff by metis

lemma delete_segment_ok:
  assumes i: "sinv s L" and run: "running s" and lv: "live s q"
    and gone: "\<And>s' L'. sinv s' L' \<Longrightarrow> L' q = Some [] \<Longrightarrow> sinv (gone s') L'"
    and sched: "\<And>s'. same_sched s (gone s') = same_sched s s'"
  shows "call_ok s (do { (sw, sr, s) \<leftarrow> delete_waiters q sr s;
           if sw then Some (SWITCH_LOOP, s)
           else let (sr, s) = (if \<not> irq_disabled s then tn_disable_interrupt s else (sr, s));
                    s = gone s
                in Some (RC TERR_NO_ERR, tn_enable_interrupt sr s) })"
proof -
  obtain xs where "L q = Some xs" using sinv_queue [OF i lv] by blast
  then obtain sw sr' s' L' where d: "delete_waiters q sr s = Some (sw, sr', s')" "sinv s' L'"
     "sched_only s s'" "only_woken (tcbs s) (tcbs s')"
     "\<not> sw \<Longrightarrow> L' q = Some [] \<and> tn_next_task_to_run s' = tn_next_task_to_run s"
    using delete_waiters_ok [OF i lv] by blast
  show ?thesis
  proof (cases sw)
    case True
    have "has_current s'"
      using only_woken_running [OF d(4) _ run] d(3) by (simp add: sched_only_iff running_has_current)
    with True d show ?thesis by (auto simp: sched_only_iff intro!: call_ok_SWITCH [where L = L'])
  next
    case False
    obtain sr2 s2 where s2: "irq_off sr' s' = (sr2, s2)" by fastforce
    note e = irq_off_state [OF s2]
    have "sinv (gone s2) L'" using d(2,5) False by (intro gone) (simp_all add: e)
    moreover have "same_sched s s'" using only_woken_sched [OF d(4,3)] d(5) [OF False] by simp
    ultimately show ?thesis using False d(1) s2 run
      by (auto simp: irq_off_def [symmetric] e sched intro!: call_ok_RC [where L = L'])
  qed
qed

section \<open>The contracts\<close>

text \<open>\<open>pre\<close> is what the caller must see to, beyond being a task of the application: that it does
  not aim at a system task, that a block it gives back is one it was given, \<dots>\<close>

locale kernel_service =
  fixes pre :: "kstate \<Rightarrow> bool" and call :: "kstate \<Rightarrow> (kret \<times> kstate) option"
  assumes service: "system_inv s \<Longrightarrow> user_running s \<Longrightarrow> pre s \<Longrightarrow> call_ok s (call s)"
begin

lemma no_fault: "system_inv s \<Longrightarrow> user_running s \<Longrightarrow> pre s \<Longrightarrow> call s \<noteq> None"
  using service [of s] by (auto simp: call_ok_def)

lemma after_inv:
  assumes "system_inv s" "user_running s" "pre s" "scheduled s"
  shows "\<exists>res. call s = Some res \<and> system_inv (after_call res) \<and> running (after_call res) \<and>
    scheduled (after_call res)"
proof -
  from service [OF assms(1-3)] assms(4) obtain r s' where r: "call s = Some (r, s')" "system_inv s'"
    "\<And>c. r = RC c \<Longrightarrow> running s' \<and> scheduled s'" by (auto simp: call_ok_def)
  with switch_running [OF r(2)] show ?thesis by (cases r) (auto simp: after_call_def)
qed

end

locale init_service =
  fixes pre :: "kstate \<Rightarrow> bool" and call :: "kstate \<Rightarrow> (kret \<times> kstate) option"
  assumes init_call: "system_inv s \<Longrightarrow> running s \<Longrightarrow> pre s \<Longrightarrow> call_ok s (call s)"

sublocale init_service \<subseteq> kernel_service pre call
  by unfold_locales (rule init_call, assumption, rule user_running_running)

locale isr_service =
  fixes pre :: "kstate \<Rightarrow> bool" and icall :: "kstate \<Rightarrow> (int \<times> kstate) option"
  assumes iservice: "system_inv s \<Longrightarrow> pre s \<Longrightarrow> icall_ok s (icall s)"
begin

text \<open>
  After the handler the exit code of the interrupt runs the chosen task when a handler asked
  for it, and returns to the interrupted one otherwise.
\<close>

lemma isr_exit:
  assumes "system_inv s" "has_current s" "\<not> tn_context_switch_request s" "tn_int_counter s = 0"
    "pre (irq_enter s)"
    and c: "\<And>rc s'. icall (irq_enter s) = Some (rc, s') \<Longrightarrow> tn_int_counter s' = 1"
  shows "\<exists>rc s1 s2. icall (irq_enter s) = Some (rc, s1) \<and> irq_exit s1 = Some s2 \<and>
    system_inv s2 \<and> has_current s2 \<and> \<not> tn_context_switch_request s2 \<and> tn_int_counter s2 = 0 \<and>
    (running s2 \<and> scheduled s2 \<or>
     tn_curr_run_task s2 = tn_curr_run_task s \<and> \<not> (running s \<and> scheduled s))"
proof -
  have i0: "system_inv (irq_enter s)" using assms(1) by (auto simp: system_inv_def irq_enter_def)
  from iservice [OF i0 assms(5)] obtain rc s' where r: "icall (irq_enter s) = Some (rc, s')" "system_inv s'"
    "tn_curr_run_task s' = tn_curr_run_task s"
    "\<And>t. task_state (tcbs s t) = TSK_STATE_RUNNABLE \<Longrightarrow> task_state (tcbs s' t) = TSK_STATE_RUNNABLE"
    "\<And>t. task_state (tcbs s' t) = TSK_STATE_DORMANT \<Longrightarrow> task_state (tcbs s t) = TSK_STATE_DORMANT"
    "tn_context_switch_request s' \<or> tn_next_task_to_run s' = tn_next_task_to_run s"
    by (auto simp: icall_ok_def irq_enter_def)
  from r(2) obtain L where i: "sinv s' L" by (auto simp: system_inv_def)
  obtain n where n: "tn_next_task_to_run s' = Some n" "task_state (tcbs s' n) = TSK_STATE_RUNNABLE"
    using i by (rule sinv_next)
  have cur: "has_current s'" using assms(2) r(3,5) by (auto simp: has_current_def)
  note cnt = c [OF r(1)]
  show ?thesis
  proof (cases "tn_context_switch_request s'")
    case True
    with r(1) n cnt i show ?thesis
      by (auto simp: irq_exit_def running_def scheduled_def system_inv_def has_current_def)
  next
    case False
    have "running s' \<and> scheduled s'" if "running s \<and> scheduled s"
      using that False r(3,6) running_cong [OF r(3,4)] by (auto simp: scheduled_def)
    with False r(1,3) cnt i cur show ?thesis
      by (auto simp: irq_exit_def running_def scheduled_def system_inv_def has_current_def)
  qed
qed

end

end
