(* ===== verification/Sem.thy ===== *)
theory Sem
  imports Service
begin

text \<open>
  Semaphores: \<open>src/TNKernel/tn_sem.c\<close>. Every service is modelled with its parameter and context
  checks. The services of tasks return how they end (\<open>kret\<close>), those of interrupt handlers the
  code they return.
\<close>

section \<open>The services\<close>

definition upd_sem :: "sid \<Rightarrow> (tn_sem \<Rightarrow> tn_sem) \<Rightarrow> kstate \<Rightarrow> kstate" where
  "upd_sem i f s = s\<lparr>sems := (sems s)(i := f (sems s i))\<rparr>"

definition tn_sem_create :: "sid option \<Rightarrow> int \<Rightarrow> int \<Rightarrow> kstate \<Rightarrow> (kret \<times> kstate) option" where
  "tn_sem_create sem start_value max_val s =
     (case sem of
        None \<Rightarrow> None
      | Some i \<Rightarrow>
          if max_val \<le> 0 \<or> start_value < 0 \<or> start_value > max_val \<or> id_sem (sems s i) \<noteq> 0
          then Some (RC TERR_WRONG_PARAM, upd_sem i (\<lambda>x. x\<lparr>sem_max_count := 0\<rparr>) s)
          else if bad_non_int_context s then Some (RC TERR_WCONTEXT, s)
          else Some (RC TERR_NO_ERR,
                 upd_sem i (\<lambda>x. x\<lparr>sem_count := start_value, sem_max_count := max_val,
                                 id_sem := TN_ID_SEMAPHORE\<rparr>)
                   (on_mem (queue_reset (SemWaitQ i)) s)))"

text \<open>The loop of \<open>tn_sem_delete\<close> and what follows it, from the top of the loop to the next
  context switch or to the end.\<close>

definition tn_sem_delete_loop :: "sid \<Rightarrow> bool \<Rightarrow> kstate \<Rightarrow> (kret \<times> kstate) option" where
  "tn_sem_delete_loop i sr s =
     do { (sw, sr, s) \<leftarrow> delete_waiters (SemWaitQ i) sr s;
          if sw then Some (SWITCH_LOOP, s)
          else let (sr, s) = (if \<not> irq_disabled s then tn_disable_interrupt s else (sr, s));
                   s = upd_sem i (\<lambda>x. x\<lparr>id_sem := 0\<rparr>) s
               in Some (RC TERR_NO_ERR, tn_enable_interrupt sr s) }"

definition tn_sem_delete :: "sid option \<Rightarrow> kstate \<Rightarrow> (kret \<times> kstate) option" where
  "tn_sem_delete sem s =
     (case sem of
        None \<Rightarrow> Some (RC TERR_WRONG_PARAM, s)
      | Some i \<Rightarrow>
          if id_sem (sems s i) \<noteq> TN_ID_SEMAPHORE then Some (RC TERR_NOEXS, s)
          else if bad_non_int_context s then Some (RC TERR_WCONTEXT, s)
          else tn_sem_delete_loop i False s)"

definition tn_sem_signal :: "sid option \<Rightarrow> kstate \<Rightarrow> (kret \<times> kstate) option" where
  "tn_sem_signal sem s =
     (case sem of
        None \<Rightarrow> Some (RC TERR_WRONG_PARAM, s)
      | Some i \<Rightarrow>
          if sem_max_count (sems s i) = 0 then Some (RC TERR_WRONG_PARAM, s)
          else if id_sem (sems s i) \<noteq> TN_ID_SEMAPHORE then Some (RC TERR_NOEXS, s)
          else if bad_non_int_context s then Some (RC TERR_WCONTEXT, s)
          else
            let (sr, s) = tn_disable_interrupt s in
            if \<not> is_queue_empty (mem s) (SemWaitQ i) then
              do { (task, s) \<leftarrow> wait_queue_pop (SemWaitQ i) s;
                   Some (wake_ret sr (task_wait_complete task False s)) }
            else if sem_count (sems s i) < sem_max_count (sems s i) then
              Some (RC TERR_NO_ERR,
                    tn_enable_interrupt sr (upd_sem i (\<lambda>x. x\<lparr>sem_count := sem_count x + 1\<rparr>) s))
            else Some (RC TERR_OVERFLOW, tn_enable_interrupt sr s))"

definition tn_sem_isignal :: "sid option \<Rightarrow> kstate \<Rightarrow> (int \<times> kstate) option" where
  "tn_sem_isignal sem s =
     (case sem of
        None \<Rightarrow> Some (TERR_WRONG_PARAM, s)
      | Some i \<Rightarrow>
          if sem_max_count (sems s i) = 0 then Some (TERR_WRONG_PARAM, s)
          else if id_sem (sems s i) \<noteq> TN_ID_SEMAPHORE then Some (TERR_NOEXS, s)
          else if bad_int_context s then Some (TERR_WCONTEXT, s)
          else
            if \<not> is_queue_empty (mem s) (SemWaitQ i) then
              do { (task, s) \<leftarrow> wait_queue_pop (SemWaitQ i) s;
                   Some (wake_iret (task_wait_complete task False s)) }
            else if sem_count (sems s i) < sem_max_count (sems s i) then
              Some (TERR_NO_ERR, upd_sem i (\<lambda>x. x\<lparr>sem_count := sem_count x + 1\<rparr>) s)
            else Some (TERR_OVERFLOW, s))"

definition tn_sem_acquire :: "sid option \<Rightarrow> u32 \<Rightarrow> kstate \<Rightarrow> (kret \<times> kstate) option" where
  "tn_sem_acquire sem timeout s =
     (case sem of
        None \<Rightarrow> Some (RC TERR_WRONG_PARAM, s)
      | Some i \<Rightarrow>
          if timeout = 0 \<or> sem_max_count (sems s i) = 0 then Some (RC TERR_WRONG_PARAM, s)
          else if id_sem (sems s i) \<noteq> TN_ID_SEMAPHORE then Some (RC TERR_NOEXS, s)
          else if bad_non_int_context s then Some (RC TERR_WCONTEXT, s)
          else
            let (sr, s) = tn_disable_interrupt s in
            if sem_count (sems s i) \<ge> 1 then
              Some (RC TERR_NO_ERR,
                    tn_enable_interrupt sr (upd_sem i (\<lambda>x. x\<lparr>sem_count := sem_count x - 1\<rparr>) s))
            else do { s \<leftarrow> task_curr_to_wait_action (Some (SemWaitQ i)) TSK_WAIT_REASON_SEM timeout s;
                      Some (SWITCH_WAIT_RC, tn_enable_interrupt sr s) })"

definition tn_sem_polling :: "sid option \<Rightarrow> kstate \<Rightarrow> (kret \<times> kstate) option" where
  "tn_sem_polling sem s =
     (case sem of
        None \<Rightarrow> Some (RC TERR_WRONG_PARAM, s)
      | Some i \<Rightarrow>
          if sem_max_count (sems s i) = 0 then Some (RC TERR_WRONG_PARAM, s)
          else if id_sem (sems s i) \<noteq> TN_ID_SEMAPHORE then Some (RC TERR_NOEXS, s)
          else if bad_non_int_context s then Some (RC TERR_WCONTEXT, s)
          else
            let (sr, s) = tn_disable_interrupt s in
            if sem_count (sems s i) \<ge> 1 then
              Some (RC TERR_NO_ERR,
                    tn_enable_interrupt sr (upd_sem i (\<lambda>x. x\<lparr>sem_count := sem_count x - 1\<rparr>) s))
            else Some (RC TERR_TIMEOUT, tn_enable_interrupt sr s))"

definition tn_sem_ipolling :: "sid option \<Rightarrow> kstate \<Rightarrow> (int \<times> kstate) option" where
  "tn_sem_ipolling sem s =
     (case sem of
        None \<Rightarrow> Some (TERR_WRONG_PARAM, s)
      | Some i \<Rightarrow>
          if sem_max_count (sems s i) = 0 then Some (TERR_WRONG_PARAM, s)
          else if id_sem (sems s i) \<noteq> TN_ID_SEMAPHORE then Some (TERR_NOEXS, s)
          else if bad_int_context s then Some (TERR_WCONTEXT, s)
          else
            if sem_count (sems s i) \<ge> 1 then
              Some (TERR_NO_ERR, upd_sem i (\<lambda>x. x\<lparr>sem_count := sem_count x - 1\<rparr>) s)
            else Some (TERR_TIMEOUT, s))"

section \<open>The invariant\<close>

lemma upd_sem_simps [simp]:
  "mem (upd_sem i f s) = mem s" "tcbs (upd_sem i f s) = tcbs s"
  "sems (upd_sem i f s) = (sems s)(i := f (sems s i))" "irq_disabled (upd_sem i f s) = irq_disabled s"
  "tn_next_task_to_run (upd_sem i f s) = tn_next_task_to_run s"
  "tn_curr_run_task (upd_sem i f s) = tn_curr_run_task s"
  "tn_ready_to_run_bmp (upd_sem i f s) = tn_ready_to_run_bmp s"
  "tn_enable_switch_context (upd_sem i f s) = tn_enable_switch_context s"
  "tn_context_switch_request (upd_sem i f s) = tn_context_switch_request s"
  by (simp_all add: upd_sem_def)

lemma sinv_upd_sem:
  assumes i: "sinv s L" and wf: "sem_wf (f (sems s i))"
    and l: "id_sem (f (sems s i)) = TN_ID_SEMAPHORE \<Longrightarrow> L (SemWaitQ i) \<noteq> None"
    and w: "\<And>t. waiting (tcbs s t) \<Longrightarrow> pwait_queue (tcbs s t) = Some (SemWaitQ i) \<Longrightarrow>
       id_sem (f (sems s i)) = TN_ID_SEMAPHORE \<and> sem_count (f (sems s i)) = 0"
  shows "sinv (upd_sem i f s) L"
  using i
proof (rule sinv_change_objects)
  let ?s = "upd_sem i f s"
  have other: "live ?s q = live s q" "wait_cause ?s c q = wait_cause s c q" if "q \<noteq> SemWaitQ i" for q c
    using that by (cases q; simp add: live_def wait_cause_def upd_sem_def)+
  show "wait_ok ?s (tcbs s t)" if wt: "waiting (tcbs s t)" for t
  proof (cases "pwait_queue (tcbs s t) = Some (SemWaitQ i)")
    case True
    with w [OF wt True] sinvD(2) [OF i, of t] wt show ?thesis
      by (simp add: wait_ok_def live_def wait_cause_def upd_sem_def)
  next
    case False
    with sinvD(2) [OF i, of t] other show ?thesis by (auto simp: wait_ok_def split: option.splits)
  qed
  show "L q \<noteq> None" if "live ?s q" for q
  proof (cases "q = SemWaitQ i")
    case True
    with that l show ?thesis by (simp add: live_def upd_sem_def)
  next
    case False
    with that other sinvD(3) [OF i] show ?thesis by simp
  qed
  have "fmp_wf ?s = fmp_wf s" by (rule fmp_wf_cong) (simp_all add: upd_sem_def)
  then show "objects_wf ?s" using sinvD(5) [OF i] wf by (simp add: objects_wf_def upd_sem_def)
qed (simp_all add: upd_sem_def)

section \<open>Every service keeps the invariant\<close>

lemma sem_live: "live s (SemWaitQ i) \<longleftrightarrow> id_sem (sems s i) = TN_ID_SEMAPHORE"
  by (simp add: live_def)

lemma sem_no_waiters:
  assumes i: "sinv s L" and c: "sem_count (sems s i) \<noteq> 0" and t: "waiting (tcbs s t)"
  shows "pwait_queue (tcbs s t) \<noteq> Some (SemWaitQ i)"
  using sinvD(2) [OF i, of t] c t by (auto simp: wait_ok_def wait_cause_def)

lemma sem_of_inv: "sinv s L \<Longrightarrow> sem_wf (sems s i)"
  using sinvD(5) by (auto simp: objects_wf_def)

lemma same_sched_upd_sem [simp]: "same_sched s0 (upd_sem i f s) = same_sched s0 s"
  by (simp add: same_sched_def)

text \<open>Giving a unit back when nobody waits, taking one.\<close>

lemma sinv_sem_inc:
  assumes "sinv s L" "L (SemWaitQ i) = Some []" "id_sem (sems s i) = TN_ID_SEMAPHORE"
    "sem_count (sems s i) < sem_max_count (sems s i)"
  shows "sinv (upd_sem i (\<lambda>x. x\<lparr>sem_count := sem_count x + 1\<rparr>) s) L"
  using assms(1)
  by (rule sinv_upd_sem)
     (use assms sem_of_inv [OF assms(1), of i] sinv_no_waiter [OF assms(1) _ assms(2)] in \<open>auto simp: sem_wf_def\<close>)

lemma sinv_sem_dec:
  assumes "sinv s L" "id_sem (sems s i) = TN_ID_SEMAPHORE" "1 \<le> sem_count (sems s i)"
  shows "sinv (upd_sem i (\<lambda>x. x\<lparr>sem_count := sem_count x - 1\<rparr>) s) L"
  using assms(1)
proof (rule sinv_upd_sem)
  show "sem_wf ((sems s i)\<lparr>sem_count := sem_count (sems s i) - 1\<rparr>)"
    using assms(3) sem_of_inv [OF assms(1), of i] by (auto simp: sem_wf_def)
  show "L (SemWaitQ i) \<noteq> None" using sinvD(3) [OF assms(1)] assms(2) by (simp add: sem_live)
qed (use assms(3) sem_no_waiters [OF assms(1), of i] in auto)

lemma sem_create_ok:
  assumes "system_inv s" "running s"
  shows "call_ok s (tn_sem_create (Some i) start_value max_val s)"
proof -
  from assms(1) obtain L where i: "sinv s L" by (auto simp: system_inv_def)
  show ?thesis
  proof (cases "max_val \<le> 0 \<or> start_value < 0 \<or> start_value > max_val \<or> id_sem (sems s i) \<noteq> 0")
    case True
    have "sinv (upd_sem i (\<lambda>x. x\<lparr>sem_max_count := 0\<rparr>) s) L"
      using i
    proof (rule sinv_upd_sem)
      show "sem_wf ((sems s i)\<lparr>sem_max_count := 0\<rparr>)" using sem_of_inv [OF i, of i] by (auto simp: sem_wf_def)
      show "L (SemWaitQ i) \<noteq> None" if "id_sem ((sems s i)\<lparr>sem_max_count := 0\<rparr>) = TN_ID_SEMAPHORE"
        using sinvD(3) [OF i] that by (simp add: sem_live)
    qed (use sinv_wait_cause [OF i, of _ "SemWaitQ i"] in \<open>auto simp: wait_cause_def sem_live\<close>)
    with True assms(2) show ?thesis by (auto simp: tn_sem_create_def intro!: call_ok_RC [where L = L])
  next
    case False
    have dead: "\<not> live s (SemWaitQ i)" using False by (auto simp: sem_live)
    note r = sinv_reset_queue [OF i _ dead, simplified]
    have "sinv (upd_sem i (\<lambda>x. x\<lparr>sem_count := start_value, sem_max_count := max_val, id_sem := TN_ID_SEMAPHORE\<rparr>)
         (on_mem (queue_reset (SemWaitQ i)) s)) (L(SemWaitQ i \<mapsto> []))" (is "sinv ?s ?L")
      using r by (rule sinv_upd_sem) (use False sinv_no_waiter [OF r, of "SemWaitQ i"] in \<open>auto simp: sem_wf_def\<close>)
    with False assms show ?thesis
      by (auto simp: tn_sem_create_def same_sched_def intro: call_ok_error call_ok_RC [where L = ?L])
  qed
qed

lemma sem_delete_loop_ok:
  assumes i: "sinv s L" and run: "running s" and l: "id_sem (sems s i) = TN_ID_SEMAPHORE"
  shows "call_ok s (tn_sem_delete_loop i sr s)"
  unfolding tn_sem_delete_loop_def
proof (rule delete_segment_ok [OF i run])
  show "live s (SemWaitQ i)" using l by (simp add: sem_live)
  show "sinv (upd_sem i (\<lambda>x. x\<lparr>id_sem := 0\<rparr>) s') L'" if "sinv s' L'" "L' (SemWaitQ i) = Some []" for s' L'
    using that(1) by (rule sinv_upd_sem) (use sinv_no_waiter [OF that(1), of "SemWaitQ i"] that in \<open>auto simp: sem_wf_def\<close>)
qed simp

lemma sem_delete_ok:
  assumes "system_inv s" "running s"
  shows "call_ok s (tn_sem_delete sem s)"
proof -
  from assms(1) obtain L where "sinv s L" by (auto simp: system_inv_def)
  with assms show ?thesis
    by (auto simp: tn_sem_delete_def intro: call_ok_error sem_delete_loop_ok split: option.split)
qed

lemma sem_signal_ok:
  assumes "system_inv s" "running s"
  shows "call_ok s (tn_sem_signal sem s)"
proof (cases "\<exists>i. sem = Some i \<and> sem_max_count (sems s i) \<noteq> 0 \<and>
    id_sem (sems s i) = TN_ID_SEMAPHORE \<and> \<not> bad_non_int_context s")
  case False
  with assms show ?thesis by (auto simp: tn_sem_signal_def intro: call_ok_error split: option.split)
next
  case True
  then obtain i where sem: "sem = Some i" "sem_max_count (sems s i) \<noteq> 0"
    "id_sem (sems s i) = TN_ID_SEMAPHORE" "\<not> bad_non_int_context s" by blast
  from assms(1) obtain L where i: "sinv s L" by (auto simp: system_inv_def)
  define s1 where "s1 = s\<lparr>irq_disabled := True\<rparr>"
  have i1: "sinv s1 L" "same_sched s s1" using i by (simp_all add: s1_def)
  obtain xs where xs: "L (SemWaitQ i) = Some xs" using sinvD(3) [OF i, of "SemWaitQ i"] sem(3) by (auto simp: sem_live)
  have em: "is_queue_empty (mem s) (SemWaitQ i) \<longleftrightarrow> xs = []" using sinv_empty [OF i xs] .
  have eq: "sems s1 = sems s" "mem s1 = mem s" by (simp_all add: s1_def)
  have dis: "tn_disable_interrupt s = (irq_disabled s, s1)" by (simp add: tn_disable_interrupt_def s1_def)
  show ?thesis
  proof (cases xs)
    case Nil
    have "sinv (upd_sem i (\<lambda>x. x\<lparr>sem_count := sem_count x + 1\<rparr>) s1) L"
      if "sem_count (sems s i) < sem_max_count (sems s i)"
      using i1(1) by (rule sinv_sem_inc) (use Nil xs sem that in \<open>simp_all add: eq\<close>)
    with Nil em sem i1 assms(2) show ?thesis
      by (auto simp: tn_sem_signal_def dis eq intro!: call_ok_RC [where L = L])
  next
    case (Cons n ys)
    then obtain t s2 where t: "wait_queue_pop (SemWaitQ i) s1 = Some (Some t, s2)"
      "call_ok s (Some (wake_ret (irq_disabled s) (task_wait_complete (Some t) False (upd_tcb t id s2))))"
      using wake_calls_ok [OF i1, of "SemWaitQ i" n ys id "irq_disabled s"] xs assms(2) by auto
    with Cons em sem show ?thesis by (simp add: tn_sem_signal_def dis eq upd_tcb_def)
  qed
qed

text \<open>What a signal does: it hands the unit to the first waiting task, or counts it.\<close>

lemma sem_signal_eq:
  assumes i: "sinv s L" and sem: "sem_max_count (sems s i) \<noteq> 0" "id_sem (sems s i) = TN_ID_SEMAPHORE"
      "\<not> bad_non_int_context s"
  shows "L (SemWaitQ i) = Some (TaskQ t # ts) \<Longrightarrow>
      \<exists>s' L'. tn_sem_signal (Some i) s =
          Some (if task_state (tcbs s t) AND TSK_STATE_SUSPEND = 0 then SWITCH_RC TERR_NO_ERR else RC TERR_NO_ERR, s') \<and>
        tcbs s' = (tcbs s)(t := wake_tcb (tcbs s t)) \<and> sems s' = sems s \<and> sinv s' L' \<and> L' (SemWaitQ i) = Some ts"
    "L (SemWaitQ i) = Some [] \<Longrightarrow> tn_sem_signal (Some i) s =
        (if sem_count (sems s i) < sem_max_count (sems s i)
         then Some (RC TERR_NO_ERR, upd_sem i (\<lambda>x. x\<lparr>sem_count := sem_count x + 1\<rparr>) s)
         else Some (RC TERR_OVERFLOW, s))"
proof -
  define s1 where "s1 = s\<lparr>irq_disabled := True\<rparr>"
  have i1: "sinv s1 L" using i by (simp add: s1_def)
  have dis: "tn_disable_interrupt s = (irq_disabled s, s1)" by (simp add: tn_disable_interrupt_def s1_def)
  have eq: "sems s1 = sems s" "mem s1 = mem s" "tcbs s1 = tcbs s" by (simp_all add: s1_def)
  show "\<exists>s' L'. tn_sem_signal (Some i) s =
          Some (if task_state (tcbs s t) AND TSK_STATE_SUSPEND = 0 then SWITCH_RC TERR_NO_ERR else RC TERR_NO_ERR, s') \<and>
        tcbs s' = (tcbs s)(t := wake_tcb (tcbs s t)) \<and> sems s' = sems s \<and> sinv s' L' \<and> L' (SemWaitQ i) = Some ts"
    if q: "L (SemWaitQ i) = Some (TaskQ t # ts)"
  proof -
    have wh: "wait_hdr (SemWaitQ i)" and f: "\<And>c. tcb_view (id c) = tcb_view c" by simp_all
    obtain t' s' L' m b nx where w: "TaskQ t = TaskQ t'"
      "wait_queue_pop (SemWaitQ i) s1 = Some (Some t', on_mem (queue_remove_entry (TaskQ t')) s1)"
      "task_wait_complete (Some t') False (upd_tcb t' id (on_mem (queue_remove_entry (TaskQ t')) s1)) =
         (task_state (tcbs s1 t') AND TSK_STATE_SUSPEND = 0, s')"
      "s' = s1\<lparr>mem := m, tn_ready_to_run_bmp := b, tn_next_task_to_run := nx,
            tcbs := (tcbs s1)(t' := wake_tcb (id (tcbs s1 t')))\<rparr>" "sinv s' L'"
      "\<And>q'. wait_hdr q' \<Longrightarrow> L' q' = (if q' = SemWaitQ i then Some ts else L q')"
      by (rule wake_head [OF i1 wh q f]) (rule that)
    have u: "upd_tcb t id x = x" for t x by (simp add: upd_tcb_def)
    have "tn_sem_signal (Some i) s = Some (if task_state (tcbs s t) AND TSK_STATE_SUSPEND = 0
        then SWITCH_RC TERR_NO_ERR else RC TERR_NO_ERR, tn_enable_interrupt (irq_disabled s) s')"
      using sem sinv_empty [OF i q] w(1-3) by (simp add: tn_sem_signal_def dis eq u wake_ret_def)
    moreover have "sinv (tn_enable_interrupt (irq_disabled s) s') L'" using w(5) by (simp add: tn_enable_interrupt_def)
    ultimately show ?thesis using w(1) w(6) [of "SemWaitQ i"]
      by (intro exI [of _ "tn_enable_interrupt (irq_disabled s) s'"] exI [of _ L'])
         (simp add: tn_enable_interrupt_def w(4) s1_def)
  qed
  show "tn_sem_signal (Some i) s = (if sem_count (sems s i) < sem_max_count (sems s i)
         then Some (RC TERR_NO_ERR, upd_sem i (\<lambda>x. x\<lparr>sem_count := sem_count x + 1\<rparr>) s) else Some (RC TERR_OVERFLOW, s))"
    if q: "L (SemWaitQ i) = Some []"
    using sem sinv_empty [OF i q]
    by (simp add: tn_sem_signal_def dis eq) (simp add: s1_def tn_enable_interrupt_def upd_sem_def)
qed

lemma sem_isignal_ok:
  assumes "system_inv s"
  shows "icall_ok s (tn_sem_isignal sem s)"
proof (cases "\<exists>i. sem = Some i \<and> sem_max_count (sems s i) \<noteq> 0 \<and>
    id_sem (sems s i) = TN_ID_SEMAPHORE \<and> \<not> bad_int_context s")
  case False
  with assms show ?thesis by (auto simp: tn_sem_isignal_def intro: icall_ok_error split: option.split)
next
  case True
  then obtain i where sem: "sem = Some i" "sem_max_count (sems s i) \<noteq> 0"
    "id_sem (sems s i) = TN_ID_SEMAPHORE" "\<not> bad_int_context s" by blast
  from assms(1) obtain L where i: "sinv s L" by (auto simp: system_inv_def)
  obtain xs where xs: "L (SemWaitQ i) = Some xs" using sinvD(3) [OF i, of "SemWaitQ i"] sem(3) by (auto simp: sem_live)
  have em: "is_queue_empty (mem s) (SemWaitQ i) \<longleftrightarrow> xs = []" using sinv_empty [OF i xs] .
  show ?thesis
  proof (cases xs)
    case Nil
    with em sem i xs show ?thesis
      by (auto simp: tn_sem_isignal_def intro!: icall_ok_RC [where L = L] sinv_sem_inc)
  next
    case (Cons n ys)
    then obtain t s2 where t: "wait_queue_pop (SemWaitQ i) s = Some (Some t, s2)"
      "icall_ok s (Some (wake_iret (task_wait_complete (Some t) False (upd_tcb t id s2))))"
      using wake_calls_ok [OF i, of s "SemWaitQ i" n ys id True] xs by auto
    with Cons em sem show ?thesis by (simp add: tn_sem_isignal_def upd_tcb_def)
  qed
qed

text \<open>No unit is left: the caller becomes the last of the waiting tasks.\<close>

lemma sem_acquire_blocks:
  assumes i: "sinv s L" and t: "tn_curr_run_task s = Some t" "task_state (tcbs s t) = TSK_STATE_RUNNABLE"
      "t \<noteq> tn_idle_task" "t \<noteq> tn_timer_task"
    and sem: "timeout \<noteq> 0" "sem_max_count (sems s i) \<noteq> 0" "id_sem (sems s i) = TN_ID_SEMAPHORE"
      "\<not> bad_non_int_context s" "sem_count (sems s i) = 0" and xs: "L (SemWaitQ i) = Some xs"
  shows "\<exists>s' L'. tn_sem_acquire (Some i) timeout s = Some (SWITCH_WAIT_RC, s') \<and> sinv s' L' \<and>
     tcbs s' = (tcbs s)(t := wait_tcb (Some (SemWaitQ i)) TSK_WAIT_REASON_SEM timeout (tcbs s t)) \<and>
     L' (SemWaitQ i) = Some (xs @ [TaskQ t]) \<and> sems s' = sems s \<and> irq_disabled s' = irq_disabled s \<and>
     tn_curr_run_task s' = Some t"
proof -
  define s1 where "s1 = s\<lparr>irq_disabled := True\<rparr>"
  have i1: "sinv s1 L" using i by (simp add: s1_def)
  have dis: "tn_disable_interrupt s = (irq_disabled s, s1)" by (simp add: tn_disable_interrupt_def s1_def)
  have eq: "sems s1 = sems s" "tcbs s1 = tcbs s" "tn_curr_run_task s1 = tn_curr_run_task s" by (simp_all add: s1_def)
  let ?w = "wait_tcb (Some (SemWaitQ i)) TSK_WAIT_REASON_SEM timeout"
  have ds: "dque_sides ((tcbs s1)(t := ?w (tcbs s1 t)))" by (rule dque_sides_block [OF sinvD(4) [OF i1]]) simp_all
  obtain s2 L' m b n where s2: "task_curr_to_wait_action (Some (SemWaitQ i)) TSK_WAIT_REASON_SEM timeout s1 = Some s2"
    "s2 = s1\<lparr>mem := m, tn_ready_to_run_bmp := b, tn_next_task_to_run := n, tcbs := (tcbs s1)(t := ?w (tcbs s1 t))\<rparr>"
    "sinv s2 L'" "\<And>q. wait_hdr q \<Longrightarrow> L' q = (if Some (SemWaitQ i) = Some q then Some (xs @ [TaskQ t]) else L q)"
    by (rule block_current [OF i1 _ _ t(3) _ _ _ ds, of xs])
       (use t sem xs in \<open>auto simp: eq sem_live wait_cause_def wait_tcb_def\<close>)
  have "tn_sem_acquire (Some i) timeout s = Some (SWITCH_WAIT_RC, tn_enable_interrupt (irq_disabled s) s2)"
    using sem s2(1) by (simp add: tn_sem_acquire_def dis eq)
  moreover have "sinv (tn_enable_interrupt (irq_disabled s) s2) L'" using s2(3) by (simp add: tn_enable_interrupt_def)
  ultimately show ?thesis using s2(4) [of "SemWaitQ i"] t(1)
    by (intro exI [of _ "tn_enable_interrupt (irq_disabled s) s2"] exI [of _ L'])
       (simp add: tn_enable_interrupt_def s2(2) s1_def)
qed

lemma sem_acquire_ok:
  assumes "system_inv s" "user_running s"
  shows "call_ok s (tn_sem_acquire sem timeout s)"
proof (cases "\<exists>i. sem = Some i \<and> timeout \<noteq> 0 \<and> sem_max_count (sems s i) \<noteq> 0 \<and>
    id_sem (sems s i) = TN_ID_SEMAPHORE \<and> \<not> bad_non_int_context s")
  case False
  with assms show ?thesis
    by (auto simp: tn_sem_acquire_def intro: call_ok_error user_running_running split: option.split)
next
  case True
  then obtain i where sem: "sem = Some i" "timeout \<noteq> 0" "sem_max_count (sems s i) \<noteq> 0"
    "id_sem (sems s i) = TN_ID_SEMAPHORE" "\<not> bad_non_int_context s" by blast
  from assms(1) obtain L where i: "sinv s L" by (auto simp: system_inv_def)
  obtain xs where xs: "L (SemWaitQ i) = Some xs" using sinvD(3) [OF i, of "SemWaitQ i"] sem(4) by (auto simp: sem_live)
  show ?thesis
  proof (cases "sem_count (sems s i) \<ge> 1")
    case True
    have "sinv (upd_sem i (\<lambda>x. x\<lparr>sem_count := sem_count x - 1\<rparr>) (s\<lparr>irq_disabled := True\<rparr>)) L"
      using i sem True by (intro sinv_sem_dec) simp_all
    with True sem user_running_running [OF assms(2)] show ?thesis
      by (auto simp: tn_sem_acquire_def tn_disable_interrupt_def Let_def intro!: call_ok_RC [where L = L])
  next
    case False
    then have zero: "sem_count (sems s i) = 0" using sem_of_inv [OF i, of i] sem(4) by (simp add: sem_wf_def)
    from assms(2) obtain t where t: "tn_curr_run_task s = Some t" "task_state (tcbs s t) = TSK_STATE_RUNNABLE"
      "t \<noteq> tn_idle_task" "t \<noteq> tn_timer_task" by (auto simp: user_running_def)
    from sem_acquire_blocks [OF i t sem(2-5) zero xs] t(1) show ?thesis unfolding sem(1)
      by (auto simp: has_current_def wait_tcb_def intro!: call_ok_SWITCH)
  qed
qed

lemma sem_polling_ok:
  assumes "system_inv s" "running s"
  shows "call_ok s (tn_sem_polling sem s)"
proof -
  from assms(1) obtain L where i: "sinv s L" by (auto simp: system_inv_def)
  have "sinv (upd_sem i (\<lambda>x. x\<lparr>sem_count := sem_count x - 1\<rparr>) (s\<lparr>irq_disabled := True\<rparr>)) L"
    if "id_sem (sems s i) = TN_ID_SEMAPHORE" "1 \<le> sem_count (sems s i)" for i
    using i that by (intro sinv_sem_dec) auto
  with assms i show ?thesis
    by (auto simp: tn_sem_polling_def tn_disable_interrupt_def Let_def
        intro: call_ok_error intro!: call_ok_RC [where L = L] split: option.split)
qed

lemma sem_ipolling_ok:
  assumes "system_inv s"
  shows "icall_ok s (tn_sem_ipolling sem s)"
proof -
  from assms(1) obtain L where i: "sinv s L" by (auto simp: system_inv_def)
  then show ?thesis
    by (auto simp: tn_sem_ipolling_def intro!: icall_ok_RC [where L = L] sinv_sem_dec split: option.split)
qed

interpretation sem_create: init_service "\<lambda>_. True" "tn_sem_create (Some i) start_value max_val" for i start_value max_val
  by unfold_locales (rule sem_create_ok)
interpretation sem_delete: init_service "\<lambda>_. True" "tn_sem_delete sem" for sem
  by unfold_locales (rule sem_delete_ok)
interpretation sem_signal: init_service "\<lambda>_. True" "tn_sem_signal sem" for sem
  by unfold_locales (rule sem_signal_ok)
interpretation sem_isignal: isr_service "\<lambda>_. True" "tn_sem_isignal sem" for sem
  by unfold_locales (rule sem_isignal_ok)
interpretation sem_acquire: kernel_service "\<lambda>_. True" "tn_sem_acquire sem timeout" for sem timeout
  by unfold_locales (rule sem_acquire_ok)
interpretation sem_polling: init_service "\<lambda>_. True" "tn_sem_polling sem" for sem
  by unfold_locales (rule sem_polling_ok)
interpretation sem_ipolling: isr_service "\<lambda>_. True" "tn_sem_ipolling sem" for sem
  by unfold_locales (rule sem_ipolling_ok)

end
