(* ===== verification/Tasks.thy ===== *)
theory Tasks
  imports Service
begin

text \<open>
  The task services of \<open>src/TNKernel/tn_tasks.c\<close>, from \<open>tn_task_create\<close> to
  \<open>tn_task_change_priority\<close>, and their contracts.
\<close>

section \<open>The services\<close>

text \<open>The loop that fills the stack, downwards from its first address.\<close>

fun fill_stack :: "nat \<Rightarrow> addr \<Rightarrow> (addr \<Rightarrow> u32) \<Rightarrow> (addr \<Rightarrow> u32)" where
  "fill_stack 0 ptr m = m"
| "fill_stack (Suc n) ptr m = fill_stack n (ptr - 4) (m(ptr := TN_FILL_STACK_VAL))"

text \<open>\<open>ptr_stack = tn_stack_init(...); task->task_stk = ptr_stack;\<close>\<close>

definition init_task_stack :: "tid \<Rightarrow> kstate \<Rightarrow> kstate" where
  "init_task_stack task s =
     (let c = tcbs s task;
          (ptr_stack, m) = tn_stack_init (tn_task_exit_addr s) (task_func_addr c) (stk_start c)
                             (task_func_param c) (stk_mem s)
      in upd_tcb task (\<lambda>c. c\<lparr>task_stk := ptr_stack\<rparr>) (s\<lparr>stk_mem := m\<rparr>))"

definition tn_task_create ::
  "tid option \<Rightarrow> addr \<Rightarrow> int \<Rightarrow> addr \<Rightarrow> int \<Rightarrow> addr \<Rightarrow> u32 \<Rightarrow> kstate \<Rightarrow> (kret \<times> kstate) option" where
  "tn_task_create task task_func prio task_stack_start task_stack_size param option s =
     (if (prio = 0 \<and> option AND TN_TASK_TIMER = 0) \<or>
         (prio = TN_NUM_PRIORITY - 1 \<and> option AND TN_TASK_IDLE = 0)
      then Some (RC TERR_WRONG_PARAM, s)
      else if prio < 0 \<or> prio > TN_NUM_PRIORITY - 1 \<or> task_stack_size < TN_MIN_STACK_SIZE \<or> task_func = 0
      then Some (RC TERR_WRONG_PARAM, s)
      else case task of
        None \<Rightarrow> Some (RC TERR_WRONG_PARAM, s)
      | Some t \<Rightarrow>
          if task_stack_start = 0 \<or> id_task (tcbs s t) \<noteq> 0 then Some (RC TERR_WRONG_PARAM, s)
          else if bad_non_int_context s then Some (RC TERR_WCONTEXT, s)
          else
            let running = (tn_system_state s = TN_ST_STATE_RUNNING);
                (sr, s) = (if running then tn_disable_interrupt s else (False, s));
                s = upd_tcb t (\<lambda>c. c\<lparr>task_func_addr := task_func, task_func_param := param,
                      stk_start := task_stack_start, stk_size := task_stack_size,
                      base_priority := prio, activate_count := 0, id_task := TN_ID_TASK\<rparr>) s;
                s = s\<lparr>stk_mem := fill_stack (nat task_stack_size) task_stack_start (stk_mem s)\<rparr>;
                s = task_set_dormant_state t s;
                s = init_task_stack t s;
                s = on_mem (queue_add_tail CreateL (CreateQ t)) s;
                s = s\<lparr>tn_created_tasks_qty := tn_created_tasks_qty s + 1\<rparr>;
                s = (if option AND TN_TASK_START_ON_CREATION \<noteq> 0 then task_to_runnable t s else s);
                s = (if running then tn_enable_interrupt sr s else s)
            in Some (RC TERR_NO_ERR, s))"

text \<open>\<open>if(tn_next_task_to_run != tn_curr_run_task && tn_enable_switch_context != 0)
  tn_switch_context(); return TERR_NO_ERR;\<close>\<close>

definition switch_ret :: "bool \<Rightarrow> kstate \<Rightarrow> kret \<times> kstate" where
  "switch_ret sr s =
     (let s = tn_enable_interrupt sr s
      in (if tn_next_task_to_run s \<noteq> tn_curr_run_task s \<and> tn_enable_switch_context s \<noteq> 0
          then SWITCH_RC TERR_NO_ERR else RC TERR_NO_ERR, s))"

definition tn_task_suspend :: "tid option \<Rightarrow> kstate \<Rightarrow> (kret \<times> kstate) option" where
  "tn_task_suspend task s =
     (case task of
        None \<Rightarrow> Some (RC TERR_WRONG_PARAM, s)
      | Some t \<Rightarrow>
          if id_task (tcbs s t) \<noteq> TN_ID_TASK then Some (RC TERR_NOEXS, s)
          else if bad_non_int_context s then Some (RC TERR_WCONTEXT, s)
          else
            let (sr, s) = tn_disable_interrupt s in
            if task_state (tcbs s t) AND TSK_STATE_SUSPEND \<noteq> 0
            then Some (RC TERR_OVERFLOW, tn_enable_interrupt sr s)
            else if task_state (tcbs s t) = TSK_STATE_DORMANT
            then Some (RC TERR_WSTATE, tn_enable_interrupt sr s)
            else if Some t = tn_curr_run_task s \<and> tn_enable_switch_context s = 0
            then Some (RC TERR_WCONTEXT, tn_enable_interrupt sr s)
            else if task_state (tcbs s t) = TSK_STATE_RUNNABLE then
              do { let s = upd_tcb t (\<lambda>c. c\<lparr>task_state := TSK_STATE_SUSPEND\<rparr>) s;
                   s \<leftarrow> task_to_non_runnable t s;
                   Some (switch_ret sr s) }
            else Some (RC TERR_NO_ERR, tn_enable_interrupt sr
                   (upd_tcb t (\<lambda>c. c\<lparr>task_state := task_state c OR TSK_STATE_SUSPEND\<rparr>) s)))"

definition tn_task_resume :: "tid option \<Rightarrow> kstate \<Rightarrow> (kret \<times> kstate) option" where
  "tn_task_resume task s =
     (case task of
        None \<Rightarrow> Some (RC TERR_WRONG_PARAM, s)
      | Some t \<Rightarrow>
          if id_task (tcbs s t) \<noteq> TN_ID_TASK then Some (RC TERR_NOEXS, s)
          else if bad_non_int_context s then Some (RC TERR_WCONTEXT, s)
          else
            let (sr, s) = tn_disable_interrupt s in
            if task_state (tcbs s t) AND TSK_STATE_SUSPEND = 0
            then Some (RC TERR_WSTATE, tn_enable_interrupt sr s)
            else if task_state (tcbs s t) AND TSK_STATE_WAIT = 0
            then Some (switch_ret sr (task_to_runnable t s))
            else Some (RC TERR_NO_ERR, tn_enable_interrupt sr
                   (upd_tcb t (\<lambda>c. c\<lparr>task_state := task_state c AND NOT TSK_STATE_SUSPEND\<rparr>) s)))"

definition tn_task_sleep :: "u32 \<Rightarrow> kstate \<Rightarrow> (kret \<times> kstate) option" where
  "tn_task_sleep timeout s =
     (if timeout = 0 then Some (RC TERR_WRONG_PARAM, s)
      else if bad_non_int_context s then Some (RC TERR_WCONTEXT, s)
      else
        let (sr, s) = tn_disable_interrupt s in
        do { t \<leftarrow> tn_curr_run_task s;
             if wakeup_count (tcbs s t) > 0
             then Some (RC TERR_NO_ERR, tn_enable_interrupt sr
                    (upd_tcb t (\<lambda>c. c\<lparr>wakeup_count := wakeup_count c - 1\<rparr>) s))
             else do { s \<leftarrow> task_curr_to_wait_action None TSK_WAIT_REASON_SLEEP timeout s;
                       Some (SWITCH_RC TERR_NO_ERR, tn_enable_interrupt sr s) } })"

text \<open>What both wake-up services do for a task that does not sleep: the request is counted in
  the control block of the running task.\<close>

definition count_wakeup :: "kstate \<Rightarrow> (int \<times> kstate) option" where
  "count_wakeup s =
     do { r \<leftarrow> tn_curr_run_task s;
          Some (if wakeup_count (tcbs s r) = 0
                then (TERR_NO_ERR, upd_tcb r (\<lambda>c. c\<lparr>wakeup_count := wakeup_count c + 1\<rparr>) s)
                else (TERR_OVERFLOW, s)) }"

definition tn_task_wakeup :: "tid option \<Rightarrow> kstate \<Rightarrow> (kret \<times> kstate) option" where
  "tn_task_wakeup task s =
     (case task of
        None \<Rightarrow> Some (RC TERR_WRONG_PARAM, s)
      | Some t \<Rightarrow>
          if id_task (tcbs s t) \<noteq> TN_ID_TASK then Some (RC TERR_NOEXS, s)
          else if bad_non_int_context s then Some (RC TERR_WCONTEXT, s)
          else
            let (sr, s) = tn_disable_interrupt s in
            if task_state (tcbs s t) = TSK_STATE_DORMANT
            then Some (RC TERR_WCONTEXT, tn_enable_interrupt sr s)
            else if task_state (tcbs s t) AND TSK_STATE_WAIT \<noteq> 0 \<and>
                    task_wait_reason (tcbs s t) = TSK_WAIT_REASON_SLEEP
            then Some (wake_ret sr (task_wait_complete task False s))
            else do { (rc, s) \<leftarrow> count_wakeup s; Some (RC rc, tn_enable_interrupt sr s) })"

definition tn_task_iwakeup :: "tid option \<Rightarrow> kstate \<Rightarrow> (int \<times> kstate) option" where
  "tn_task_iwakeup task s =
     (case task of
        None \<Rightarrow> Some (TERR_WRONG_PARAM, s)
      | Some t \<Rightarrow>
          if id_task (tcbs s t) \<noteq> TN_ID_TASK then Some (TERR_NOEXS, s)
          else if bad_int_context s then Some (TERR_WCONTEXT, s)
          else if task_state (tcbs s t) = TSK_STATE_DORMANT then Some (TERR_WCONTEXT, s)
          else if task_state (tcbs s t) AND TSK_STATE_WAIT \<noteq> 0 \<and>
                  task_wait_reason (tcbs s t) = TSK_WAIT_REASON_SLEEP
          then Some (wake_iret (task_wait_complete task False s))
          else count_wakeup s)"

text \<open>An activation of a task that is not dormant is counted.\<close>

definition count_activate :: "tid \<Rightarrow> kstate \<Rightarrow> int \<times> kstate" where
  "count_activate t s =
     (if activate_count (tcbs s t) = 0
      then (TERR_NO_ERR, upd_tcb t (\<lambda>c. c\<lparr>activate_count := activate_count c + 1\<rparr>) s)
      else (TERR_OVERFLOW, s))"

definition tn_task_activate :: "tid option \<Rightarrow> kstate \<Rightarrow> (kret \<times> kstate) option" where
  "tn_task_activate task s =
     (case task of
        None \<Rightarrow> Some (RC TERR_WRONG_PARAM, s)
      | Some t \<Rightarrow>
          if id_task (tcbs s t) \<noteq> TN_ID_TASK then Some (RC TERR_NOEXS, s)
          else if bad_non_int_context s then Some (RC TERR_WCONTEXT, s)
          else
            let (sr, s) = tn_disable_interrupt s in
            if task_state (tcbs s t) = TSK_STATE_DORMANT
            then Some (switch_ret sr (task_to_runnable t s))
            else let (rc, s) = count_activate t s in Some (RC rc, tn_enable_interrupt sr s))"

definition tn_task_iactivate :: "tid option \<Rightarrow> kstate \<Rightarrow> (int \<times> kstate) option" where
  "tn_task_iactivate task s =
     (case task of
        None \<Rightarrow> Some (TERR_WRONG_PARAM, s)
      | Some t \<Rightarrow>
          if id_task (tcbs s t) \<noteq> TN_ID_TASK then Some (TERR_NOEXS, s)
          else if bad_int_context s then Some (TERR_WCONTEXT, s)
          else if task_state (tcbs s t) = TSK_STATE_DORMANT then
            let s = task_to_runnable t s
            in Some (TERR_NO_ERR,
                 if tn_next_task_to_run s \<noteq> tn_curr_run_task s \<and> tn_enable_switch_context s \<noteq> 0
                 then s\<lparr>tn_context_switch_request := True\<rparr> else s)
          else Some (count_activate t s))"

definition tn_task_release_wait :: "tid option \<Rightarrow> kstate \<Rightarrow> (kret \<times> kstate) option" where
  "tn_task_release_wait task s =
     (case task of
        None \<Rightarrow> Some (RC TERR_WRONG_PARAM, s)
      | Some t \<Rightarrow>
          if id_task (tcbs s t) \<noteq> TN_ID_TASK then Some (RC TERR_NOEXS, s)
          else if bad_non_int_context s then Some (RC TERR_WCONTEXT, s)
          else
            let (sr, s) = tn_disable_interrupt s in
            if task_state (tcbs s t) AND TSK_STATE_WAIT = 0
            then Some (RC TERR_WCONTEXT, tn_enable_interrupt sr s)
            else Some (wake_ret sr (task_wait_complete task True s)))"

definition tn_task_irelease_wait :: "tid option \<Rightarrow> kstate \<Rightarrow> (int \<times> kstate) option" where
  "tn_task_irelease_wait task s =
     (case task of
        None \<Rightarrow> Some (TERR_WRONG_PARAM, s)
      | Some t \<Rightarrow>
          if id_task (tcbs s t) \<noteq> TN_ID_TASK then Some (TERR_NOEXS, s)
          else if bad_int_context s then Some (TERR_WCONTEXT, s)
          else if task_state (tcbs s t) AND TSK_STATE_WAIT = 0 then Some (TERR_WCONTEXT, s)
          else Some (wake_iret (task_wait_complete task True s)))"

text \<open>The list of created tasks when a task is deleted.\<close>

definition drop_task :: "tid \<Rightarrow> kstate \<Rightarrow> kstate" where
  "drop_task t s =
     (let s = on_mem (queue_remove_entry (CreateQ t)) s;
          s = s\<lparr>tn_created_tasks_qty := tn_created_tasks_qty s - 1\<rparr>
      in upd_tcb t (\<lambda>c. c\<lparr>id_task := 0\<rparr>) s)"

text \<open>\<open>tn_task_exit\<close> returns to its caller (\<open>Inl\<close>) only when the context is wrong; otherwise the
  next task runs (\<open>Inr\<close>).\<close>

definition tn_task_exit :: "int \<Rightarrow> kstate \<Rightarrow> (kstate + kstate) option" where
  "tn_task_exit attr s =
     (if bad_int_context s then Some (Inl s)
      else do { let s = s\<lparr>irq_disabled := True\<rparr>;
                task \<leftarrow> tn_curr_run_task s;
                s \<leftarrow> task_to_non_runnable task s;
                let s = task_set_dormant_state task s;
                let s = init_task_stack task s;
                let s = (if activate_count (tcbs s task) > 0
                         then task_to_runnable task
                                (upd_tcb task (\<lambda>c. c\<lparr>activate_count := activate_count c - 1\<rparr>) s)
                         else s);
                let s = (if attr = TN_EXIT_AND_DELETE_TASK then drop_task task s else s);
                s \<leftarrow> tn_switch_context_exit s;
                Some (Inr s) })"

text \<open>Taking a waiting task out of the queues involved in its wait.\<close>

definition leave_wait_queues :: "tid \<Rightarrow> kstate \<Rightarrow> kstate option" where
  "leave_wait_queues t s =
     do { let s = on_mem (queue_remove_entry (TaskQ t)) s;
          blocked \<leftarrow> queue_contains_entry (mem s) BlockedL (BlockQ t);
          let s = (if blocked then on_mem (queue_remove_entry (BlockQ t)) s else s);
          Some (if tick_count (tcbs s t) \<noteq> TN_WAIT_INFINITE
                then on_mem (queue_remove_entry (TimerQ t)) s else s) }"

definition tn_task_terminate :: "tid option \<Rightarrow> kstate \<Rightarrow> (kret \<times> kstate) option" where
  "tn_task_terminate task s =
     (case task of
        None \<Rightarrow> Some (RC TERR_WRONG_PARAM, s)
      | Some t \<Rightarrow>
          if id_task (tcbs s t) \<noteq> TN_ID_TASK then Some (RC TERR_NOEXS, s)
          else if bad_non_int_context s then Some (RC TERR_WCONTEXT, s)
          else
            let (sr, s) = tn_disable_interrupt s in
            if task_state (tcbs s t) = TSK_STATE_DORMANT \<or> tn_curr_run_task s = Some t
            then Some (RC TERR_WCONTEXT, tn_enable_interrupt sr s)
            else
              do { s \<leftarrow> (if task_state (tcbs s t) = TSK_STATE_RUNNABLE then task_to_non_runnable t s
                        else if task_state (tcbs s t) AND TSK_STATE_WAIT \<noteq> 0 then leave_wait_queues t s
                        else Some s);
                   let s = task_set_dormant_state t s;
                   let s = init_task_stack t s;
                   if activate_count (tcbs s t) > 0
                   then Some (switch_ret sr (task_to_runnable t
                          (upd_tcb t (\<lambda>c. c\<lparr>activate_count := activate_count c - 1\<rparr>) s)))
                   else Some (RC TERR_NO_ERR, tn_enable_interrupt sr s) })"

definition tn_task_delete :: "tid option \<Rightarrow> kstate \<Rightarrow> (kret \<times> kstate) option" where
  "tn_task_delete task s =
     (case task of
        None \<Rightarrow> Some (RC TERR_WRONG_PARAM, s)
      | Some t \<Rightarrow>
          if id_task (tcbs s t) \<noteq> TN_ID_TASK then Some (RC TERR_NOEXS, s)
          else if bad_non_int_context s then Some (RC TERR_WCONTEXT, s)
          else
            let (sr, s) = tn_disable_interrupt s in
            if task_state (tcbs s t) \<noteq> TSK_STATE_DORMANT
            then Some (RC TERR_WCONTEXT, tn_enable_interrupt sr s)
            else Some (RC TERR_NO_ERR, tn_enable_interrupt sr (drop_task t s)))"

definition tn_task_change_priority :: "tid option \<Rightarrow> int \<Rightarrow> kstate \<Rightarrow> (kret \<times> kstate) option" where
  "tn_task_change_priority task new_priority s =
     (case task of
        None \<Rightarrow> Some (RC TERR_WRONG_PARAM, s)
      | Some t \<Rightarrow>
          if id_task (tcbs s t) \<noteq> TN_ID_TASK then Some (RC TERR_NOEXS, s)
          else if new_priority < 0 \<or> new_priority > TN_NUM_PRIORITY - 2
          then Some (RC TERR_WRONG_PARAM, s)
          else if bad_non_int_context s then Some (RC TERR_WCONTEXT, s)
          else
            let (sr, s) = tn_disable_interrupt s;
                new_priority = (if new_priority = 0 then base_priority (tcbs s t) else new_priority)
            in
            if task_state (tcbs s t) = TSK_STATE_DORMANT
            then Some (RC TERR_WCONTEXT, tn_enable_interrupt sr s)
            else if task_state (tcbs s t) = TSK_STATE_RUNNABLE then
              do { (sw, s) \<leftarrow> change_running_task_priority t new_priority s;
                   Some (if sw \<noteq> 0 then SWITCH_RC TERR_NO_ERR else RC TERR_NO_ERR, tn_enable_interrupt sr s) }
            else Some (RC TERR_NO_ERR, tn_enable_interrupt sr
                   (upd_tcb t (\<lambda>c. c\<lparr>priority := new_priority\<rparr>) s)))"

section \<open>Steps of the task services on the invariant\<close>

lemma switch_ret_ok:
  assumes i: "sinv s L" and c: "tn_curr_run_task s = tn_curr_run_task s0" and h: "has_current s"
  shows "call_ok s0 (Some (switch_ret sr s))"
proof (cases "tn_next_task_to_run s = tn_curr_run_task s")
  case True
  obtain n where "tn_next_task_to_run s = Some n" "task_state (tcbs s n) = TSK_STATE_RUNNABLE"
    using i by (rule sinv_next)
  then have "running (tn_enable_interrupt sr s)" "scheduled (tn_enable_interrupt sr s)"
    using True by (auto simp: running_def scheduled_def tn_enable_interrupt_def)
  with True i c show ?thesis unfolding switch_ret_def
    by (auto simp: tn_enable_interrupt_def intro!: call_okI [OF refl, where L = L] intro: running_has_current)
next
  case False
  with i c h sinvD(7) [OF i] show ?thesis unfolding switch_ret_def
    by (auto simp: tn_enable_interrupt_def has_current_def intro!: call_ok_SWITCH [where L = L])
qed

text \<open>A change of a control block that keeps the task in its queues.\<close>

lemma kinv_upd_same:
  assumes k: "kinv X s L" and c: "home c = home (tcbs s t)" "waiting c = waiting (tcbs s t)"
    "pwait_queue c = pwait_queue (tcbs s t)"
    "(tick_count c = TN_WAIT_INFINITE) = (tick_count (tcbs s t) = TN_WAIT_INFINITE)"
    "id_task c = id_task (tcbs s t)" "tcb_ok c"
  shows "kinv X (s\<lparr>tcbs := (tcbs s)(t := c)\<rparr>) L"
proof -
  have "kmem (mem s) L ((tcbs s)(t := c))"
    by (rule kmem_tcbs [OF kinv_kmem [OF k]]) (use c(5) in \<open>auto split: if_splits\<close>)
  then show ?thesis using kinvD [OF k] c
    by (intro kinvI) (simp_all add: kmem_def inv_place_same inv_timer_same)
qed

lemma sinv_upd_same:
  assumes i: "sinv s L" and c: "home c = home (tcbs s t)" "waiting c = waiting (tcbs s t)"
    "pwait_queue c = pwait_queue (tcbs s t)"
    "(tick_count c = TN_WAIT_INFINITE) = (tick_count (tcbs s t) = TN_WAIT_INFINITE)"
    "id_task c = id_task (tcbs s t)" "tcb_ok c" "task_wait_reason c = task_wait_reason (tcbs s t)"
    "ewait_mode c = ewait_mode (tcbs s t)" "ewait_pattern c = ewait_pattern (tcbs s t)"
    and st: "system_tasks ((tcbs s)(t := c))"
  shows "sinv (s\<lparr>tcbs := (tcbs s)(t := c)\<rparr>) L"
proof -
  let ?s = "s\<lparr>tcbs := (tcbs s)(t := c)\<rparr>"
  have "wait_cause s c q = wait_cause s (tcbs s t) q" for q
    using c(7-9) by (cases q) (simp_all add: wait_cause_def)
  then have "wait_ok s c" using sinvD(2) [OF i, of t] c(2,3,7) by (auto simp: wait_ok_def split: option.splits)
  moreover have "waiting (tcbs ?s t') = waiting (tcbs s t')" "pwait_queue (tcbs ?s t') = pwait_queue (tcbs s t')" for t'
    using c(2,3) by simp_all
  then have "dque_sides (tcbs ?s) = dque_sides (tcbs s)" by (simp only: dque_sides_def)
  moreover have "inv_objs s L" using i by (simp add: sinv_def)
  ultimately have "inv_objs ?s L"
    by (elim inv_objs_upd [of s L _ t c, OF _ _ _ _ _ st sinvD(3) [OF i]])
       (use sinvD(4) [OF i] in \<open>simp_all add: same_objects_def\<close>)
  then show ?thesis using kinv_upd_same [OF sinvD(1) [OF i] c(1-6)] by (simp add: sinv_def)
qed

text \<open>A task in transit comes to rest outside every queue.\<close>

lemma kinv_settle:
  assumes k: "kinv {t} s L" and c: "home c = None" "\<not> waiting c" "tcb_ok c"
    "id_task c = TN_ID_TASK \<Longrightarrow> id_task (tcbs s t) = TN_ID_TASK"
    and tm: "\<not> (waiting (tcbs s t) \<and> tick_count (tcbs s t) \<noteq> TN_WAIT_INFINITE)"
  shows "kinv {} (s\<lparr>tcbs := (tcbs s)(t := c)\<rparr>) L"
proof -
  have "kmem (mem s) L ((tcbs s)(t := c))"
    by (rule kmem_tcbs [OF kinv_kmem [OF k]]) (use c(4) in \<open>auto split: if_splits\<close>)
  moreover have "inv_timer ((tcbs s)(t := c)) L"
    using kinvD(6) [OF k] tm c(2) by (intro inv_timer_none) (auto simp: inv_timer_def)
  moreover have "inv_place {} ((tcbs s)(t := c)) L"
    using inv_place_idle [OF kinvD(5) [OF k] _ c(1,2)] by simp
  ultimately show ?thesis using kinvD [OF k] c(3) by (intro kinvI) (simp_all add: kmem_def)
qed

text \<open>A task that does not wait after the step.\<close>

lemma sinv_upd_idle:
  assumes i: "sinv s L" and k: "kinv {} s' L'" and so: "same_objects s s'" and T: "tcbs s' = (tcbs s)(t := c)"
    and c: "\<not> waiting c" "system_tasks ((tcbs s)(t := c))" and L: "\<And>q. live s q \<Longrightarrow> L' q \<noteq> None"
  shows "sinv s' L'"
proof -
  have "inv_objs s L" using i by (simp add: sinv_def)
  then have "inv_objs s' L'"
    using so T wait_ok_idle [OF c(1)] dque_sides_idle [OF sinvD(4) [OF i] c(1)] c(2) L by (rule inv_objs_upd)
  with k show ?thesis by (simp add: sinv_def)
qed

lemma find_next_upd:
  "find_next_task_to_run (upd_tcb t f s) = map_option (upd_tcb t f) (find_next_task_to_run s)"
  by (auto simp: find_next_task_to_run_def Let_def upd_tcb_def split: bind_splits)

lemma non_runnable_upd:
  assumes "priority (f (tcbs s t)) = priority (tcbs s t)"
  shows "task_to_non_runnable t (upd_tcb t f s) = map_option (upd_tcb t f) (task_to_non_runnable t s)"
proof -
  have c: "on_mem g (upd_tcb t f s') = upd_tcb t f (on_mem g s')"
    "(upd_tcb t f s')\<lparr>tn_ready_to_run_bmp := b\<rparr> = upd_tcb t f (s'\<lparr>tn_ready_to_run_bmp := b\<rparr>)"
    "(upd_tcb t f s')\<lparr>tn_next_task_to_run := n\<rparr> = upd_tcb t f (s'\<lparr>tn_next_task_to_run := n\<rparr>)" for g s' b n
    by (simp_all add: upd_tcb_def on_mem_def)
  show ?thesis
    by (simp add: task_to_non_runnable_def Let_def assms c find_next_upd split: bind_split)
qed

text \<open>The choice of the next task is determined by the ready lists; it does not change when
  another task leaves them.\<close>

lemma inv_next_None_Some: "inv_next None L \<Longrightarrow> \<not> inv_next (Some t) L"
  by (auto simp: inv_next_def)

lemma inv_next_Some_unique:
  assumes "inv_next (Some a) L" "inv_next (Some b) L"
  shows "a = b"
proof -
  from assms obtain p q xs ys where p: "0 \<le> p" "L (ReadyL p) = Some (TaskQ a # xs)"
    "\<And>p'. 0 \<le> p' \<Longrightarrow> p' < p \<Longrightarrow> L (ReadyL p') = Some []"
    and q: "0 \<le> q" "L (ReadyL q) = Some (TaskQ b # ys)"
    "\<And>p'. 0 \<le> p' \<Longrightarrow> p' < q \<Longrightarrow> L (ReadyL p') = Some []"
    by (auto simp: inv_next_def prio_ok_def)
  have "p = q" using p(3) [of q] q(3) [of p] p(1,2) q(1,2) by (cases p q rule: linorder_cases) auto
  with p(2) q(2) show ?thesis by simp
qed

lemma inv_next_unique: "inv_next a L \<Longrightarrow> inv_next b L \<Longrightarrow> a = b"
  by (cases a; cases b) (auto dest: inv_next_None_Some inv_next_Some_unique)

lemma inv_next_remove_other:
  assumes "inv_next (Some n) L" "n \<noteq> t" "L (ReadyL p) = Some xs"
  shows "inv_next (Some n) (L(ReadyL p \<mapsto> remove1 (TaskQ t) xs))"
proof -
  from assms(1) obtain p0 ys where p0: "prio_ok p0" "L (ReadyL p0) = Some (TaskQ n # ys)"
    "\<And>p'. 0 \<le> p' \<Longrightarrow> p' < p0 \<Longrightarrow> L (ReadyL p') = Some []" by (auto simp: inv_next_def)
  with assms(2,3) show ?thesis
    unfolding inv_next_def by (cases "p = p0") (auto intro!: exI [of _ p0])
qed

lemma stopped_sinv:
  assumes i: "sinv s L" and t: "task_state (tcbs s t) = TSK_STATE_RUNNABLE"
      "t \<noteq> tn_idle_task" "t \<noteq> tn_timer_task"
  obtains m b n s1 L1 where "task_to_non_runnable t s = Some s1"
    "s1 = s\<lparr>mem := m, tn_ready_to_run_bmp := b, tn_next_task_to_run := n\<rparr>" "kinv {t} s1 L1" "same_waits L L1"
    "tn_next_task_to_run s = Some t \<or> n = tn_next_task_to_run s"
proof -
  note k = sinvD(1) [OF i]
  obtain xs where xs: "L (ReadyL (priority (tcbs s t))) = Some xs"
    using inv_lists_ready [OF kinvD(2) [OF k]] tcb_ok_runnable [OF kinvD(7) [OF k] t(1)] by blast
  obtain b n s1 where s1: "s1 = s\<lparr>mem := queue_remove_entry (TaskQ t) (mem s), tn_ready_to_run_bmp := b,
            tn_next_task_to_run := n\<rparr>" "task_to_non_runnable t s = Some s1"
    "kinv {t} s1 (L(ReadyL (priority (tcbs s t)) \<mapsto> remove1 (TaskQ t) xs))"
    by (rule task_to_non_runnable_ok [OF k _ t(1) xs]) (simp, rule that)
  obtain n0 where n0: "tn_next_task_to_run s = Some n0" using sinv_next [OF i] by blast
  have "n = Some n0" if "n0 \<noteq> t"
  proof -
    have "inv_next (Some n0) L" using kinvD(4) [OF k] n0 by simp
    from inv_next_remove_other [of n0 L t, OF this that xs] kinvD(4) [OF s1(3)] show ?thesis
      by (auto simp: s1(1) dest: inv_next_unique)
  qed
  then show thesis using n0 by (intro that [OF s1(2,1,3)]) (auto simp: same_waits_def)
qed

lemma same_waits_live: "sinv s L \<Longrightarrow> same_waits L L' \<Longrightarrow> live s q \<Longrightarrow> L' q \<noteq> None"
  using sinvD(3) [of s L q] same_waitsD [of L L' q] live_wait_hdr [of s q] by auto

lemma suspend_runnable:
  assumes i: "sinv s L" and t: "task_state (tcbs s t) = TSK_STATE_RUNNABLE"
      "t \<noteq> tn_idle_task" "t \<noteq> tn_timer_task"
  obtains s' L' where
    "task_to_non_runnable t (upd_tcb t (\<lambda>c. c\<lparr>task_state := TSK_STATE_SUSPEND\<rparr>) s) = Some s'"
    "sinv s' L'" "tn_curr_run_task s' = tn_curr_run_task s"
    "tcbs s' = (tcbs s)(t := (tcbs s t)\<lparr>task_state := TSK_STATE_SUSPEND\<rparr>)"
proof -
  obtain m b n s1 L1 where s1: "task_to_non_runnable t s = Some s1"
    "s1 = s\<lparr>mem := m, tn_ready_to_run_bmp := b, tn_next_task_to_run := n\<rparr>" "kinv {t} s1 L1" "same_waits L L1"
    by (rule stopped_sinv [OF i t])
  let ?c = "(tcbs s t)\<lparr>task_state := TSK_STATE_SUSPEND\<rparr>"
  have T: "tcbs s1 = tcbs s" by (simp add: s1(2))
  have r: "task_to_non_runnable t (upd_tcb t (\<lambda>c. c\<lparr>task_state := TSK_STATE_SUSPEND\<rparr>) s) =
      Some (upd_tcb t (\<lambda>c. c\<lparr>task_state := TSK_STATE_SUSPEND\<rparr>) s1)"
    using s1(1) by (simp add: non_runnable_upd)
  have c: "tcb_ok ?c" "\<not> waiting ?c" "home ?c = None"
    using tcb_ok_runnable [OF kinvD(7) [OF sinvD(1) [OF i]] t(1)] kinvD(7) [OF sinvD(1) [OF i], of t]
    by (auto simp: tcb_ok_def waiting_def home_def)
  have "kinv {} (upd_tcb t (\<lambda>c. c\<lparr>task_state := TSK_STATE_SUSPEND\<rparr>) s1) L1"
    unfolding upd_tcb_def by (rule kinv_settle [OF s1(3)]) (use c t(1) in \<open>auto simp: T waiting_def\<close>)
  then have "sinv (upd_tcb t (\<lambda>c. c\<lparr>task_state := TSK_STATE_SUSPEND\<rparr>) s1) L1"
    by (rule sinv_upd_idle [OF i _ _ _ c(2) system_tasks_upd [OF sinvD(6) [OF i]] same_waits_live [OF i s1(4)]])
       (use t(2,3) in \<open>auto simp: same_objects_def s1(2)\<close>)
  then show thesis by (rule that [OF r]) (simp_all add: s1(2))
qed

text \<open>A suspended or dormant task becomes runnable.\<close>

lemma start_task:
  assumes i: "sinv s L" and t: "id_task (tcbs s t) = TN_ID_TASK"
    "task_state (tcbs s t) = TSK_STATE_SUSPEND \<or> task_state (tcbs s t) = TSK_STATE_DORMANT"
  obtains L' m b n where "sinv (task_to_runnable t s) L'" "same_waits L L'"
    "task_to_runnable t s = s\<lparr>mem := m, tn_ready_to_run_bmp := b, tn_next_task_to_run := n,
      tcbs := (tcbs s)(t := (tcbs s t)\<lparr>task_state := TSK_STATE_RUNNABLE, pwait_queue := None\<rparr>)\<rparr>"
proof -
  note k = sinvD(1) [OF i]
  have h: "home (tcbs s t) = None" "\<not> waiting (tcbs s t)" using t(2) by (auto simp: home_def waiting_def)
  have p: "prio_ok (priority (tcbs s t))" using kinvD(7) [OF k, of t] t(1) by (auto simp: tcb_ok_def)
  obtain xs where xs: "L (ReadyL (priority (tcbs s t))) = Some xs"
    using inv_lists_ready [OF kinvD(2) [OF k] p] by blast
  define L' where "L' = L(TaskQ t := None, ReadyL (priority (tcbs s t)) \<mapsto> xs @ [TaskQ t])"
  have "kinv ({t} - {t}) (task_to_runnable t s) L'" unfolding L'_def
    using kinv_to_transit [OF k h(1)] t(1) h(2) xs by (intro task_to_runnable_ok) auto
  then have k': "kinv {} (task_to_runnable t s) L'" by simp
  have sw: "same_waits L L'" by (auto simp: same_waits_def L'_def)
  obtain m b n where sh: "task_to_runnable t s = s\<lparr>mem := m, tn_ready_to_run_bmp := b, tn_next_task_to_run := n,
      tcbs := (tcbs s)(t := (tcbs s t)\<lparr>task_state := TSK_STATE_RUNNABLE, pwait_queue := None\<rparr>)\<rparr>"
    using task_to_runnable_shape by blast
  have "sinv (task_to_runnable t s) L'"
    by (rule sinv_upd_idle [OF i k' _ _ _ system_tasks_upd [OF sinvD(6) [OF i]] same_waits_live [OF i sw],
          where c = "(tcbs s t)\<lparr>task_state := TSK_STATE_RUNNABLE, pwait_queue := None\<rparr>"])
       (simp_all add: sh same_objects_def waiting_def)
  then show thesis using sw sh by (rule that)
qed

section \<open>Every service keeps the invariant\<close>

lemma state_bits:
  assumes "tcb_ok c"
  shows "task_state c AND TSK_STATE_WAIT \<noteq> 0 \<longleftrightarrow> waiting c"
    "task_state c AND TSK_STATE_SUSPEND \<noteq> 0 \<longleftrightarrow>
     task_state c = TSK_STATE_SUSPEND \<or> task_state c = TSK_STATE_WAITSUSP"
  using assms by (auto simp: tcb_ok_def waiting_def)

lemma disable_eq: "tn_disable_interrupt s = (irq_disabled s, s\<lparr>irq_disabled := True\<rparr>)"
  by (simp add: tn_disable_interrupt_def)

lemma sleeper_alone:
  assumes i: "sinv s L" and t: "waiting (tcbs s t)" "task_wait_reason (tcbs s t) = TSK_WAIT_REASON_SLEEP"
  shows "task_wait_complete (Some t) True s = task_wait_complete (Some t) False s"
proof -
  have "pwait_queue (tcbs s t) = None"
  proof (cases "pwait_queue (tcbs s t)")
    case (Some q)
    with sinv_wait_cause [OF i t(1) Some] t(2) show ?thesis by (cases q) (auto simp: wait_cause_def)
  qed
  then have "L (TaskQ t) = Some []" using kinvD(5) [OF sinvD(1) [OF i]] t(1) by (auto simp: inv_place_def)
  then have "queue_remove_entry (TaskQ t) (mem s) = mem s"
    by (rule rings_remove_self [OF kinvD(1) [OF sinvD(1) [OF i]]])
  then show ?thesis by (simp add: task_wait_complete_remove on_mem_def)
qed

lemma wake_any_calls:
  assumes i: "sinv s L" and s: "same_sched s0 s" and t: "waiting (tcbs s t)"
  shows "running s0 \<Longrightarrow> call_ok s0 (Some (wake_ret sr (task_wait_complete (Some t) True s)))"
    "icall_ok s0 (Some (wake_iret (task_wait_complete (Some t) True s)))"
proof -
  obtain s' L' m b nx where w:
    "task_wait_complete (Some t) True s = (task_state (tcbs s t) AND TSK_STATE_SUSPEND = 0, s')"
    "s' = s\<lparr>mem := m, tn_ready_to_run_bmp := b, tn_next_task_to_run := nx,
            tcbs := (tcbs s)(t := wake_tcb (tcbs s t))\<rparr>"
    "task_state (tcbs s t) AND TSK_STATE_SUSPEND = 0 \<or> nx = tn_next_task_to_run s" "sinv s' L'"
    by (rule wake_any [OF i t]) (rule that)
  have "task_state (wake_tcb (tcbs s t)) \<noteq> TSK_STATE_DORMANT" by (simp add: wake_tcb_def)
  note ok = wake_rets_ok [OF w(4) s t w(2) this w(3)]
  show "running s0 \<Longrightarrow> call_ok s0 (Some (wake_ret sr (task_wait_complete (Some t) True s)))"
    "icall_ok s0 (Some (wake_iret (task_wait_complete (Some t) True s)))"
    using ok unfolding w(1) by blast+
qed

lemma sinv_upd_counts:
  assumes "sinv s L" "\<And>c. tcb_view (f c) = tcb_view c" "\<And>c. task_wait_reason (f c) = task_wait_reason c"
    "\<And>c. ewait_mode (f c) = ewait_mode c" "\<And>c. ewait_pattern (f c) = ewait_pattern c"
  shows "sinv (upd_tcb t f s) L"
proof -
  let ?c = "f (tcbs s t)"
  have v: "task_state ?c = task_state (tcbs s t)" "priority ?c = priority (tcbs s t)"
    "base_priority ?c = base_priority (tcbs s t)" "pwait_queue ?c = pwait_queue (tcbs s t)"
    "tick_count ?c = tick_count (tcbs s t)" "id_task ?c = id_task (tcbs s t)"
    using assms(2) [of "tcbs s t"] by (simp_all add: tcb_view_def)
  have T: "task_state (((tcbs s)(t := ?c)) t') = task_state (tcbs s t')"
    "priority (((tcbs s)(t := ?c)) t') = priority (tcbs s t')"
    "base_priority (((tcbs s)(t := ?c)) t') = base_priority (tcbs s t')"
    "pwait_queue (((tcbs s)(t := ?c)) t') = pwait_queue (tcbs s t')"
    "tick_count (((tcbs s)(t := ?c)) t') = tick_count (tcbs s t')"
    "id_task (((tcbs s)(t := ?c)) t') = id_task (tcbs s t')" for t' by (simp_all add: v)
  have "system_tasks ((tcbs s)(t := ?c)) = system_tasks (tcbs s)" by (simp only: system_tasks_def T)
  moreover have "tcb_ok ?c = tcb_ok (tcbs s t)" by (simp only: tcb_ok_def waiting_def v)
  ultimately show ?thesis unfolding upd_tcb_def
    using sinvD(6) [OF assms(1)] kinvD(7) [OF sinvD(1) [OF assms(1)], of t]
    by (intro sinv_upd_same [OF assms(1)]) (simp_all add: v assms(3-5) home_def waiting_def)
qed

lemma same_sched_upd [simp]:
  "(\<And>c. task_state (f c) = task_state c) \<Longrightarrow> same_sched s0 (upd_tcb t f s) = same_sched s0 s"
proof -
  assume "\<And>c. task_state (f c) = task_state c"
  then have "task_state (((tcbs s)(t := f (tcbs s t))) t') = task_state (tcbs s t')" for t' by simp
  then show ?thesis by (simp only: same_sched_def upd_tcb_simps)
qed

lemma suspend_waiting:
  assumes i: "sinv s L" and t: "t \<noteq> tn_timer_task" "t \<noteq> tn_idle_task"
    and st: "task_state (tcbs s t) = TSK_STATE_WAIT \<or> task_state (tcbs s t) = 0" "id_task (tcbs s t) = TN_ID_TASK"
  shows "sinv (upd_tcb t (\<lambda>c. c\<lparr>task_state := task_state c OR TSK_STATE_SUSPEND\<rparr>) s) L"
proof -
  let ?c = "(tcbs s t)\<lparr>task_state := task_state (tcbs s t) OR TSK_STATE_SUSPEND\<rparr>"
  have ok: "tcb_ok (tcbs s t)" by (rule kinvD(7) [OF sinvD(1) [OF i]])
  have "system_tasks ((tcbs s)(t := ?c))"
    using t by (intro system_tasks_upd [OF sinvD(6) [OF i]]) auto
  moreover have "tcb_ok ?c \<and> home ?c = home (tcbs s t) \<and> waiting ?c = waiting (tcbs s t)"
    using st(1)
  proof
    assume a: "task_state (tcbs s t) = TSK_STATE_WAIT"
    then show ?thesis using st(2) ok by (simp add: tcb_ok_def waiting_def home_def)
  next
    assume a: "task_state (tcbs s t) = 0"
    then show ?thesis using st(2) ok by (simp add: tcb_ok_def waiting_def home_def)
  qed
  ultimately show ?thesis unfolding upd_tcb_def by (intro sinv_upd_same [OF i]) simp_all
qed

lemma resume_waiting:
  assumes i: "sinv s L" and st: "task_state (tcbs s t) = TSK_STATE_WAITSUSP"
  shows "sinv (upd_tcb t (\<lambda>c. c\<lparr>task_state := task_state c AND NOT TSK_STATE_SUSPEND\<rparr>) s) L"
proof -
  let ?c = "(tcbs s t)\<lparr>task_state := task_state (tcbs s t) AND NOT TSK_STATE_SUSPEND\<rparr>"
  have ok: "tcb_ok (tcbs s t)" by (rule kinvD(7) [OF sinvD(1) [OF i]])
  have s4: "task_state (tcbs s t) AND NOT TSK_STATE_SUSPEND = TSK_STATE_WAIT" unfolding st by simp
  have "t \<noteq> tn_timer_task" "t \<noteq> tn_idle_task" using sinvD(6) [OF i] st by (auto simp: system_tasks_def)
  then have "system_tasks ((tcbs s)(t := ?c))"
    by (intro system_tasks_upd [OF sinvD(6) [OF i]]) auto
  moreover have "tcb_ok ?c \<and> home ?c = home (tcbs s t) \<and> waiting ?c = waiting (tcbs s t)"
    using ok st unfolding s4 by (simp add: tcb_ok_def waiting_def home_def)
  ultimately show ?thesis unfolding upd_tcb_def by (intro sinv_upd_same [OF i]) simp_all
qed

text \<open>Parameter checks: a service either reports an error and changes nothing, or does its work
  on an existing task with interrupts disabled.\<close>

lemma run_current:
  assumes "running s" "tn_curr_run_task s' = tn_curr_run_task s"
    "\<And>t. task_state (tcbs s t) = TSK_STATE_RUNNABLE \<Longrightarrow> task_state (tcbs s' t) \<noteq> TSK_STATE_DORMANT"
  shows "has_current s'"
  using assms by (auto simp: running_def has_current_def)

lemma task_suspend_ok:
  assumes "system_inv s" "running s" and u: "task \<noteq> Some tn_timer_task" "task \<noteq> Some tn_idle_task"
  shows "call_ok s (tn_task_suspend task s)"
proof (cases "\<exists>t. task = Some t \<and> id_task (tcbs s t) = TN_ID_TASK \<and> \<not> bad_non_int_context s")
  case False
  with assms show ?thesis by (auto simp: tn_task_suspend_def intro: call_ok_error split: option.split)
next
  case True
  then obtain t where t: "task = Some t" "id_task (tcbs s t) = TN_ID_TASK" "\<not> bad_non_int_context s" by blast
  from assms(1) obtain L where i: "sinv s L" by (auto simp: system_inv_def)
  define s1 where "s1 = s\<lparr>irq_disabled := True\<rparr>"
  have s1: "sinv s1 L" "same_sched s s1" "tcbs s1 = tcbs s" "tn_curr_run_task s1 = tn_curr_run_task s"
    "tn_enable_switch_context s1 = 1" "tn_disable_interrupt s = (irq_disabled s, s1)"
    using i sinvD(7) [OF i] by (simp_all add: s1_def disable_eq)
  have ok: "tcb_ok (tcbs s t)" by (rule kinvD(7) [OF sinvD(1) [OF i]])
  have u': "t \<noteq> tn_timer_task" "t \<noteq> tn_idle_task" using u t by auto
  consider "task_state (tcbs s t) AND TSK_STATE_SUSPEND \<noteq> 0 \<or> task_state (tcbs s t) = TSK_STATE_DORMANT"
    | "task_state (tcbs s t) = TSK_STATE_RUNNABLE"
    | "task_state (tcbs s t) = TSK_STATE_WAIT \<or> task_state (tcbs s t) = 0"
    using ok state_bits(2) [OF ok] by (auto simp: tcb_ok_def)
  then show ?thesis
  proof cases
    case 1
    then show ?thesis using t s1 assms(2)
      by (auto simp: tn_task_suspend_def intro!: call_ok_RC [where L = L])
  next
    case 2
    obtain s' L' where s': "task_to_non_runnable t (upd_tcb t (\<lambda>c. c\<lparr>task_state := TSK_STATE_SUSPEND\<rparr>) s1) = Some s'"
      "sinv s' L'" "tn_curr_run_task s' = tn_curr_run_task s1"
      "tcbs s' = (tcbs s1)(t := (tcbs s1 t)\<lparr>task_state := TSK_STATE_SUSPEND\<rparr>)"
      by (rule suspend_runnable [OF s1(1) 2 [folded s1(3)] u'(2,1)]) (rule that)
    have "has_current s'" by (rule run_current [OF assms(2)]) (auto simp: s' s1)
    with 2 t s1 s' show ?thesis by (simp add: tn_task_suspend_def switch_ret_ok)
  next
    case 3
    then have "task_state (tcbs s t) AND TSK_STATE_SUSPEND = 0" "task_state (tcbs s t) \<noteq> TSK_STATE_DORMANT"
      "task_state (tcbs s t) \<noteq> TSK_STATE_RUNNABLE" by auto
    moreover have "sinv (upd_tcb t (\<lambda>c. c\<lparr>task_state := task_state c OR TSK_STATE_SUSPEND\<rparr>) s1) L"
      using 3 t s1 by (intro suspend_waiting [OF s1(1) u']) auto
    moreover have "same_sched s (upd_tcb t (\<lambda>c. c\<lparr>task_state := task_state c OR TSK_STATE_SUSPEND\<rparr>) s1)"
      using s1(2) 3 by (auto simp: same_sched_def s1_def)
    ultimately show ?thesis using t s1 assms(2)
      by (auto simp: tn_task_suspend_def intro!: call_ok_RC [where L = L])
  qed
qed

lemma task_resume_ok:
  assumes "system_inv s" "running s"
  shows "call_ok s (tn_task_resume task s)"
proof (cases "\<exists>t. task = Some t \<and> id_task (tcbs s t) = TN_ID_TASK \<and> \<not> bad_non_int_context s")
  case False
  with assms show ?thesis by (auto simp: tn_task_resume_def intro: call_ok_error split: option.split)
next
  case True
  then obtain t where t: "task = Some t" "id_task (tcbs s t) = TN_ID_TASK" "\<not> bad_non_int_context s" by blast
  from assms(1) obtain L where i: "sinv s L" by (auto simp: system_inv_def)
  define s1 where "s1 = s\<lparr>irq_disabled := True\<rparr>"
  have s1: "sinv s1 L" "same_sched s s1" "tcbs s1 = tcbs s" "tn_curr_run_task s1 = tn_curr_run_task s"
    "tn_disable_interrupt s = (irq_disabled s, s1)"
    using i by (simp_all add: s1_def disable_eq)
  have ok: "tcb_ok (tcbs s t)" by (rule kinvD(7) [OF sinvD(1) [OF i]])
  consider "task_state (tcbs s t) AND TSK_STATE_SUSPEND = 0"
    | "task_state (tcbs s t) = TSK_STATE_SUSPEND" | "task_state (tcbs s t) = TSK_STATE_WAITSUSP"
    using state_bits(2) [OF ok] by auto
  then show ?thesis
  proof cases
    case 1
    then show ?thesis using t s1 assms(2) by (auto simp: tn_task_resume_def intro!: call_ok_RC [where L = L])
  next
    case 2
    obtain L' m b n where s': "sinv (task_to_runnable t s1) L'"
      "task_to_runnable t s1 = s1\<lparr>mem := m, tn_ready_to_run_bmp := b, tn_next_task_to_run := n,
      tcbs := (tcbs s1)(t := (tcbs s1 t)\<lparr>task_state := TSK_STATE_RUNNABLE, pwait_queue := None\<rparr>)\<rparr>"
      by (rule start_task [OF s1(1) t(2) [folded s1(3)] disjI1 [OF 2 [folded s1(3)]]]) (rule that)
    have "has_current (task_to_runnable t s1)" by (rule run_current [OF assms(2)]) (auto simp: s'(2) s1)
    with 2 t s1 s'(1) show ?thesis by (auto simp: tn_task_resume_def s'(2) intro!: switch_ret_ok)
  next
    case 3
    have "same_sched s (upd_tcb t (\<lambda>c. c\<lparr>task_state := task_state c AND NOT TSK_STATE_SUSPEND\<rparr>) s1)"
      using s1(2) 3 by (auto simp: same_sched_def s1_def)
    moreover have "sinv (upd_tcb t (\<lambda>c. c\<lparr>task_state := task_state c AND NOT TSK_STATE_SUSPEND\<rparr>) s1) L"
      using 3 s1(3) by (intro resume_waiting [OF s1(1)]) simp
    ultimately show ?thesis using 3 t s1 assms(2)
      by (auto simp: tn_task_resume_def intro!: call_ok_RC [where L = L])
  qed
qed

lemma count_wakeup_ok:
  assumes i: "sinv s L" and c: "tn_curr_run_task s \<noteq> None"
  shows "\<exists>rc s'. count_wakeup s = Some (rc, s') \<and> sinv s' L \<and> same_sched s s'"
proof -
  from c obtain r where r: "tn_curr_run_task s = Some r" by blast
  have "sinv (upd_tcb r (\<lambda>c. c\<lparr>wakeup_count := wakeup_count c + 1\<rparr>) s) L"
    by (rule sinv_upd_counts [OF i]) (simp_all add: tcb_view_def)
  then show ?thesis using i r by (auto simp: count_wakeup_def)
qed

lemma count_activate_ok:
  assumes i: "sinv s L"
  shows "\<exists>rc s'. count_activate t s = (rc, s') \<and> sinv s' L \<and> same_sched s s'"
proof -
  have "sinv (upd_tcb t (\<lambda>c. c\<lparr>activate_count := activate_count c + 1\<rparr>) s) L"
    by (rule sinv_upd_counts [OF i]) (simp_all add: tcb_view_def)
  then show ?thesis using i by (auto simp: count_activate_def)
qed

lemma same_sched_trans: "same_sched s0 s \<Longrightarrow> same_sched s s' \<Longrightarrow> same_sched s0 s'"
  unfolding same_sched_def by metis

lemma task_sleep_ok:
  assumes "system_inv s" "user_running s"
  shows "call_ok s (tn_task_sleep timeout s)"
proof (cases "timeout = 0 \<or> bad_non_int_context s")
  case True
  with assms show ?thesis by (auto simp: tn_task_sleep_def intro: call_ok_error user_running_running)
next
  case False
  from assms(1) obtain L where i: "sinv s L" by (auto simp: system_inv_def)
  from assms(2) obtain t where t: "tn_curr_run_task s = Some t" "task_state (tcbs s t) = TSK_STATE_RUNNABLE"
      "t \<noteq> tn_idle_task" "t \<noteq> tn_timer_task" by (auto simp: user_running_def)
  define s1 where "s1 = s\<lparr>irq_disabled := True\<rparr>"
  have s1: "sinv s1 L" "same_sched s s1" "tcbs s1 = tcbs s" "tn_curr_run_task s1 = tn_curr_run_task s"
    "tn_disable_interrupt s = (irq_disabled s, s1)"
    using i by (simp_all add: s1_def disable_eq)
  show ?thesis
  proof (cases "wakeup_count (tcbs s t) > 0")
    case True
    have "sinv (upd_tcb t (\<lambda>c. c\<lparr>wakeup_count := wakeup_count c - 1\<rparr>) s1) L"
      by (rule sinv_upd_counts [OF s1(1)]) (simp_all add: tcb_view_def)
    with True False t s1 user_running_running [OF assms(2)] show ?thesis
      by (auto simp: tn_task_sleep_def intro!: call_ok_RC [where L = L])
  next
    case nw: False
    have "dque_sides ((tcbs s1)(t := wait_tcb None TSK_WAIT_REASON_SLEEP timeout (tcbs s1 t)))"
      using sinvD(4) [OF s1(1)] by (auto simp: dque_sides_def wait_tcb_def)
    note ds = this
    obtain s' L' m b n where s': "task_curr_to_wait_action None TSK_WAIT_REASON_SLEEP timeout s1 = Some s'"
      "s' = s1\<lparr>mem := m, tn_ready_to_run_bmp := b, tn_next_task_to_run := n,
            tcbs := (tcbs s1)(t := wait_tcb None TSK_WAIT_REASON_SLEEP timeout (tcbs s1 t))\<rparr>" "sinv s' L'"
      by (rule block_current [OF s1(1) t(1) [folded s1(4)] t(2) [folded s1(3)] t(3) _ _ _ ds, where ys = "[]"])
         (use t(4) in \<open>simp\<close>, simp, simp, rule that)
    then have "has_current s'" using t s1 by (auto simp: has_current_def wait_tcb_def)
    with s' nw False t s1 show ?thesis
      by (auto simp: tn_task_sleep_def tn_enable_interrupt_def has_current_def intro!: call_ok_SWITCH [where L = L'])
  qed
qed

lemma task_call_ok:
  assumes "system_inv s" "running s"
    and "\<And>t L. task = Some t \<Longrightarrow> id_task (tcbs s t) = TN_ID_TASK \<Longrightarrow> sinv (s\<lparr>irq_disabled := True\<rparr>) L \<Longrightarrow>
      call_ok s (g t)"
  shows "call_ok s (case task of
        None \<Rightarrow> Some (RC TERR_WRONG_PARAM, s)
      | Some t \<Rightarrow>
          if id_task (tcbs s t) \<noteq> TN_ID_TASK then Some (RC TERR_NOEXS, s)
          else if bad_non_int_context s then Some (RC TERR_WCONTEXT, s) else g t)"
  using assms by (auto simp: system_inv_def intro: call_ok_error [unfolded system_inv_def] split: option.split)

lemma task_icall_ok:
  assumes "system_inv s"
    and "\<And>t L. task = Some t \<Longrightarrow> id_task (tcbs s t) = TN_ID_TASK \<Longrightarrow> sinv s L \<Longrightarrow> icall_ok s (g t)"
  shows "icall_ok s (case task of
        None \<Rightarrow> Some (TERR_WRONG_PARAM, s)
      | Some t \<Rightarrow>
          if id_task (tcbs s t) \<noteq> TN_ID_TASK then Some (TERR_NOEXS, s)
          else if bad_int_context s then Some (TERR_WCONTEXT, s) else g t)"
  using assms by (auto simp: system_inv_def intro: icall_ok_error [unfolded system_inv_def] split: option.split)

lemma sinv_bits:
  assumes "sinv s L"
  shows "task_state (tcbs s t) AND TSK_STATE_WAIT = 0 \<longleftrightarrow> \<not> waiting (tcbs s t)"
  using state_bits(1) [OF kinvD(7) [OF sinvD(1) [OF assms]], of t] by blast

lemma irq_RC_ok:
  assumes "sinv (s\<lparr>irq_disabled := True\<rparr>) L" "running s"
  shows "call_ok s (Some (RC c, tn_enable_interrupt sr (s\<lparr>irq_disabled := True\<rparr>)))"
  by (rule call_ok_RC [where L = L]) (use assms in simp_all)

lemma task_wakeup_ok:
  assumes "system_inv s" "running s"
  shows "call_ok s (tn_task_wakeup task s)"
proof -
  let ?s = "s\<lparr>irq_disabled := True\<rparr>"
  have wake: "call_ok s (Some (wake_ret sr (task_wait_complete (Some t) False ?s)))"
    if i: "sinv ?s L" and t: "waiting (tcbs s t)" "task_wait_reason (tcbs s t) = TSK_WAIT_REASON_SLEEP" for t L sr
    using wake_any_calls(1) [OF i, of s t] sleeper_alone [OF i, of t] t assms(2) by simp
  have count: "call_ok s (do { (rc, s) \<leftarrow> count_wakeup ?s; Some (RC rc, tn_enable_interrupt sr s) })"
    if i: "sinv ?s L" for L sr
  proof -
    obtain rc s' where cw: "count_wakeup ?s = Some (rc, s')" "sinv s' L" "same_sched ?s s'"
      using count_wakeup_ok [OF i] assms(2) by (auto simp: running_def)
    have "same_sched s s'" using same_sched_trans [OF _ cw(3), of s] by simp
    with cw assms(2) show ?thesis by (auto intro!: call_ok_RC [where L = L])
  qed
  have bits: "task_state (tcbs s t) AND TSK_STATE_WAIT = 0 \<longleftrightarrow> \<not> waiting (tcbs s t)" if "sinv ?s L" for t L
    using sinv_bits [OF that, of t] by simp
  show ?thesis unfolding tn_task_wakeup_def
    by (rule task_call_ok [OF assms]) (auto simp: disable_eq bits intro: wake count irq_RC_ok assms(2))
qed

lemma task_iwakeup_ok:
  assumes "system_inv s" "has_current s"
  shows "icall_ok s (tn_task_iwakeup task s)"
proof -
  have wake: "icall_ok s (Some (wake_iret (task_wait_complete (Some t) False s)))"
    if i: "sinv s L" and t: "waiting (tcbs s t)" "task_wait_reason (tcbs s t) = TSK_WAIT_REASON_SLEEP" for t L
    using wake_any_calls(2) [OF i, of s t] sleeper_alone [OF i, of t] t by simp
  have count: "icall_ok s (count_wakeup s)" if i: "sinv s L" for L
    using count_wakeup_ok [OF i] assms(2) by (auto simp: has_current_def intro!: icall_ok_RC [where L = L])
  show ?thesis unfolding tn_task_iwakeup_def
    by (rule task_icall_ok [OF assms(1)]) (auto simp: sinv_bits intro: wake count icall_ok_error assms(1))
qed

lemma task_release_wait_ok:
  assumes "system_inv s" "running s"
  shows "call_ok s (tn_task_release_wait task s)"
proof -
  let ?s = "s\<lparr>irq_disabled := True\<rparr>"
  have wake: "call_ok s (Some (wake_ret sr (task_wait_complete (Some t) True ?s)))"
    if i: "sinv ?s L" and t: "waiting (tcbs s t)" for t L sr
    using wake_any_calls(1) [OF i, of s t] t assms(2) by simp
  have bits: "task_state (tcbs s t) AND TSK_STATE_WAIT = 0 \<longleftrightarrow> \<not> waiting (tcbs s t)" if "sinv ?s L" for t L
    using sinv_bits [OF that, of t] by simp
  show ?thesis unfolding tn_task_release_wait_def
    by (rule task_call_ok [OF assms]) (auto simp: disable_eq bits intro: wake irq_RC_ok assms(2))
qed

lemma task_irelease_wait_ok:
  assumes "system_inv s"
  shows "icall_ok s (tn_task_irelease_wait task s)"
  unfolding tn_task_irelease_wait_def
  by (rule task_icall_ok [OF assms])
     (auto simp: sinv_bits intro: wake_any_calls(2) [OF _ same_sched_refl] icall_ok_error assms)

lemma task_activate_ok:
  assumes "system_inv s" "running s"
  shows "call_ok s (tn_task_activate task s)"
proof -
  let ?s = "s\<lparr>irq_disabled := True\<rparr>"
  have start: "call_ok s (Some (switch_ret sr (task_to_runnable t ?s)))"
    if i: "sinv ?s L" and t: "id_task (tcbs s t) = TN_ID_TASK" "task_state (tcbs s t) = TSK_STATE_DORMANT" for t L sr
  proof -
    have t': "id_task (tcbs ?s t) = TN_ID_TASK"
      "task_state (tcbs ?s t) = TSK_STATE_SUSPEND \<or> task_state (tcbs ?s t) = TSK_STATE_DORMANT" using t by simp_all
    obtain L' m b n where s': "sinv (task_to_runnable t ?s) L'" "task_to_runnable t ?s =
      ?s\<lparr>mem := m, tn_ready_to_run_bmp := b, tn_next_task_to_run := n,
      tcbs := (tcbs ?s)(t := (tcbs ?s t)\<lparr>task_state := TSK_STATE_RUNNABLE, pwait_queue := None\<rparr>)\<rparr>"
      by (rule start_task [OF i t']) (rule that)
    have "has_current (task_to_runnable t ?s)" by (rule run_current [OF assms(2)]) (auto simp: s'(2))
    with s' show ?thesis by (intro switch_ret_ok) (auto simp: s'(2))
  qed
  have count: "call_ok s (case count_activate t ?s of (rc, s) \<Rightarrow> Some (RC rc, tn_enable_interrupt sr s))"
    if i: "sinv ?s L" for t L sr
  proof -
    obtain rc s' where cw: "count_activate t ?s = (rc, s')" "sinv s' L" "same_sched ?s s'"
      using count_activate_ok [OF i] by blast
    have "same_sched s s'" using same_sched_trans [OF _ cw(3), of s] by simp
    with cw assms(2) show ?thesis by (auto intro!: call_ok_RC [where L = L])
  qed
  show ?thesis unfolding tn_task_activate_def
    by (rule task_call_ok [OF assms]) (auto simp: disable_eq intro: start count)
qed

lemma task_iactivate_ok:
  assumes "system_inv s" "has_current s"
  shows "icall_ok s (tn_task_iactivate task s)"
proof -
  have start: "icall_ok s (Some (TERR_NO_ERR,
        if tn_next_task_to_run (task_to_runnable t s) \<noteq> tn_curr_run_task (task_to_runnable t s) \<and>
           tn_enable_switch_context (task_to_runnable t s) \<noteq> 0
        then (task_to_runnable t s)\<lparr>tn_context_switch_request := True\<rparr> else task_to_runnable t s))"
    if i: "sinv s L" and t: "id_task (tcbs s t) = TN_ID_TASK" "task_state (tcbs s t) = TSK_STATE_DORMANT" for t L
  proof -
    obtain L' m b n where s': "sinv (task_to_runnable t s) L'" "task_to_runnable t s =
      s\<lparr>mem := m, tn_ready_to_run_bmp := b, tn_next_task_to_run := n,
      tcbs := (tcbs s)(t := (tcbs s t)\<lparr>task_state := TSK_STATE_RUNNABLE, pwait_queue := None\<rparr>)\<rparr>"
      by (rule start_task [OF i t(1) disjI2 [OF t(2)]]) (rule that)
    have next_or: "tn_next_task_to_run (task_to_runnable t s) = Some t \<or>
        tn_next_task_to_run (task_to_runnable t s) = tn_next_task_to_run s"
      by (simp add: task_to_runnable_def Let_def split: option.split)
    have "tn_curr_run_task s \<noteq> Some t" using assms(2) t(2) by (auto simp: has_current_def)
    with next_or sinvD(7) [OF i] s' show ?thesis
      by (intro icall_okI [OF refl, where L = L']) (auto simp: s'(2) split: if_splits)
  qed
  have count: "icall_ok s (Some (count_activate t s))" if i: "sinv s L" for t L
    using count_activate_ok [OF i, of t] by (auto intro!: icall_ok_RC [where L = L])
  show ?thesis unfolding tn_task_iactivate_def Let_def
  proof (rule task_icall_ok [OF assms(1)], goal_cases)
    case (1 t L)
    then show ?case
      using start [OF 1(3,2)] count [OF 1(3), of t]
      by (cases "task_state (tcbs s t) = TSK_STATE_DORMANT") (simp_all only: if_True if_False simp_thms)
  qed
qed

text \<open>Deletion, termination and exit.\<close>

lemma drop_task_ok:
  assumes i: "sinv s L" and t: "id_task (tcbs s t) = TN_ID_TASK" "task_state (tcbs s t) = TSK_STATE_DORMANT"
  shows "sinv (drop_task t s) L"
proof -
  let ?c = "(tcbs s t)\<lparr>id_task := 0\<rparr>" and ?s = "drop_task t s"
  note k = sinvD(1) [OF i]
  have T: "tcbs ?s = (tcbs s)(t := ?c)" "mem ?s = queue_remove_entry (CreateQ t) (mem s)"
    "tn_ready_to_run_bmp ?s = tn_ready_to_run_bmp s" "tn_next_task_to_run ?s = tn_next_task_to_run s"
    by (simp_all add: drop_task_def Let_def)
  have km: "kmem (mem ?s) L (tcbs ?s)" unfolding T
    by (rule kmem_create_remove [OF kinv_kmem [OF k] t(1)]) (auto split: if_splits)
  have nt: "t \<noteq> tn_timer_task" "t \<noteq> tn_idle_task" using sinvD(6) [OF i] t(2) by (auto simp: system_tasks_def)
  have h: "home ?c = home (tcbs s t)" "waiting ?c = waiting (tcbs s t)" "\<not> waiting ?c" "tcb_ok ?c"
    using t(2) kinvD(7) [OF k, of t] by (auto simp: home_def waiting_def tcb_ok_def)
  have "kinv {} ?s L"
    using km kinvD [OF k] h by (intro kinvI) (auto simp: kmem_def T inv_place_same inv_timer_same)
  then show ?thesis
    by (rule sinv_upd_idle [OF i _ _ T(1) h(3) _ sinvD(3) [OF i]])
       (use sinvD(6) [OF i] nt in \<open>auto simp: same_objects_def drop_task_def Let_def system_tasks_def\<close>)
qed

lemma init_task_stack_ok: "sinv s L \<Longrightarrow> sinv (init_task_stack t s) L"
  unfolding init_task_stack_def Let_def
  by (auto split: prod.split intro!: sinv_upd_counts simp: tcb_view_def)

lemma init_task_stack_simps [simp]:
  "tn_curr_run_task (init_task_stack t s) = tn_curr_run_task s"
  "task_state (tcbs (init_task_stack t s) t') = task_state (tcbs s t')"
  "id_task (tcbs (init_task_stack t s) t') = id_task (tcbs s t')"
  "activate_count (tcbs (init_task_stack t s) t') = activate_count (tcbs s t')"
  "tn_next_task_to_run (init_task_stack t s) = tn_next_task_to_run s"
  "tn_context_switch_request (init_task_stack t s) = tn_context_switch_request s"
  by (auto simp: init_task_stack_def Let_def split: prod.split)

lemma dormant_simps [simp]:
  "tn_curr_run_task (task_set_dormant_state t s) = tn_curr_run_task s"
  "tn_next_task_to_run (task_set_dormant_state t s) = tn_next_task_to_run s"
  "tn_context_switch_request (task_set_dormant_state t s) = tn_context_switch_request s"
  "id_task (tcbs (task_set_dormant_state t s) t') = id_task (tcbs s t')"
  "activate_count (tcbs (task_set_dormant_state t s) t') = activate_count (tcbs s t')"
  "task_state (tcbs (task_set_dormant_state t s) t') = (if t' = t then TSK_STATE_DORMANT else task_state (tcbs s t'))"
  by (simp_all add: task_set_dormant_state_def)

lemma dormant_sinv:
  assumes i: "sinv s L" and k: "kinv {t} s1 L1" and nt: "\<not> in_q L1 TimeoutL (TimerQ t)"
    and so: "same_objects s s1" and T: "tcbs s1 = (tcbs s)(t := c1)"
    and c: "base_priority c1 = base_priority (tcbs s t)" "id_task c1 = TN_ID_TASK" "id_task (tcbs s t) = TN_ID_TASK"
    and L: "\<And>q. live s q \<Longrightarrow> L1 q \<noteq> None" and u: "t \<noteq> tn_timer_task" "t \<noteq> tn_idle_task"
  shows "sinv (init_task_stack t (task_set_dormant_state t s1)) (dormant_queues t L1)"
proof (rule init_task_stack_ok)
  let ?s = "task_set_dormant_state t s1"
  have b: "prio_ok (base_priority c1)"
    using kinvD(7) [OF sinvD(1) [OF i], of t] c by (auto simp: tcb_ok_def)
  have e: "upd_tcb t (\<lambda>_. c1) s1 = s1" by (intro kstate.equality) (simp_all add: T)
  have k': "kinv {} ?s (dormant_queues t L1)"
    using dormant_ok [OF k nt c(2) b] by (simp add: e)
  have T': "tcbs ?s = (tcbs s)(t := tcbs ?s t)" by (simp add: task_set_dormant_state_def T)
  have bp: "base_priority (tcbs s t) \<noteq> 0" using sinvD(6) [OF i] u c(3) by (auto simp: system_tasks_def)
  show "sinv ?s (dormant_queues t L1)"
  proof (rule sinv_upd_idle [OF i k' _ T'])
    show "same_objects s ?s" using so by (simp add: same_objects_def task_set_dormant_state_def)
    show "\<not> waiting (tcbs ?s t)" by (simp add: waiting_def)
    show "system_tasks ((tcbs s)(t := tcbs ?s t))"
      using sinvD(6) [OF i] u bp c T by (auto simp: system_tasks_def task_set_dormant_state_def)
    show "dormant_queues t L1 q \<noteq> None" if "live s q" for q
      using L [OF that] by (simp add: dormant_queues_def)
  qed
qed

lemma leave_wait_ok:
  assumes i: "sinv s L" and t: "waiting (tcbs s t)" "id_task (tcbs s t) = TN_ID_TASK"
    and u: "t \<noteq> tn_timer_task" "t \<noteq> tn_idle_task"
  shows "\<exists>s1 L'. leave_wait_queues t s = Some s1 \<and>
     sinv (init_task_stack t (task_set_dormant_state t s1)) L' \<and> tcbs s1 = tcbs s \<and> sched_only s s1 \<and>
     tn_next_task_to_run s1 = tn_next_task_to_run s"
proof -
  let ?s1 = "on_mem (queue_remove_entry (TaskQ t)) s"
  obtain L1 where L1: "kinv {t} ?s1 L1"
    "\<And>q. q \<noteq> TaskQ t \<Longrightarrow> wait_hdr q \<Longrightarrow>
       L1 q = (if pwait_queue (tcbs s t) = Some q then map_option (remove1 (TaskQ t)) (L q) else L q)"
    by (rule wait_leave [OF sinvD(1) [OF i] t(1)]) (rule that)
  have w1: "waiting (tcbs ?s1 t)" using t by simp
  obtain L2 where L2: "kinv {t} (clear_wait t ?s1) L2" "\<And>q. q \<noteq> TimeoutL \<Longrightarrow> L2 q = L1 q"
    by (rule clear_wait_ok [OF L1(1) _ w1]) (simp, rule that)
  have "L1 BlockedL = Some []" using kinvD(2) [OF L1(1)] by (simp add: inv_lists_def)
  then have nb: "queue_contains_entry (mem ?s1) BlockedL (BlockQ t) = Some False"
    using ring_contains_entry [OF rings_ring [OF kinvD(1) [OF L1(1)]], of BlockedL "[]" "BlockQ t"] by simp
  define s2 where "s2 = (if tick_count (tcbs s t) \<noteq> TN_WAIT_INFINITE
    then on_mem (queue_remove_entry (TimerQ t)) ?s1 else ?s1)"
  have lv: "leave_wait_queues t s = Some s2" using nb by (simp add: leave_wait_queues_def s2_def)
  have same: "task_set_dormant_state t s2 = task_set_dormant_state t (clear_wait t ?s1)"
    by (intro kstate.equality ext)
       (auto simp: s2_def task_set_dormant_state_def clear_wait_def Let_def intro!: tn_tcb.equality)
  have c1: "tcbs (clear_wait t ?s1) = (tcbs s)(t := (tcbs s t)\<lparr>pwait_queue := None, task_wait_rc := TERR_NO_ERR,
      tick_count := TN_WAIT_INFINITE\<rparr>)" by (simp add: clear_wait_def Let_def)
  have "sinv (init_task_stack t (task_set_dormant_state t (clear_wait t ?s1))) (dormant_queues t L2)"
  proof (rule dormant_sinv [OF i L2(1) _ _ c1])
    show "\<not> in_q L2 TimeoutL (TimerQ t)" using kinvD(6) [OF L2(1)] c1 by (simp add: inv_timer_def)
    show "same_objects s (clear_wait t ?s1)" by (simp add: same_objects_def clear_wait_def Let_def)
    show "L2 q \<noteq> None" if "live s q" for q
    proof -
      have w: "wait_hdr q" using that by (rule live_wait_hdr)
      then have "q \<noteq> TimeoutL" "q \<noteq> TaskQ t" by auto
      with L2(2) L1(2) [OF _ w] sinvD(3) [OF i that] show ?thesis by auto
    qed
  qed (use t(2) u in simp_all)
  moreover have "tcbs s2 = tcbs s" "sched_only s s2" "tn_next_task_to_run s2 = tn_next_task_to_run s"
    by (auto simp: s2_def sched_only_iff same_objects_def)
  ultimately show ?thesis using lv same by auto
qed

lemma restart_ok:
  assumes i: "sinv s L" and t: "id_task (tcbs s t) = TN_ID_TASK" "task_state (tcbs s t) = TSK_STATE_DORMANT"
  defines "s1 \<equiv> upd_tcb t (\<lambda>c. c\<lparr>activate_count := activate_count c - 1\<rparr>) s"
  shows "\<exists>L' m b n. sinv (task_to_runnable t s1) L' \<and> task_to_runnable t s1 =
      s1\<lparr>mem := m, tn_ready_to_run_bmp := b, tn_next_task_to_run := n,
      tcbs := (tcbs s1)(t := (tcbs s1 t)\<lparr>task_state := TSK_STATE_RUNNABLE, pwait_queue := None\<rparr>)\<rparr>"
proof -
  have i1: "sinv s1 L" unfolding s1_def by (rule sinv_upd_counts [OF i]) (simp_all add: tcb_view_def)
  have t1: "id_task (tcbs s1 t) = TN_ID_TASK"
    "task_state (tcbs s1 t) = TSK_STATE_SUSPEND \<or> task_state (tcbs s1 t) = TSK_STATE_DORMANT"
    using t by (simp_all add: s1_def)
  show ?thesis by (rule start_task [OF i1 t1]) blast
qed

lemma task_terminate_ok:
  assumes "system_inv s" "running s" and u: "task \<noteq> Some tn_timer_task" "task \<noteq> Some tn_idle_task"
  shows "call_ok s (tn_task_terminate task s)"
proof -
  let ?s = "s\<lparr>irq_disabled := True\<rparr>"
  let ?stop = "\<lambda>t. if task_state (tcbs ?s t) = TSK_STATE_RUNNABLE then task_to_non_runnable t ?s
     else if task_state (tcbs ?s t) AND TSK_STATE_WAIT \<noteq> 0 then leave_wait_queues t ?s else Some ?s"
  have stop: "\<exists>s1 L1. ?stop t = Some s1 \<and> sinv (init_task_stack t (task_set_dormant_state t s1)) L1 \<and>
      tcbs s1 = tcbs s \<and> tn_curr_run_task s1 = tn_curr_run_task s \<and>
      tn_context_switch_request s1 = tn_context_switch_request s \<and>
      (tn_next_task_to_run s = Some t \<or> tn_next_task_to_run s1 = tn_next_task_to_run s)"
    if i: "sinv ?s L" and t: "task = Some t" "id_task (tcbs s t) = TN_ID_TASK" "task_state (tcbs s t) \<noteq> TSK_STATE_DORMANT"
    for t L
  proof -
    have ut: "t \<noteq> tn_timer_task" "t \<noteq> tn_idle_task" using u t(1) by auto
    have same: "tcbs ?s = (tcbs ?s)(t := tcbs ?s t)" by simp
    have ok: "tcb_ok (tcbs s t)" using kinvD(7) [OF sinvD(1) [OF i], of t] by simp
    consider "task_state (tcbs ?s t) = TSK_STATE_RUNNABLE" | "waiting (tcbs ?s t)"
      | "task_state (tcbs ?s t) = TSK_STATE_SUSPEND \<or> task_state (tcbs ?s t) = 0"
      using ok t(3) by (auto simp: tcb_ok_def waiting_def)
    then show ?thesis
    proof cases
      case 1
      obtain m b n s1 L1 where s1: "task_to_non_runnable t ?s = Some s1"
        "s1 = ?s\<lparr>mem := m, tn_ready_to_run_bmp := b, tn_next_task_to_run := n\<rparr>" "kinv {t} s1 L1" "same_waits L L1"
        "tn_next_task_to_run ?s = Some t \<or> n = tn_next_task_to_run ?s"
        by (rule stopped_sinv [OF i 1 ut(2,1)])
      have c1: "tcbs s1 = (tcbs ?s)(t := tcbs s t)" by (simp add: s1(2))
      have "\<not> in_q L1 TimeoutL (TimerQ t)" using kinvD(6) [OF s1(3)] 1 by (simp add: inv_timer_def s1(2) waiting_def)
      then have "sinv (init_task_stack t (task_set_dormant_state t s1)) (dormant_queues t L1)"
        by (rule dormant_sinv [OF i s1(3) _ _ c1 _ _ _ same_waits_live [OF i s1(4)] ut])
           (use t in \<open>simp_all add: s1(2) same_objects_def\<close>)
      with 1 s1(1,2,5) show ?thesis by auto
    next
      case 2
      then obtain s1 L' where "leave_wait_queues t ?s = Some s1"
        "sinv (init_task_stack t (task_set_dormant_state t s1)) L'" "tcbs s1 = tcbs ?s" "sched_only ?s s1"
        "tn_next_task_to_run s1 = tn_next_task_to_run s"
        using leave_wait_ok [OF i _ _ ut] t by auto
      with 2 sinv_bits [OF i, of t] show ?thesis by (auto simp: sched_only_iff waiting_def)
    next
      case 3
      have k: "kinv {t} ?s L" using 3 by (intro kinv_to_transit [OF sinvD(1) [OF i]]) (auto simp: home_def waiting_def)
      have "\<not> in_q L TimeoutL (TimerQ t)" using kinvD(6) [OF k] 3 by (auto simp: inv_timer_def waiting_def)
      then have "sinv (init_task_stack t (task_set_dormant_state t ?s)) (dormant_queues t L)"
        by (rule dormant_sinv [OF i k _ _ same _ _ _ sinvD(3) [OF i] ut]) (use t in \<open>simp_all add: same_objects_def\<close>)
      moreover have "?stop t = Some ?s" using 3 by auto
      ultimately show ?thesis by auto
    qed
  qed
  have body: "call_ok s (do { s1 \<leftarrow> ?stop t;
        if activate_count (tcbs (init_task_stack t (task_set_dormant_state t s1)) t) > 0
        then Some (switch_ret sr (task_to_runnable t
               (upd_tcb t (\<lambda>c. c\<lparr>activate_count := activate_count c - 1\<rparr>)
                  (init_task_stack t (task_set_dormant_state t s1)))))
        else Some (RC TERR_NO_ERR, tn_enable_interrupt sr (init_task_stack t (task_set_dormant_state t s1))) })"
    if i: "sinv ?s L" and t: "task = Some t" "id_task (tcbs s t) = TN_ID_TASK" "task_state (tcbs s t) \<noteq> TSK_STATE_DORMANT"
      "tn_curr_run_task s \<noteq> Some t" for t L sr
  proof -
    obtain s1 L1 where s1: "?stop t = Some s1" "sinv (init_task_stack t (task_set_dormant_state t s1)) L1"
      "tcbs s1 = tcbs s" "tn_curr_run_task s1 = tn_curr_run_task s"
      "tn_context_switch_request s1 = tn_context_switch_request s"
      "tn_next_task_to_run s = Some t \<or> tn_next_task_to_run s1 = tn_next_task_to_run s"
      using stop [OF i t(1-3)] by blast
    let ?s2 = "init_task_stack t (task_set_dormant_state t s1)"
    have cur: "has_current ?s2" using assms(2) t(4) s1(3,4) by (auto simp: has_current_def running_def)
    show ?thesis
    proof (cases "activate_count (tcbs ?s2 t) > 0")
      case True
      let ?s3 = "upd_tcb t (\<lambda>c. c\<lparr>activate_count := activate_count c - 1\<rparr>) ?s2"
      obtain L' m b n where s3: "sinv (task_to_runnable t ?s3) L'" "task_to_runnable t ?s3 =
        ?s3\<lparr>mem := m, tn_ready_to_run_bmp := b, tn_next_task_to_run := n,
        tcbs := (tcbs ?s3)(t := (tcbs ?s3 t)\<lparr>task_state := TSK_STATE_RUNNABLE, pwait_queue := None\<rparr>)\<rparr>"
        using restart_ok [OF s1(2), of t] t(2) s1(3) by auto
      have "has_current (task_to_runnable t ?s3)" "tn_curr_run_task (task_to_runnable t ?s3) = tn_curr_run_task s"
        using cur s1(4) by (auto simp: s3(2) has_current_def)
      with True s1(1) s3(1) show ?thesis by (simp add: switch_ret_ok)
    next
      case False
      have "running ?s2" using assms(2) t(4) s1(3,4) by (auto simp: running_def)
      moreover have "scheduled ?s2" if "scheduled s" using that s1(4,6) t(4) by (auto simp: scheduled_def)
      ultimately have "call_ok s (Some (RC TERR_NO_ERR, tn_enable_interrupt sr ?s2))"
        using s1(2,4) cur by (intro call_okI [OF refl, where L = L1])
          (auto simp: tn_enable_interrupt_def running_def scheduled_def has_current_def)
      with False s1(1) show ?thesis by simp
    qed
  qed
  show ?thesis unfolding tn_task_terminate_def disable_eq Let_def prod.case
  proof (rule task_call_ok [OF assms(1,2)], goal_cases)
    case (1 t L)
    then show ?case
      using body [OF 1(3,1,2)] irq_RC_ok [OF 1(3) assms(2)]
      by (cases "task_state (tcbs s t) = TSK_STATE_DORMANT \<or> tn_curr_run_task s = Some t") auto
  qed
qed

lemma task_delete_ok:
  assumes "system_inv s" "running s"
  shows "call_ok s (tn_task_delete task s)"
proof -
  let ?s = "s\<lparr>irq_disabled := True\<rparr>"
  have drop: "call_ok s (Some (RC TERR_NO_ERR, tn_enable_interrupt sr (drop_task t ?s)))"
    if "sinv ?s L" "id_task (tcbs s t) = TN_ID_TASK" "task_state (tcbs s t) = TSK_STATE_DORMANT" for t L sr
  proof -
    have "sinv (drop_task t ?s) L" using that by (intro drop_task_ok) auto
    moreover have "same_sched s (drop_task t ?s)" by (auto simp: same_sched_def drop_task_def Let_def)
    ultimately show ?thesis using assms(2) by (auto intro!: call_ok_RC [where L = L])
  qed
  show ?thesis unfolding tn_task_delete_def
    by (rule task_call_ok [OF assms]) (auto simp: disable_eq intro: drop irq_RC_ok assms(2))
qed

lemma change_priority_idle:
  assumes i: "sinv s L" and t: "task_state (tcbs s t) \<noteq> TSK_STATE_RUNNABLE" "id_task (tcbs s t) = TN_ID_TASK"
    "t \<noteq> tn_timer_task" "t \<noteq> tn_idle_task" and p: "prio_ok p" "p \<noteq> 0"
  shows "sinv (upd_tcb t (\<lambda>c. c\<lparr>priority := p\<rparr>) s) L"
proof -
  let ?c = "(tcbs s t)\<lparr>priority := p\<rparr>"
  have "tcb_ok (tcbs s t)" by (rule kinvD(7) [OF sinvD(1) [OF i]])
  then have "tcb_ok ?c" using t(2) p by (auto simp: tcb_ok_def waiting_def)
  moreover have "system_tasks ((tcbs s)(t := ?c))" using sinvD(6) [OF i] t p by (auto simp: system_tasks_def)
  ultimately show ?thesis unfolding upd_tcb_def
    using t(1) by (intro sinv_upd_same [OF i]) (simp_all add: home_def waiting_def)
qed

lemma change_priority_running:
  assumes i: "sinv s L" and t: "task_state (tcbs s t) = TSK_STATE_RUNNABLE"
    "t \<noteq> tn_timer_task" "t \<noteq> tn_idle_task" and p: "prio_ok p" "p \<noteq> 0"
  shows "\<exists>sw s' L' m b n. change_running_task_priority t p s = Some (sw, s') \<and> sinv s' L' \<and>
    s' = s\<lparr>mem := m, tn_ready_to_run_bmp := b, tn_next_task_to_run := n,
            tcbs := (tcbs s)(t := (tcbs s t)\<lparr>priority := p\<rparr>)\<rparr> \<and>
    (sw = 0 \<longleftrightarrow> n = tn_next_task_to_run s)"
proof -
  obtain rc m b n s' L' where s': "change_running_task_priority t p s = Some (rc, s')"
    "s' = s\<lparr>mem := m, tn_ready_to_run_bmp := b, tn_next_task_to_run := n,
            tcbs := (tcbs s)(t := (tcbs s t)\<lparr>priority := p\<rparr>)\<rparr>"
    "kinv {} s' L'" "same_waits L L'"
    "rc = (if n = tn_next_task_to_run s then 0 else tn_enable_switch_context s)"
    by (rule change_running_task_priority_ok [OF sinvD(1) [OF i] t(1) p(1)])
  have "sinv s' L'"
    by (rule sinv_upd_idle [OF i s'(3) _ _ _ _ same_waits_live [OF i s'(4)],
          where c = "(tcbs s t)\<lparr>priority := p\<rparr>" and t = t])
       (use sinvD(6) [OF i] t p in \<open>auto simp: s'(2) same_objects_def waiting_def system_tasks_def\<close>)
  with s'(1,2,5) sinvD(7) [OF i] show ?thesis by auto
qed

lemma task_change_priority_ok:
  assumes "system_inv s" "running s" and u: "task \<noteq> Some tn_timer_task" "task \<noteq> Some tn_idle_task"
  shows "call_ok s (tn_task_change_priority task new_priority s)"
proof (cases "\<exists>t. task = Some t \<and> id_task (tcbs s t) = TN_ID_TASK \<and> \<not> bad_non_int_context s \<and>
    0 \<le> new_priority \<and> new_priority \<le> TN_NUM_PRIORITY - 2")
  case False
  with assms(1,2) show ?thesis
    by (auto simp: tn_task_change_priority_def not_le intro: call_ok_error split: option.split)
next
  case True
  then obtain t where t: "task = Some t" "id_task (tcbs s t) = TN_ID_TASK" "\<not> bad_non_int_context s"
    "0 \<le> new_priority" "new_priority \<le> TN_NUM_PRIORITY - 2" by blast
  from assms(1) obtain L where i: "sinv s L" by (auto simp: system_inv_def)
  let ?s = "s\<lparr>irq_disabled := True\<rparr>"
  have is0: "sinv ?s L" using i by simp
  have u': "t \<noteq> tn_timer_task" "t \<noteq> tn_idle_task" using u t by auto
  define p where "p = (if new_priority = 0 then base_priority (tcbs s t) else new_priority)"
  have "tcb_ok (tcbs s t)" by (rule kinvD(7) [OF sinvD(1) [OF i]])
  then have p: "prio_ok p" "p \<noteq> 0"
    using t u' sinvD(6) [OF i] by (auto simp: p_def tcb_ok_def prio_ok_def system_tasks_def)
  show ?thesis
  proof (cases "task_state (tcbs s t) = TSK_STATE_RUNNABLE")
    case True
    then obtain sw s' L' m b n where s': "change_running_task_priority t p ?s = Some (sw, s')" "sinv s' L'"
      "s' = ?s\<lparr>mem := m, tn_ready_to_run_bmp := b, tn_next_task_to_run := n,
            tcbs := (tcbs ?s)(t := (tcbs ?s t)\<lparr>priority := p\<rparr>)\<rparr>" "sw = 0 \<longleftrightarrow> n = tn_next_task_to_run ?s"
      using change_priority_running [OF is0 _ u' p] by auto
    have st: "task_state (tcbs s' t') = task_state (tcbs s t')" for t' by (simp add: s'(3))
    have "call_ok s (Some (if sw \<noteq> 0 then SWITCH_RC TERR_NO_ERR else RC TERR_NO_ERR,
        tn_enable_interrupt (irq_disabled s) s'))"
    proof (cases "sw = 0")
      case True
      have "same_sched s s'" using True s'(3,4) st by (simp add: same_sched_def)
      with True s'(2) assms(2) show ?thesis by (auto intro!: call_ok_RC [where L = L'])
    next
      case False
      have "has_current (tn_enable_interrupt (irq_disabled s) s')"
        by (rule run_current [OF assms(2)]) (auto simp: tn_enable_interrupt_def s'(3))
      moreover have "tn_curr_run_task (tn_enable_interrupt (irq_disabled s) s') = tn_curr_run_task s"
        by (simp add: tn_enable_interrupt_def s'(3))
      moreover have "sinv (tn_enable_interrupt (irq_disabled s) s') L'" using s'(2) by simp
      ultimately show ?thesis using False by (simp add: call_ok_SWITCH)
    qed
    with True t s'(1) show ?thesis
      by (cases "new_priority = 0") (simp_all add: tn_task_change_priority_def disable_eq Let_def p_def)
  next
    case False
    have "same_sched s (upd_tcb t (\<lambda>c. c\<lparr>priority := p\<rparr>) ?s)" by (subst same_sched_upd) simp_all
    moreover have "sinv (upd_tcb t (\<lambda>c. c\<lparr>priority := p\<rparr>) ?s) L"
      using False t u' p by (intro change_priority_idle [OF is0]) simp_all
    ultimately have "call_ok s (Some (RC TERR_NO_ERR, tn_enable_interrupt (irq_disabled s) (upd_tcb t (\<lambda>c. c\<lparr>priority := p\<rparr>) ?s)))"
      using assms(2) by (intro call_ok_RC [where L = L]) simp_all
    with False t irq_RC_ok [OF is0 assms(2)] show ?thesis
      by (cases "new_priority = 0") (simp_all add: tn_task_change_priority_def disable_eq Let_def p_def)
  qed
qed

text \<open>\<open>tn_task_exit\<close> runs the next task, whatever happens to the caller. A task that deletes
  itself must not have an activation pending: the code would make it runnable and then
  mark it as deleted.\<close>

lemma task_exit_ok:
  assumes "system_inv s" "user_running s"
    and nd: "\<And>t. attr = TN_EXIT_AND_DELETE_TASK \<Longrightarrow> tn_curr_run_task s = Some t \<Longrightarrow> activate_count (tcbs s t) \<le> 0"
  shows "\<exists>r. tn_task_exit attr s = Some r \<and>
    (case r of Inl s' \<Rightarrow> s' = s | Inr s' \<Rightarrow> system_inv s' \<and> running s' \<and> scheduled s')"
proof (cases "bad_int_context s")
  case True
  then show ?thesis by (simp add: tn_task_exit_def)
next
  case ctx: False
  from assms(1) obtain L where i0: "sinv s L" by (auto simp: system_inv_def)
  let ?s = "s\<lparr>irq_disabled := True\<rparr>"
  have i: "sinv ?s L" using i0 by simp
  from assms(2) obtain t where t: "tn_curr_run_task s = Some t" "task_state (tcbs ?s t) = TSK_STATE_RUNNABLE"
      "t \<noteq> tn_timer_task" "t \<noteq> tn_idle_task" by (auto simp: user_running_def)
  obtain m b n s1 L1 where s1: "task_to_non_runnable t ?s = Some s1"
    "s1 = ?s\<lparr>mem := m, tn_ready_to_run_bmp := b, tn_next_task_to_run := n\<rparr>" "kinv {t} s1 L1" "same_waits L L1"
    by (rule stopped_sinv [OF i t(2,4,3)])
  have id: "id_task (tcbs ?s t) = TN_ID_TASK" using tcb_ok_runnable [OF kinvD(7) [OF sinvD(1) [OF i]] t(2)] by simp
  have c1: "tcbs s1 = (tcbs ?s)(t := tcbs s t)" by (simp add: s1(2))
  let ?s2 = "init_task_stack t (task_set_dormant_state t s1)"
  have "\<not> in_q L1 TimeoutL (TimerQ t)" using kinvD(6) [OF s1(3)] t(2) by (simp add: inv_timer_def s1(2) waiting_def)
  then have i2: "sinv ?s2 (dormant_queues t L1)"
    by (rule dormant_sinv [OF i s1(3) _ _ c1 _ _ _ same_waits_live [OF i s1(4)] t(3,4)])
       (use id in \<open>simp_all add: s1(2) same_objects_def\<close>)
  have t2: "id_task (tcbs ?s2 t) = TN_ID_TASK" "task_state (tcbs ?s2 t) = TSK_STATE_DORMANT"
    "activate_count (tcbs ?s2 t) = activate_count (tcbs s t)" using id by (simp_all add: s1(2))
  let ?s3 = "if activate_count (tcbs ?s2 t) > 0
     then task_to_runnable t (upd_tcb t (\<lambda>c. c\<lparr>activate_count := activate_count c - 1\<rparr>) ?s2) else ?s2"
  let ?s4 = "if attr = TN_EXIT_AND_DELETE_TASK then drop_task t ?s3 else ?s3"
  have "\<exists>L4. sinv ?s4 L4"
  proof (cases "activate_count (tcbs s t) > 0")
    case True
    with nd t(1) have "attr \<noteq> TN_EXIT_AND_DELETE_TASK" by force
    with True t2 restart_ok [OF i2 t2(1,2)] show ?thesis by auto
  next
    case False
    with t2 i2 drop_task_ok [OF i2 t2(1,2)] show ?thesis by auto
  qed
  then obtain L4 where i4: "sinv ?s4 L4" by blast
  obtain nx where nx: "tn_next_task_to_run ?s4 = Some nx" "task_state (tcbs ?s4 nx) = TSK_STATE_RUNNABLE"
    using i4 by (rule sinv_next)
  have "tn_task_exit attr s = Some (Inr (?s4\<lparr>tn_curr_run_task := Some nx, irq_disabled := False\<rparr>))"
    using ctx t(1) s1(1) nx(1) by (simp add: tn_task_exit_def tn_switch_context_exit_def Let_def)
  moreover have "system_inv (?s4\<lparr>tn_curr_run_task := Some nx, irq_disabled := False\<rparr>)"
    using i4 by (auto intro!: system_invI [where L = L4])
  ultimately show ?thesis using nx by (auto simp: running_def scheduled_def)
qed

text \<open>
  Creation. The caller must not recreate the system tasks (their control blocks, or priority 0),
  and a task that starts at once must not outrank its creator: \<open>tn_task_create\<close> chooses the new
  task to run but does not switch to it.
\<close>

definition create_pre :: "tid option \<Rightarrow> int \<Rightarrow> u32 \<Rightarrow> kstate \<Rightarrow> bool" where
  "create_pre task prio option s \<longleftrightarrow>
     task \<noteq> Some tn_timer_task \<and> task \<noteq> Some tn_idle_task \<and> prio \<noteq> 0 \<and>
     (option AND TN_TASK_START_ON_CREATION \<noteq> 0 \<longrightarrow>
        (\<forall>c. tn_curr_run_task s = Some c \<longrightarrow> priority (tcbs s c) \<le> prio))"

lemma task_to_runnable_next_eq:
  "tn_next_task_to_run (task_to_runnable t s) =
     (case tn_next_task_to_run s of None \<Rightarrow> Some t
      | Some n \<Rightarrow> if priority (tcbs s t) < priority (tcbs s n) then Some t else Some n)"
  by (auto simp: task_to_runnable_def Let_def split: option.split)

lemma kinv_create_add:
  assumes "kinv {} s L" shows "kinv {} (on_mem (queue_add_tail CreateL (CreateQ t)) s) L"
proof -
  have "kmem (queue_add_tail CreateL (CreateQ t) (mem s)) L (tcbs s)"
    using kmem_create_add [OF kinv_kmem [OF assms], of t "tcbs s t"] by simp
  then show ?thesis using kinvD [OF assms] by (intro kinvI) (auto simp: kmem_def)
qed

definition new_tcb :: "addr \<Rightarrow> addr \<Rightarrow> addr \<Rightarrow> int \<Rightarrow> int \<Rightarrow> tn_tcb \<Rightarrow> tn_tcb" where
  "new_tcb f param stk sz prio c = c\<lparr>task_func_addr := f, task_func_param := param,
     stk_start := stk, stk_size := sz, base_priority := prio, activate_count := 0, id_task := TN_ID_TASK\<rparr>"

lemma create_kinv:
  assumes k: "kinv {} s L" and t: "id_task (tcbs s t) = 0" and p: "prio_ok prio"
    and s1_def: "s1 = task_set_dormant_state t ((upd_tcb t (new_tcb f param stk sz prio) s)\<lparr>stk_mem := fs\<rparr>)"
  shows "kinv {} s1 (dormant_queues t L)"
proof -
  have st: "task_state (tcbs s t) = 0 \<or> task_state (tcbs s t) = TSK_STATE_DORMANT"
    using kinvD(7) [OF k, of t] t by (auto simp: tcb_ok_def)
  have kt: "kinv {t} (s\<lparr>stk_mem := fs\<rparr>) L"
    using kinv_to_transit [OF k, of t] st by (auto simp: home_def waiting_def)
  have nq: "\<not> in_q L TimeoutL (TimerQ t)" using kinvD(6) [OF kt] st by (auto simp: inv_timer_def waiting_def)
  let ?c0 = "new_tcb f param stk sz prio (tcbs s t)"
  have e: "s1 = task_set_dormant_state t (upd_tcb t (\<lambda>_. ?c0) (s\<lparr>stk_mem := fs\<rparr>))"
    unfolding s1_def upd_tcb_def by (rule arg_cong [where f = "task_set_dormant_state t"]) (rule kstate.equality, simp_all)
  show ?thesis
    unfolding e by (rule dormant_ok [OF kt nq]) (use p in \<open>simp_all add: new_tcb_def\<close>)
qed

lemma create_dormant:
  assumes i: "sinv s L" and t: "id_task (tcbs s t) = 0" "t \<noteq> tn_timer_task" "t \<noteq> tn_idle_task"
    and p: "prio_ok prio" "prio \<noteq> 0"
    and s1_def: "s1 = task_set_dormant_state t ((upd_tcb t (new_tcb f param stk sz prio) s)\<lparr>stk_mem := fs\<rparr>)"
  shows "\<exists>L'. sinv s1 L'"
proof -
  note k1 = create_kinv [OF sinvD(1) [OF i] t(1) p(1) s1_def]
  have T: "tcbs s1 = (tcbs s)(t := tcbs s1 t)" by (simp add: s1_def task_set_dormant_state_def)
  have "sinv s1 (dormant_queues t L)"
  proof (rule sinv_upd_idle [OF i k1 _ T])
    show "system_tasks ((tcbs s)(t := tcbs s1 t))"
      using sinvD(6) [OF i] t p(2) by (auto simp: system_tasks_def s1_def task_set_dormant_state_def new_tcb_def)
    show "dormant_queues t L q \<noteq> None" if "live s q" for q
      using sinvD(3) [OF i that] by (simp add: dormant_queues_def)
  qed (simp_all add: s1_def task_set_dormant_state_def same_objects_def waiting_def)
  then show ?thesis by blast
qed

lemma create_enter:
  assumes i: "sinv s L"
  shows "sinv ((on_mem (queue_add_tail CreateL (CreateQ t)) (init_task_stack t s))
     \<lparr>tn_created_tasks_qty := n\<rparr>) L"
proof -
  note i1 = init_task_stack_ok [OF i, of t]
  let ?s = "on_mem (queue_add_tail CreateL (CreateQ t)) (init_task_stack t s)"
  have so: "same_objects (init_task_stack t s) ?s" by (simp add: same_objects_def)
  have "inv_objs ?s L" using i1 unfolding sinv_def inv_objs_def same_objectsD [OF so] by simp
  with kinv_create_add [OF sinvD(1) [OF i1]] have "sinv ?s L" by (simp add: sinv_def)
  then show ?thesis by simp
qed

text \<open>What a successful creation does.\<close>

lemma task_create_eq:
  assumes "id_task (tcbs s t) = 0" "\<not> bad_non_int_context s" "prio_ok prio" "sz \<ge> TN_MIN_STACK_SIZE" "f \<noteq> 0" "stk \<noteq> 0"
    "\<not> (prio = TN_NUM_PRIORITY - 1 \<and> option AND TN_TASK_IDLE = 0)" "\<not> (prio = 0 \<and> option AND TN_TASK_TIMER = 0)"
  shows "tn_task_create (Some t) f prio stk sz param option s =
     (let running = (tn_system_state s = TN_ST_STATE_RUNNING);
          (sr, s) = (if running then tn_disable_interrupt s else (False, s));
          s = task_set_dormant_state t ((upd_tcb t (new_tcb f param stk sz prio) s)
                \<lparr>stk_mem := fill_stack (nat sz) stk (stk_mem s)\<rparr>);
          s = (on_mem (queue_add_tail CreateL (CreateQ t)) (init_task_stack t s))
                \<lparr>tn_created_tasks_qty := tn_created_tasks_qty s + 1\<rparr>;
          s = (if option AND TN_TASK_START_ON_CREATION \<noteq> 0 then task_to_runnable t s else s)
      in Some (RC TERR_NO_ERR, if running then tn_enable_interrupt sr s else s))"
proof -
  have nt: "(\<lambda>c. c\<lparr>task_func_addr := f, task_func_param := param, stk_start := stk, stk_size := sz,
      base_priority := prio, activate_count := 0, id_task := TN_ID_TASK\<rparr>) = new_tcb f param stk sz prio"
    by (simp add: new_tcb_def fun_eq_iff)
  have q: "tn_created_tasks_qty (init_task_stack t s') = tn_created_tasks_qty s'"
    "stk_mem (upd_tcb t h s') = stk_mem s'" for h s'
    by (simp_all add: init_task_stack_def Let_def split: prod.split)
  have z: "\<not> (prio < 0 \<or> prio > TN_NUM_PRIORITY - 1)" using assms(3) by (auto simp: prio_ok_def)
  show ?thesis
    using assms z unfolding tn_task_create_def Let_def nt
    by (cases "tn_system_state s = TN_ST_STATE_RUNNING") (simp_all add: disable_eq q)
qed

lemma task_create_ok:
  assumes "system_inv s" "running s" and pre: "create_pre task prio option s"
  shows "call_ok s (tn_task_create task f prio stk sz param option s)"
proof (cases "tn_task_create task f prio stk sz param option s = Some (RC TERR_WRONG_PARAM, s) \<or>
    tn_task_create task f prio stk sz param option s = Some (RC TERR_WCONTEXT, s)")
  case True
  with call_ok_error [OF assms(1,2)] show ?thesis by auto
next
  case False
  then obtain t where t: "task = Some t" "id_task (tcbs s t) = 0" "\<not> bad_non_int_context s"
    "prio_ok prio" "sz \<ge> TN_MIN_STACK_SIZE" "f \<noteq> 0" "stk \<noteq> 0"
    "\<not> (prio = TN_NUM_PRIORITY - 1 \<and> option AND TN_TASK_IDLE = 0)"
    using pre by (cases task) (auto simp: tn_task_create_def create_pre_def prio_ok_def split: if_splits)
  have u: "t \<noteq> tn_timer_task" "t \<noteq> tn_idle_task" "prio \<noteq> 0" using pre t(1) by (auto simp: create_pre_def)
  from assms(1) obtain L where i: "sinv s L" by (auto simp: system_inv_def)
  define sr s0 where "sr = (if tn_system_state s = TN_ST_STATE_RUNNING then irq_disabled s else False)"
    and "s0 = (if tn_system_state s = TN_ST_STATE_RUNNING then s\<lparr>irq_disabled := True\<rparr> else s)"
  define s1 where "s1 = task_set_dormant_state t ((upd_tcb t (new_tcb f param stk sz prio) s0)
      \<lparr>stk_mem := fill_stack (nat sz) stk (stk_mem s0)\<rparr>)"
  define s2 where "s2 = (on_mem (queue_add_tail CreateL (CreateQ t)) (init_task_stack t s1))
     \<lparr>tn_created_tasks_qty := tn_created_tasks_qty s1 + 1\<rparr>"
  define s3 where "s3 = (if option AND TN_TASK_START_ON_CREATION \<noteq> 0 then task_to_runnable t s2 else s2)"
  define s4 where "s4 = (if tn_system_state s = TN_ST_STATE_RUNNING then tn_enable_interrupt sr s3 else s3)"
  have eq: "tn_task_create task f prio stk sz param option s = Some (RC TERR_NO_ERR, s4)"
    unfolding s4_def s3_def s2_def s1_def s0_def sr_def
    by (cases "tn_system_state s = TN_ST_STATE_RUNNING")
       (use t u task_create_eq [OF t(2-8)] in \<open>simp_all add: disable_eq Let_def\<close>)
  have "sinv s0 L" "id_task (tcbs s0 t) = 0" using i t(2) by (simp_all add: s0_def)
  from create_dormant [OF this u(1,2) t(4) u(3) s1_def] obtain L1 where "sinv s1 L1" by blast
  then have i2: "sinv s2 L1" unfolding s2_def by (rule create_enter)
  have s2: "id_task (tcbs s2 t) = TN_ID_TASK" "task_state (tcbs s2 t) = TSK_STATE_DORMANT"
    "tn_next_task_to_run s2 = tn_next_task_to_run s" "tn_curr_run_task s2 = tn_curr_run_task s"
    "tn_context_switch_request s2 = tn_context_switch_request s" "priority (tcbs s2 t) = prio"
    "\<And>t'. t' \<noteq> t \<Longrightarrow> tcbs s2 t' = tcbs s t'"
    by (auto simp: s2_def s1_def s0_def new_tcb_def task_set_dormant_state_def init_task_stack_def split: prod.split)
  have ct: "tn_curr_run_task s \<noteq> Some t"
  proof
    assume "tn_curr_run_task s = Some t"
    then show False using assms(2) t(2) tcb_ok_runnable [OF kinvD(7) [OF sinvD(1) [OF i]], of t]
      by (auto simp: running_def)
  qed
  have run: "running s3'" if "tn_curr_run_task s3' = tn_curr_run_task s2" "\<And>t'. t' \<noteq> t \<Longrightarrow> tcbs s3' t' = tcbs s2 t'" for s3'
    using assms(2) ct that s2(4,7) by (fastforce simp: running_def)
  have fin: "call_ok s (Some (RC TERR_NO_ERR, s4))"
    if "sinv s3 L3" "tn_curr_run_task s3 = tn_curr_run_task s" "running s3" "scheduled s \<Longrightarrow> scheduled s3" for L3
    using that by (intro call_okI [OF refl, where L = L3])
      (auto simp: s4_def tn_enable_interrupt_def running_def scheduled_def has_current_def)
  show ?thesis
  proof (cases "option AND TN_TASK_START_ON_CREATION = 0")
    case True
    then have "s3 = s2" by (simp add: s3_def)
    with fin [of L1] i2 run [of s2] s2(3,4) show ?thesis unfolding eq by (auto simp: scheduled_def)
  next
    case False
    then have s3: "s3 = task_to_runnable t s2" by (simp add: s3_def)
    obtain L3 m b n where i3: "sinv (task_to_runnable t s2) L3" and sh: "task_to_runnable t s2 =
        s2\<lparr>mem := m, tn_ready_to_run_bmp := b, tn_next_task_to_run := n,
        tcbs := (tcbs s2)(t := (tcbs s2 t)\<lparr>task_state := TSK_STATE_RUNNABLE, pwait_queue := None\<rparr>)\<rparr>"
      by (rule start_task [OF i2 s2(1) disjI2 [OF s2(2)]]) (rule that)
    have "scheduled s3" if sc: "scheduled s"
    proof -
      from assms(2) sc obtain c where c: "tn_curr_run_task s = Some c" "tn_next_task_to_run s = Some c"
        by (auto simp: running_def scheduled_def)
      then have "priority (tcbs s2 c) \<le> prio" "c \<noteq> t"
        using pre False ct s2(7) [of c] by (auto simp: create_pre_def)
      with c s2 show ?thesis unfolding s3 scheduled_def task_to_runnable_next_eq by (simp add: sh)
    qed
    moreover have "running s3" by (rule run) (simp_all add: s3 sh)
    ultimately show ?thesis unfolding eq using i3 s2(4) by (intro fin [of L3]) (simp_all add: s3 sh)
  qed
qed

section \<open>The contracts\<close>

definition user_target :: "tid option \<Rightarrow> kstate \<Rightarrow> bool" where
  "user_target task s \<longleftrightarrow> task \<noteq> Some tn_timer_task \<and> task \<noteq> Some tn_idle_task"

interpretation task_create: init_service "create_pre task prio option"
  "tn_task_create task f prio stk sz param option" for task f prio stk sz param option
  by unfold_locales (rule task_create_ok)
interpretation task_suspend: init_service "user_target task" "tn_task_suspend task" for task
  by unfold_locales (auto simp: user_target_def intro: task_suspend_ok)
interpretation task_resume: init_service "\<lambda>_. True" "tn_task_resume task" for task
  by unfold_locales (rule task_resume_ok)
interpretation task_sleep: kernel_service "\<lambda>_. True" "tn_task_sleep timeout" for timeout
  by unfold_locales (rule task_sleep_ok)
interpretation task_wakeup: init_service "\<lambda>_. True" "tn_task_wakeup task" for task
  by unfold_locales (rule task_wakeup_ok)
interpretation task_iwakeup: isr_service has_current "tn_task_iwakeup task" for task
  by unfold_locales (rule task_iwakeup_ok)
interpretation task_activate: init_service "\<lambda>_. True" "tn_task_activate task" for task
  by unfold_locales (rule task_activate_ok)
interpretation task_iactivate: isr_service has_current "tn_task_iactivate task" for task
  by unfold_locales (rule task_iactivate_ok)
interpretation task_release_wait: init_service "\<lambda>_. True" "tn_task_release_wait task" for task
  by unfold_locales (rule task_release_wait_ok)
interpretation task_irelease_wait: isr_service "\<lambda>_. True" "tn_task_irelease_wait task" for task
  by unfold_locales (rule task_irelease_wait_ok)
interpretation task_terminate: init_service "user_target task" "tn_task_terminate task" for task
  by unfold_locales (auto simp: user_target_def intro: task_terminate_ok)
interpretation task_delete: init_service "\<lambda>_. True" "tn_task_delete task" for task
  by unfold_locales (rule task_delete_ok)
interpretation task_change_priority: init_service "user_target task" "tn_task_change_priority task p" for task p
  by unfold_locales (auto simp: user_target_def intro: task_change_priority_ok)

end
