(* ===== verification/Ticks.thy ===== *)
theory Ticks
  imports Tasks
begin

text \<open>
  \<open>src/TNKernel/tn.c\<close>: the start of the system, the bodies of the two system tasks, the
  round-robin settings and the processing of a tick interrupt. Starting the system
  establishes the invariant; a tick and the timer task keep it, and count down every timeout.
\<close>

section \<open>The code\<close>

abbreviation TN_TIMER_STACK_SIZE :: int where "TN_TIMER_STACK_SIZE \<equiv> 80"
abbreviation TN_IDLE_STACK_SIZE :: int where "TN_IDLE_STACK_SIZE \<equiv> 48"

text \<open>The body of the loop over the priorities.\<close>

definition reset_priority :: "int \<Rightarrow> kstate \<Rightarrow> kstate" where
  "reset_priority i s =
     (on_mem (queue_reset (ReadyL i)) s)\<lparr>tn_tslice_ticks := (tn_tslice_ticks s)(i := NO_TIME_SLICE)\<rparr>"

text \<open>\<open>tn_start_system\<close> up to the creation of the system tasks.\<close>

definition reset_globals :: "kstate \<Rightarrow> kstate" where
  "reset_globals s =
     (let s = fold reset_priority [0..TN_NUM_PRIORITY - 1] s;
          s = on_mem (queue_reset CreateL) s;
          s = s\<lparr>tn_created_tasks_qty := 0, tn_system_state := TN_ST_STATE_NOT_RUN,
                tn_enable_switch_context := 1, tn_ready_to_run_bmp := 0,
                tn_context_switch_request := False, tn_int_counter := 0,
                tn_next_task_to_run := None, tn_curr_run_task := None\<rparr>;
          s = on_mem (queue_reset LockedL) s;
          s = on_mem (queue_reset BlockedL) s
      in on_mem (queue_reset TimeoutL) s)"

text \<open>\<open>tn_start_exe\<close> falls through to \<open>tn_switch_context_exit\<close>.\<close>

definition tn_start_exe :: "kstate \<Rightarrow> kstate option" where
  "tn_start_exe s = tn_switch_context_exit (s\<lparr>tn_system_state := TN_ST_STATE_RUNNING\<rparr>)"

text \<open>The link-time addresses of the system tasks' functions and of the last words of their stacks.\<close>

record link_addrs =
  timer_task_func :: addr
  idle_task_func :: addr
  timer_task_stack :: addr
  idle_task_stack :: addr

definition tn_start_system :: "link_addrs \<Rightarrow> kstate \<Rightarrow> kstate option" where
  "tn_start_system A s =
     do { let s = reset_globals s;
          (_, s) \<leftarrow> tn_task_create (Some tn_timer_task) (timer_task_func A) 0 (timer_task_stack A)
                     TN_TIMER_STACK_SIZE 0 TN_TASK_TIMER s;
          (_, s) \<leftarrow> tn_task_create (Some tn_idle_task) (idle_task_func A) (TN_NUM_PRIORITY - 1)
                     (idle_task_stack A) TN_IDLE_STACK_SIZE 0 TN_TASK_IDLE s;
          let s = task_to_runnable tn_idle_task s;
          let s = task_to_runnable tn_timer_task s;
          tn_start_exe (s\<lparr>tn_curr_run_task := Some tn_idle_task\<rparr>) }"

text \<open>
  The timer task. \<open>tick_count\<close> is an \<open>int\<close>, compared with 0 as a signed number and with
  \<open>TN_WAIT_INFINITE\<close> as an unsigned one. The scan follows the \<open>next\<close> pointers of the timeout list
  while it takes expired tasks out of it; on a damaged list it need not end.
\<close>

definition count_down :: "tid \<Rightarrow> kstate \<Rightarrow> kstate" where
  "count_down task s =
     (if sint (tick_count (tcbs s task)) > 0 \<and> tick_count (tcbs s task) \<noteq> TN_WAIT_INFINITE then
        let s = upd_tcb task (\<lambda>c. c\<lparr>tick_count := tick_count c - 1\<rparr>) s
        in if tick_count (tcbs s task) = 0
           then upd_tcb task (\<lambda>c. c\<lparr>task_wait_rc := TERR_TIMEOUT\<rparr>)
                  (snd (task_wait_complete (Some task) True s))
           else s
      else s)"

partial_function (option) timer_scan :: "qnode \<Rightarrow> kstate \<Rightarrow> kstate option" where
  "timer_scan curr_que s =
     do { p \<leftarrow> get_task_by_timer_queque (Some curr_que);
          task \<leftarrow> p;
          let s = count_down task s;
          if nxt (mem s) curr_que = TimeoutL then Some s
          else timer_scan (nxt (mem s) curr_que) s }"

text \<open>One round of the endless loop of \<open>tn_timer_task_func\<close>; the next round starts when the task
  runs again.\<close>

definition tn_timer_task_func :: "kstate \<Rightarrow> (kret \<times> kstate) option" where
  "tn_timer_task_func s =
     (let (sr, s) = tn_disable_interrupt s
      in do { s \<leftarrow> (if \<not> is_queue_empty (mem s) TimeoutL then timer_scan (nxt (mem s) TimeoutL) s
                    else Some s);
              s \<leftarrow> task_curr_to_wait_action None TSK_WAIT_REASON_SLEEP TN_WAIT_INFINITE s;
              Some (SWITCH_LOOP, tn_enable_interrupt sr s) })"

text \<open>One round of the endless loop of \<open>tn_idle_task_func\<close>.\<close>

definition tn_idle_task_func :: "kstate \<Rightarrow> kstate" where
  "tn_idle_task_func s =
     (let (sr, s) = tn_disable_interrupt s
      in tn_enable_interrupt sr (s\<lparr>tn_idle_count := tn_idle_count s + 1\<rparr>))"

text \<open>\<open>tn_sys_tslice_ticks\<close> returns from within its critical section when a parameter is wrong.\<close>

definition tn_sys_tslice_ticks :: "int \<Rightarrow> int \<Rightarrow> kstate \<Rightarrow> (kret \<times> kstate) option" where
  "tn_sys_tslice_ticks prio value s =
     (if bad_non_int_context s then Some (RC TERR_WCONTEXT, s)
      else let (sr, s) = tn_disable_interrupt s
           in if prio \<le> 0 \<or> prio \<ge> TN_NUM_PRIORITY - 1 \<or> value < 0 \<or> value > MAX_TIME_SLICE
              then Some (RC TERR_WRONG_PARAM, s)
              else Some (RC TERR_NO_ERR, tn_enable_interrupt sr
                     (s\<lparr>tn_tslice_ticks := (tn_tslice_ticks s)(prio := word_of_int value)\<rparr>)))"

text \<open>The round-robin part of \<open>tn_tick_int_processing\<close>, for the current task.\<close>

definition round_robin :: "tid \<Rightarrow> kstate \<Rightarrow> kstate option" where
  "round_robin t s =
     (let prio = priority (tcbs s t)
      in if tn_tslice_ticks s prio \<noteq> NO_TIME_SLICE then
           let s = upd_tcb t (\<lambda>c. c\<lparr>tslice_count := tslice_count c + 1\<rparr>) s
           in if tslice_count (tcbs s t) > uint (tn_tslice_ticks s prio) then
                let s = upd_tcb t (\<lambda>c. c\<lparr>tslice_count := 0\<rparr>) s
                in if \<not> is_queue_empty (mem s) (ReadyL prio) \<and>
                      nxt (mem s) (nxt (mem s) (ReadyL prio)) \<noteq> ReadyL prio then
                     let (curr_que, m) = queue_remove_tail (ReadyL prio) (mem s)
                     in do { e \<leftarrow> curr_que;
                             Some (s\<lparr>mem := queue_add_head (ReadyL prio) e m\<rparr>) }
                   else Some s
              else Some s
         else Some s)"

text \<open>The rest: the timer task is put into the ready list of priority 0 and chosen to run.\<close>

definition release_timer_task :: "kstate \<Rightarrow> kstate" where
  "release_timer_task s =
     (let s = on_mem (queue_remove_entry (TaskQ tn_timer_task)) s;
          s = upd_tcb tn_timer_task (\<lambda>c. c\<lparr>task_wait_reason := 0, task_state := TSK_STATE_RUNNABLE,
                 pwait_queue := None, task_wait_rc := TERR_NO_ERR\<rparr>) s;
          s = on_mem (queue_add_tail (ReadyL 0) (TaskQ tn_timer_task)) s;
          s = s\<lparr>tn_ready_to_run_bmp := tn_ready_to_run_bmp s OR 1\<rparr>
      in s\<lparr>tn_next_task_to_run := Some tn_timer_task, tn_context_switch_request := True\<rparr>)"

definition tn_tick_int_processing :: "kstate \<Rightarrow> kstate option" where
  "tn_tick_int_processing s =
     (if bad_int_context s then Some s
      else do { t \<leftarrow> tn_curr_run_task s;
                s \<leftarrow> round_robin t s;
                Some (release_timer_task s) })"

section \<open>The timer scan\<close>

text \<open>What one tick does to a task: its remaining time goes down, and at 0 its wait ends with
  \<open>TERR_TIMEOUT\<close>.\<close>

definition tick_tcb :: "tn_tcb \<Rightarrow> tn_tcb" where
  "tick_tcb c =
     (if waiting c \<and> tick_count c \<noteq> TN_WAIT_INFINITE \<and> sint (tick_count c) > 0
      then if tick_count c = 1 then (wake_tcb c)\<lparr>task_wait_rc := TERR_TIMEOUT\<rparr>
           else c\<lparr>tick_count := tick_count c - 1\<rparr>
      else c)"

lemma ready_ring_node:
  assumes "kinv X s L" "L (ReadyL p) = Some xs"
  shows "prv (mem s) (ReadyL p) \<noteq> TimerQ t"
proof -
  have "prv (mem s) (ReadyL p) \<in> set (ReadyL p # xs)"
    by (rule ring_closed(2) [OF rings_ring [OF kinvD(1) [OF assms(1)] assms(2)]]) simp
  moreover have "TimerQ t \<notin> set xs"
    using inv_lists_elem [OF kinvD(2) [OF assms(1)] assms(2)] elem_ok_ReadyL by blast
  ultimately show ?thesis by auto
qed

lemma wait_complete_nxt:
  assumes i: "sinv s L" and t: "waiting (tcbs s t)" "tick_count (tcbs s t) \<noteq> TN_WAIT_INFINITE"
  shows "nxt (mem (snd (task_wait_complete (Some t) True s))) (TimerQ t) = nxt (mem s) (TimerQ t)"
proof -
  note k = sinvD(1) [OF i]
  define s1 where "s1 = on_mem (queue_remove_entry (TaskQ t)) s"
  define s2 where "s2 = clear_wait t s1"
  obtain xs where xs: "L TimeoutL = Some xs" "TimerQ t \<in> set xs"
    using kinvD(6) [OF k] t by (auto simp: inv_timer_def in_q_def)
  obtain L1 where L1: "kinv {t} s1 L1" "L1 TimeoutL = L TimeoutL"
    using wait_leave [OF k t(1)] unfolding s1_def by metis
  have w1: "waiting (tcbs s1 t)" "tcbs s1 = tcbs s" using t(1) by (simp_all add: s1_def)
  have "prv (mem s) (TaskQ t) \<noteq> TimerQ t"
  proof (cases "pwait_queue (tcbs s t)")
    case None
    then have "L (TaskQ t) = Some []" using kinvD(5) [OF k] t(1) by (auto simp: inv_place_def)
    then show ?thesis using rings_ring [OF kinvD(1) [OF k]] by (fastforce simp: ring_def)
  next
    case (Some q)
    have q: "wait_hdr q" using kinvD(7) [OF k, of t] t(1) Some by (auto simp: tcb_ok_def)
    then obtain ys where ys: "L q = Some ys" "TaskQ t \<in> set ys"
      using kinv_home [OF k, of t q] t(1) Some home_wait [OF q] by auto
    have "prv (mem s) (TaskQ t) \<in> set (q # ys)"
      by (rule ring_closed(2) [OF rings_ring [OF kinvD(1) [OF k] ys(1)]]) (use ys in simp)
    moreover have "TimerQ t \<notin> set ys"
      using inv_lists_elem [OF kinvD(2) [OF k] ys(1)] wait_hdr_elem [OF q] by blast
    ultimately show ?thesis using q by (cases q) auto
  qed
  then have n1: "nxt (mem s1) (TimerQ t) = nxt (mem s) (TimerQ t)"
    by (auto simp: s1_def queue_remove_entry_def Let_def)
  have "prv (mem s1) (TimerQ t) \<noteq> TimerQ t"
    using ring_entry_prv [OF rings_ring [OF kinvD(1) [OF L1(1)]], of TimeoutL xs "TimerQ t"] L1(2) xs by simp
  then have n2: "nxt (mem s2) (TimerQ t) = nxt (mem s1) (TimerQ t)"
    using t(2) w1(2) by (auto simp: s2_def clear_wait_def Let_def queue_remove_entry_def)
  obtain L2 where L2: "kinv {t} s2 L2"
    using clear_wait_ok [OF L1(1) _ w1(1)] unfolding s2_def by (metis insertI1)
  let ?p = "priority (tcbs s2 t)"
  have "prio_ok ?p" using tcb_ok_waiting [OF kinvD(7) [OF k] t(1)] w1(2)
    by (simp add: s2_def clear_wait_def Let_def)
  then have "prv (mem s2) (ReadyL ?p) \<noteq> TimerQ t"
    using inv_lists_ready [OF kinvD(2) [OF L2]] ready_ring_node [OF L2] by blast
  then have "nxt (mem (task_to_runnable t s2)) (TimerQ t) = nxt (mem s2) (TimerQ t)"
    by (auto simp: task_to_runnable_def Let_def queue_add_tail_def split: option.split)
  then show ?thesis
    unfolding task_wait_complete_remove task_wait_complete_unfold s1_def [symmetric] s2_def [symmetric]
    using n1 n2 by simp
qed

lemma count_down_ok:
  assumes i: "sinv s L" and xs: "L TimeoutL = Some xs" "TimerQ t \<in> set xs"
  shows "\<exists>L'. sinv (count_down t s) L' \<and> tcbs (count_down t s) = (tcbs s)(t := tick_tcb (tcbs s t)) \<and>
     L' TimeoutL = Some (if waiting (tick_tcb (tcbs s t)) then xs else remove1 (TimerQ t) xs) \<and>
     nxt (mem (count_down t s)) (TimerQ t) = nxt (mem s) (TimerQ t) \<and> sched_only s (count_down t s)"
proof -
  have w: "waiting (tcbs s t)" "tick_count (tcbs s t) \<noteq> TN_WAIT_INFINITE"
    using kinvD(6) [OF sinvD(1) [OF i]] xs by (auto simp: inv_timer_def in_q_def)
  let ?c = "(tcbs s t)\<lparr>tick_count := tick_count (tcbs s t) - 1\<rparr>"
  define s1 where "s1 = upd_tcb t (\<lambda>c. c\<lparr>tick_count := tick_count c - 1\<rparr>) s"
  show ?thesis
  proof (cases "sint (tick_count (tcbs s t)) > 0")
    case False
    then have "count_down t s = s" "tick_tcb (tcbs s t) = tcbs s t" by (simp_all add: count_down_def tick_tcb_def)
    with i xs w show ?thesis by auto
  next
    case True
    have n0: "tick_count (tcbs s t) - 1 \<noteq> TN_WAIT_INFINITE" using True by auto
    have st: "system_tasks ((tcbs s)(t := ?c))"
      using sinvD(6) [OF i] w by (auto simp: system_tasks_def waiting_def)
    have "tcb_ok ?c" using kinvD(7) [OF sinvD(1) [OF i], of t] w(1) by (simp add: tcb_ok_def waiting_def)
    then have i1: "sinv s1 L" unfolding s1_def upd_tcb_def
      by (intro sinv_upd_same [OF i]) (use st w n0 in \<open>simp_all add: home_def waiting_def\<close>)
    have T1: "tcbs s1 = (tcbs s)(t := ?c)" by (simp add: s1_def)
    have w1: "waiting (tcbs s1 t)" "tick_count (tcbs s1 t) \<noteq> TN_WAIT_INFINITE"
      using w n0 by (simp_all add: T1 waiting_def)
    show ?thesis
    proof (cases "tick_count (tcbs s t) = 1")
      case False
      then have "tick_count (tcbs s t) - 1 \<noteq> 0" by simp
      with True w have "count_down t s = s1" "tick_tcb (tcbs s t) = ?c"
        using False by (simp_all add: count_down_def tick_tcb_def s1_def)
      with i1 T1 w1 xs show ?thesis
        by (intro exI [of _ L]) (simp add: s1_def sched_only_iff same_objects_def)
    next
      case one: True
      obtain s2 L2 m b nx where s2: "task_wait_complete (Some t) True s1 = (task_state (tcbs s1 t) AND TSK_STATE_SUSPEND = 0, s2)"
        "s2 = s1\<lparr>mem := m, tn_ready_to_run_bmp := b, tn_next_task_to_run := nx,
              tcbs := (tcbs s1)(t := wake_tcb (tcbs s1 t))\<rparr>"
        "sinv s2 L2" "L2 TimeoutL = map_option (remove1 (TimerQ t)) (L TimeoutL)"
        by (rule wake_any [OF i1 w1(1)]) (rule that)
      let ?s3 = "upd_tcb t (\<lambda>c. c\<lparr>task_wait_rc := TERR_TIMEOUT\<rparr>) s2"
      have e: "count_down t s = ?s3" using True w one s2(1) by (simp add: count_down_def s1_def [symmetric] T1)
      have tt: "tick_tcb (tcbs s t) = (wake_tcb ?c)\<lparr>task_wait_rc := TERR_TIMEOUT\<rparr>"
        using True w one by (simp add: tick_tcb_def wake_tcb_def)
      have "sinv ?s3 L2" using s2(2,3) by (subst sinv_upd_running) (auto simp: tcb_view_def)
      moreover have "nxt (mem ?s3) (TimerQ t) = nxt (mem s) (TimerQ t)"
        using wait_complete_nxt [OF i1 w1] s2(1) by (simp add: s1_def)
      moreover have "tcbs ?s3 = (tcbs s)(t := tick_tcb (tcbs s t))" unfolding tt by (simp add: s2(2) T1)
      moreover have "sched_only s ?s3" by (simp add: s2(2) s1_def sched_only_iff same_objects_def)
      moreover have "\<not> waiting (tick_tcb (tcbs s t))" by (simp add: tt waiting_def wake_tcb_def)
      ultimately show ?thesis unfolding e using s2(4) xs(1) by auto
    qed
  qed
qed

text \<open>The whole scan: every task of the timeout list counts down once, nothing else changes.\<close>

text \<open>Timeouts over several ticks. \<open>tick_count\<close> is compared as a signed number.\<close>

lemma small_timeout:
  assumes "0 < k" "k < 2 ^ 31"
  shows "0 < sint (of_nat k :: u32)" "(of_nat k :: u32) \<noteq> TN_WAIT_INFINITE" "(of_nat k :: u32) = 1 \<longleftrightarrow> k = 1"
proof -
  have u: "unat (of_nat k :: u32) = k" using assms by (simp add: unat_of_nat take_bit_eq_mod)
  show "(of_nat k :: u32) = 1 \<longleftrightarrow> k = 1" using u by (metis unat_1 of_nat_1)
  show "(of_nat k :: u32) \<noteq> TN_WAIT_INFINITE" using u assms by (auto dest: arg_cong [where f = unat])
  have "sint (of_nat k :: u32) = int k"
    using assms by (simp add: sint_uint uint_nat u signed_take_bit_int_eq_self)
  then show "0 < sint (of_nat k :: u32)" using assms by simp
qed

lemma large_timeout:
  assumes "2 ^ 31 \<le> unat (w :: u32)"
  shows "\<not> 0 < sint w"
proof
  assume a: "0 < sint w"
  have p: "(2 :: int) ^ (LENGTH(32) - 1) = 2147483648" "(2 :: int) ^ LENGTH(32) = 4294967296" by simp_all
  have lt: "sint w < 2147483648" using sint_lt [of w] unfolding p .
  have "uint w = sint w mod 4294967296" unfolding uint_sint take_bit_eq_mod p ..
  also have "\<dots> = sint w" using a lt by (intro mod_pos_pos_trivial) linarith+
  finally have "int (unat w) < 2147483648" using lt unfolding uint_nat by linarith
  moreover have "int (2 ^ 31) = 2147483648" unfolding of_nat_power by simp
  ultimately show False using assms by linarith
qed

lemma in_timeout_list:
  "sinv s L \<Longrightarrow> waiting (tcbs s t) \<Longrightarrow> tick_count (tcbs s t) \<noteq> TN_WAIT_INFINITE \<Longrightarrow>
   \<exists>xs. L TimeoutL = Some xs \<and> TimerQ t \<in> set xs"
  using kinvD(6) [OF sinvD(1)] by (simp add: inv_timer_def in_q_def)

lemma count_down_iter:
  assumes "sinv s L" "waiting (tcbs s t)" "tick_count (tcbs s t) = of_nat n" "n < 2 ^ 31" "m < n"
  shows "\<exists>L'. sinv ((count_down t ^^ m) s) L' \<and>
     tcbs ((count_down t ^^ m) s) = (tcbs s)(t := (tcbs s t)\<lparr>tick_count := of_nat (n - m)\<rparr>)"
  using assms(5)
proof (induction m)
  case 0
  then show ?case using assms(1,3) by auto
next
  case (Suc m)
  let ?s = "(count_down t ^^ m) s" and ?c = "(tcbs s t)\<lparr>tick_count := of_nat (n - m)\<rparr>"
  from Suc.IH [OF Suc_lessD [OF Suc.prems]] obtain L' where L': "sinv ?s L'" "tcbs ?s = (tcbs s)(t := ?c)" by blast
  have k: "0 < n - m" "n - m < 2 ^ 31" "n - m \<noteq> 1" using Suc.prems assms(4) by auto
  note st = small_timeout [OF k(1,2)]
  have w: "waiting ?c" using assms(2) by (simp add: waiting_def)
  obtain xs where "L' TimeoutL = Some xs" "TimerQ t \<in> set xs" using in_timeout_list [OF L'(1), of t] L'(2) w st(2) by auto
  from count_down_ok [OF L'(1) this] obtain L2 where "sinv (count_down t ?s) L2"
    "tcbs (count_down t ?s) = (tcbs ?s)(t := tick_tcb (tcbs ?s t))" by blast
  moreover have "tick_tcb ?c = (tcbs s t)\<lparr>tick_count := of_nat (n - Suc m)\<rparr>"
    using w st k(3) Suc.prems by (simp add: tick_tcb_def of_nat_diff)
  ultimately show ?case using L'(2) by auto
qed

lemma count_down_expires:
  assumes i: "sinv s L" and c: "waiting (tcbs s t)" "tick_count (tcbs s t) = of_nat n" "0 < n" "n < 2 ^ 31"
  shows "tcbs ((count_down t ^^ n) s) = (tcbs s)(t := (wake_tcb (tcbs s t))\<lparr>task_wait_rc := TERR_TIMEOUT\<rparr>)"
proof -
  obtain m where n: "n = Suc m" using c(3) by (cases n) auto
  let ?c = "(tcbs s t)\<lparr>tick_count := 1\<rparr>"
  from count_down_iter [OF i c(1,2,4), of m] n obtain L' where L': "sinv ((count_down t ^^ m) s) L'"
    "tcbs ((count_down t ^^ m) s) = (tcbs s)(t := ?c)" by auto
  have w: "waiting ?c" using c(1) by (simp add: waiting_def)
  have st: "(1 :: u32) \<noteq> TN_WAIT_INFINITE" "0 < sint (1 :: u32)" by simp_all
  obtain xs where "L' TimeoutL = Some xs" "TimerQ t \<in> set xs" using in_timeout_list [OF L'(1), of t] L'(2) w st(1) by auto
  from count_down_ok [OF L'(1) this] have "tcbs (count_down t ((count_down t ^^ m) s)) = (tcbs s)(t := tick_tcb ?c)"
    using L'(2) by auto
  moreover have "tick_tcb ?c = (wake_tcb (tcbs s t))\<lparr>task_wait_rc := TERR_TIMEOUT\<rparr>"
    using w by (simp add: tick_tcb_def wake_tcb_def)
  ultimately show ?thesis by (simp add: n)
qed

lemma timer_scan_ok:
  assumes "sinv s L" "L TimeoutL = Some (ys @ zs)" "zs \<noteq> []" "distinct (ys @ zs)"
  shows "\<exists>s' L'. timer_scan (hd zs) s = Some s' \<and> sinv s' L' \<and> sched_only s s' \<and>
     (\<forall>t. tcbs s' t = (if TimerQ t \<in> set zs then tick_tcb (tcbs s t) else tcbs s t))"
  using assms
proof (induction zs arbitrary: s L ys)
  case (Cons z zs)
  obtain t where z: "z = TimerQ t"
    using inv_lists_elem [OF kinvD(2) [OF sinvD(1) [OF Cons.prems(1)]] Cons.prems(2), of z]
    by (cases z) (auto simp: elem_ok_def)
  define s1 where "s1 = count_down t s"
  obtain L1 where L1: "sinv s1 L1" "tcbs s1 = (tcbs s)(t := tick_tcb (tcbs s t))"
     "L1 TimeoutL = Some (if waiting (tick_tcb (tcbs s t)) then ys @ z # zs else remove1 z (ys @ z # zs))"
     "nxt (mem s1) z = nxt (mem s) z" "sched_only s s1"
    using count_down_ok [OF Cons.prems(1,2), of t] z unfolding s1_def by auto
  have "nxt (mem s) z = hd (zs @ [TimeoutL])"
    using ring_nxt [OF rings_ring [OF kinvD(1) [OF sinvD(1) [OF Cons.prems(1)]] Cons.prems(2)]] .
  then have n: "nxt (mem s1) z = hd (zs @ [TimeoutL])" using L1(4) by simp
  have step: "timer_scan z s = (if nxt (mem s1) z = TimeoutL then Some s1 else timer_scan (nxt (mem s1) z) s1)"
    by (subst timer_scan.simps) (simp add: z s1_def Let_def)
  show ?case
  proof (cases zs)
    case Nil
    with step n z L1 show ?thesis by auto
  next
    case cons: (Cons y ys')
    have y: "y \<noteq> TimeoutL"
      using rings_distinct [OF kinvD(1) [OF sinvD(1) [OF Cons.prems(1)]] Cons.prems(2)] cons by auto
    obtain us where us: "L1 TimeoutL = Some (us @ zs)" "distinct (us @ zs)"
      using L1(3) Cons.prems(4) by (cases "waiting (tick_tcb (tcbs s t))") (auto simp: remove1_append)
    obtain s' L' where IH: "timer_scan (hd zs) s1 = Some s'" "sinv s' L'" "sched_only s1 s'"
      "\<forall>t. tcbs s' t = (if TimerQ t \<in> set zs then tick_tcb (tcbs s1 t) else tcbs s1 t)"
      using Cons.IH [OF L1(1) us(1) _ us(2)] cons by auto
    have "timer_scan z s = Some s'" using step n cons y IH(1) by simp
    moreover have "tcbs s' t' = (if TimerQ t' \<in> set (z # zs) then tick_tcb (tcbs s t') else tcbs s t')" for t'
      using IH(4) L1(2) Cons.prems(4) z by auto
    ultimately show ?thesis using IH(2) sched_only_trans [OF L1(5) IH(3)] by auto
  qed
qed simp

section \<open>The system tasks\<close>

text \<open>A round of the timer task: it terminates, every waiting task with a timeout counts down,
  and the timer task goes to sleep.\<close>

lemma timer_task_func_ok:
  assumes i: "system_inv s" and t: "tn_curr_run_task s = Some tn_timer_task"
    "task_state (tcbs s tn_timer_task) = TSK_STATE_RUNNABLE"
  shows "\<exists>s'. tn_timer_task_func s = Some (SWITCH_LOOP, s') \<and> call_ok s (tn_timer_task_func s) \<and>
     (\<forall>t. tcbs s' t = (if t = tn_timer_task
        then wait_tcb None TSK_WAIT_REASON_SLEEP TN_WAIT_INFINITE (tcbs s t) else tick_tcb (tcbs s t))) \<and>
     same_objects s s' \<and> irq_disabled s' = irq_disabled s"
proof -
  from i obtain L where i: "sinv s L" by (auto simp: system_inv_def)
  define s1 where "s1 = s\<lparr>irq_disabled := True\<rparr>"
  have i1: "sinv s1 L" "tcbs s1 = tcbs s" using i by (simp_all add: s1_def)
  obtain xs where xs: "L TimeoutL = Some xs" using kinvD(2) [OF sinvD(1) [OF i]] by (auto simp: inv_lists_def)
  note r = kinvD(1) [OF sinvD(1) [OF i1(1)]]
  have em: "is_queue_empty (mem s1) TimeoutL \<longleftrightarrow> xs = []" using rings_is_empty [OF r xs] .
  have out: "tick_tcb (tcbs s t) = tcbs s t" if "TimerQ t \<notin> set xs" for t
    using kinvD(6) [OF sinvD(1) [OF i]] that xs by (auto simp: inv_timer_def in_q_def tick_tcb_def)
  obtain s2 L2 where s2: "(if \<not> is_queue_empty (mem s1) TimeoutL then timer_scan (nxt (mem s1) TimeoutL) s1
       else Some s1) = Some s2" "sinv s2 L2" "sched_only s1 s2" "\<forall>t. tcbs s2 t = tick_tcb (tcbs s t)"
  proof (cases "xs = []")
    case True
    then show thesis using that [of s1 L] em i1 out by simp
  next
    case False
    have "nxt (mem s1) TimeoutL = hd xs" using rings_nxt_hd [OF r, of TimeoutL] xs False by (cases xs) auto
    moreover have "distinct xs" using rings_distinct [OF r xs] by simp
    ultimately show thesis
      using timer_scan_ok [OF i1(1), of "[]" xs] xs False em out that i1(2) by (simp split: if_splits) metis
  qed
  have tt: "tick_tcb (tcbs s tn_timer_task) = tcbs s tn_timer_task" using t(2) by (simp add: tick_tcb_def waiting_def)
  have c2: "tn_curr_run_task s2 = Some tn_timer_task" using s2(3) t(1) by (simp add: sched_only_iff s1_def)
  let ?w = "wait_tcb None TSK_WAIT_REASON_SLEEP TN_WAIT_INFINITE"
  have ds: "dque_sides ((tcbs s2)(tn_timer_task := ?w (tcbs s2 tn_timer_task)))"
    using sinvD(4) [OF s2(2)] by (auto simp: dque_sides_def wait_tcb_def)
  obtain s3 L3 m b n where s3: "task_curr_to_wait_action None TSK_WAIT_REASON_SLEEP TN_WAIT_INFINITE s2 = Some s3"
    "s3 = s2\<lparr>mem := m, tn_ready_to_run_bmp := b, tn_next_task_to_run := n,
            tcbs := (tcbs s2)(tn_timer_task := ?w (tcbs s2 tn_timer_task))\<rparr>" "sinv s3 L3"
    by (rule block_current [OF s2(2) c2 _ _ _ _ _ ds]) (use t(2) tt s2(4) in simp_all)
  define s4 where "s4 = tn_enable_interrupt (irq_disabled s) s3"
  have e: "tn_timer_task_func s = Some (SWITCH_LOOP, s4)"
    unfolding tn_timer_task_func_def disable_eq s1_def [symmetric] using s2(1) s3(1) by (simp add: s4_def)
  moreover have "call_ok s (Some (SWITCH_LOOP, s4))"
    using s3(3) c2 t(1) by (intro call_ok_SWITCH [where L = L3]) (auto simp: s4_def s3(2) tn_enable_interrupt_def has_current_def wait_tcb_def)
  moreover have "tcbs s4 t = (if t = tn_timer_task then ?w (tcbs s t) else tick_tcb (tcbs s t))" for t
    using s2(4) tt by (simp add: s4_def s3(2) tn_enable_interrupt_def)
  moreover have "same_objects s s4" "irq_disabled s4 = irq_disabled s"
    using sched_only_objects [OF s2(3)] by (simp_all add: s4_def s3(2) s1_def tn_enable_interrupt_def same_objects_def)
  ultimately show ?thesis by auto
qed

lemma idle_task_func_ok:
  "system_inv s \<Longrightarrow> system_inv (tn_idle_task_func s)"
  "running s \<Longrightarrow> running (tn_idle_task_func s)" "scheduled s \<Longrightarrow> scheduled (tn_idle_task_func s)"
  by (auto simp: tn_idle_task_func_def disable_eq system_inv_def running_def scheduled_def tn_enable_interrupt_def)

lemma sys_tslice_ticks_ok:
  assumes "system_inv s" "running s"
  shows "call_ok s (tn_sys_tslice_ticks prio value s)"
proof -
  from assms(1) obtain L where "sinv s L" by (auto simp: system_inv_def)
  with assms show ?thesis
    by (auto simp: tn_sys_tslice_ticks_def disable_eq Let_def same_sched_def tn_enable_interrupt_def
        intro: call_ok_error intro!: call_ok_RC [where L = L])
qed

section \<open>The tick interrupt\<close>

lemma kmem_add_head:
  assumes k: "kmem m L T" and q: "L q = Some xs" and e: "free L e" "elem_ok q e" "q \<noteq> BlockedL"
  shows "kmem (queue_add_head q e m) (L(q \<mapsto> e # xs)) T"
proof -
  from k have r: "rings m L" and l: "inv_lists L" and c: "inv_create m T" by (auto simp: kmem_def)
  have w: "nxt m q \<in> set (q # xs)" using rings_ring [OF r q] by (cases xs) (auto simp: ring_def)
  have ce: "\<not> create_node e" using e(2) by (cases e) (auto simp: elem_ok_def)
  have "inv_lists (L(q \<mapsto> e # xs))"
    using inv_lists_elem [OF l q] e not_create_ring [OF l q] by (intro inv_lists_upd [OF l]) auto
  moreover have "inv_create (queue_add_head q e m) T"
    using c
  proof (rule inv_create_frame)
    fix n assume n: "create_node n"
    then have "n \<notin> set (q # xs)" using not_create_ring [OF l q] by blast
    with w n ce show "nxt (queue_add_head q e m) n = nxt m n \<and> prv (queue_add_head q e m) n = prv m n"
      using freeD [OF e(1) q] by (auto simp: queue_add_head_def Let_def)
  qed
  moreover have "rings (queue_add_head q e m) (L(q \<mapsto> e # xs))"
    using r q e(1) by (rule rings_add_head)
  ultimately show ?thesis by (simp add: kmem_def)
qed

text \<open>The rotation of a ready list. The choice of the next task is out of date until the handler
  chooses the timer task.\<close>

lemma rotate_ok:
  assumes i: "sinv s L" and q: "L (ReadyL p) = Some (xs @ [x])" "prio_ok p"
  shows "\<exists>n. sinv (s\<lparr>mem := queue_add_head (ReadyL p) x (queue_remove_entry x (mem s)),
                 tn_next_task_to_run := n\<rparr>) (L(ReadyL p \<mapsto> x # xs))"
proof -
  note k = sinvD(1) [OF i]
  let ?L = "L(ReadyL p \<mapsto> x # xs)"
  obtain t where x: "x = TaskQ t"
    using inv_lists_elem [OF kinvD(2) [OF k] q(1)] elem_ok_ReadyL by fastforce
  have d: "distinct (xs @ [x])" using rings_distinct [OF kinvD(1) [OF k] q(1)] by simp
  have k1: "kmem (queue_remove_entry x (mem s)) (L(ReadyL p \<mapsto> xs)) (tcbs s)"
    using kmem_remove [OF kinv_kmem [OF k] q(1), of x] d by (simp add: remove1_append)
  have "free (L(ReadyL p \<mapsto> xs)) x"
  proof (unfold free_def, intro allI impI)
    fix q' xs' assume "(L(ReadyL p \<mapsto> xs)) q' = Some xs'"
    then show "x \<notin> set (q' # xs')"
      using rings_disjoint [OF kinvD(1) [OF k] q(1), of q' xs'] d x by (cases "q' = ReadyL p") auto
  qed
  then have km: "kmem (queue_add_head (ReadyL p) x (queue_remove_entry x (mem s))) ?L (tcbs s)"
    using kmem_add_head [OF k1, of "ReadyL p" xs x] q(2) x by (simp add: elem_ok_TaskQ)
  have same: "in_q ?L q' n = in_q L q' n" for q' n using q(1) by (auto simp: in_q_def)
  have pl: "inv_place {} (tcbs s) ?L" "inv_timer (tcbs s) ?L"
    using kinvD(5,6) [OF k] same by (auto simp: inv_place_def inv_timer_def)
  have "bit (tn_ready_to_run_bmp s) (nat p)" using kinvD(3) [OF k] q by (simp add: inv_bmp_def)
  then have bm: "inv_bmp (tn_ready_to_run_bmp s) ?L" using kinvD(3) [OF k] by (auto simp: inv_bmp_def)
  obtain n where n: "inv_next n ?L"
  proof (cases "tn_next_task_to_run s")
    case None
    with kinvD(4) [OF k] q show thesis by (auto simp: inv_next_def)
  next
    case (Some t')
    with kinvD(4) [OF k] obtain p' ys where p': "prio_ok p'" "L (ReadyL p') = Some (TaskQ t' # ys)"
      "\<forall>p''. 0 \<le> p'' \<longrightarrow> p'' < p' \<longrightarrow> L (ReadyL p'') = Some []" by (auto simp: inv_next_def)
    show thesis
    proof (cases "p' = p")
      case True
      with p' x show thesis by (intro that [of "Some t"]) (auto simp: inv_next_def intro!: exI [of _ p])
    next
      case False
      with p' q have "\<not> p < p'" by (auto simp: prio_ok_def)
      with p' False show thesis by (intro that [of "Some t'"]) (auto simp: inv_next_def intro!: exI [of _ p'])
    qed
  qed
  have "kinv {} (s\<lparr>mem := queue_add_head (ReadyL p) x (queue_remove_entry x (mem s)), tn_next_task_to_run := n\<rparr>) ?L"
    using km pl bm n kinvD(7) [OF k] by (intro kinvI) (auto simp: kmem_def)
  moreover have "inv_objs (s\<lparr>mem := queue_add_head (ReadyL p) x (queue_remove_entry x (mem s)), tn_next_task_to_run := n\<rparr>) ?L"
    (is "inv_objs ?s _")
  proof -
    have so: "same_objects s ?s" by (simp add: same_objects_def)
    show ?thesis using i unfolding sinv_def inv_objs_def same_objectsD [OF so] by simp
  qed
  ultimately have "sinv (s\<lparr>mem := queue_add_head (ReadyL p) x (queue_remove_entry x (mem s)),
                 tn_next_task_to_run := n\<rparr>) ?L" by (simp add: sinv_def)
  then show ?thesis by blast
qed

text \<open>When the time slice of the current task is used up, the last task of its ready list becomes the
  first, and with it the next to run.\<close>

lemma round_robin_rotates:
  assumes i: "sinv s L" and t: "prio_ok (priority (tcbs s t))"
    and ts: "tn_tslice_ticks s (priority (tcbs s t)) \<noteq> NO_TIME_SLICE"
      "uint (tn_tslice_ticks s (priority (tcbs s t))) < tslice_count (tcbs s t) + 1"
    and q: "L (ReadyL (priority (tcbs s t))) = Some (ys @ [y])" "ys \<noteq> []"
  shows "\<exists>s' n. round_robin t s = Some s' \<and>
     sinv (s'\<lparr>tn_next_task_to_run := n\<rparr>) (L(ReadyL (priority (tcbs s t)) \<mapsto> y # ys)) \<and>
     tcbs s' = (tcbs s)(t := (tcbs s t)\<lparr>tslice_count := 0\<rparr>) \<and> tn_curr_run_task s' = tn_curr_run_task s"
proof -
  let ?p = "priority (tcbs s t)"
  define s2 where "s2 = upd_tcb t (\<lambda>c. c\<lparr>tslice_count := 0\<rparr>) (upd_tcb t (\<lambda>c. c\<lparr>tslice_count := tslice_count c + 1\<rparr>) s)"
  have "sinv (upd_tcb t (\<lambda>c. c\<lparr>tslice_count := tslice_count c + 1\<rparr>) s) L"
    by (rule sinv_upd_counts [OF i]) (simp_all add: tcb_view_def)
  then have i2: "sinv s2 L" unfolding s2_def by (rule sinv_upd_counts) (simp_all add: tcb_view_def)
  note r = rings_ring [OF kinvD(1) [OF sinvD(1) [OF i2]] q(1)]
  obtain z zs where z: "ys = z # zs" using q(2) by (cases ys) auto
  have "nxt (mem s2) (nxt (mem s2) (ReadyL ?p)) = hd (zs @ [y])"
    using ring_nxt [of "mem s2" "ReadyL ?p" "[]" z "zs @ [y]"] ring_hd [of "mem s2" "ReadyL ?p" z "zs @ [y]"] r z by (cases zs) auto
  moreover have "hd (zs @ [y]) \<noteq> ReadyL ?p" using r z by (cases zs) (auto simp: ring_def)
  ultimately have rot: "\<not> is_queue_empty (mem s2) (ReadyL ?p)" "nxt (mem s2) (nxt (mem s2) (ReadyL ?p)) \<noteq> ReadyL ?p"
    using ring_is_empty [OF r] by simp_all
  have "round_robin t s = Some (s2\<lparr>mem := queue_add_head (ReadyL ?p) y (queue_remove_entry y (mem s2))\<rparr>)"
    using ts rot ring_remove_tail_eq [OF r] unfolding s2_def round_robin_def Let_def by simp
  moreover obtain n where "sinv (s2\<lparr>mem := queue_add_head (ReadyL ?p) y (queue_remove_entry y (mem s2)),
      tn_next_task_to_run := n\<rparr>) (L(ReadyL ?p \<mapsto> y # ys))"
    using rotate_ok [OF i2 q(1) t] by auto
  ultimately show ?thesis
    by (intro exI [of _ "s2\<lparr>mem := queue_add_head (ReadyL ?p) y (queue_remove_entry y (mem s2))\<rparr>"] exI [of _ n])
       (simp add: s2_def)
qed

lemma round_robin_ok:
  assumes i: "sinv s L" and t: "prio_ok (priority (tcbs s t))"
  shows "\<exists>s' n L'. round_robin t s = Some s' \<and> sinv (s'\<lparr>tn_next_task_to_run := n\<rparr>) L' \<and>
     (\<forall>t. task_state (tcbs s' t) = task_state (tcbs s t)) \<and> tn_curr_run_task s' = tn_curr_run_task s"
proof -
  let ?p = "priority (tcbs s t)"
  define s1 where "s1 = upd_tcb t (\<lambda>c. c\<lparr>tslice_count := tslice_count c + 1\<rparr>) s"
  define s2 where "s2 = upd_tcb t (\<lambda>c. c\<lparr>tslice_count := 0\<rparr>) s1"
  have i1: "sinv s1 L" unfolding s1_def by (rule sinv_upd_counts [OF i]) (simp_all add: tcb_view_def)
  have i2: "sinv s2 L" unfolding s2_def by (rule sinv_upd_counts [OF i1]) (simp_all add: tcb_view_def)
  have st: "task_state (tcbs s1 t') = task_state (tcbs s t')" "task_state (tcbs s2 t') = task_state (tcbs s t')"
    "tn_curr_run_task s1 = tn_curr_run_task s" "tn_curr_run_task s2 = tn_curr_run_task s" for t'
    by (simp_all add: s1_def s2_def)
  obtain xs where xs: "L (ReadyL ?p) = Some xs" using inv_lists_ready [OF kinvD(2) [OF sinvD(1) [OF i]] t] by blast
  note r = rings_ring [OF kinvD(1) [OF sinvD(1) [OF i2]] xs]
  have keep: ?thesis if "round_robin t s = Some s'" "sinv s' L"
    "\<And>t. task_state (tcbs s' t) = task_state (tcbs s t)" "tn_curr_run_task s' = tn_curr_run_task s" for s'
    using that by (intro exI [of _ s'] exI [of _ "tn_next_task_to_run s'"] exI [of _ L]) simp
  show ?thesis
  proof (cases "tn_tslice_ticks s ?p = NO_TIME_SLICE")
    case True
    then have "round_robin t s = Some s" by (simp add: round_robin_def)
    then show ?thesis by (rule keep) (use i in simp_all)
  next
    case ts: False
    show ?thesis
    proof (cases "tslice_count (tcbs s1 t) > uint (tn_tslice_ticks s1 ?p)")
      case False
      with ts have "round_robin t s = Some s1" by (simp add: round_robin_def s1_def)
      then show ?thesis by (rule keep) (use i1 st in simp_all)
    next
      case True
      let ?rot = "\<not> is_queue_empty (mem s2) (ReadyL ?p) \<and> nxt (mem s2) (nxt (mem s2) (ReadyL ?p)) \<noteq> ReadyL ?p"
      show ?thesis
      proof (cases ?rot)
        case False
        then have "round_robin t s = Some s2"
          unfolding round_robin_def Let_def s1_def [symmetric] s2_def [symmetric] using ts True by auto
        then show ?thesis by (rule keep) (use i2 st in simp_all)
      next
        case rot: True
        then have "xs \<noteq> []" using ring_is_empty [OF r] by simp
        then obtain ys y where ys: "xs = ys @ [y]" by (cases xs rule: rev_cases) auto
        have "ys \<noteq> []" using rot r ys ring_nxt [of "mem s2" "ReadyL ?p" "[]" y "[]"] ring_hd [of "mem s2" "ReadyL ?p" y "[]"]
          by (cases ys) auto
        from round_robin_rotates [OF i t ts _ _ this, of y] True xs ys show ?thesis by (fastforce simp: s1_def)
      qed
    qed
  qed
qed

lemma release_timer_frame [simp]:
  "release_timer_task (s\<lparr>tn_next_task_to_run := n\<rparr>) = release_timer_task s"
  "tn_curr_run_task (release_timer_task s) = tn_curr_run_task s"
  "tn_context_switch_request (release_timer_task s)"
  "tn_next_task_to_run (release_timer_task s) = Some tn_timer_task"
  "task_state (tcbs (release_timer_task s) t) =
     (if t = tn_timer_task then TSK_STATE_RUNNABLE else task_state (tcbs s t))"
  by (simp_all add: release_timer_task_def on_mem_def upd_tcb_def)

lemma timer_alone:
  assumes "sinv s L" "task_state (tcbs s tn_timer_task) = TSK_STATE_RUNNABLE"
  shows "L (ReadyL 0) = Some [TaskQ tn_timer_task]"
proof -
  note k = sinvD(1) [OF assms(1)]
  have "home (tcbs s tn_timer_task) = Some (ReadyL 0)"
    using sinvD(6) [OF assms(1)] assms(2) by (simp add: system_tasks_def home_def)
  then obtain xs where xs: "L (ReadyL 0) = Some xs" "TaskQ tn_timer_task \<in> set xs" using kinv_home [OF k] by blast
  have "n = TaskQ tn_timer_task" if n: "n \<in> set xs" for n
  proof -
    obtain t where t: "n = TaskQ t" using inv_lists_elem [OF kinvD(2) [OF k] xs(1) n] elem_ok_ReadyL by blast
    then have "home (tcbs s t) = Some (ReadyL 0)" using kinv_in_q [OF k xs(1), of t] n by simp
    then have "task_state (tcbs s t) = TSK_STATE_RUNNABLE" "priority (tcbs s t) = 0"
      using home_ReadyL [OF kinvD(7) [OF k]] by blast+
    with t show ?thesis
      using tcb_ok_runnable [OF kinvD(7) [OF k], of t] sinvD(6) [OF assms(1)] by (auto simp: system_tasks_def)
  qed
  note all = this
  have d: "distinct xs" using rings_distinct [OF kinvD(1) [OF k] xs(1)] by simp
  obtain y ys where y: "xs = y # ys" using xs(2) by (cases xs) auto
  have "ys = []"
  proof (cases ys)
    case (Cons z zs)
    with y d all [of y] all [of z] show ?thesis by simp
  qed simp
  with y all [of y] xs(1) show ?thesis by simp
qed

lemma release_timer_asleep:
  assumes i: "sinv s L" and w: "task_state (tcbs s tn_timer_task) = TSK_STATE_WAIT"
  shows "\<exists>L'. sinv (release_timer_task s) L'"
proof -
  note k = sinvD(1) [OF i]
  have wt: "waiting (tcbs s tn_timer_task)" using w by (simp add: waiting_def)
  have tm: "tick_count (tcbs s tn_timer_task) = TN_WAIT_INFINITE" "priority (tcbs s tn_timer_task) = 0"
    using sinvD(6) [OF i] w by (auto simp: system_tasks_def)
  obtain s' L' where s': "task_wait_complete (Some tn_timer_task) True s =
      (task_state (tcbs s tn_timer_task) AND TSK_STATE_SUSPEND = 0, s')" "sinv s' L'"
    by (rule wake_any [OF i wt]) (rule that)
  obtain n where n: "tn_next_task_to_run s = Some n" "task_state (tcbs s n) = TSK_STATE_RUNNABLE"
    using i by (rule sinv_next)
  have "n \<noteq> tn_timer_task" using n(2) w by auto
  then have "priority (tcbs s n) > 0"
    using tcb_ok_runnable [OF kinvD(7) [OF k] n(2)] sinvD(6) [OF i]
    by (auto simp: system_tasks_def prio_ok_def order_less_le)
  then have "s'\<lparr>tn_context_switch_request := True\<rparr> = release_timer_task s"
    using s'(1) w tm n(1) \<open>n \<noteq> tn_timer_task\<close>
    by (auto simp: task_wait_complete_def task_to_runnable_def release_timer_task_def Let_def
        on_mem_def upd_tcb_def intro!: kstate.equality tn_tcb.equality)
  with s'(2) show ?thesis by (metis sinv_other_fields(2))
qed

lemma ring_readd:
  assumes "ring m q [e]"
  shows "queue_add_tail q e (queue_remove_entry e m) = m"
proof -
  have "nxt m q = e" "nxt m e = q" "prv m q = e" "prv m e = q" "e \<noteq> q" using assms by (auto simp: ring_def)
  then show ?thesis
    by (intro qmem.equality) (auto simp: queue_add_tail_def queue_remove_entry_def Let_def)
qed

lemma release_timer_ready:
  assumes i: "sinv s L" and w: "task_state (tcbs s tn_timer_task) = TSK_STATE_RUNNABLE"
  shows "sinv (release_timer_task s) L"
proof -
  note k = sinvD(1) [OF i]
  note r0 = timer_alone [OF i w]
  let ?f = "\<lambda>c. c\<lparr>task_wait_reason := 0, task_wait_rc := TERR_NO_ERR\<rparr>"
  have m: "queue_add_tail (ReadyL 0) (TaskQ tn_timer_task) (queue_remove_entry (TaskQ tn_timer_task) (mem s)) = mem s"
    by (rule ring_readd [OF rings_ring [OF kinvD(1) [OF k] r0]])
  have "bit (tn_ready_to_run_bmp s) 0" using kinvD(3) [OF k] r0 by (force simp: inv_bmp_def prio_ok_def)
  then have b: "tn_ready_to_run_bmp s OR 1 = tn_ready_to_run_bmp s"
    by (intro bit_eqI) (auto simp: bit_or_iff bit_1_iff)
  have "inv_next (Some tn_timer_task) L" using r0 by (auto simp: inv_next_def prio_ok_def intro!: exI [of _ 0])
  then have n: "tn_next_task_to_run s = Some tn_timer_task" using kinvD(4) [OF k] inv_next_unique by blast
  have pw: "pwait_queue (tcbs s tn_timer_task) = None" using tcb_ok_runnable [OF kinvD(7) [OF k] w] by simp
  have "release_timer_task s = (upd_tcb tn_timer_task ?f s)\<lparr>tn_context_switch_request := True\<rparr>"
    using m b n w pw by (auto simp: release_timer_task_def Let_def intro!: kstate.equality tn_tcb.equality)
  moreover have "sinv (upd_tcb tn_timer_task ?f s) L"
    using i w by (subst sinv_upd_running) (auto simp: tcb_view_def waiting_def)
  ultimately show ?thesis by simp
qed

lemma release_timer_ok:
  assumes "sinv s L" shows "\<exists>L'. sinv (release_timer_task s) L'"
proof -
  have "task_state (tcbs s tn_timer_task) = TSK_STATE_RUNNABLE \<or> task_state (tcbs s tn_timer_task) = TSK_STATE_WAIT"
    using sinvD(6) [OF assms] by (auto simp: system_tasks_def)
  then show ?thesis using release_timer_asleep [OF assms] release_timer_ready [OF assms] by blast
qed

text \<open>A tick never faults, keeps the invariant, and asks for a switch to the timer task.\<close>

lemma tick_int_processing_ok:
  assumes "system_inv s" "has_current s"
  shows "icall_ok s (map_option (Pair TERR_NO_ERR) (tn_tick_int_processing s))"
proof (cases "bad_int_context s")
  case True
  with assms(1) show ?thesis by (simp add: tn_tick_int_processing_def icall_ok_error)
next
  case False
  from assms obtain t L where i: "sinv s L" and t: "tn_curr_run_task s = Some t"
    by (auto simp: system_inv_def has_current_def)
  have "prio_ok (priority (tcbs s t))" using kinvD(7) [OF sinvD(1) [OF i], of t] by (simp add: tcb_ok_def)
  then obtain s1 n L1 where s1: "round_robin t s = Some s1" "sinv (s1\<lparr>tn_next_task_to_run := n\<rparr>) L1"
     "\<forall>t. task_state (tcbs s1 t) = task_state (tcbs s t)" "tn_curr_run_task s1 = tn_curr_run_task s"
    using round_robin_ok [OF i] by blast
  obtain L2 where L2: "sinv (release_timer_task s1) L2" using release_timer_ok [OF s1(2)] by auto
  have "map_option (Pair TERR_NO_ERR) (tn_tick_int_processing s) = Some (TERR_NO_ERR, release_timer_task s1)"
    using False t s1(1) by (simp add: tn_tick_int_processing_def)
  then show ?thesis using L2 by (rule icall_okI) (use s1(3,4) in \<open>auto split: if_splits\<close>)
qed

section \<open>Starting the system\<close>

text \<open>Zero-initialised static memory: no task and no object exists.\<close>

definition boot_memory :: "kstate \<Rightarrow> bool" where
  "boot_memory s \<longleftrightarrow>
     (\<forall>t. id_task (tcbs s t) = 0 \<and> task_state (tcbs s t) = 0 \<and> pwait_queue (tcbs s t) = None \<and>
        priority (tcbs s t) = 0 \<and> base_priority (tcbs s t) = 0) \<and>
     (\<forall>i. id_sem (sems s i) = 0) \<and> (\<forall>i. id_event (events s i) = 0) \<and> (\<forall>i. id_dque (dques s i) = 0) \<and>
     (\<forall>i. id_fmp (fmps s i) = 0)"

definition boot_queues :: "qnode \<rightharpoonup> qnode list" where
  "boot_queues q = (case q of ReadyL p \<Rightarrow> if prio_ok p then Some [] else None
     | TimeoutL \<Rightarrow> Some [] | BlockedL \<Rightarrow> Some [] | LockedL \<Rightarrow> Some [] | _ \<Rightarrow> None)"

lemma boot_queues_empty [simp]: "boot_queues q = Some xs \<Longrightarrow> xs = []"
  by (cases q) (auto simp: boot_queues_def split: if_splits)

lemma reset_priorities:
  "fold reset_priority ps s = s\<lparr>mem := fold (\<lambda>i. queue_reset (ReadyL i)) ps (mem s),
     tn_tslice_ticks := (\<lambda>p. if p \<in> set ps then NO_TIME_SLICE else tn_tslice_ticks s p)\<rparr>"
  by (induction ps arbitrary: s) (auto simp: reset_priority_def on_mem_def intro!: kstate.equality)

lemma fold_queue_reset:
  "nxt (fold (\<lambda>i. queue_reset (ReadyL i)) ps m) q = (if q \<in> ReadyL ` set ps then q else nxt m q)"
  "prv (fold (\<lambda>i. queue_reset (ReadyL i)) ps m) q = (if q \<in> ReadyL ` set ps then q else prv m q)"
  by (induction ps arbitrary: m) (auto simp: queue_reset_def)

lemma reset_globals_rings: "rings (mem (reset_globals s)) boot_queues"
proof -
  have "ring (mem (reset_globals s)) q xs" if "boot_queues q = Some xs" for q xs
  proof -
    have "nxt (mem (reset_globals s)) q = q \<and> prv (mem (reset_globals s)) q = q"
      using that by (cases q) (auto simp: boot_queues_def reset_globals_def reset_priorities fold_queue_reset
          queue_reset_def prio_ok_def image_iff split: if_splits)
    with boot_queues_empty [OF that] show ?thesis by simp
  qed
  then show ?thesis unfolding rings_def by (auto dest!: boot_queues_empty)
qed

lemma reset_globals_simps [simp]:
  "tcbs (reset_globals s) = tcbs s" "sems (reset_globals s) = sems s" "events (reset_globals s) = events s"
  "dques (reset_globals s) = dques s" "fmps (reset_globals s) = fmps s"
  "tn_system_state (reset_globals s) = TN_ST_STATE_NOT_RUN" "tn_int_counter (reset_globals s) = 0"
  "tn_next_task_to_run (reset_globals s) = None" "tn_ready_to_run_bmp (reset_globals s) = 0"
  "tn_enable_switch_context (reset_globals s) = 1" "\<not> tn_context_switch_request (reset_globals s)"
  by (simp_all add: reset_globals_def Let_def reset_priorities)

lemma reset_globals_kinv:
  assumes "boot_memory s"
  shows "kinv {} (reset_globals s) boot_queues"
proof (rule kinvI)
  show "inv_create (mem (reset_globals s)) (tcbs (reset_globals s))"
    using assms by (auto simp: inv_create_def boot_memory_def reset_globals_def Let_def queue_reset_def reset_priorities)
qed (use assms reset_globals_rings in \<open>auto simp: inv_lists_def boot_queues_def inv_bmp_def inv_next_def
   inv_place_def inv_timer_def in_q_def boot_memory_def home_def waiting_def tcb_ok_def prio_ok_def
   split: qnode.splits if_splits\<close>)

lemma kinv_init_stack: "kinv X (init_task_stack t s) L = kinv X s L"
  by (rule kinv_cong) (auto simp: init_task_stack_def Let_def tcb_view_def split: prod.split)

lemma init_stack_frame [simp]:
  "same_objects s0 (init_task_stack t s) = same_objects s0 s"
  "tn_system_state (init_task_stack t s) = tn_system_state s"
  "tn_int_counter (init_task_stack t s) = tn_int_counter s"
  "tn_enable_switch_context (init_task_stack t s) = tn_enable_switch_context s"
  "priority (tcbs (init_task_stack t s) t') = priority (tcbs s t')"
  "base_priority (tcbs (init_task_stack t s) t') = base_priority (tcbs s t')"
  "t' \<noteq> t \<Longrightarrow> tcbs (init_task_stack t s) t' = tcbs s t'"
  by (auto simp: init_task_stack_def Let_def same_objects_def split: prod.split)

lemma boot_create:
  assumes k: "kinv {} s L" and t: "id_task (tcbs s t) = 0" "prio_ok prio" "sz \<ge> TN_MIN_STACK_SIZE" "f \<noteq> 0" "stk \<noteq> 0"
    and o: "\<not> (prio = TN_NUM_PRIORITY - 1 \<and> option AND TN_TASK_IDLE = 0)" "\<not> (prio = 0 \<and> option AND TN_TASK_TIMER = 0)"
      "option AND TN_TASK_START_ON_CREATION = 0"
    and st: "tn_system_state s = TN_ST_STATE_NOT_RUN" "tn_int_counter s = 0"
  shows "\<exists>s' L'. tn_task_create (Some t) f prio stk sz param option s = Some (RC TERR_NO_ERR, s') \<and> kinv {} s' L' \<and>
     same_objects s s' \<and> tn_system_state s' = TN_ST_STATE_NOT_RUN \<and> tn_int_counter s' = 0 \<and>
     tn_next_task_to_run s' = tn_next_task_to_run s \<and>
     tn_context_switch_request s' = tn_context_switch_request s \<and>
     (\<forall>t'. t' \<noteq> t \<longrightarrow> tcbs s' t' = tcbs s t') \<and> id_task (tcbs s' t) = TN_ID_TASK \<and>
     task_state (tcbs s' t) = TSK_STATE_DORMANT \<and> priority (tcbs s' t) = prio \<and> base_priority (tcbs s' t) = prio"
proof -
  define s1 where "s1 = task_set_dormant_state t ((upd_tcb t (new_tcb f param stk sz prio) s)
      \<lparr>stk_mem := fill_stack (nat sz) stk (stk_mem s)\<rparr>)"
  define s2 where "s2 = (on_mem (queue_add_tail CreateL (CreateQ t)) (init_task_stack t s1))
      \<lparr>tn_created_tasks_qty := tn_created_tasks_qty s1 + 1\<rparr>"
  have "tn_task_create (Some t) f prio stk sz param option s = Some (RC TERR_NO_ERR, s2)"
    using st o(3) by (subst task_create_eq [OF t(1) _ t(2-5) o(1,2)])
      (simp_all add: bad_non_int_context_def Let_def s1_def s2_def)
  moreover have "kinv {} s1 (dormant_queues t L)" using create_kinv [OF k t(1,2) s1_def] .
  then have "kinv {} s2 (dormant_queues t L)"
    unfolding s2_def by (simp add: kinv_create_add kinv_init_stack)
  moreover have "same_objects s s1" by (simp add: s1_def same_objects_def task_set_dormant_state_def)
  then have "same_objects s s2" by (simp add: s2_def same_objects_def init_task_stack_def Let_def split: prod.split)
  ultimately show ?thesis using st
    by (intro exI [of _ s2] exI [of _ "dormant_queues t L"])
       (auto simp: s2_def s1_def task_set_dormant_state_def new_tcb_def)
qed

lemma boot_runnable:
  assumes k: "kinv {} s L" and t: "id_task (tcbs s t) = TN_ID_TASK" "task_state (tcbs s t) = TSK_STATE_DORMANT"
  shows "\<exists>L'. kinv {} (task_to_runnable t s) L'"
proof -
  have h: "home (tcbs s t) = None" "\<not> waiting (tcbs s t)" using t(2) by (simp_all add: home_def waiting_def)
  have p: "prio_ok (priority (tcbs s t))" using kinvD(7) [OF k, of t] by (simp add: tcb_ok_def)
  obtain xs where "L (ReadyL (priority (tcbs s t))) = Some xs" using inv_lists_ready [OF kinvD(2) [OF k] p] by blast
  from task_to_runnable_ok [OF kinv_to_transit [OF k h(1)] _ t(1) _ this] h show ?thesis by auto
qed

text \<open>From zeroed memory, \<open>tn_start_system\<close> reaches a state that satisfies the invariant, with the
  timer task running and the idle task ready.\<close>

lemma start_system_ok:
  assumes b: "boot_memory s" and a: "timer_task_func A \<noteq> 0" "idle_task_func A \<noteq> 0"
    "timer_task_stack A \<noteq> 0" "idle_task_stack A \<noteq> 0"
  shows "\<exists>s'. tn_start_system A s = Some s' \<and> system_inv s' \<and> running s' \<and> scheduled s' \<and>
     tn_curr_run_task s' = Some tn_timer_task \<and> tn_system_state s' = TN_ST_STATE_RUNNING \<and>
     \<not> irq_disabled s' \<and> tn_int_counter s' = 0 \<and> \<not> tn_context_switch_request s' \<and>
     (\<forall>t. t \<noteq> tn_timer_task \<longrightarrow> t \<noteq> tn_idle_task \<longrightarrow> tcbs s' t = tcbs s t) \<and>
     sems s' = sems s \<and> events s' = events s \<and> dques s' = dques s \<and> fmps s' = fmps s"
proof -
  define s0 where "s0 = reset_globals s"
  have k0: "kinv {} s0 boot_queues" using reset_globals_kinv [OF b] by (simp add: s0_def)
  have id0: "id_task (tcbs s0 t) = 0" for t using b by (simp add: s0_def boot_memory_def)
  obtain s1 L1 where s1: "tn_task_create (Some tn_timer_task) (timer_task_func A) 0 (timer_task_stack A)
       TN_TIMER_STACK_SIZE 0 TN_TASK_TIMER s0 = Some (RC TERR_NO_ERR, s1)" "kinv {} s1 L1"
     "same_objects s0 s1" "tn_system_state s1 = TN_ST_STATE_NOT_RUN" "tn_int_counter s1 = 0"
     "tn_next_task_to_run s1 = None" "\<not> tn_context_switch_request s1" "\<forall>t'. t' \<noteq> tn_timer_task \<longrightarrow> tcbs s1 t' = tcbs s0 t'"
     "id_task (tcbs s1 tn_timer_task) = TN_ID_TASK" "task_state (tcbs s1 tn_timer_task) = TSK_STATE_DORMANT"
     "priority (tcbs s1 tn_timer_task) = 0" "base_priority (tcbs s1 tn_timer_task) = 0"
    using boot_create [OF k0 id0 [of tn_timer_task], of 0 TN_TIMER_STACK_SIZE "timer_task_func A" "timer_task_stack A" TN_TASK_TIMER 0] a
    by (auto simp: prio_ok_def s0_def)
  have id1: "id_task (tcbs s1 tn_idle_task) = 0" using s1(8) id0 by simp
  obtain s2 L2 where s2: "tn_task_create (Some tn_idle_task) (idle_task_func A) (TN_NUM_PRIORITY - 1) (idle_task_stack A)
       TN_IDLE_STACK_SIZE 0 TN_TASK_IDLE s1 = Some (RC TERR_NO_ERR, s2)" "kinv {} s2 L2"
     "same_objects s1 s2" "tn_int_counter s2 = 0" "tn_next_task_to_run s2 = None" "\<not> tn_context_switch_request s2"
     "\<forall>t'. t' \<noteq> tn_idle_task \<longrightarrow> tcbs s2 t' = tcbs s1 t'"
     "id_task (tcbs s2 tn_idle_task) = TN_ID_TASK" "task_state (tcbs s2 tn_idle_task) = TSK_STATE_DORMANT"
     "priority (tcbs s2 tn_idle_task) = TN_NUM_PRIORITY - 1" "base_priority (tcbs s2 tn_idle_task) = TN_NUM_PRIORITY - 1"
    using boot_create [OF s1(2) id1, of "TN_NUM_PRIORITY - 1" TN_IDLE_STACK_SIZE "idle_task_func A" "idle_task_stack A" TN_TASK_IDLE 0] a s1(4-7)
    by (auto simp: prio_ok_def)
  define s3 where "s3 = task_to_runnable tn_idle_task s2"
  define s4 where "s4 = task_to_runnable tn_timer_task s3"
  obtain L3 where k3: "kinv {} s3 L3" unfolding s3_def using boot_runnable [OF s2(2,8,9)] by blast
  obtain m3 b3 n3 where sh3: "s3 = s2\<lparr>mem := m3, tn_ready_to_run_bmp := b3, tn_next_task_to_run := n3,
      tcbs := (tcbs s2)(tn_idle_task := (tcbs s2 tn_idle_task)\<lparr>task_state := TSK_STATE_RUNNABLE, pwait_queue := None\<rparr>)\<rparr>"
    unfolding s3_def using task_to_runnable_shape by blast
  have t3: "tcbs s3 tn_timer_task = tcbs s1 tn_timer_task" using s2(7) by (simp add: sh3)
  obtain L4 where k4: "kinv {} s4 L4" unfolding s4_def using boot_runnable [OF k3, of tn_timer_task] t3 s1(9,10) by auto
  obtain m4 b4 n4 where sh4: "s4 = s3\<lparr>mem := m4, tn_ready_to_run_bmp := b4, tn_next_task_to_run := n4,
      tcbs := (tcbs s3)(tn_timer_task := (tcbs s3 tn_timer_task)\<lparr>task_state := TSK_STATE_RUNNABLE, pwait_queue := None\<rparr>)\<rparr>"
    unfolding s4_def using task_to_runnable_shape by blast
  have n: "tn_next_task_to_run s4 = Some tn_timer_task"
    unfolding s4_def s3_def task_to_runnable_next_eq using s2(5,10) t3 [unfolded s3_def] s1(11)
    by (simp add: sh3 [unfolded s3_def])
  define s5 where "s5 = s4\<lparr>tn_curr_run_task := Some tn_timer_task, tn_system_state := TN_ST_STATE_RUNNING,
     irq_disabled := False\<rparr>"
  have T: "tcbs s5 tn_timer_task = (tcbs s1 tn_timer_task)\<lparr>task_state := TSK_STATE_RUNNABLE, pwait_queue := None\<rparr>"
    "tcbs s5 tn_idle_task = (tcbs s2 tn_idle_task)\<lparr>task_state := TSK_STATE_RUNNABLE, pwait_queue := None\<rparr>"
    "\<And>t. t \<noteq> tn_timer_task \<Longrightarrow> t \<noteq> tn_idle_task \<Longrightarrow> tcbs s5 t = tcbs s t"
    using s1(8) s2(7) by (simp_all add: s5_def sh4 sh3 s0_def)
  have e: "tn_start_system A s = Some s5"
    unfolding tn_start_system_def s0_def [symmetric]
    using n by (simp add: s1(1) s2(1) [simplified] Let_def s3_def [symmetric] s4_def [symmetric]
        tn_start_exe_def tn_switch_context_exit_def s5_def)
  have so: "same_objects s0 s5" using s1(3) s2(3) by (simp add: same_objects_def s5_def sh4 sh3)
  have nw: "\<not> waiting (tcbs s5 t)" for t
    using T b by (cases "t = tn_timer_task"; cases "t = tn_idle_task") (auto simp: waiting_def boot_memory_def)
  have "priority (tcbs s5 t) \<noteq> 0 \<and> base_priority (tcbs s5 t) \<noteq> 0"
    if "id_task (tcbs s5 t) = TN_ID_TASK" "t \<noteq> tn_timer_task" for t
    using that T b s2(10,11) by (cases "t = tn_idle_task") (simp_all add: boot_memory_def)
  then have "system_tasks (tcbs s5)" using T s1(9,11,12) s2(10) by (simp add: system_tasks_def)
  then have "inv_objs s5 L4"
    using b so nw
    by (auto simp: inv_objs_def wait_ok_def live_def dque_sides_def objects_wf_def sem_wf_def fmp_wf_def
        free_blocks_def same_objects_def boot_memory_def s0_def split: qnode.splits)
  moreover have "kinv {} s5 L4" using k4 by (simp add: s5_def)
  ultimately have "system_inv s5" by (auto simp: system_inv_def sinv_def)
  moreover have "sems s5 = sems s" "events s5 = events s" "dques s5 = dques s" "fmps s5 = fmps s"
    using so by (simp_all add: same_objects_def s0_def)
  ultimately show ?thesis using e T n s2(4,6)
    by (auto simp: running_def scheduled_def) (simp_all add: s5_def sh4 sh3)
qed

end
