(* ===== verification/Event.thy ===== *)
theory Event
  imports Service
begin

text \<open>
  Event flags, \<open>src/TNKernel/tn_event.c\<close>: the services, the scan that releases the waiting
  tasks whose condition holds, and their contracts. The value stored through
  \<open>p_flags_pattern\<close> is part of the result; of the pointer itself only whether it is \<open>NULL\<close> is
  an argument.
\<close>

section \<open>The services\<close>

definition upd_event :: "eid \<Rightarrow> (tn_event \<Rightarrow> tn_event) \<Rightarrow> kstate \<Rightarrow> kstate" where
  "upd_event i f s = s\<lparr>events := (events s)(i := f (events s i))\<rparr>"

definition tn_event_create :: "eid option \<Rightarrow> u32 \<Rightarrow> u32 \<Rightarrow> kstate \<Rightarrow> (kret \<times> kstate) option" where
  "tn_event_create evf attr pattern s =
     (case evf of
        None \<Rightarrow> Some (RC TERR_WRONG_PARAM, s)
      | Some i \<Rightarrow>
          if id_event (events s i) = TN_ID_EVENT \<or>
             (attr AND TN_EVENT_ATTR_SINGLE = 0 \<and> attr AND TN_EVENT_ATTR_MULTI = 0)
          then Some (RC TERR_WRONG_PARAM, s)
          else
            let s = on_mem (queue_reset (EventWaitQ i)) s;
                s = upd_event i (\<lambda>e. e\<lparr>ev_pattern := pattern, ev_attr := attr\<rparr>) s
            in if attr AND TN_EVENT_ATTR_CLR \<noteq> 0 \<and> attr AND TN_EVENT_ATTR_SINGLE = 0
               then Some (RC TERR_WRONG_PARAM, upd_event i (\<lambda>e. e\<lparr>ev_attr := TN_INVALID_VAL\<rparr>) s)
               else Some (RC TERR_NO_ERR, upd_event i (\<lambda>e. e\<lparr>id_event := TN_ID_EVENT\<rparr>) s))"

definition tn_event_delete_loop :: "eid \<Rightarrow> bool \<Rightarrow> kstate \<Rightarrow> (kret \<times> kstate) option" where
  "tn_event_delete_loop i sr s =
     do { (sw, sr, s) \<leftarrow> delete_waiters (EventWaitQ i) sr s;
          if sw then Some (SWITCH_LOOP, s)
          else let (sr, s) = (if \<not> irq_disabled s then tn_disable_interrupt s else (sr, s));
                   s = upd_event i (\<lambda>x. x\<lparr>id_event := 0\<rparr>) s
               in Some (RC TERR_NO_ERR, tn_enable_interrupt sr s) }"

definition tn_event_delete :: "eid option \<Rightarrow> kstate \<Rightarrow> (kret \<times> kstate) option" where
  "tn_event_delete evf s =
     (case evf of
        None \<Rightarrow> Some (RC TERR_WRONG_PARAM, s)
      | Some i \<Rightarrow>
          if id_event (events s i) \<noteq> TN_ID_EVENT then Some (RC TERR_NOEXS, s)
          else if bad_non_int_context s then Some (RC TERR_WCONTEXT, s)
          else tn_event_delete_loop i False s)"

text \<open>The part that the three waiting services share: \<^const>\<open>None\<close> when the condition does not
  hold yet, otherwise the return code, the pattern stored for the caller and the new state.\<close>

definition event_try :: "eid \<Rightarrow> u32 \<Rightarrow> u32 \<Rightarrow> kstate \<Rightarrow> (int \<times> u32 option \<times> kstate) option" where
  "event_try i wait_pattern wait_mode s =
     (if ev_attr (events s i) AND TN_EVENT_ATTR_SINGLE \<noteq> 0 \<and> \<not> is_queue_empty (mem s) (EventWaitQ i)
      then Some (TERR_ILUSE, None, s)
      else if event_cond (ev_pattern (events s i)) wait_mode wait_pattern
      then Some (TERR_NO_ERR, Some (ev_pattern (events s i)),
                 if ev_attr (events s i) AND TN_EVENT_ATTR_CLR \<noteq> 0
                 then upd_event i (\<lambda>e. e\<lparr>ev_pattern := 0\<rparr>) s else s)
      else None)"

definition tn_event_wait ::
  "eid option \<Rightarrow> u32 \<Rightarrow> u32 \<Rightarrow> bool \<Rightarrow> u32 \<Rightarrow> kstate \<Rightarrow> (kret \<times> u32 option \<times> kstate) option" where
  "tn_event_wait evf wait_pattern wait_mode p_flags_null timeout s =
     (case evf of
        None \<Rightarrow> Some (RC TERR_WRONG_PARAM, None, s)
      | Some i \<Rightarrow>
          if wait_pattern = 0 \<or> p_flags_null \<or> timeout = 0 then Some (RC TERR_WRONG_PARAM, None, s)
          else if id_event (events s i) \<noteq> TN_ID_EVENT then Some (RC TERR_NOEXS, None, s)
          else if bad_non_int_context s then Some (RC TERR_WCONTEXT, None, s)
          else
            let (sr, s) = tn_disable_interrupt s in
            case event_try i wait_pattern wait_mode s of
              Some (rc, v, s) \<Rightarrow> Some (RC rc, v, tn_enable_interrupt sr s)
            | None \<Rightarrow>
                do { t \<leftarrow> tn_curr_run_task s;
                     let s = upd_tcb t (\<lambda>c. c\<lparr>ewait_mode := wait_mode, ewait_pattern := wait_pattern\<rparr>) s;
                     s \<leftarrow> task_curr_to_wait_action (Some (EventWaitQ i)) TSK_WAIT_REASON_EVENT timeout s;
                     Some (SWITCH_WAIT_RC, None, tn_enable_interrupt sr s) })"

text \<open>What \<open>tn_event_wait\<close> does when its caller \<open>t\<close> runs again: the code it returns, and the
  pattern it stores.\<close>

definition tn_event_wait_resumed :: "tid \<Rightarrow> kstate \<Rightarrow> int \<times> u32 option" where
  "tn_event_wait_resumed t s =
     (task_wait_rc (tcbs s t),
      if task_wait_rc (tcbs s t) = TERR_NO_ERR then Some (ewait_pattern (tcbs s t)) else None)"

definition tn_event_wait_polling ::
  "eid option \<Rightarrow> u32 \<Rightarrow> u32 \<Rightarrow> bool \<Rightarrow> kstate \<Rightarrow> (kret \<times> u32 option \<times> kstate) option" where
  "tn_event_wait_polling evf wait_pattern wait_mode p_flags_null s =
     (case evf of
        None \<Rightarrow> Some (RC TERR_WRONG_PARAM, None, s)
      | Some i \<Rightarrow>
          if wait_pattern = 0 \<or> p_flags_null then Some (RC TERR_WRONG_PARAM, None, s)
          else if id_event (events s i) \<noteq> TN_ID_EVENT then Some (RC TERR_NOEXS, None, s)
          else if bad_non_int_context s then Some (RC TERR_WCONTEXT, None, s)
          else
            let (sr, s) = tn_disable_interrupt s in
            case event_try i wait_pattern wait_mode s of
              Some (rc, v, s) \<Rightarrow> Some (RC rc, v, tn_enable_interrupt sr s)
            | None \<Rightarrow> Some (RC TERR_TIMEOUT, None, tn_enable_interrupt sr s))"

definition tn_event_iwait ::
  "eid option \<Rightarrow> u32 \<Rightarrow> u32 \<Rightarrow> bool \<Rightarrow> kstate \<Rightarrow> (int \<times> u32 option \<times> kstate) option" where
  "tn_event_iwait evf wait_pattern wait_mode p_flags_null s =
     (case evf of
        None \<Rightarrow> Some (TERR_WRONG_PARAM, None, s)
      | Some i \<Rightarrow>
          if wait_pattern = 0 \<or> p_flags_null then Some (TERR_WRONG_PARAM, None, s)
          else if id_event (events s i) \<noteq> TN_ID_EVENT then Some (TERR_NOEXS, None, s)
          else if bad_int_context s then Some (TERR_WCONTEXT, None, s)
          else
            case event_try i wait_pattern wait_mode s of
              Some (rc, v, s) \<Rightarrow> Some (rc, v, s)
            | None \<Rightarrow> Some (TERR_TIMEOUT, None, s))"

text \<open>The loop of \<open>scan_event_waitqueue\<close>. The node after the current one is read before the
  current one is taken out of the queue. On a damaged queue the loop need not end.\<close>

partial_function (option) scan_event_waitqueue_loop ::
  "eid \<Rightarrow> qnode \<Rightarrow> bool \<Rightarrow> kstate \<Rightarrow> (bool \<times> kstate) option" where
  "scan_event_waitqueue_loop i que wcflag s =
     do { p \<leftarrow> get_task_by_tsk_queue (Some que);
          task \<leftarrow> p;
          let tmp_que = nxt (mem s) que;
          if event_cond (ev_pattern (events s i)) (ewait_mode (tcbs s task)) (ewait_pattern (tcbs s task))
          then
            let s = on_mem (queue_remove_entry que) s;
                s = upd_tcb task (\<lambda>c. c\<lparr>ewait_pattern := ev_pattern (events s i)\<rparr>) s;
                (woken, s) = task_wait_complete (Some task) False s;
                wcflag = (wcflag \<or> woken)
            in if tmp_que = EventWaitQ i then Some (wcflag, s)
               else scan_event_waitqueue_loop i tmp_que wcflag s
          else if tmp_que = EventWaitQ i then Some (wcflag, s)
          else scan_event_waitqueue_loop i tmp_que wcflag s }"

definition scan_event_waitqueue :: "eid \<Rightarrow> kstate \<Rightarrow> (bool \<times> kstate) option" where
  "scan_event_waitqueue i s = scan_event_waitqueue_loop i (nxt (mem s) (EventWaitQ i)) False s"

text \<open>Setting flags up to the point where a switch is due: whether a task became runnable.\<close>

definition event_set_flags :: "eid \<Rightarrow> u32 \<Rightarrow> kstate \<Rightarrow> (bool \<times> kstate) option" where
  "event_set_flags i pattern s =
     (let s = upd_event i (\<lambda>e. e\<lparr>ev_pattern := ev_pattern e OR pattern\<rparr>) s in
      if \<not> is_queue_empty (mem s) (EventWaitQ i) then
        do { (wc, s) \<leftarrow> scan_event_waitqueue i s;
             Some (wc, if wc \<and> ev_attr (events s i) AND TN_EVENT_ATTR_CLR \<noteq> 0
                       then upd_event i (\<lambda>e. e\<lparr>ev_pattern := 0\<rparr>) s else s) }
      else Some (False, s))"

definition tn_event_set :: "eid option \<Rightarrow> u32 \<Rightarrow> kstate \<Rightarrow> (kret \<times> kstate) option" where
  "tn_event_set evf pattern s =
     (case evf of
        None \<Rightarrow> Some (RC TERR_WRONG_PARAM, s)
      | Some i \<Rightarrow>
          if pattern = 0 then Some (RC TERR_WRONG_PARAM, s)
          else if id_event (events s i) \<noteq> TN_ID_EVENT then Some (RC TERR_NOEXS, s)
          else if bad_non_int_context s then Some (RC TERR_WCONTEXT, s)
          else
            let (sr, s) = tn_disable_interrupt s
            in do { r \<leftarrow> event_set_flags i pattern s; Some (wake_ret sr r) })"

definition tn_event_iset :: "eid option \<Rightarrow> u32 \<Rightarrow> kstate \<Rightarrow> (int \<times> kstate) option" where
  "tn_event_iset evf pattern s =
     (case evf of
        None \<Rightarrow> Some (TERR_WRONG_PARAM, s)
      | Some i \<Rightarrow>
          if pattern = 0 then Some (TERR_WRONG_PARAM, s)
          else if id_event (events s i) \<noteq> TN_ID_EVENT then Some (TERR_NOEXS, s)
          else if bad_int_context s then Some (TERR_WCONTEXT, s)
          else do { r \<leftarrow> event_set_flags i pattern s; Some (wake_iret r) })"

definition tn_event_clear :: "eid option \<Rightarrow> u32 \<Rightarrow> kstate \<Rightarrow> (kret \<times> kstate) option" where
  "tn_event_clear evf pattern s =
     (case evf of
        None \<Rightarrow> Some (RC TERR_WRONG_PARAM, s)
      | Some i \<Rightarrow>
          if pattern = 0xFFFFFFFF then Some (RC TERR_WRONG_PARAM, s)
          else if id_event (events s i) \<noteq> TN_ID_EVENT then Some (RC TERR_NOEXS, s)
          else if bad_non_int_context s then Some (RC TERR_WCONTEXT, s)
          else
            let (sr, s) = tn_disable_interrupt s
            in Some (RC TERR_NO_ERR, tn_enable_interrupt sr
                 (upd_event i (\<lambda>e. e\<lparr>ev_pattern := ev_pattern e AND pattern\<rparr>) s)))"

definition tn_event_iclear :: "eid option \<Rightarrow> u32 \<Rightarrow> kstate \<Rightarrow> (int \<times> kstate) option" where
  "tn_event_iclear evf pattern s =
     (case evf of
        None \<Rightarrow> Some (TERR_WRONG_PARAM, s)
      | Some i \<Rightarrow>
          if pattern = 0xFFFFFFFF then Some (TERR_WRONG_PARAM, s)
          else if id_event (events s i) \<noteq> TN_ID_EVENT then Some (TERR_NOEXS, s)
          else if bad_int_context s then Some (TERR_WCONTEXT, s)
          else Some (TERR_NO_ERR, upd_event i (\<lambda>e. e\<lparr>ev_pattern := ev_pattern e AND pattern\<rparr>) s))"

section \<open>The invariant\<close>

lemma upd_event_simps [simp]:
  "mem (upd_event i f s) = mem s" "tcbs (upd_event i f s) = tcbs s"
  "events (upd_event i f s) = (events s)(i := f (events s i))" "irq_disabled (upd_event i f s) = irq_disabled s"
  "tn_next_task_to_run (upd_event i f s) = tn_next_task_to_run s"
  "tn_curr_run_task (upd_event i f s) = tn_curr_run_task s"
  "tn_context_switch_request (upd_event i f s) = tn_context_switch_request s"
  "same_sched s0 (upd_event i f s) = same_sched s0 s"
  by (simp_all add: upd_event_def same_sched_def)

text \<open>Fewer flags release no task.\<close>

lemma event_cond_fewer:
  assumes "\<not> event_cond p mode wp" "\<And>n. bit q n \<Longrightarrow> bit p n"
  shows "\<not> event_cond q mode wp"
proof (cases "mode AND TN_EVENT_WCOND_OR = 0")
  case False
  then have "p AND wp = 0" using assms(1) by (simp add: event_cond_def)
  then have "q AND wp = 0" using assms(2) by (auto simp: bit_eq_iff bit_and_iff)
  with False show ?thesis by (simp add: event_cond_def)
next
  case True
  then obtain n where "bit wp n" "\<not> bit p n"
    using assms(1) by (auto simp: event_cond_def bit_eq_iff bit_and_iff)
  then have "\<not> (bit (q AND wp) n \<longleftrightarrow> bit wp n)" using assms(2) by (auto simp: bit_and_iff)
  then have "q AND wp \<noteq> wp" by auto
  with True show ?thesis by (simp add: event_cond_def)
qed

lemma sinv_upd_event:
  assumes i: "sinv s L"
    and l: "id_event (f (events s i)) = TN_ID_EVENT \<Longrightarrow> L (EventWaitQ i) \<noteq> None"
    and w: "\<And>t. waiting (tcbs s t) \<Longrightarrow> pwait_queue (tcbs s t) = Some (EventWaitQ i) \<Longrightarrow>
       id_event (f (events s i)) = TN_ID_EVENT \<and>
       \<not> event_cond (ev_pattern (f (events s i))) (ewait_mode (tcbs s t)) (ewait_pattern (tcbs s t))"
  shows "sinv (upd_event i f s) L"
  using i
proof (rule sinv_change_objects)
  let ?s = "upd_event i f s"
  have other: "live ?s q = live s q" "wait_cause ?s c q = wait_cause s c q" if "q \<noteq> EventWaitQ i" for q c
    using that by (cases q; simp add: live_def wait_cause_def upd_event_def)+
  show "wait_ok ?s (tcbs s t)" if wt: "waiting (tcbs s t)" for t
  proof (cases "pwait_queue (tcbs s t) = Some (EventWaitQ i)")
    case True
    with w [OF wt True] sinvD(2) [OF i, of t] wt show ?thesis
      by (simp add: wait_ok_def live_def wait_cause_def upd_event_def)
  next
    case False
    with sinvD(2) [OF i, of t] other show ?thesis by (auto simp: wait_ok_def split: option.splits)
  qed
  show "L q \<noteq> None" if "live ?s q" for q
  proof (cases "q = EventWaitQ i")
    case True
    with that l show ?thesis by (simp add: live_def upd_event_def)
  next
    case False
    with that other sinvD(3) [OF i] show ?thesis by simp
  qed
  have "fmp_wf ?s = fmp_wf s" by (rule fmp_wf_cong) (simp_all add: upd_event_def)
  then show "objects_wf ?s" using sinvD(5) [OF i] by (simp add: objects_wf_def upd_event_def)
qed (simp_all add: upd_event_def)

lemma event_live: "live s (EventWaitQ i) \<longleftrightarrow> id_event (events s i) = TN_ID_EVENT"
  by (simp add: live_def)

lemma event_waiter:
  assumes "sinv s L" "waiting (tcbs s t)" "pwait_queue (tcbs s t) = Some (EventWaitQ i)"
  shows "id_event (events s i) = TN_ID_EVENT"
    "\<not> event_cond (ev_pattern (events s i)) (ewait_mode (tcbs s t)) (ewait_pattern (tcbs s t))"
  using sinvD(2) [OF assms(1), of t] assms(2,3) by (auto simp: wait_ok_def wait_cause_def live_def)

text \<open>Taking flags away.\<close>

lemma sinv_event_fewer:
  assumes i: "sinv s L" and f: "id_event (f (events s i)) = id_event (events s i)"
    "\<And>n. bit (ev_pattern (f (events s i))) n \<Longrightarrow> bit (ev_pattern (events s i)) n"
  shows "sinv (upd_event i f s) L"
  using i
proof (rule sinv_upd_event)
  show "L (EventWaitQ i) \<noteq> None" if "id_event (f (events s i)) = TN_ID_EVENT"
    using sinvD(3) [OF i] that f(1) by (simp add: event_live)
  fix t assume t: "waiting (tcbs s t)" "pwait_queue (tcbs s t) = Some (EventWaitQ i)"
  then show "id_event (f (events s i)) = TN_ID_EVENT \<and>
       \<not> event_cond (ev_pattern (f (events s i))) (ewait_mode (tcbs s t)) (ewait_pattern (tcbs s t))"
    using event_waiter [OF i t] f(1) event_cond_fewer [OF _ f(2)] by simp
qed

section \<open>The scan\<close>

lemma events_commute:
  "upd_tcb t f (s\<lparr>events := E\<rparr>) = (upd_tcb t f s)\<lparr>events := E\<rparr>"
  "on_mem g (s\<lparr>events := E\<rparr>) = (on_mem g s)\<lparr>events := E\<rparr>"
  by (simp_all add: upd_tcb_def on_mem_def)

lemma clear_wait_events: "clear_wait t (s\<lparr>events := E\<rparr>) = (clear_wait t s)\<lparr>events := E\<rparr>"
  by (simp add: clear_wait_def Let_def events_commute)

lemma task_to_runnable_events: "task_to_runnable t (s\<lparr>events := E\<rparr>) = (task_to_runnable t s)\<lparr>events := E\<rparr>"
proof (cases "tn_next_task_to_run s")
  case None
  then show ?thesis by (simp add: task_to_runnable_def Let_def events_commute)
next
  case (Some n)
  then show ?thesis by (simp add: task_to_runnable_def Let_def events_commute)
qed

lemma wait_complete_events:
  "task_wait_complete (Some t) False (s\<lparr>events := E\<rparr>) =
     (case task_wait_complete (Some t) False s of (w, s') \<Rightarrow> (w, s'\<lparr>events := E\<rparr>))"
  by (simp add: task_wait_complete_unfold clear_wait_events task_to_runnable_events events_commute)

abbreviation released :: "u32 \<Rightarrow> tn_tcb \<Rightarrow> bool" where
  "released p c \<equiv> event_cond p (ewait_mode c) (ewait_pattern c)"

text \<open>One waiter whose condition holds is released. \<open>E\<close> is the state of the event flags before the
  flags were set, for which the invariant still holds.\<close>

lemma scan_release:
  assumes i: "sinv (s\<lparr>events := E\<rparr>) L" and q: "L (EventWaitQ i) = Some xs" "TaskQ t \<in> set xs"
  shows "\<exists>s' L'. task_wait_complete (Some t) False (upd_tcb t (\<lambda>c. c\<lparr>ewait_pattern := p\<rparr>)
       (on_mem (queue_remove_entry (TaskQ t)) s)) = (task_state (tcbs s t) AND TSK_STATE_SUSPEND = 0, s') \<and>
     sinv (s'\<lparr>events := E\<rparr>) L' \<and> sched_only s s' \<and> waiting (tcbs s t) \<and>
     tcbs s' = (tcbs s)(t := wake_tcb ((tcbs s t)\<lparr>ewait_pattern := p\<rparr>)) \<and>
     (task_state (tcbs s t) AND TSK_STATE_SUSPEND = 0 \<or> tn_next_task_to_run s' = tn_next_task_to_run s) \<and>
     (\<forall>q'. wait_hdr q' \<longrightarrow> L' q' = (if q' = EventWaitQ i then Some (remove1 (TaskQ t) xs) else L q'))"
proof -
  let ?s = "s\<lparr>events := E\<rparr>" and ?f = "\<lambda>c. c\<lparr>ewait_pattern := p\<rparr>"
  have wh: "wait_hdr (EventWaitQ i)" and tv: "\<And>c. tcb_view (?f c) = tcb_view c" by (simp_all add: tcb_view_def)
  obtain s1 L1 m b nx where w: "waiting (tcbs ?s t)" "pwait_queue (tcbs ?s t) = Some (EventWaitQ i)"
    "task_wait_complete (Some t) False (upd_tcb t ?f (on_mem (queue_remove_entry (TaskQ t)) ?s)) =
       (task_state (tcbs ?s t) AND TSK_STATE_SUSPEND = 0, s1)"
    "s1 = ?s\<lparr>mem := m, tn_ready_to_run_bmp := b, tn_next_task_to_run := nx,
            tcbs := (tcbs ?s)(t := wake_tcb (?f (tcbs ?s t)))\<rparr>"
    "task_state (tcbs ?s t) AND TSK_STATE_SUSPEND = 0 \<or> nx = tn_next_task_to_run ?s"
    "sinv s1 L1" "\<And>q'. wait_hdr q' \<Longrightarrow> L1 q' = (if q' = EventWaitQ i then Some (remove1 (TaskQ t) xs) else L q')"
    by (rule wake_member [OF i wh q tv]) (rule that)
  define s' where "s' = s\<lparr>mem := m, tn_ready_to_run_bmp := b, tn_next_task_to_run := nx,
            tcbs := (tcbs s)(t := wake_tcb (?f (tcbs s t)))\<rparr>"
  have s1: "s1 = s'\<lparr>events := E\<rparr>" unfolding w(4) s'_def by (intro kstate.equality) simp_all
  have e: "upd_tcb t ?f (on_mem (queue_remove_entry (TaskQ t)) ?s) =
      (upd_tcb t ?f (on_mem (queue_remove_entry (TaskQ t)) s))\<lparr>events := E\<rparr>"
    by (simp add: upd_tcb_def on_mem_def)
  obtain r where r: "task_wait_complete (Some t) False (upd_tcb t ?f (on_mem (queue_remove_entry (TaskQ t)) s)) = r" by simp
  obtain m' b' n' where sh: "r = (task_state (tcbs s t) AND TSK_STATE_SUSPEND = 0,
      s\<lparr>mem := m', tn_ready_to_run_bmp := b', tn_next_task_to_run := n',
        tcbs := (tcbs s)(t := wake_tcb (?f (tcbs s t)))\<rparr>)"
    using task_wait_complete_shape [of t False "upd_tcb t ?f (on_mem (queue_remove_entry (TaskQ t)) s)"]
    unfolding r by (auto simp: upd_tcb_def on_mem_def)
  have "(snd r)\<lparr>events := E\<rparr> = s'\<lparr>events := E\<rparr>"
    using w(3) unfolding e wait_complete_events r s1 by (auto split: prod.splits)
  then have "mem s' = m'" "tn_ready_to_run_bmp s' = b'" "tn_next_task_to_run s' = n'"
    using sh by (auto dest!: arg_cong [where f = "\<lambda>s. (mem s, tn_ready_to_run_bmp s, tn_next_task_to_run s)"])
  then have "r = (task_state (tcbs s t) AND TSK_STATE_SUSPEND = 0, s')" unfolding sh by (auto simp: s'_def)
  moreover have "sched_only s s'" by (simp add: s'_def sched_only_iff same_objects_def)
  ultimately show ?thesis using w(1,5,6,7) r s1 by (intro exI [of _ s'] exI [of _ L1]) (auto simp: s'_def)
qed

lemma scan_ok:
  assumes "sinv (s\<lparr>events := E\<rparr>) L" "L (EventWaitQ i) = Some (ys @ zs)" "zs \<noteq> []" "ev_pattern (events s i) = p"
  shows "\<exists>wc' s' L'. scan_event_waitqueue_loop i (hd zs) wc s = Some (wc', s') \<and>
     sinv (s'\<lparr>events := E\<rparr>) L' \<and> sched_only s s' \<and>
     (\<forall>t. tcbs s' t = (if TaskQ t \<in> set zs \<and> released p (tcbs s t)
        then wake_tcb ((tcbs s t)\<lparr>ewait_pattern := p\<rparr>) else tcbs s t)) \<and>
     L' (EventWaitQ i) = Some (ys @ filter (\<lambda>n. \<forall>t. n = TaskQ t \<longrightarrow> \<not> released p (tcbs s t)) zs) \<and>
     (wc' \<longleftrightarrow> wc \<or> (\<exists>t. TaskQ t \<in> set zs \<and> released p (tcbs s t) \<and> task_state (tcbs s t) AND TSK_STATE_SUSPEND = 0)) \<and>
     (wc' \<or> tn_next_task_to_run s' = tn_next_task_to_run s)"
  using assms
proof (induction zs arbitrary: s L ys wc)
  case (Cons z zs)
  note i = Cons.prems(1) and q = Cons.prems(2)
  note k = sinvD(1) [OF i]
  obtain t where z: "z = TaskQ t"
    using inv_lists_elem [OF kinvD(2) [OF k] q, of z] wait_hdr_elem [of "EventWaitQ i" z] by auto
  have d: "distinct (EventWaitQ i # ys @ z # zs)" using rings_distinct [OF kinvD(1) [OF k] q] .
  have n: "nxt (mem s) z = hd (zs @ [EventWaitQ i])"
    using ring_nxt [OF rings_ring [OF kinvD(1) [OF k] q]] by simp
  have last: "hd (zs @ [EventWaitQ i]) = EventWaitQ i \<longleftrightarrow> zs = []" using d by (cases zs) auto
  show ?case
  proof (cases "released p (tcbs s t)")
    case False
    have step: "scan_event_waitqueue_loop i z wc s =
       (if zs = [] then Some (wc, s) else scan_event_waitqueue_loop i (hd zs) wc s)"
      using False n last Cons.prems(4) by (subst scan_event_waitqueue_loop.simps) (auto simp: z)
    show ?thesis
    proof (cases "zs = []")
      case True
      with False z i q show ?thesis by (intro exI [of _ wc] exI [of _ s] exI [of _ L]) (auto simp: step [unfolded z])
    next
      case nz: False
      obtain wc' s' L' where IH: "scan_event_waitqueue_loop i (hd zs) wc s = Some (wc', s')"
        "sinv (s'\<lparr>events := E\<rparr>) L'" "sched_only s s'"
        "\<forall>t. tcbs s' t = (if TaskQ t \<in> set zs \<and> released p (tcbs s t)
           then wake_tcb ((tcbs s t)\<lparr>ewait_pattern := p\<rparr>) else tcbs s t)"
        "L' (EventWaitQ i) = Some ((ys @ [z]) @ filter (\<lambda>n. \<forall>t. n = TaskQ t \<longrightarrow> \<not> released p (tcbs s t)) zs)"
        "wc' \<longleftrightarrow> wc \<or> (\<exists>t. TaskQ t \<in> set zs \<and> released p (tcbs s t) \<and> task_state (tcbs s t) AND TSK_STATE_SUSPEND = 0)"
        "wc' \<or> tn_next_task_to_run s' = tn_next_task_to_run s"
        using Cons.IH [of s L "ys @ [z]" wc] i q nz Cons.prems(4) by auto
      show ?thesis
        by (intro exI [of _ wc'] exI [of _ s'] exI [of _ L'])
           (use IH False z nz in \<open>auto simp: step [unfolded z]\<close>)
    qed
  next
    case True
    obtain s1 L1 where s1: "task_wait_complete (Some t) False (upd_tcb t (\<lambda>c. c\<lparr>ewait_pattern := p\<rparr>)
       (on_mem (queue_remove_entry (TaskQ t)) s)) = (task_state (tcbs s t) AND TSK_STATE_SUSPEND = 0, s1)"
      "sinv (s1\<lparr>events := E\<rparr>) L1" "sched_only s s1" "waiting (tcbs s t)"
      "tcbs s1 = (tcbs s)(t := wake_tcb ((tcbs s t)\<lparr>ewait_pattern := p\<rparr>))"
      "task_state (tcbs s t) AND TSK_STATE_SUSPEND = 0 \<or> tn_next_task_to_run s1 = tn_next_task_to_run s"
      "\<forall>q'. wait_hdr q' \<longrightarrow> L1 q' = (if q' = EventWaitQ i then Some (remove1 (TaskQ t) (ys @ z # zs)) else L q')"
      using scan_release [OF i q, of t p] z by auto
    have q1: "L1 (EventWaitQ i) = Some (ys @ zs)" using s1(7) d z by (simp add: remove1_append)
    let ?w = "wc \<or> task_state (tcbs s t) AND TSK_STATE_SUSPEND = 0"
    have step: "scan_event_waitqueue_loop i z wc s =
       (if zs = [] then Some (?w, s1) else scan_event_waitqueue_loop i (hd zs) ?w s1)"
      using True n last Cons.prems(4) s1(1) by (subst scan_event_waitqueue_loop.simps) (auto simp: z)
    have p1: "ev_pattern (events s1 i) = p" using s1(3) Cons.prems(4) by (simp add: sched_only_iff same_objects_def)
    have keep: "tcbs s1 t' = tcbs s t'" if "TaskQ t' \<in> set zs" for t' using that d z s1(5) by auto
    show ?thesis
    proof (cases "zs = []")
      case nz: True
      with True z q1 s1 show ?thesis by (intro exI [of _ ?w] exI [of _ s1] exI [of _ L1]) (auto simp: step [unfolded z])
    next
      case nz: False
      obtain wc' s' L' where IH: "scan_event_waitqueue_loop i (hd zs) ?w s1 = Some (wc', s')"
        "sinv (s'\<lparr>events := E\<rparr>) L'" "sched_only s1 s'"
        "\<forall>t. tcbs s' t = (if TaskQ t \<in> set zs \<and> released p (tcbs s1 t)
           then wake_tcb ((tcbs s1 t)\<lparr>ewait_pattern := p\<rparr>) else tcbs s1 t)"
        "L' (EventWaitQ i) = Some (ys @ filter (\<lambda>n. \<forall>t. n = TaskQ t \<longrightarrow> \<not> released p (tcbs s1 t)) zs)"
        "wc' \<longleftrightarrow> ?w \<or> (\<exists>t. TaskQ t \<in> set zs \<and> released p (tcbs s1 t) \<and> task_state (tcbs s1 t) AND TSK_STATE_SUSPEND = 0)"
        "wc' \<or> tn_next_task_to_run s' = tn_next_task_to_run s1"
        using Cons.IH [OF s1(2) q1 nz p1, of ?w] by auto
      have fl: "filter (\<lambda>n. \<forall>t. n = TaskQ t \<longrightarrow> \<not> released p (tcbs s1 t)) zs =
          filter (\<lambda>n. \<forall>t. n = TaskQ t \<longrightarrow> \<not> released p (tcbs s t)) zs"
        using keep by (intro filter_cong) auto
      have T: "tcbs s' t' = (if TaskQ t' \<in> set (z # zs) \<and> released p (tcbs s t')
           then wake_tcb ((tcbs s t')\<lparr>ewait_pattern := p\<rparr>) else tcbs s t')" for t'
        using IH(4) keep [of t'] s1(5) z d True by (cases "t' = t") auto
      have wc: "wc' \<longleftrightarrow> wc \<or> (\<exists>t. TaskQ t \<in> set (z # zs) \<and> released p (tcbs s t) \<and> task_state (tcbs s t) AND TSK_STATE_SUSPEND = 0)"
        unfolding IH(6) using keep True z by (auto; metis)
      have nx: "wc' \<or> tn_next_task_to_run s' = tn_next_task_to_run s" using IH(6,7) s1(6) by auto
      show ?thesis
        by (intro exI [of _ wc'] exI [of _ s'] exI [of _ L'] conjI)
           (use IH(1,2,5) True z nz T wc nx fl sched_only_trans [OF s1(3) IH(3)]
             in \<open>auto simp: step [unfolded z]\<close>)
    qed
  qed
qed simp

lemma event_set_flags_ok:
  assumes i: "sinv s L" and l: "id_event (events s i) = TN_ID_EVENT"
    and p: "p = ev_pattern (events s i) OR pattern"
  shows "\<exists>wc s' L'. event_set_flags i pattern s = Some (wc, s') \<and> sinv s' L' \<and> only_woken (tcbs s) (tcbs s') \<and>
     tn_curr_run_task s' = tn_curr_run_task s \<and> tn_context_switch_request s' = tn_context_switch_request s \<and>
     (wc \<or> tn_next_task_to_run s' = tn_next_task_to_run s) \<and>
     (\<forall>t. tcbs s' t = (if waiting (tcbs s t) \<and> pwait_queue (tcbs s t) = Some (EventWaitQ i) \<and> released p (tcbs s t)
        then wake_tcb ((tcbs s t)\<lparr>ewait_pattern := p\<rparr>) else tcbs s t)) \<and>
     (wc \<longleftrightarrow> (\<exists>t. waiting (tcbs s t) \<and> pwait_queue (tcbs s t) = Some (EventWaitQ i) \<and> released p (tcbs s t) \<and>
        task_state (tcbs s t) AND TSK_STATE_SUSPEND = 0)) \<and>
     ev_pattern (events s' i) = (if wc \<and> ev_attr (events s i) AND TN_EVENT_ATTR_CLR \<noteq> 0 then 0 else p)"
proof -
  obtain xs where xs: "L (EventWaitQ i) = Some xs" using sinvD(3) [OF i, of "EventWaitQ i"] l by (auto simp: event_live)
  have mem: "TaskQ t \<in> set xs \<longleftrightarrow> waiting (tcbs s t) \<and> pwait_queue (tcbs s t) = Some (EventWaitQ i)" for t
    using sinv_waiter [OF i _ xs] by simp
  define s1 where "s1 = upd_event i (\<lambda>e. e\<lparr>ev_pattern := ev_pattern e OR pattern\<rparr>) s"
  have s1: "mem s1 = mem s" "tcbs s1 = tcbs s" "s1\<lparr>events := events s\<rparr> = s" "ev_pattern (events s1 i) = p"
    "ev_attr (events s1 i) = ev_attr (events s i)" by (simp_all add: s1_def upd_event_def p)
  have em: "is_queue_empty (mem s1) (EventWaitQ i) \<longleftrightarrow> xs = []" using sinv_empty [OF i xs] s1(1) by simp
  show ?thesis
  proof (cases "xs = []")
    case True
    have "sinv s1 L" unfolding s1_def
      by (rule sinv_upd_event [OF i]) (use xs True mem l in auto)
    moreover have "event_set_flags i pattern s = Some (False, s1)"
      using True em by (simp add: event_set_flags_def s1_def [symmetric])
    moreover have "\<not> (waiting (tcbs s t) \<and> pwait_queue (tcbs s t) = Some (EventWaitQ i))" for t
      using mem [of t] True by simp
    ultimately show ?thesis using s1
      by (intro exI [of _ False] exI [of _ s1] exI [of _ L]) (auto simp: s1_def)
  next
    case False
    have i1: "sinv (s1\<lparr>events := events s\<rparr>) L" "L (EventWaitQ i) = Some ([] @ xs)" using i s1(3) xs by simp_all
    obtain wc s2 L2 where r: "scan_event_waitqueue_loop i (hd xs) False s1 = Some (wc, s2)"
       "sinv (s2\<lparr>events := events s\<rparr>) L2" "sched_only s1 s2"
       "\<forall>t. tcbs s2 t = (if TaskQ t \<in> set xs \<and> released p (tcbs s t)
          then wake_tcb ((tcbs s t)\<lparr>ewait_pattern := p\<rparr>) else tcbs s t)"
       "L2 (EventWaitQ i) = Some (filter (\<lambda>n. \<forall>t. n = TaskQ t \<longrightarrow> \<not> released p (tcbs s t)) xs)"
       "wc \<longleftrightarrow> (\<exists>t. TaskQ t \<in> set xs \<and> released p (tcbs s t) \<and> task_state (tcbs s t) AND TSK_STATE_SUSPEND = 0)"
       "wc \<or> tn_next_task_to_run s2 = tn_next_task_to_run s1"
      using scan_ok [OF i1 False s1(4), of False, unfolded s1(2) append_Nil simp_thms] by blast
    have "nxt (mem s1) (EventWaitQ i) = hd xs"
      using rings_nxt_hd [OF kinvD(1) [OF sinvD(1) [OF i]]] xs False s1(1) by (cases xs) auto
    then have sc: "scan_event_waitqueue i s1 = Some (wc, s2)" using r(1) by (simp add: scan_event_waitqueue_def)
    let ?clr = "wc \<and> ev_attr (events s i) AND TN_EVENT_ATTR_CLR \<noteq> 0"
    define f where "f = (\<lambda>e::tn_event. e\<lparr>ev_pattern := if ?clr then 0 else p\<rparr>)"
    define s3 where "s3 = (if ?clr then upd_event i (\<lambda>e. e\<lparr>ev_pattern := 0\<rparr>) s2 else s2)"
    have ev: "events s2 = (events s)(i := (events s i)\<lparr>ev_pattern := p\<rparr>)"
      using r(3) by (simp add: sched_only_iff same_objects_def s1_def upd_event_def p)
    have s3: "s3 = upd_event i f (s2\<lparr>events := events s\<rparr>)"
      by (intro kstate.equality) (auto simp: s3_def f_def upd_event_def ev)
    have ef: "event_set_flags i pattern s = Some (wc, s3)"
      unfolding event_set_flags_def Let_def s1_def [symmetric] using False em sc
      by (simp add: s3_def ev)
    have rest: "\<not> released p (tcbs s2 t)"
      if "waiting (tcbs s2 t)" "pwait_queue (tcbs s2 t) = Some (EventWaitQ i)" for t
    proof -
      have "TaskQ t \<in> set (filter (\<lambda>n. \<forall>t. n = TaskQ t \<longrightarrow> \<not> released p (tcbs s t)) xs)"
        using sinv_waiter [OF r(2) _ r(5), of t] that by simp
      then have "\<not> released p (tcbs s t)" by auto
      with r(4) show ?thesis by (auto split: if_splits)
    qed
    have i3: "sinv s3 L2" unfolding s3
    proof (rule sinv_upd_event [OF r(2)])
      fix t assume t: "waiting (tcbs (s2\<lparr>events := events s\<rparr>) t)"
        "pwait_queue (tcbs (s2\<lparr>events := events s\<rparr>) t) = Some (EventWaitQ i)"
      have "\<not> event_cond (if ?clr then 0 else p) (ewait_mode (tcbs s2 t)) (ewait_pattern (tcbs s2 t))"
        by (rule event_cond_fewer [OF rest [of t]]) (use t in \<open>auto split: if_splits\<close>)
      then show "id_event (f (events (s2\<lparr>events := events s\<rparr>) i)) = TN_ID_EVENT \<and>
         \<not> event_cond (ev_pattern (f (events (s2\<lparr>events := events s\<rparr>) i)))
            (ewait_mode (tcbs (s2\<lparr>events := events s\<rparr>) t)) (ewait_pattern (tcbs (s2\<lparr>events := events s\<rparr>) t))"
        using l by (simp add: f_def)
    qed (use r(5) in simp)
    have T: "tcbs s3 t = (if waiting (tcbs s t) \<and> pwait_queue (tcbs s t) = Some (EventWaitQ i) \<and> released p (tcbs s t)
        then wake_tcb ((tcbs s t)\<lparr>ewait_pattern := p\<rparr>) else tcbs s t)" for t
      using r(4) mem [of t] by (simp add: s3)
    have ow: "only_woken (tcbs s) (tcbs s3)"
      unfolding only_woken_def T by (auto simp: wake_tcb_def)
    have oth: "tn_curr_run_task s3 = tn_curr_run_task s" "tn_context_switch_request s3 = tn_context_switch_request s"
      "tn_next_task_to_run s3 = tn_next_task_to_run s2" "tn_next_task_to_run s1 = tn_next_task_to_run s"
      using r(3) by (simp_all add: s3 sched_only_iff s1_def)
    have wc: "wc \<longleftrightarrow> (\<exists>t. waiting (tcbs s t) \<and> pwait_queue (tcbs s t) = Some (EventWaitQ i) \<and> released p (tcbs s t) \<and>
        task_state (tcbs s t) AND TSK_STATE_SUSPEND = 0)" unfolding r(6) mem by blast
    have pat: "ev_pattern (events s3 i) = (if ?clr then 0 else p)" by (simp add: s3 f_def)
    have nx: "wc \<or> tn_next_task_to_run s3 = tn_next_task_to_run s" using r(7) oth by simp
    show ?thesis using ef i3 ow oth(1,2) nx T wc pat by blast
  qed
qed

section \<open>Every service keeps the invariant\<close>

lemma event_create_ok:
  assumes "system_inv s" "running s"
  shows "call_ok s (tn_event_create evf attr pattern s)"
proof (cases "\<exists>i. evf = Some i \<and> id_event (events s i) \<noteq> TN_ID_EVENT \<and>
    \<not> (attr AND TN_EVENT_ATTR_SINGLE = 0 \<and> attr AND TN_EVENT_ATTR_MULTI = 0)")
  case False
  with assms show ?thesis by (auto simp: tn_event_create_def intro: call_ok_error split: option.split)
next
  case True
  then obtain i where evf: "evf = Some i" "id_event (events s i) \<noteq> TN_ID_EVENT"
    "\<not> (attr AND TN_EVENT_ATTR_SINGLE = 0 \<and> attr AND TN_EVENT_ATTR_MULTI = 0)" by blast
  from assms(1) obtain L where i: "sinv s L" by (auto simp: system_inv_def)
  define s1 where "s1 = on_mem (queue_reset (EventWaitQ i)) s"
  have "\<not> live s (EventWaitQ i)" using evf(2) by (simp add: event_live)
  then have r: "sinv s1 (L(EventWaitQ i \<mapsto> []))" unfolding s1_def
    using sinv_reset_queue [OF i, of "EventWaitQ i"] by simp
  have nw: "\<not> (waiting (tcbs s1 t) \<and> pwait_queue (tcbs s1 t) = Some (EventWaitQ i))" for t
    using sinv_no_waiter [OF r, of "EventWaitQ i" t] by auto
  have u: "sinv (upd_event i f s1) (L(EventWaitQ i \<mapsto> []))" for f
    by (rule sinv_upd_event [OF r]) (use nw in auto)
  have ss: "same_sched s s1" by (simp add: s1_def same_sched_def)
  have e: "tn_event_create evf attr pattern s =
     (if attr AND TN_EVENT_ATTR_CLR \<noteq> 0 \<and> attr AND TN_EVENT_ATTR_SINGLE = 0
      then Some (RC TERR_WRONG_PARAM, upd_event i (\<lambda>e. e\<lparr>ev_pattern := pattern, ev_attr := TN_INVALID_VAL\<rparr>) s1)
      else Some (RC TERR_NO_ERR, upd_event i (\<lambda>e. e\<lparr>ev_pattern := pattern, ev_attr := attr, id_event := TN_ID_EVENT\<rparr>) s1))"
    using evf by (auto simp: tn_event_create_def upd_event_def s1_def)
  show ?thesis unfolding e using u ss assms(2)
    by (auto intro!: call_ok_RC [where L = "L(EventWaitQ i \<mapsto> [])"])
qed

lemma event_delete_loop_ok:
  assumes i: "sinv s L" and run: "running s" and l: "id_event (events s i) = TN_ID_EVENT"
  shows "call_ok s (tn_event_delete_loop i sr s)"
  unfolding tn_event_delete_loop_def
proof (rule delete_segment_ok [OF i run])
  show "live s (EventWaitQ i)" using l by (simp add: event_live)
  show "sinv (upd_event i (\<lambda>x. x\<lparr>id_event := 0\<rparr>) s') L'" if "sinv s' L'" "L' (EventWaitQ i) = Some []" for s' L'
    using that(1) by (rule sinv_upd_event) (use sinv_no_waiter [OF that(1), of "EventWaitQ i"] that in auto)
qed simp

lemma event_delete_ok:
  assumes "system_inv s" "running s"
  shows "call_ok s (tn_event_delete evf s)"
proof -
  from assms(1) obtain L where "sinv s L" by (auto simp: system_inv_def)
  with assms show ?thesis
    by (auto simp: tn_event_delete_def intro: call_ok_error event_delete_loop_ok split: option.split)
qed

text \<open>The part that the waiting services share.\<close>

lemma event_try_ok:
  assumes i: "sinv s L" and r: "event_try i wp mode s = Some (rc, v, s')"
  shows "sinv s' L" "same_sched s0 s' = same_sched s0 s"
proof -
  have "sinv (upd_event i (\<lambda>e. e\<lparr>ev_pattern := 0\<rparr>) s) L" by (rule sinv_event_fewer [OF i]) simp_all
  with i r show "sinv s' L" "same_sched s0 s' = same_sched s0 s"
    by (auto simp: event_try_def split: if_splits)
qed

lemma event_polling_ok:
  assumes "system_inv s" "running s"
  shows "call_ok s (drop_out (tn_event_wait_polling evf wp mode p_null s))"
proof (cases "\<exists>i. evf = Some i \<and> wp \<noteq> 0 \<and> \<not> p_null \<and> id_event (events s i) = TN_ID_EVENT \<and> \<not> bad_non_int_context s")
  case False
  with assms show ?thesis by (auto simp: tn_event_wait_polling_def intro: call_ok_error split: option.split)
next
  case True
  then obtain i where e: "evf = Some i" "wp \<noteq> 0" "\<not> p_null" "id_event (events s i) = TN_ID_EVENT" "\<not> bad_non_int_context s" by blast
  from assms(1) obtain L where "sinv s L" by (auto simp: system_inv_def)
  then have i1: "sinv (s\<lparr>irq_disabled := True\<rparr>) L" by simp
  with e assms(2) event_try_ok [OF i1, of i wp mode] show ?thesis
    by (auto simp: tn_event_wait_polling_def tn_disable_interrupt_def intro!: call_ok_RC [where L = L]
        split: option.split)
qed

lemma event_iwait_ok:
  assumes "system_inv s"
  shows "icall_ok s (drop_out (tn_event_iwait evf wp mode p_null s))"
proof -
  from assms obtain L where i: "sinv s L" by (auto simp: system_inv_def)
  with assms event_try_ok [OF i, of _ wp mode] show ?thesis
    by (auto simp: tn_event_iwait_def intro: icall_ok_error intro!: icall_ok_RC [where L = L] split: option.split)
qed

lemma event_wait_ok:
  assumes "system_inv s" "user_running s"
  shows "call_ok s (drop_out (tn_event_wait evf wp mode p_null timeout s))"
proof (cases "\<exists>i. evf = Some i \<and> wp \<noteq> 0 \<and> \<not> p_null \<and> timeout \<noteq> 0 \<and>
    id_event (events s i) = TN_ID_EVENT \<and> \<not> bad_non_int_context s")
  case False
  with assms show ?thesis
    by (auto simp: tn_event_wait_def intro: call_ok_error user_running_running split: option.split)
next
  case True
  then obtain i where e: "evf = Some i" "wp \<noteq> 0" "\<not> p_null" "timeout \<noteq> 0"
    "id_event (events s i) = TN_ID_EVENT" "\<not> bad_non_int_context s" by blast
  from assms(1) obtain L where i: "sinv s L" by (auto simp: system_inv_def)
  define s1 where "s1 = s\<lparr>irq_disabled := True\<rparr>"
  have i1: "sinv s1 L" "same_sched s s1" using i by (simp_all add: s1_def)
  have dis: "tn_disable_interrupt s = (irq_disabled s, s1)" by (simp add: tn_disable_interrupt_def s1_def)
  have eq: "events s1 = events s" "tcbs s1 = tcbs s" "tn_curr_run_task s1 = tn_curr_run_task s" by (simp_all add: s1_def)
  show ?thesis
  proof (cases "event_try i wp mode s1")
    case (Some r)
    then obtain rc v s2 where r: "event_try i wp mode s1 = Some (rc, v, s2)" by (cases r) auto
    from event_try_ok(1) [OF i1(1) r] event_try_ok(2) [OF i1(1) r, of s] i1(2) user_running_running [OF assms(2)] r e show ?thesis
      by (auto simp: tn_event_wait_def dis intro!: call_ok_RC [where L = L])
  next
    case None
    then have nc: "\<not> event_cond (ev_pattern (events s i)) mode wp" by (auto simp: event_try_def eq split: if_splits)
    from assms(2) obtain t where t: "tn_curr_run_task s = Some t" "task_state (tcbs s t) = TSK_STATE_RUNNABLE"
      "t \<noteq> tn_idle_task" "t \<noteq> tn_timer_task" by (auto simp: user_running_def)
    define s2 where "s2 = upd_tcb t (\<lambda>c. c\<lparr>ewait_mode := mode, ewait_pattern := wp\<rparr>) s1"
    have i2: "sinv s2 L" unfolding s2_def using i1(1) t(2)
      by (subst sinv_upd_running) (auto simp: tcb_view_def waiting_def eq)
    have eq2: "events s2 = events s" "tcbs s2 t = (tcbs s t)\<lparr>ewait_mode := mode, ewait_pattern := wp\<rparr>"
      "tn_curr_run_task s2 = Some t" by (simp_all add: s2_def eq t)
    have lv: "live s2 (EventWaitQ i)" using e by (simp add: event_live eq2)
    then obtain xs where xs: "L (EventWaitQ i) = Some xs" using sinv_queue [OF i2] by blast
    obtain s3 where "task_curr_to_wait_action (Some (EventWaitQ i)) TSK_WAIT_REASON_EVENT timeout s2 = Some s3"
      "call_ok s (Some (SWITCH_WAIT_RC, tn_enable_interrupt (irq_disabled s) s3))"
      by (rule block_call_ok [OF i2 _ _ t(3,4) _ _ lv xs, of s SWITCH_WAIT_RC])
         (use t nc sinvD(4) [OF i2] in \<open>auto simp: eq2 wait_cause_def wait_tcb_def
            intro: dque_sides_block [unfolded wait_tcb_def]\<close>)
    with None e t show ?thesis by (simp add: tn_event_wait_def dis eq s2_def)
  qed
qed

lemma event_set_ok:
  assumes "system_inv s" "running s"
  shows "call_ok s (tn_event_set evf pattern s)"
proof (cases "\<exists>i. evf = Some i \<and> pattern \<noteq> 0 \<and> id_event (events s i) = TN_ID_EVENT \<and> \<not> bad_non_int_context s")
  case False
  with assms show ?thesis by (auto simp: tn_event_set_def intro: call_ok_error split: option.split)
next
  case True
  then obtain i where e: "evf = Some i" "pattern \<noteq> 0" "id_event (events s i) = TN_ID_EVENT" "\<not> bad_non_int_context s" by blast
  from assms(1) obtain L where i: "sinv s L" by (auto simp: system_inv_def)
  let ?s = "s\<lparr>irq_disabled := True\<rparr>"
  have i1: "sinv ?s L" "id_event (events ?s i) = TN_ID_EVENT" using i e(3) by simp_all
  obtain wc s' L' where r: "event_set_flags i pattern ?s = Some (wc, s')" "sinv s' L'" "only_woken (tcbs ?s) (tcbs s')"
    "tn_curr_run_task s' = tn_curr_run_task ?s" "tn_context_switch_request s' = tn_context_switch_request ?s"
    "wc \<or> tn_next_task_to_run s' = tn_next_task_to_run ?s"
    using event_set_flags_ok [OF i1 refl, of pattern] by blast
  have "call_ok s (Some (wake_ret (irq_disabled s) (wc, s')))"
    by (rule wake_many_ok(1) [OF r(2)]) (use r assms(2) in simp_all)
  with e r(1) show ?thesis by (simp add: tn_event_set_def tn_disable_interrupt_def)
qed

lemma event_iset_ok:
  assumes "system_inv s"
  shows "icall_ok s (tn_event_iset evf pattern s)"
proof (cases "\<exists>i. evf = Some i \<and> pattern \<noteq> 0 \<and> id_event (events s i) = TN_ID_EVENT \<and> \<not> bad_int_context s")
  case False
  with assms show ?thesis by (auto simp: tn_event_iset_def intro: icall_ok_error split: option.split)
next
  case True
  then obtain i where e: "evf = Some i" "pattern \<noteq> 0" "id_event (events s i) = TN_ID_EVENT" "\<not> bad_int_context s" by blast
  from assms(1) obtain L where i: "sinv s L" by (auto simp: system_inv_def)
  obtain wc s' L' where r: "event_set_flags i pattern s = Some (wc, s')" "sinv s' L'" "only_woken (tcbs s) (tcbs s')"
    "tn_curr_run_task s' = tn_curr_run_task s" "tn_context_switch_request s' = tn_context_switch_request s"
    "wc \<or> tn_next_task_to_run s' = tn_next_task_to_run s"
    using event_set_flags_ok [OF i e(3) refl, of pattern] by blast
  have "icall_ok s (Some (wake_iret (wc, s')))" by (rule wake_many_ok(2) [OF r(2-6)])
  with e r(1) show ?thesis by (simp add: tn_event_iset_def)
qed

lemma event_clear_ok:
  assumes "system_inv s"
  shows "running s \<Longrightarrow> call_ok s (tn_event_clear evf pattern s)" "icall_ok s (tn_event_iclear evf pattern s)"
proof -
  from assms obtain L where i: "sinv s L" by (auto simp: system_inv_def)
  have u: "sinv (upd_event i (\<lambda>e. e\<lparr>ev_pattern := ev_pattern e AND pattern\<rparr>) s') L" if "sinv s' L" for i s'
    by (rule sinv_event_fewer [OF that]) (simp_all add: bit_and_iff)
  show "running s \<Longrightarrow> call_ok s (tn_event_clear evf pattern s)"
    using assms i u [of "s\<lparr>irq_disabled := True\<rparr>"]
    by (auto simp: tn_event_clear_def tn_disable_interrupt_def Let_def intro: call_ok_error
        intro!: call_ok_RC [where L = L] split: option.split)
  show "icall_ok s (tn_event_iclear evf pattern s)"
    using assms i u [OF i]
    by (auto simp: tn_event_iclear_def intro: icall_ok_error intro!: icall_ok_RC [where L = L] split: option.split)
qed

interpretation event_create: init_service "\<lambda>_. True" "tn_event_create evf attr pattern" for evf attr pattern
  by unfold_locales (rule event_create_ok)
interpretation event_delete: init_service "\<lambda>_. True" "tn_event_delete evf" for evf
  by unfold_locales (rule event_delete_ok)
interpretation event_wait: kernel_service "\<lambda>_. True" "\<lambda>s. drop_out (tn_event_wait evf wp mode p_null timeout s)"
  for evf wp mode p_null timeout
  by unfold_locales (rule event_wait_ok)
interpretation event_polling: init_service "\<lambda>_. True" "\<lambda>s. drop_out (tn_event_wait_polling evf wp mode p_null s)"
  for evf wp mode p_null
  by unfold_locales (rule event_polling_ok)
interpretation event_iwait: isr_service "\<lambda>_. True" "\<lambda>s. drop_out (tn_event_iwait evf wp mode p_null s)"
  for evf wp mode p_null
  by unfold_locales (rule event_iwait_ok)
interpretation event_set: init_service "\<lambda>_. True" "tn_event_set evf pattern" for evf pattern
  by unfold_locales (rule event_set_ok)
interpretation event_iset: isr_service "\<lambda>_. True" "tn_event_iset evf pattern" for evf pattern
  by unfold_locales (rule event_iset_ok)
interpretation event_clear: init_service "\<lambda>_. True" "tn_event_clear evf pattern" for evf pattern
  by unfold_locales (rule event_clear_ok(1))
interpretation event_iclear: isr_service "\<lambda>_. True" "tn_event_iclear evf pattern" for evf pattern
  by unfold_locales (rule event_clear_ok(2))

end
