(* ===== verification/Dqueue.thy ===== *)
theory Dqueue
  imports Service
begin

text \<open>
  Data queues, \<open>src/TNKernel/tn_dqueue.c\<close>: the services and their contracts. The value stored
  through the \<open>data_ptr\<close> of a receiving service is part of its result; of the pointer only
  whether it is \<open>NULL\<close> is an argument.
\<close>

section \<open>The services\<close>

definition upd_dque :: "did \<Rightarrow> (tn_dque \<Rightarrow> tn_dque) \<Rightarrow> kstate \<Rightarrow> kstate" where
  "upd_dque i f s = s\<lparr>dques := (dques s)(i := f (dques s i))\<rparr>"

text \<open>The caller's array is the list of its cells, \<^const>\<open>None\<close> for \<open>NULL\<close>.\<close>

definition tn_queue_create :: "did option \<Rightarrow> addr list option \<Rightarrow> int \<Rightarrow> kstate \<Rightarrow> (kret \<times> kstate) option" where
  "tn_queue_create dque fifo n s =
     (case dque of
        None \<Rightarrow> Some (RC TERR_WRONG_PARAM, s)
      | Some i \<Rightarrow>
          if n < 0 \<or> id_dque (dques s i) = TN_ID_DATAQUEUE then Some (RC TERR_WRONG_PARAM, s)
          else
            let s = on_mem (queue_reset (DqSendQ i)) s;
                s = on_mem (queue_reset (DqRecvQ i)) s
            in Some (RC TERR_NO_ERR, upd_dque i (\<lambda>d. d\<lparr>data_fifo := fifo,
                 num_entries := (if fifo = None then 0 else n), tail_cnt := 0, header_cnt := 0,
                 id_dque := TN_ID_DATAQUEUE\<rparr>) s))"

text \<open>\<open>tn_queue_delete\<close> from the top of its first loop (\<open>send = True\<close>) or of its second, up to the
  next context switch.\<close>

definition tn_queue_delete_receivers :: "did \<Rightarrow> bool \<Rightarrow> kstate \<Rightarrow> (kret \<times> kstate) option" where
  "tn_queue_delete_receivers i sr s =
     do { (sw, sr, s) \<leftarrow> delete_waiters (DqRecvQ i) sr s;
          if sw then Some (SWITCH_LOOP, s)
          else let (sr, s) = (if \<not> irq_disabled s then tn_disable_interrupt s else (sr, s));
                   s = upd_dque i (\<lambda>x. x\<lparr>id_dque := 0\<rparr>) s
               in Some (RC TERR_NO_ERR, tn_enable_interrupt sr s) }"

definition tn_queue_delete_loop :: "did \<Rightarrow> bool \<Rightarrow> kstate \<Rightarrow> (kret \<times> kstate) option" where
  "tn_queue_delete_loop i sr s =
     do { (sw, sr, s) \<leftarrow> delete_waiters (DqSendQ i) sr s;
          if sw then Some (SWITCH_LOOP, s) else tn_queue_delete_receivers i sr s }"

definition tn_queue_delete :: "did option \<Rightarrow> kstate \<Rightarrow> (kret \<times> kstate) option" where
  "tn_queue_delete dque s =
     (case dque of
        None \<Rightarrow> Some (RC TERR_WRONG_PARAM, s)
      | Some i \<Rightarrow>
          if id_dque (dques s i) \<noteq> TN_ID_DATAQUEUE then Some (RC TERR_NOEXS, s)
          else if bad_non_int_context s then Some (RC TERR_WCONTEXT, s)
          else tn_queue_delete_loop i False s)"

text \<open>What the sending services share: the item goes to the first waiting receiver (\<^const>\<open>Inl\<close>:
  whether it became runnable) or into the buffer (\<^const>\<open>Inr\<close>: with what result).\<close>

definition queue_put :: "did \<Rightarrow> addr \<Rightarrow> kstate \<Rightarrow> ((bool \<times> kstate) + (int \<times> kstate)) option" where
  "queue_put i data_ptr s =
     (if \<not> is_queue_empty (mem s) (DqRecvQ i) then
        do { (p, s) \<leftarrow> wait_queue_pop (DqRecvQ i) s;
             task \<leftarrow> p;
             let s = upd_tcb task (\<lambda>c. c\<lparr>data_elem := data_ptr\<rparr>) s;
             Some (Inl (task_wait_complete (Some task) False s)) }
      else do { (rc, s) \<leftarrow> dque_fifo_write (Some i) data_ptr s; Some (Inr (rc, s)) })"

definition tn_queue_send :: "did option \<Rightarrow> addr \<Rightarrow> u32 \<Rightarrow> kstate \<Rightarrow> (kret \<times> kstate) option" where
  "tn_queue_send dque data_ptr timeout s =
     (case dque of
        None \<Rightarrow> Some (RC TERR_WRONG_PARAM, s)
      | Some i \<Rightarrow>
          if timeout = 0 then Some (RC TERR_WRONG_PARAM, s)
          else if id_dque (dques s i) \<noteq> TN_ID_DATAQUEUE then Some (RC TERR_NOEXS, s)
          else if bad_non_int_context s then Some (RC TERR_WCONTEXT, s)
          else
            let (sr, s) = tn_disable_interrupt s
            in do { r \<leftarrow> queue_put i data_ptr s;
                    case r of
                      Inl w \<Rightarrow> Some (wake_ret sr w)
                    | Inr (rc, s) \<Rightarrow>
                        if rc \<noteq> TERR_NO_ERR then
                          do { t \<leftarrow> tn_curr_run_task s;
                               let s = upd_tcb t (\<lambda>c. c\<lparr>data_elem := data_ptr\<rparr>) s;
                               s \<leftarrow> task_curr_to_wait_action (Some (DqSendQ i))
                                     TSK_WAIT_REASON_DQUE_WSEND timeout s;
                               Some (SWITCH_WAIT_RC, tn_enable_interrupt sr s) }
                        else Some (RC rc, tn_enable_interrupt sr s) })"

definition tn_queue_send_polling :: "did option \<Rightarrow> addr \<Rightarrow> kstate \<Rightarrow> (kret \<times> kstate) option" where
  "tn_queue_send_polling dque data_ptr s =
     (case dque of
        None \<Rightarrow> Some (RC TERR_WRONG_PARAM, s)
      | Some i \<Rightarrow>
          if id_dque (dques s i) \<noteq> TN_ID_DATAQUEUE then Some (RC TERR_NOEXS, s)
          else if bad_non_int_context s then Some (RC TERR_WCONTEXT, s)
          else
            let (sr, s) = tn_disable_interrupt s
            in do { r \<leftarrow> queue_put i data_ptr s;
                    case r of
                      Inl w \<Rightarrow> Some (wake_ret sr w)
                    | Inr (rc, s) \<Rightarrow> Some (RC (if rc \<noteq> TERR_NO_ERR then TERR_TIMEOUT else rc),
                                       tn_enable_interrupt sr s) })"

definition tn_queue_isend_polling :: "did option \<Rightarrow> addr \<Rightarrow> kstate \<Rightarrow> (int \<times> kstate) option" where
  "tn_queue_isend_polling dque data_ptr s =
     (case dque of
        None \<Rightarrow> Some (TERR_WRONG_PARAM, s)
      | Some i \<Rightarrow>
          if id_dque (dques s i) \<noteq> TN_ID_DATAQUEUE then Some (TERR_NOEXS, s)
          else if bad_int_context s then Some (TERR_WCONTEXT, s)
          else do { r \<leftarrow> queue_put i data_ptr s;
                    case r of
                      Inl w \<Rightarrow> Some (wake_iret w)
                    | Inr (rc, s) \<Rightarrow> Some (if rc \<noteq> TERR_NO_ERR then TERR_TIMEOUT else rc, s) })"

text \<open>What the receiving services share: an item and whether a sender became runnable
  (\<^const>\<open>Inl\<close>), or nothing to receive (\<^const>\<open>Inr\<close>).\<close>

definition queue_take :: "did \<Rightarrow> kstate \<Rightarrow> (addr option \<times> (bool \<times> kstate) + kstate) option" where
  "queue_take i s =
     do { (rc, v, s) \<leftarrow> dque_fifo_read (Some i) False s;
          if rc = TERR_NO_ERR then
            if \<not> is_queue_empty (mem s) (DqSendQ i) then
              do { (p, s) \<leftarrow> wait_queue_pop (DqSendQ i) s;
                   task \<leftarrow> p;
                   (_, s) \<leftarrow> dque_fifo_write (Some i) (data_elem (tcbs s task)) s;
                   Some (Inl (v, task_wait_complete (Some task) False s)) }
            else Some (Inl (v, False, s))
          else if \<not> is_queue_empty (mem s) (DqSendQ i) then
            do { (p, s) \<leftarrow> wait_queue_pop (DqSendQ i) s;
                 task \<leftarrow> p;
                 Some (Inl (Some (data_elem (tcbs s task)), task_wait_complete (Some task) False s)) }
          else Some (Inr s) }"

definition tn_queue_receive ::
  "did option \<Rightarrow> bool \<Rightarrow> u32 \<Rightarrow> kstate \<Rightarrow> (kret \<times> addr option \<times> kstate) option" where
  "tn_queue_receive dque data_ptr_null timeout s =
     (case dque of
        None \<Rightarrow> Some (RC TERR_WRONG_PARAM, None, s)
      | Some i \<Rightarrow>
          if timeout = 0 \<or> data_ptr_null then Some (RC TERR_WRONG_PARAM, None, s)
          else if id_dque (dques s i) \<noteq> TN_ID_DATAQUEUE then Some (RC TERR_NOEXS, None, s)
          else if bad_non_int_context s then Some (RC TERR_WCONTEXT, None, s)
          else
            let (sr, s) = tn_disable_interrupt s
            in do { r \<leftarrow> queue_take i s;
                    case r of
                      Inl (v, w) \<Rightarrow> (case wake_ret sr w of (k, s) \<Rightarrow> Some (k, v, s))
                    | Inr s \<Rightarrow>
                        do { s \<leftarrow> task_curr_to_wait_action (Some (DqRecvQ i))
                                    TSK_WAIT_REASON_DQUE_WRECEIVE timeout s;
                             Some (SWITCH_WAIT_RC, None, tn_enable_interrupt sr s) } })"

text \<open>What \<open>tn_queue_receive\<close> does when its caller \<open>t\<close> runs again: the code it returns and the
  value it stores, whatever the code is.\<close>

definition tn_queue_receive_resumed :: "tid \<Rightarrow> kstate \<Rightarrow> int \<times> addr" where
  "tn_queue_receive_resumed t s = (task_wait_rc (tcbs s t), data_elem (tcbs s t))"

definition tn_queue_receive_polling ::
  "did option \<Rightarrow> bool \<Rightarrow> kstate \<Rightarrow> (kret \<times> addr option \<times> kstate) option" where
  "tn_queue_receive_polling dque data_ptr_null s =
     (case dque of
        None \<Rightarrow> Some (RC TERR_WRONG_PARAM, None, s)
      | Some i \<Rightarrow>
          if data_ptr_null then Some (RC TERR_WRONG_PARAM, None, s)
          else if id_dque (dques s i) \<noteq> TN_ID_DATAQUEUE then Some (RC TERR_NOEXS, None, s)
          else if bad_non_int_context s then Some (RC TERR_WCONTEXT, None, s)
          else
            let (sr, s) = tn_disable_interrupt s
            in do { r \<leftarrow> queue_take i s;
                    case r of
                      Inl (v, w) \<Rightarrow> (case wake_ret sr w of (k, s) \<Rightarrow> Some (k, v, s))
                    | Inr s \<Rightarrow> Some (RC TERR_TIMEOUT, None, tn_enable_interrupt sr s) })"

definition tn_queue_ireceive ::
  "did option \<Rightarrow> bool \<Rightarrow> kstate \<Rightarrow> (int \<times> addr option \<times> kstate) option" where
  "tn_queue_ireceive dque data_ptr_null s =
     (case dque of
        None \<Rightarrow> Some (TERR_WRONG_PARAM, None, s)
      | Some i \<Rightarrow>
          if data_ptr_null then Some (TERR_WRONG_PARAM, None, s)
          else if id_dque (dques s i) \<noteq> TN_ID_DATAQUEUE then Some (TERR_NOEXS, None, s)
          else if bad_int_context s then Some (TERR_WCONTEXT, None, s)
          else do { r \<leftarrow> queue_take i s;
                    case r of
                      Inl (v, w) \<Rightarrow> (case wake_iret w of (k, s) \<Rightarrow> Some (k, v, s))
                    | Inr s \<Rightarrow> Some (TERR_TIMEOUT, None, s) })"

section \<open>The invariant\<close>

lemma upd_dque_simps [simp]:
  "mem (upd_dque i f s) = mem s" "tcbs (upd_dque i f s) = tcbs s"
  "dques (upd_dque i f s) = (dques s)(i := f (dques s i))" "irq_disabled (upd_dque i f s) = irq_disabled s"
  "tn_next_task_to_run (upd_dque i f s) = tn_next_task_to_run s"
  "tn_curr_run_task (upd_dque i f s) = tn_curr_run_task s"
  "tn_context_switch_request (upd_dque i f s) = tn_context_switch_request s"
  "same_sched s0 (upd_dque i f s) = same_sched s0 s"
  by (simp_all add: upd_dque_def same_sched_def)

lemma dque_live:
  "live s (DqSendQ i) \<longleftrightarrow> id_dque (dques s i) = TN_ID_DATAQUEUE"
  "live s (DqRecvQ i) \<longleftrightarrow> id_dque (dques s i) = TN_ID_DATAQUEUE"
  by (simp_all add: live_def)

lemma sinv_upd_dque:
  assumes i: "sinv s L" and wf: "id_dque (f (dques s i)) = TN_ID_DATAQUEUE \<Longrightarrow> fifo_wf (f (dques s i))"
    and l: "id_dque (f (dques s i)) = TN_ID_DATAQUEUE \<Longrightarrow> L (DqSendQ i) \<noteq> None \<and> L (DqRecvQ i) \<noteq> None"
    and w: "\<And>t. waiting (tcbs s t) \<Longrightarrow> pwait_queue (tcbs s t) = Some (DqSendQ i) \<Longrightarrow>
       id_dque (f (dques s i)) = TN_ID_DATAQUEUE \<and> fifo_full (f (dques s i))"
      "\<And>t. waiting (tcbs s t) \<Longrightarrow> pwait_queue (tcbs s t) = Some (DqRecvQ i) \<Longrightarrow>
       id_dque (f (dques s i)) = TN_ID_DATAQUEUE \<and> fifo_count (f (dques s i)) = 0"
  shows "sinv (upd_dque i f s) L"
  using i
proof (rule sinv_change_objects)
  let ?s = "upd_dque i f s"
  have other: "live ?s q = live s q" "wait_cause ?s c q = wait_cause s c q"
    if "q \<noteq> DqSendQ i" "q \<noteq> DqRecvQ i" for q c
    using that by (cases q; simp add: live_def wait_cause_def upd_dque_def)+
  show "wait_ok ?s (tcbs s t)" if wt: "waiting (tcbs s t)" for t
  proof (cases "pwait_queue (tcbs s t) = Some (DqSendQ i) \<or> pwait_queue (tcbs s t) = Some (DqRecvQ i)")
    case True
    with w [OF wt] sinvD(2) [OF i, of t] wt show ?thesis
      by (auto simp: wait_ok_def live_def wait_cause_def upd_dque_def)
  next
    case False
    with sinvD(2) [OF i, of t] other show ?thesis by (auto simp: wait_ok_def split: option.splits)
  qed
  show "L q \<noteq> None" if "live ?s q" for q
  proof (cases "q = DqSendQ i \<or> q = DqRecvQ i")
    case True
    with that l show ?thesis by (auto simp: live_def upd_dque_def)
  next
    case False
    with that other sinvD(3) [OF i] show ?thesis by simp
  qed
  have "fmp_wf ?s = fmp_wf s" by (rule fmp_wf_cong) (simp_all add: upd_dque_def)
  then show "objects_wf ?s" using sinvD(5) [OF i] wf by (simp add: objects_wf_def upd_dque_def)
qed (simp_all add: upd_dque_def)

lemma dque_of_inv: "sinv s L \<Longrightarrow> id_dque (dques s i) = TN_ID_DATAQUEUE \<Longrightarrow> fifo_wf (dques s i)"
  using sinvD(5) by (auto simp: objects_wf_def)

lemma dque_waiter:
  assumes "sinv s L" "waiting (tcbs s t)"
  shows "pwait_queue (tcbs s t) = Some (DqSendQ i) \<Longrightarrow> fifo_full (dques s i)"
    "pwait_queue (tcbs s t) = Some (DqRecvQ i) \<Longrightarrow> fifo_count (dques s i) = 0"
  using sinvD(2) [OF assms(1), of t] assms(2) by (auto simp: wait_ok_def wait_cause_def)

section \<open>The buffer, as the services use it\<close>

lemma write_cases:
  assumes wf: "fifo_wf d"
  shows "(\<exists>d'. fifo_write x d = Some (TERR_NO_ERR, d') \<and> \<not> fifo_full d \<and> fifo_wf d' \<and>
        fifo_contents d' = fifo_contents d @ [x] \<and> fifo_capacity d' = fifo_capacity d \<and> id_dque d' = id_dque d) \<or>
     (\<exists>rc. fifo_write x d = Some (rc, d) \<and> rc \<noteq> TERR_NO_ERR \<and> fifo_full d)"
proof (cases "fifo_put x d")
  case None
  then have "fifo_full d" using fifo_put_eq(1) [OF wf] by simp
  then show ?thesis using fifo_full_flag [OF wf] by (auto simp: fifo_write_def)
next
  case (Some d')
  then have "\<not> fifo_full d" using fifo_put_eq(1) [OF wf, of x] by auto
  moreover from Some have w: "fifo_write x d = Some (TERR_NO_ERR, d')"
    by (auto simp: fifo_put_def split: option.splits if_splits)
  moreover have "id_dque d' = id_dque d" using w
    by (auto simp: fifo_write_def bind_eq_Some Let_def split: if_splits)
  ultimately show ?thesis using fifo_put_eq(2) [OF wf Some] by blast
qed

lemma read_cases:
  assumes wf: "fifo_wf d"
  shows "(\<exists>x d'. fifo_read d = Some (TERR_NO_ERR, Some x, d') \<and> fifo_contents d = x # fifo_contents d' \<and>
        fifo_wf d' \<and> fifo_capacity d' = fifo_capacity d \<and> id_dque d' = id_dque d) \<or>
     (\<exists>rc. fifo_read d = Some (rc, None, d) \<and> rc \<noteq> TERR_NO_ERR \<and> fifo_contents d = [])"
proof (cases "fifo_contents d")
  case Nil
  then have "fifo_count d = 0" using length_fifo_contents [of d] by (simp del: length_fifo_contents)
  then show ?thesis using fifo_empty_flag [OF wf] Nil by (auto simp: fifo_read_def)
next
  case (Cons x xs)
  then obtain d' where g: "fifo_get d = Some (x, d')" "fifo_wf d'" "fifo_contents d' = xs"
    "fifo_capacity d' = fifo_capacity d" using fifo_get_eq(2) [OF wf] by blast
  then have "fifo_read d = Some (TERR_NO_ERR, Some x, d') \<and> id_dque d' = id_dque d"
    by (auto simp: fifo_get_def fifo_read_def bind_eq_Some Let_def split: option.splits if_splits)
  with g Cons show ?thesis by auto
qed

lemma fifo_count_contents: "fifo_count d = length (fifo_contents d)"
  by simp

text \<open>The contents of a data queue as its clients see it: the buffer, then the items of the senders
  that wait for room, in the order they wait.\<close>

definition item_of :: "kstate \<Rightarrow> qnode \<Rightarrow> addr" where
  "item_of s n = (case n of TaskQ t \<Rightarrow> data_elem (tcbs s t) | _ \<Rightarrow> 0)"

definition queue_items :: "kstate \<Rightarrow> (qnode \<rightharpoonup> qnode list) \<Rightarrow> did \<Rightarrow> addr list" where
  "queue_items s L i = fifo_contents (dques s i) @ map (item_of s) (the (L (DqSendQ i)))"

lemma dques_commute:
  "upd_tcb t f (s\<lparr>dques := D\<rparr>) = (upd_tcb t f s)\<lparr>dques := D\<rparr>"
  "on_mem g (s\<lparr>dques := D\<rparr>) = (on_mem g s)\<lparr>dques := D\<rparr>"
  by (simp_all add: upd_tcb_def on_mem_def)

lemma clear_wait_dques: "clear_wait t (s\<lparr>dques := D\<rparr>) = (clear_wait t s)\<lparr>dques := D\<rparr>"
  by (simp add: clear_wait_def Let_def dques_commute)

lemma task_to_runnable_dques: "task_to_runnable t (s\<lparr>dques := D\<rparr>) = (task_to_runnable t s)\<lparr>dques := D\<rparr>"
proof (cases "tn_next_task_to_run s")
  case None
  then show ?thesis by (simp add: task_to_runnable_def Let_def dques_commute)
next
  case (Some n)
  then show ?thesis by (simp add: task_to_runnable_def Let_def dques_commute)
qed

lemma wait_complete_dques:
  "task_wait_complete (Some t) False (s\<lparr>dques := D\<rparr>) =
     (case task_wait_complete (Some t) False s of (w, s') \<Rightarrow> (w, s'\<lparr>dques := D\<rparr>))"
  by (simp add: task_wait_complete_unfold clear_wait_dques task_to_runnable_dques dques_commute)

text \<open>Putting an item: to the first receiver, into the buffer, or not at all.\<close>

lemma queue_put_ok:
  assumes i: "sinv s L" and l: "id_dque (dques s i) = TN_ID_DATAQUEUE"
  shows "(\<exists>t ys woken s' L'. L (DqRecvQ i) = Some (TaskQ t # ys) \<and> queue_put i x s = Some (Inl (woken, s')) \<and>
        sinv s' L' \<and> only_woken (tcbs s) (tcbs s') \<and> sched_only s s' \<and>
        (woken \<or> tn_next_task_to_run s' = tn_next_task_to_run s) \<and>
        tcbs s' = (tcbs s)(t := wake_tcb ((tcbs s t)\<lparr>data_elem := x\<rparr>))) \<or>
     L (DqRecvQ i) = Some [] \<and>
      ((\<exists>s'. queue_put i x s = Some (Inr (TERR_NO_ERR, s')) \<and> sinv s' L \<and> (\<forall>s0. same_sched s0 s' = same_sched s0 s) \<and>
          tcbs s' = tcbs s \<and> L (DqSendQ i) = Some [] \<and> fifo_contents (dques s' i) = fifo_contents (dques s i) @ [x] \<and>
          \<not> fifo_full (dques s i)) \<or>
       (\<exists>rc. queue_put i x s = Some (Inr (rc, s)) \<and> rc \<noteq> TERR_NO_ERR \<and> fifo_full (dques s i)))"
proof -
  obtain rs where rs: "L (DqRecvQ i) = Some rs" using sinvD(3) [OF i, of "DqRecvQ i"] l by (auto simp: dque_live)
  obtain ss where ss: "L (DqSendQ i) = Some ss" using sinvD(3) [OF i, of "DqSendQ i"] l by (auto simp: dque_live)
  have em: "is_queue_empty (mem s) (DqRecvQ i) \<longleftrightarrow> rs = []" using sinv_empty [OF i rs] .
  have wf: "fifo_wf (dques s i)" using dque_of_inv [OF i l] .
  show ?thesis
  proof (cases rs)
    case (Cons n ys)
    let ?f = "\<lambda>c. c\<lparr>data_elem := x\<rparr>"
    have q: "wait_hdr (DqRecvQ i)" "L (DqRecvQ i) = Some (n # ys)" and f: "\<And>c. tcb_view (?f c) = tcb_view c"
      using rs Cons by (simp_all add: tcb_view_def)
    obtain t s' L' m b nx where t: "n = TaskQ t" "waiting (tcbs s t)" "pwait_queue (tcbs s t) = Some (DqRecvQ i)"
      "wait_queue_pop (DqRecvQ i) s = Some (Some t, on_mem (queue_remove_entry (TaskQ t)) s)"
      "task_wait_complete (Some t) False (upd_tcb t ?f (on_mem (queue_remove_entry (TaskQ t)) s)) =
         (task_state (tcbs s t) AND TSK_STATE_SUSPEND = 0, s')"
      "s' = s\<lparr>mem := m, tn_ready_to_run_bmp := b, tn_next_task_to_run := nx,
              tcbs := (tcbs s)(t := wake_tcb (?f (tcbs s t)))\<rparr>"
      "task_state (tcbs s t) AND TSK_STATE_SUSPEND = 0 \<or> nx = tn_next_task_to_run s" "sinv s' L'"
      by (rule wake_head [OF i q f]) (rule that)
    have e: "queue_put i x s = Some (Inl (task_state (tcbs s t) AND TSK_STATE_SUSPEND = 0, s'))"
      using em Cons t(4,5) by (simp add: queue_put_def)
    have "only_woken (tcbs s) (tcbs s')" using t(2) unfolding t(6) by (simp add: only_woken_wake)
    moreover have "sched_only s s'" unfolding t(6) by (simp add: sched_only_iff same_objects_def)
    moreover have "tcbs s' = (tcbs s)(t := wake_tcb ((tcbs s t)\<lparr>data_elem := x\<rparr>))"
      "task_state (tcbs s t) AND TSK_STATE_SUSPEND = 0 \<or> tn_next_task_to_run s' = tn_next_task_to_run s"
      using t(7) unfolding t(6) by simp_all
    ultimately show ?thesis using e q(2) t(1,8) by blast
  next
    case Nil
    have nr: "\<not> (waiting (tcbs s t) \<and> pwait_queue (tcbs s t) = Some (DqRecvQ i))" for t
      using sinv_no_waiter [OF i, of "DqRecvQ i" t] rs Nil by auto
    have p: "queue_put i x s = do { (rc, d) \<leftarrow> fifo_write x (dques s i); Some (Inr (rc, upd_dque i (\<lambda>_. d) s)) }"
      using em Nil by (simp add: queue_put_def dque_fifo_write_def upd_dque_def) (cases "fifo_write x (dques s i)"; auto)
    from write_cases [OF wf, of x] show ?thesis
    proof
      assume "\<exists>d'. fifo_write x (dques s i) = Some (TERR_NO_ERR, d') \<and> \<not> fifo_full (dques s i) \<and> fifo_wf d' \<and>
        fifo_contents d' = fifo_contents (dques s i) @ [x] \<and> fifo_capacity d' = fifo_capacity (dques s i) \<and>
        id_dque d' = id_dque (dques s i)"
      then obtain d' where d': "fifo_write x (dques s i) = Some (TERR_NO_ERR, d')" "\<not> fifo_full (dques s i)" "fifo_wf d'"
        "fifo_contents d' = fifo_contents (dques s i) @ [x]" "id_dque d' = id_dque (dques s i)" by blast
      have ns: "\<not> (waiting (tcbs s t) \<and> pwait_queue (tcbs s t) = Some (DqSendQ i))" for t
        using dque_waiter(1) [OF i, of t i] d'(2) by auto
      have "ss = []"
      proof (cases ss)
        case (Cons n zs)
        then show ?thesis using sinv_waiter_cause [OF i, of "DqSendQ i" n zs] ss ns by auto
      qed simp
      moreover have "sinv (upd_dque i (\<lambda>_. d') s) L"
        by (rule sinv_upd_dque [OF i]) (use d' rs ss nr ns in auto)
      ultimately show ?thesis using p d' rs Nil ss by auto
    next
      assume "\<exists>rc. fifo_write x (dques s i) = Some (rc, dques s i) \<and> rc \<noteq> TERR_NO_ERR \<and> fifo_full (dques s i)"
      then show ?thesis using p rs Nil by (auto simp: upd_dque_def)
    qed
  qed
qed

text \<open>Releasing the first sender while the buffer changes to \<open>d\<close>.\<close>

lemma sender_released:
  assumes i: "sinv s L" and l: "id_dque (dques s i) = TN_ID_DATAQUEUE" and q: "L (DqSendQ i) = Some (n # ys)"
    and d: "fifo_wf d" "fifo_full d" "id_dque d = id_dque (dques s i)"
  shows "\<exists>t woken s' L'. n = TaskQ t \<and>
     wait_queue_pop (DqSendQ i) s = Some (Some t, on_mem (queue_remove_entry (TaskQ t)) s) \<and>
     task_wait_complete (Some t) False (upd_dque i (\<lambda>_. d) (on_mem (queue_remove_entry (TaskQ t)) s)) = (woken, s') \<and>
     sinv s' L' \<and> only_woken (tcbs s) (tcbs s') \<and> dques s' i = d \<and>
     (woken \<or> tn_next_task_to_run s' = tn_next_task_to_run s) \<and>
     tn_curr_run_task s' = tn_curr_run_task s \<and> tn_context_switch_request s' = tn_context_switch_request s \<and>
     tcbs s' = (tcbs s)(t := wake_tcb (tcbs s t)) \<and> L' (DqSendQ i) = Some ys"
proof -
  have wh: "wait_hdr (DqSendQ i)" and f: "\<And>c. tcb_view (id c) = tcb_view c" by simp_all
  obtain t s1 L' m b nx where t: "n = TaskQ t" "waiting (tcbs s t)" "pwait_queue (tcbs s t) = Some (DqSendQ i)"
    "wait_queue_pop (DqSendQ i) s = Some (Some t, on_mem (queue_remove_entry (TaskQ t)) s)"
    "task_wait_complete (Some t) False (upd_tcb t id (on_mem (queue_remove_entry (TaskQ t)) s)) =
       (task_state (tcbs s t) AND TSK_STATE_SUSPEND = 0, s1)"
    "s1 = s\<lparr>mem := m, tn_ready_to_run_bmp := b, tn_next_task_to_run := nx,
            tcbs := (tcbs s)(t := wake_tcb (id (tcbs s t)))\<rparr>"
    "task_state (tcbs s t) AND TSK_STATE_SUSPEND = 0 \<or> nx = tn_next_task_to_run s" "sinv s1 L'"
    "\<And>q'. wait_hdr q' \<Longrightarrow> L' q' = (if q' = DqSendQ i then Some ys else L q')"
    by (rule wake_head [OF i wh q f]) (rule that)
  let ?D = "(dques s)(i := d)"
  have e: "upd_dque i (\<lambda>_. d) (on_mem (queue_remove_entry (TaskQ t)) s) =
      (upd_tcb t id (on_mem (queue_remove_entry (TaskQ t)) s))\<lparr>dques := ?D\<rparr>"
    by (simp add: upd_dque_def on_mem_def upd_tcb_def)
  have w: "task_wait_complete (Some t) False (upd_dque i (\<lambda>_. d) (on_mem (queue_remove_entry (TaskQ t)) s)) =
      (task_state (tcbs s t) AND TSK_STATE_SUSPEND = 0, s1\<lparr>dques := ?D\<rparr>)"
    unfolding e wait_complete_dques t(5) by simp
  have s1: "dques s1 = dques s" by (simp add: t(6))
  have u: "s1\<lparr>dques := ?D\<rparr> = upd_dque i (\<lambda>_. d) s1" by (simp add: upd_dque_def s1)
  have nr: "\<not> (waiting (tcbs s1 t') \<and> pwait_queue (tcbs s1 t') = Some (DqRecvQ i))" for t'
    using sinvD(4) [OF i] t(2,3) by (cases "t' = t") (auto simp: t(6) dque_sides_def)
  have "sinv (upd_dque i (\<lambda>_. d) s1) L'"
  proof (rule sinv_upd_dque [OF t(8)])
    show "L' (DqSendQ i) \<noteq> None \<and> L' (DqRecvQ i) \<noteq> None"
      using t(9) [of "DqSendQ i"] t(9) [of "DqRecvQ i"] sinvD(3) [OF i, of "DqRecvQ i"] l by (simp add: dque_live)
  qed (use d l nr s1 in auto)
  moreover have "only_woken (tcbs s) (tcbs s1)" using t(2) unfolding t(6) by (simp add: only_woken_wake)
  ultimately show ?thesis using t(1,4,7,9) w unfolding u
    by (intro exI [of _ t] exI [of _ "task_state (tcbs s t) AND TSK_STATE_SUSPEND = 0"] exI [of _ "upd_dque i (\<lambda>_. d) s1"]
        exI [of _ L']) (auto simp: t(6))
qed

lemma items_after:
  assumes i: "sinv s L" and q: "L (DqSendQ i) = Some (TaskQ t # ys)"
    and s': "tcbs s' = (tcbs s)(t := c)" "L' (DqSendQ i) = Some ys"
  shows "queue_items s' L' i = fifo_contents (dques s' i) @ map (item_of s) ys"
proof -
  have "TaskQ t \<notin> set ys" using rings_distinct [OF kinvD(1) [OF sinvD(1) [OF i]] q] by simp
  then have "map (item_of s') ys = map (item_of s) ys" using s'(1) by (auto simp: item_of_def split: qnode.split)
  then show ?thesis using s'(2) by (simp add: queue_items_def)
qed

text \<open>Taking an item: the oldest one, of the buffer or of a waiting sender.\<close>

lemma queue_take_ok:
  assumes i: "sinv s L" and l: "id_dque (dques s i) = TN_ID_DATAQUEUE"
  shows "(\<exists>v woken s' L'. queue_take i s = Some (Inl (Some v, woken, s')) \<and> sinv s' L' \<and>
        only_woken (tcbs s) (tcbs s') \<and> (woken \<or> tn_next_task_to_run s' = tn_next_task_to_run s) \<and>
        tn_curr_run_task s' = tn_curr_run_task s \<and> tn_context_switch_request s' = tn_context_switch_request s \<and>
        queue_items s L i = v # queue_items s' L' i) \<or>
     queue_take i s = Some (Inr s) \<and> queue_items s L i = [] \<and> fifo_count (dques s i) = 0 \<and> L (DqSendQ i) = Some []"
proof -
  obtain rs where rs: "L (DqRecvQ i) = Some rs" using sinvD(3) [OF i, of "DqRecvQ i"] l by (auto simp: dque_live)
  obtain ss where ss: "L (DqSendQ i) = Some ss" using sinvD(3) [OF i, of "DqSendQ i"] l by (auto simp: dque_live)
  have em: "is_queue_empty (mem s) (DqSendQ i) \<longleftrightarrow> ss = []" using sinv_empty [OF i ss] .
  have wf: "fifo_wf (dques s i)" using dque_of_inv [OF i l] .
  have rd: "dque_fifo_read (Some i) False s =
      do { (rc, v, d) \<leftarrow> fifo_read (dques s i); Some (rc, v, upd_dque i (\<lambda>_. d) s) }"
    by (simp add: dque_fifo_read_def upd_dque_def)
  from read_cases [OF wf] show ?thesis
  proof
    assume "\<exists>x d'. fifo_read (dques s i) = Some (TERR_NO_ERR, Some x, d') \<and>
      fifo_contents (dques s i) = x # fifo_contents d' \<and> fifo_wf d' \<and>
      fifo_capacity d' = fifo_capacity (dques s i) \<and> id_dque d' = id_dque (dques s i)"
    then obtain x d' where d': "fifo_read (dques s i) = Some (TERR_NO_ERR, Some x, d')"
      "fifo_contents (dques s i) = x # fifo_contents d'" "fifo_wf d'"
      "fifo_capacity d' = fifo_capacity (dques s i)" "id_dque d' = id_dque (dques s i)" by blast
    have ne: "fifo_count (dques s i) = Suc (fifo_count d')"
      using d'(2) by (simp add: fifo_count_contents del: length_fifo_contents)
    show ?thesis
    proof (cases ss)
      case Nil
      have nw: "\<not> (waiting (tcbs s t) \<and> pwait_queue (tcbs s t) = Some (DqSendQ i))"
        "\<not> (waiting (tcbs s t) \<and> pwait_queue (tcbs s t) = Some (DqRecvQ i))" for t
        using sinv_no_waiter [OF i, of "DqSendQ i" t] ss Nil dque_waiter(2) [OF i, of t i] ne by auto
      have "sinv (upd_dque i (\<lambda>_. d') s) L"
        by (rule sinv_upd_dque [OF i]) (use d' rs ss nw in auto)
      moreover have "queue_take i s = Some (Inl (Some x, False, upd_dque i (\<lambda>_. d') s))"
        using d'(1) em Nil by (simp add: queue_take_def rd)
      moreover have "queue_items s L i = x # queue_items (upd_dque i (\<lambda>_. d') s) L i"
        using d'(2) ss Nil by (simp add: queue_items_def)
      ultimately show ?thesis by auto
    next
      case (Cons n ys)
      then have q: "L (DqSendQ i) = Some (n # ys)" using ss by simp
      obtain t where t: "n = TaskQ t" "waiting (tcbs s t)" "pwait_queue (tcbs s t) = Some (DqSendQ i)"
        using sinv_waiter_cause [OF i _ q] by auto
      have full: "fifo_full (dques s i)" using dque_waiter(1) [OF i t(2,3)] .
      then have "\<not> fifo_full d'" using ne d'(4) by (simp add: fifo_full_def)
      then obtain d2 where d2: "fifo_write (data_elem (tcbs s t)) d' = Some (TERR_NO_ERR, d2)" "fifo_wf d2"
        "fifo_contents d2 = fifo_contents d' @ [data_elem (tcbs s t)]" "fifo_capacity d2 = fifo_capacity d'"
        "id_dque d2 = id_dque d'"
        using write_cases [OF d'(3), of "data_elem (tcbs s t)"] by auto
      have "fifo_full d2" using full ne d2(3,4) d'(4)
        by (simp add: fifo_full_def fifo_count_contents del: length_fifo_contents)
      with sender_released [OF i l q d2(2)] d2(5) d'(5) t(1) obtain woken s' L' where r:
        "wait_queue_pop (DqSendQ i) s = Some (Some t, on_mem (queue_remove_entry (TaskQ t)) s)"
        "task_wait_complete (Some t) False (upd_dque i (\<lambda>_. d2) (on_mem (queue_remove_entry (TaskQ t)) s)) = (woken, s')"
        "sinv s' L'" "only_woken (tcbs s) (tcbs s')" "dques s' i = d2"
        "woken \<or> tn_next_task_to_run s' = tn_next_task_to_run s"
        "tn_curr_run_task s' = tn_curr_run_task s" "tn_context_switch_request s' = tn_context_switch_request s"
        "tcbs s' = (tcbs s)(t := wake_tcb (tcbs s t))" "L' (DqSendQ i) = Some ys" by auto
      have pop: "wait_queue_pop (DqSendQ i) (upd_dque i (\<lambda>_. d') s) =
          Some (Some t, upd_dque i (\<lambda>_. d') (on_mem (queue_remove_entry (TaskQ t)) s))"
        using rings_remove_head [OF kinvD(1) [OF sinvD(1) [OF i]] q] t(1)
        by (simp add: wait_queue_pop_def upd_dque_def on_mem_def)
      have up: "(upd_dque i (\<lambda>_. d') (on_mem (queue_remove_entry (TaskQ t)) s))
          \<lparr>dques := (dques s)(i := d2)\<rparr> = upd_dque i (\<lambda>_. d2) (on_mem (queue_remove_entry (TaskQ t)) s)"
        by (simp add: upd_dque_def on_mem_def)
      have "queue_take i s = Some (Inl (Some x, woken, s'))"
        using d'(1) em Cons pop d2(1) r(2) up by (simp add: queue_take_def rd dque_fifo_write_def)
      moreover have "queue_items s L i = x # queue_items s' L' i"
        unfolding items_after [where L' = L', OF i q [unfolded t(1)] r(9) r(10)]
        using q t(1) d'(2) d2(3) r(5) by (simp add: queue_items_def item_of_def)
      ultimately show ?thesis using r by blast
    qed
  next
    assume "\<exists>rc. fifo_read (dques s i) = Some (rc, None, dques s i) \<and> rc \<noteq> TERR_NO_ERR \<and> fifo_contents (dques s i) = []"
    then obtain rc where rc: "fifo_read (dques s i) = Some (rc, None, dques s i)" "rc \<noteq> TERR_NO_ERR"
      "fifo_contents (dques s i) = []" by blast
    have same: "upd_dque i (\<lambda>_. dques s i) s = s" by (simp add: upd_dque_def)
    show ?thesis
    proof (cases ss)
      case Nil
      then show ?thesis using rc em ss same by (simp add: queue_take_def rd queue_items_def fifo_count_contents del: length_fifo_contents)
    next
      case (Cons n ys)
      then have q: "L (DqSendQ i) = Some (n # ys)" using ss by simp
      obtain t where t: "n = TaskQ t" "waiting (tcbs s t)" "pwait_queue (tcbs s t) = Some (DqSendQ i)"
        using sinv_waiter_cause [OF i _ q] by auto
      have full: "fifo_full (dques s i)" using dque_waiter(1) [OF i t(2,3)] .
      have sm: "upd_dque i (\<lambda>_. dques s i) (on_mem g s) = on_mem g s" for g by (simp add: upd_dque_def on_mem_def)
      from sender_released [OF i l q wf full refl] t(1) obtain woken s' L' where r:
        "wait_queue_pop (DqSendQ i) s = Some (Some t, on_mem (queue_remove_entry (TaskQ t)) s)"
        "task_wait_complete (Some t) False (on_mem (queue_remove_entry (TaskQ t)) s) = (woken, s')"
        "sinv s' L'" "only_woken (tcbs s) (tcbs s')" "dques s' i = dques s i"
        "woken \<or> tn_next_task_to_run s' = tn_next_task_to_run s"
        "tn_curr_run_task s' = tn_curr_run_task s" "tn_context_switch_request s' = tn_context_switch_request s"
        "tcbs s' = (tcbs s)(t := wake_tcb (tcbs s t))" "L' (DqSendQ i) = Some ys" by (auto simp: sm)
      have "queue_take i s = Some (Inl (Some (data_elem (tcbs s t)), woken, s'))"
        using rc em Cons r(1,2) by (simp add: queue_take_def rd same)
      moreover have "queue_items s L i = data_elem (tcbs s t) # queue_items s' L' i"
        unfolding items_after [where L' = L', OF i q [unfolded t(1)] r(9) r(10)]
        using q t(1) rc(3) r(5) by (simp add: queue_items_def item_of_def)
      ultimately show ?thesis using r by blast
    qed
  qed
qed

section \<open>Every service keeps the invariant\<close>

text \<open>The caller's array has to hold the entries it is said to hold.\<close>

definition fifo_array :: "addr list option \<Rightarrow> int \<Rightarrow> bool" where
  "fifo_array fifo n \<longleftrightarrow> (\<forall>xs. fifo = Some xs \<longrightarrow> n \<le> int (length xs))"

lemma queue_create_ok:
  assumes "system_inv s" "running s" and a: "fifo_array fifo n"
  shows "call_ok s (tn_queue_create dque fifo n s)"
proof (cases "\<exists>i. dque = Some i \<and> \<not> n < 0 \<and> id_dque (dques s i) \<noteq> TN_ID_DATAQUEUE")
  case False
  with assms show ?thesis by (auto simp: tn_queue_create_def intro: call_ok_error split: option.split)
next
  case True
  then obtain i where d: "dque = Some i" "\<not> n < 0" "id_dque (dques s i) \<noteq> TN_ID_DATAQUEUE" by blast
  from assms(1) obtain L where i: "sinv s L" by (auto simp: system_inv_def)
  define s1 where "s1 = on_mem (queue_reset (DqSendQ i)) s"
  define s2 where "s2 = on_mem (queue_reset (DqRecvQ i)) s1"
  let ?L1 = "L(DqSendQ i \<mapsto> [])" and ?L2 = "L(DqSendQ i \<mapsto> [], DqRecvQ i \<mapsto> [])"
  have nl: "\<not> live s (DqSendQ i)" using d by (simp add: dque_live)
  have i1: "sinv s1 ?L1" unfolding s1_def using sinv_reset_queue [OF i _ nl] by simp
  have nl1: "\<not> live s1 (DqRecvQ i)" using d by (simp add: dque_live s1_def)
  have i2: "sinv s2 ?L2" unfolding s2_def using sinv_reset_queue [OF i1 _ nl1] by simp
  have nw: "\<not> (waiting (tcbs s2 t) \<and> pwait_queue (tcbs s2 t) = Some (DqSendQ i))"
    "\<not> (waiting (tcbs s2 t) \<and> pwait_queue (tcbs s2 t) = Some (DqRecvQ i))" for t
    using sinv_no_waiter [OF i2, of "DqSendQ i" t] sinv_no_waiter [OF i2, of "DqRecvQ i" t] by auto
  let ?f = "\<lambda>d::tn_dque. d\<lparr>data_fifo := fifo, num_entries := (if fifo = None then 0 else n), tail_cnt := 0,
      header_cnt := 0, id_dque := TN_ID_DATAQUEUE\<rparr>"
  have "fifo_wf (?f (dques s2 i))" using a d(2) by (cases fifo) (auto simp: fifo_wf_def fifo_array_def)
  then have "sinv (upd_dque i ?f s2) ?L2" by (intro sinv_upd_dque [OF i2]) (use nw in auto)
  moreover have "same_sched s (upd_dque i ?f s2)" by (simp add: s1_def s2_def same_sched_def)
  ultimately have "call_ok s (Some (RC TERR_NO_ERR, upd_dque i ?f s2))" using assms(2) by (rule call_ok_RC)
  then show ?thesis using d by (simp add: tn_queue_create_def s1_def s2_def)
qed

lemma delete_receivers_ok:
  assumes i: "sinv s L" and run: "running s" and l: "id_dque (dques s i) = TN_ID_DATAQUEUE"
    and q: "L (DqSendQ i) = Some []"
  shows "call_ok s (tn_queue_delete_receivers i sr s)"
proof -
  obtain rs where rs: "L (DqRecvQ i) = Some rs" using sinvD(3) [OF i, of "DqRecvQ i"] l by (auto simp: dque_live)
  have lv: "live s (DqRecvQ i)" using l by (simp add: dque_live)
  then obtain sw sr' s' L' where d: "delete_waiters (DqRecvQ i) sr s = Some (sw, sr', s')" "sinv s' L'"
     "sched_only s s'" "only_woken (tcbs s) (tcbs s')"
     "\<not> sw \<Longrightarrow> L' (DqRecvQ i) = Some [] \<and> tn_next_task_to_run s' = tn_next_task_to_run s"
    using delete_waiters_ok [OF i lv rs] by blast
  show ?thesis
  proof (cases sw)
    case True
    have "has_current s'"
      using only_woken_running [OF d(4) _ run] d(3) by (simp add: sched_only_iff running_has_current)
    with True d show ?thesis
      by (auto simp: tn_queue_delete_receivers_def sched_only_iff intro!: call_ok_SWITCH [where L = L'])
  next
    case False
    obtain sr2 s2 where s2: "irq_off sr' s' = (sr2, s2)" by fastforce
    note e = irq_off_state [OF s2]
    have i2: "sinv s2 L'" using d(2) by (simp add: e)
    have ns: "\<not> (waiting (tcbs s2 t) \<and> pwait_queue (tcbs s2 t) = Some (DqSendQ i))" for t
    proof
      assume a: "waiting (tcbs s2 t) \<and> pwait_queue (tcbs s2 t) = Some (DqSendQ i)"
      then have "tcbs s' t = tcbs s t" using d(4) by (auto simp: only_woken_def waiting_def e)
      with a sinv_no_waiter [OF i _ q, of t] show False by (simp add: e)
    qed
    have nr: "\<not> (waiting (tcbs s2 t) \<and> pwait_queue (tcbs s2 t) = Some (DqRecvQ i))" for t
      using sinv_no_waiter [OF i2, of "DqRecvQ i" t] d(5) [OF False] by auto
    have "sinv (upd_dque i (\<lambda>x. x\<lparr>id_dque := 0\<rparr>) s2) L'"
      by (rule sinv_upd_dque [OF i2]) (use ns nr in auto)
    moreover have "same_sched s s'" using only_woken_sched [OF d(4,3)] d(5) [OF False] by simp
    ultimately show ?thesis using False d(1) s2 run
      by (auto simp: tn_queue_delete_receivers_def irq_off_def [symmetric] e intro!: call_ok_RC [where L = L'])
  qed
qed

lemma queue_delete_loop_ok:
  assumes i: "sinv s L" and run: "running s" and l: "id_dque (dques s i) = TN_ID_DATAQUEUE"
  shows "call_ok s (tn_queue_delete_loop i sr s)"
proof -
  have lv: "live s (DqSendQ i)" using l by (simp add: dque_live)
  obtain ss where ss: "L (DqSendQ i) = Some ss" using sinvD(3) [OF i lv] by auto
  obtain sw sr' s' L' where d: "delete_waiters (DqSendQ i) sr s = Some (sw, sr', s')" "sinv s' L'"
     "sched_only s s'" "only_woken (tcbs s) (tcbs s')"
     "\<not> sw \<Longrightarrow> L' (DqSendQ i) = Some [] \<and> tn_next_task_to_run s' = tn_next_task_to_run s"
    using delete_waiters_ok [OF i lv ss] by blast
  have run': "running s'" using only_woken_running [OF d(4) _ run] d(3) by (simp add: sched_only_iff)
  have e: "tn_queue_delete_loop i sr s = (if sw then Some (SWITCH_LOOP, s') else tn_queue_delete_receivers i sr' s')"
    using d(1) by (simp add: tn_queue_delete_loop_def)
  show ?thesis
  proof (cases sw)
    case True
    then show ?thesis unfolding e using d(2,3) running_has_current [OF run']
      by (auto simp: sched_only_iff intro!: call_ok_SWITCH [where L = L'])
  next
    case False
    have "call_ok s' (tn_queue_delete_receivers i sr' s')"
      by (rule delete_receivers_ok [OF d(2) run']) (use d(3,5) False l in \<open>auto simp: sched_only_iff same_objects_def\<close>)
    moreover have "same_sched s s'" using only_woken_sched [OF d(4,3)] d(5) [OF False] by simp
    ultimately show ?thesis unfolding e using False by (auto intro: call_ok_from)
  qed
qed

lemma queue_delete_ok:
  assumes "system_inv s" "running s"
  shows "call_ok s (tn_queue_delete dque s)"
proof -
  from assms(1) obtain L where "sinv s L" by (auto simp: system_inv_def)
  with assms show ?thesis
    by (auto simp: tn_queue_delete_def intro: call_ok_error queue_delete_loop_ok split: option.split)
qed

text \<open>The two branches of the sending services that do not block.\<close>

lemma put_calls:
  assumes i: "sinv s L" and ss: "same_sched s0 s" and l: "id_dque (dques s i) = TN_ID_DATAQUEUE"
  shows "(\<exists>w. queue_put i x s = Some (Inl w) \<and> (running s0 \<longrightarrow> call_ok s0 (Some (wake_ret sr w))) \<and>
       icall_ok s0 (Some (wake_iret w))) \<or>
     (\<exists>s'. queue_put i x s = Some (Inr (TERR_NO_ERR, s')) \<and> sinv s' L \<and> same_sched s0 s') \<or>
     (\<exists>rc. queue_put i x s = Some (Inr (rc, s)) \<and> rc \<noteq> TERR_NO_ERR \<and> fifo_full (dques s i) \<and> L (DqRecvQ i) = Some [])"
  (is "?A \<or> ?B")
  using queue_put_ok [OF i l, of x]
proof
  assume "\<exists>t ys woken s' L'. L (DqRecvQ i) = Some (TaskQ t # ys) \<and> queue_put i x s = Some (Inl (woken, s')) \<and>
        sinv s' L' \<and> only_woken (tcbs s) (tcbs s') \<and> sched_only s s' \<and>
        (woken \<or> tn_next_task_to_run s' = tn_next_task_to_run s) \<and>
        tcbs s' = (tcbs s)(t := wake_tcb ((tcbs s t)\<lparr>data_elem := x\<rparr>))"
  then obtain woken s' L' where r: "queue_put i x s = Some (Inl (woken, s'))" "sinv s' L'"
    "only_woken (tcbs s) (tcbs s')" "sched_only s s'" "woken \<or> tn_next_task_to_run s' = tn_next_task_to_run s" by blast
  have c: "tn_curr_run_task s' = tn_curr_run_task s" "tn_context_switch_request s' = tn_context_switch_request s"
    using r(4) by (simp_all add: sched_only_iff)
  have "call_ok s0 (Some (wake_ret sr (woken, s')))" if run: "running s0"
  proof -
    have "running s" using ss run by (auto simp: same_sched_def running_def)
    with wake_many_ok(1) [OF r(2,3) c r(5)] ss show ?thesis by (blast intro: call_ok_from)
  qed
  moreover have "icall_ok s0 (Some (wake_iret (woken, s')))"
    using wake_many_ok(2) [OF r(2,3) c r(5)] ss by (rule icall_ok_from)
  ultimately have ?A using r(1) by blast
  then show ?thesis ..
qed (use ss in auto)

lemma queue_send_ok:
  assumes "system_inv s" "user_running s"
  shows "call_ok s (tn_queue_send dque x timeout s)"
proof (cases "\<exists>i. dque = Some i \<and> timeout \<noteq> 0 \<and> id_dque (dques s i) = TN_ID_DATAQUEUE \<and> \<not> bad_non_int_context s")
  case False
  with assms show ?thesis
    by (auto simp: tn_queue_send_def intro: call_ok_error user_running_running split: option.split)
next
  case True
  then obtain i where dq: "dque = Some i" "timeout \<noteq> 0" "id_dque (dques s i) = TN_ID_DATAQUEUE" "\<not> bad_non_int_context s" by blast
  note run = user_running_running [OF assms(2)]
  from assms(1) obtain L where i: "sinv s L" by (auto simp: system_inv_def)
  define s1 where "s1 = s\<lparr>irq_disabled := True\<rparr>"
  have i1: "sinv s1 L" "same_sched s s1" "id_dque (dques s1 i) = TN_ID_DATAQUEUE" using i dq by (simp_all add: s1_def)
  have dis: "tn_disable_interrupt s = (irq_disabled s, s1)" by (simp add: tn_disable_interrupt_def s1_def)
  consider (w) w where "queue_put i x s1 = Some (Inl w)" "call_ok s (Some (wake_ret (irq_disabled s) w))"
    | (b) s' where "queue_put i x s1 = Some (Inr (TERR_NO_ERR, s'))" "sinv s' L" "same_sched s s'"
    | (f) rc where "queue_put i x s1 = Some (Inr (rc, s1))" "rc \<noteq> TERR_NO_ERR" "fifo_full (dques s1 i)" "L (DqRecvQ i) = Some []"
    using put_calls [OF i1, of x "irq_disabled s"] run by blast
  then show ?thesis
  proof cases
    case w
    then show ?thesis using dq by (simp add: tn_queue_send_def dis)
  next
    case b
    then show ?thesis using dq run by (auto simp: tn_queue_send_def dis intro!: call_ok_RC [where L = L])
  next
    case f
    from assms(2) obtain t where t: "tn_curr_run_task s = Some t" "task_state (tcbs s t) = TSK_STATE_RUNNABLE"
      "t \<noteq> tn_idle_task" "t \<noteq> tn_timer_task" by (auto simp: user_running_def)
    define s2 where "s2 = upd_tcb t (\<lambda>c. c\<lparr>data_elem := x\<rparr>) s1"
    have i2: "sinv s2 L" unfolding s2_def using i1(1) t(2)
      by (subst sinv_upd_running) (auto simp: tcb_view_def waiting_def s1_def)
    have s2: "tn_curr_run_task s2 = Some t" "task_state (tcbs s2 t) = TSK_STATE_RUNNABLE" "dques s2 = dques s1"
      using t by (simp_all add: s2_def s1_def)
    have lv: "live s2 (DqSendQ i)" using dq by (simp add: dque_live s2(3) s1_def)
    then obtain xs where xs: "L (DqSendQ i) = Some xs" using sinv_queue [OF i2] by blast
    have nr: "\<not> (waiting (tcbs s2 t') \<and> pwait_queue (tcbs s2 t') = Some (DqRecvQ i))" for t'
      using sinv_no_waiter [OF i2 _ f(4), of t'] by auto
    have ds: "dque_sides ((tcbs s2)(t := wait_tcb (Some (DqSendQ i)) TSK_WAIT_REASON_DQUE_WSEND timeout (tcbs s2 t)))"
      using sinvD(4) [OF i2] nr unfolding dque_sides_def by (auto simp: wait_tcb_def)
    have cause: "wait_cause s2 (wait_tcb (Some (DqSendQ i)) TSK_WAIT_REASON_DQUE_WSEND timeout (tcbs s2 t)) (DqSendQ i)"
      using f(3) by (simp add: wait_cause_def wait_tcb_def s2(3))
    obtain s3 where s3: "task_curr_to_wait_action (Some (DqSendQ i)) TSK_WAIT_REASON_DQUE_WSEND timeout s2 = Some s3"
      "call_ok s (Some (SWITCH_WAIT_RC, tn_enable_interrupt (irq_disabled s) s3))"
      by (rule block_call_ok [OF i2 s2(1,2) t(3,4) _ _ lv xs cause ds, of s SWITCH_WAIT_RC]) (use t s2 in auto)
    moreover have "tn_curr_run_task s1 = Some t" using t(1) by (simp add: s1_def)
    ultimately show ?thesis using f(1,2) dq by (simp add: tn_queue_send_def dis s2_def [symmetric])
  qed
qed

lemma queue_send_polling_ok:
  assumes "system_inv s"
  shows "running s \<Longrightarrow> call_ok s (tn_queue_send_polling dque x s)" "icall_ok s (tn_queue_isend_polling dque x s)"
proof -
  from assms obtain L where i: "sinv s L" by (auto simp: system_inv_def)
  show "call_ok s (tn_queue_send_polling dque x s)" if run: "running s"
  proof (cases "\<exists>i. dque = Some i \<and> id_dque (dques s i) = TN_ID_DATAQUEUE \<and> \<not> bad_non_int_context s")
    case False
    with assms run show ?thesis by (auto simp: tn_queue_send_polling_def intro: call_ok_error split: option.split)
  next
    case True
    then obtain i where dq: "dque = Some i" "id_dque (dques s i) = TN_ID_DATAQUEUE" "\<not> bad_non_int_context s" by blast
    have i1: "sinv (s\<lparr>irq_disabled := True\<rparr>) L" "same_sched s (s\<lparr>irq_disabled := True\<rparr>)"
      "id_dque (dques (s\<lparr>irq_disabled := True\<rparr>) i) = TN_ID_DATAQUEUE" using i dq by simp_all
    show ?thesis using put_calls [OF i1, of x "irq_disabled s"] run dq i1(1,2)
      by (auto simp: tn_queue_send_polling_def tn_disable_interrupt_def intro!: call_ok_RC [where L = L])
  qed
  show "icall_ok s (tn_queue_isend_polling dque x s)"
  proof (cases "\<exists>i. dque = Some i \<and> id_dque (dques s i) = TN_ID_DATAQUEUE \<and> \<not> bad_int_context s")
    case False
    with assms show ?thesis by (auto simp: tn_queue_isend_polling_def intro: icall_ok_error split: option.split)
  next
    case True
    then obtain i where dq: "dque = Some i" "id_dque (dques s i) = TN_ID_DATAQUEUE" "\<not> bad_int_context s" by blast
    show ?thesis using put_calls [OF i same_sched_refl dq(2), of x True] dq i
      by (auto simp: tn_queue_isend_polling_def intro!: icall_ok_RC [where L = L])
  qed
qed

lemma take_calls:
  assumes i: "sinv s L" and ss: "same_sched s0 s" and l: "id_dque (dques s i) = TN_ID_DATAQUEUE"
  shows "(\<exists>v w. queue_take i s = Some (Inl (v, w)) \<and> (running s0 \<longrightarrow> call_ok s0 (Some (wake_ret sr w))) \<and>
       icall_ok s0 (Some (wake_iret w))) \<or>
     queue_take i s = Some (Inr s) \<and> fifo_count (dques s i) = 0 \<and> L (DqSendQ i) = Some []"
  (is "?A \<or> ?B")
  using queue_take_ok [OF i l]
proof
  assume "\<exists>v woken s' L'. queue_take i s = Some (Inl (Some v, woken, s')) \<and> sinv s' L' \<and>
        only_woken (tcbs s) (tcbs s') \<and> (woken \<or> tn_next_task_to_run s' = tn_next_task_to_run s) \<and>
        tn_curr_run_task s' = tn_curr_run_task s \<and> tn_context_switch_request s' = tn_context_switch_request s \<and>
        queue_items s L i = v # queue_items s' L' i"
  then obtain v woken s' L' where r: "queue_take i s = Some (Inl (Some v, woken, s'))" "sinv s' L'"
    "only_woken (tcbs s) (tcbs s')" "woken \<or> tn_next_task_to_run s' = tn_next_task_to_run s"
    "tn_curr_run_task s' = tn_curr_run_task s" "tn_context_switch_request s' = tn_context_switch_request s" by blast
  have "call_ok s0 (Some (wake_ret sr (woken, s')))" if run: "running s0"
  proof -
    have "running s" using ss run by (auto simp: same_sched_def running_def)
    with wake_many_ok(1) [OF r(2,3,5,6,4)] ss show ?thesis by (blast intro: call_ok_from)
  qed
  moreover have "icall_ok s0 (Some (wake_iret (woken, s')))"
    using wake_many_ok(2) [OF r(2,3,5,6,4)] ss by (rule icall_ok_from)
  ultimately have ?A using r(1) by blast
  then show ?thesis ..
qed auto

lemma drop_out_wake:
  "drop_out (case wake_ret sr w of (k, s) \<Rightarrow> Some (k, v, s)) = Some (wake_ret sr w)"
  "drop_out (case wake_iret w of (k, s) \<Rightarrow> Some (k, v, s)) = Some (wake_iret w)"
  by (simp_all split: prod.split)

lemma queue_receive_ok:
  assumes "system_inv s" "user_running s"
  shows "call_ok s (drop_out (tn_queue_receive dque p_null timeout s))"
proof (cases "\<exists>i. dque = Some i \<and> timeout \<noteq> 0 \<and> \<not> p_null \<and> id_dque (dques s i) = TN_ID_DATAQUEUE \<and> \<not> bad_non_int_context s")
  case False
  with assms show ?thesis
    by (auto simp: tn_queue_receive_def intro: call_ok_error user_running_running split: option.split)
next
  case True
  then obtain i where dq: "dque = Some i" "timeout \<noteq> 0" "\<not> p_null" "id_dque (dques s i) = TN_ID_DATAQUEUE"
    "\<not> bad_non_int_context s" by blast
  note run = user_running_running [OF assms(2)]
  from assms(1) obtain L where i: "sinv s L" by (auto simp: system_inv_def)
  define s1 where "s1 = s\<lparr>irq_disabled := True\<rparr>"
  have i1: "sinv s1 L" "same_sched s s1" "id_dque (dques s1 i) = TN_ID_DATAQUEUE" using i dq by (simp_all add: s1_def)
  have dis: "tn_disable_interrupt s = (irq_disabled s, s1)" by (simp add: tn_disable_interrupt_def s1_def)
  consider (w) v w where "queue_take i s1 = Some (Inl (v, w))" "call_ok s (Some (wake_ret (irq_disabled s) w))"
    | (f) "queue_take i s1 = Some (Inr s1)" "fifo_count (dques s1 i) = 0" "L (DqSendQ i) = Some []"
    using take_calls [OF i1, of "irq_disabled s"] run by metis
  then show ?thesis
  proof cases
    case w
    then show ?thesis using dq by (simp add: tn_queue_receive_def dis drop_out_wake)
  next
    case f
    from assms(2) obtain t where t: "tn_curr_run_task s1 = Some t" "task_state (tcbs s1 t) = TSK_STATE_RUNNABLE"
      "t \<noteq> tn_idle_task" "t \<noteq> tn_timer_task" by (auto simp: user_running_def s1_def)
    have lv: "live s1 (DqRecvQ i)" using i1(3) by (simp add: dque_live)
    then obtain xs where xs: "L (DqRecvQ i) = Some xs" using sinv_queue [OF i1(1)] by blast
    have ns: "\<not> (waiting (tcbs s1 t') \<and> pwait_queue (tcbs s1 t') = Some (DqSendQ i))" for t'
      using sinv_no_waiter [OF i1(1) _ f(3), of t'] by auto
    have ds: "dque_sides ((tcbs s1)(t := wait_tcb (Some (DqRecvQ i)) TSK_WAIT_REASON_DQUE_WRECEIVE timeout (tcbs s1 t)))"
      using sinvD(4) [OF i1(1)] ns unfolding dque_sides_def by (auto simp: wait_tcb_def)
    have cause: "wait_cause s1 (wait_tcb (Some (DqRecvQ i)) TSK_WAIT_REASON_DQUE_WRECEIVE timeout (tcbs s1 t)) (DqRecvQ i)"
      using f(2) by (simp add: wait_cause_def wait_tcb_def)
    obtain s3 where "task_curr_to_wait_action (Some (DqRecvQ i)) TSK_WAIT_REASON_DQUE_WRECEIVE timeout s1 = Some s3"
      "call_ok s (Some (SWITCH_WAIT_RC, tn_enable_interrupt (irq_disabled s) s3))"
      by (rule block_call_ok [OF i1(1) t _ _ lv xs cause ds, of s SWITCH_WAIT_RC]) (auto simp: s1_def)
    then show ?thesis using f dq by (simp add: tn_queue_receive_def dis)
  qed
qed

lemma queue_receive_polling_ok:
  assumes "system_inv s"
  shows "running s \<Longrightarrow> call_ok s (drop_out (tn_queue_receive_polling dque p_null s))"
    "icall_ok s (drop_out (tn_queue_ireceive dque p_null s))"
proof -
  from assms obtain L where i: "sinv s L" by (auto simp: system_inv_def)
  show "call_ok s (drop_out (tn_queue_receive_polling dque p_null s))" if run: "running s"
  proof (cases "\<exists>i. dque = Some i \<and> \<not> p_null \<and> id_dque (dques s i) = TN_ID_DATAQUEUE \<and> \<not> bad_non_int_context s")
    case False
    with assms run show ?thesis by (auto simp: tn_queue_receive_polling_def intro: call_ok_error split: option.split)
  next
    case True
    then obtain i where dq: "dque = Some i" "\<not> p_null" "id_dque (dques s i) = TN_ID_DATAQUEUE" "\<not> bad_non_int_context s" by blast
    have i1: "sinv (s\<lparr>irq_disabled := True\<rparr>) L" "same_sched s (s\<lparr>irq_disabled := True\<rparr>)"
      "id_dque (dques (s\<lparr>irq_disabled := True\<rparr>) i) = TN_ID_DATAQUEUE" using i dq by simp_all
    show ?thesis using take_calls [OF i1, of "irq_disabled s"] run dq i1(1,2)
      by (auto simp: tn_queue_receive_polling_def tn_disable_interrupt_def drop_out_wake intro!: call_ok_RC [where L = L])
  qed
  show "icall_ok s (drop_out (tn_queue_ireceive dque p_null s))"
  proof (cases "\<exists>i. dque = Some i \<and> \<not> p_null \<and> id_dque (dques s i) = TN_ID_DATAQUEUE \<and> \<not> bad_int_context s")
    case False
    with assms show ?thesis by (auto simp: tn_queue_ireceive_def intro: icall_ok_error split: option.split)
  next
    case True
    then obtain i where dq: "dque = Some i" "\<not> p_null" "id_dque (dques s i) = TN_ID_DATAQUEUE" "\<not> bad_int_context s" by blast
    show ?thesis using take_calls [OF i same_sched_refl dq(3), of True] dq i
      by (auto simp: tn_queue_ireceive_def drop_out_wake intro!: icall_ok_RC [where L = L])
  qed
qed

interpretation queue_create: init_service "\<lambda>_. fifo_array fifo n" "tn_queue_create dque fifo n" for dque fifo n
  by unfold_locales (rule queue_create_ok)
interpretation queue_delete: init_service "\<lambda>_. True" "tn_queue_delete dque" for dque
  by unfold_locales (rule queue_delete_ok)
interpretation queue_send: kernel_service "\<lambda>_. True" "tn_queue_send dque x timeout" for dque x timeout
  by unfold_locales (rule queue_send_ok)
interpretation queue_send_polling: init_service "\<lambda>_. True" "tn_queue_send_polling dque x" for dque x
  by unfold_locales (rule queue_send_polling_ok(1))
interpretation queue_isend_polling: isr_service "\<lambda>_. True" "tn_queue_isend_polling dque x" for dque x
  by unfold_locales (rule queue_send_polling_ok(2))
interpretation queue_receive: kernel_service "\<lambda>_. True" "\<lambda>s. drop_out (tn_queue_receive dque p_null timeout s)"
  for dque p_null timeout
  by unfold_locales (rule queue_receive_ok)
interpretation queue_receive_polling: init_service "\<lambda>_. True" "\<lambda>s. drop_out (tn_queue_receive_polling dque p_null s)"
  for dque p_null
  by unfold_locales (rule queue_receive_polling_ok(1))
interpretation queue_ireceive: isr_service "\<lambda>_. True" "\<lambda>s. drop_out (tn_queue_ireceive dque p_null s)"
  for dque p_null
  by unfold_locales (rule queue_receive_polling_ok(2))

end
