(* ===== verification/Fmem.thy ===== *)
theory Fmem
  imports Service
begin

text \<open>
  Pools of fixed-size memory blocks, \<open>src/TNKernel/tn_mem.c\<close>: the services and their
  contracts. The first word of a free block holds the address of the next one, in the cells
  \<open>mem32\<close>; the address stored through the caller's \<open>p_data\<close> is part of the result.
\<close>

section \<open>The services\<close>

definition upd_fmp :: "fid \<Rightarrow> (tn_fmp \<Rightarrow> tn_fmp) \<Rightarrow> kstate \<Rightarrow> kstate" where
  "upd_fmp i f s = s\<lparr>fmps := (fmps s)(i := f (fmps s i))\<rparr>"

abbreviation TN_ALIG :: u32 where "TN_ALIG \<equiv> 4"

text \<open>\<open>((x + (TN_ALIG - 1)) / TN_ALIG) * TN_ALIG\<close>, in unsigned arithmetic.\<close>

definition align_up :: "u32 \<Rightarrow> u32" where
  "align_up x = ((x + (TN_ALIG - 1)) div TN_ALIG) * TN_ALIG"

text \<open>\<open>while(j > i) \<dots>\<close>: with a block size of 0 (a wrapped \<open>align_up\<close>) it does not end.\<close>

partial_function (option) fit_blocks :: "u32 \<Rightarrow> u32 \<Rightarrow> u32 \<Rightarrow> int \<Rightarrow> int option" where
  "fit_blocks bs i j n = (if j > i then fit_blocks bs i (j - bs) (n - 1) else Some n)"

text \<open>The loop that links the blocks, \<open>k\<close> times.\<close>

fun link_blocks :: "nat \<Rightarrow> u32 \<Rightarrow> addr \<Rightarrow> addr \<Rightarrow> (addr \<Rightarrow> u32) \<Rightarrow> addr \<times> (addr \<Rightarrow> u32)" where
  "link_blocks 0 bs p_tmp p_block m = (p_tmp, m)"
| "link_blocks (Suc k) bs p_tmp p_block m = link_blocks k bs p_block (p_block + bs) (m(p_tmp := p_block))"

definition tn_fmem_create :: "fid option \<Rightarrow> addr \<Rightarrow> u32 \<Rightarrow> int \<Rightarrow> kstate \<Rightarrow> (kret \<times> kstate) option" where
  "tn_fmem_create fmp start bsize n s =
     (case fmp of
        None \<Rightarrow> Some (RC TERR_WRONG_PARAM, s)
      | Some k \<Rightarrow>
          if id_fmp (fmps s k) = TN_ID_FSMEMORYPOOL then Some (RC TERR_WRONG_PARAM, s)
          else if start = 0 \<or> n < 2 \<or> bsize < 4 then
            Some (RC TERR_WRONG_PARAM,
                  upd_fmp k (\<lambda>p. p\<lparr>fblkcnt := 0, num_blocks := 0, id_fmp := 0, free_list := 0\<rparr>) s)
          else
            let s = on_mem (queue_reset (FmpWaitQ k)) s;
                sa = align_up start;
                bs = align_up bsize;
                i = start + bsize * word_of_int n;
                j = sa + bs * word_of_int n
            in do { nb \<leftarrow> fit_blocks bs i j n;
                    let s = upd_fmp k (\<lambda>p. p\<lparr>start_addr := sa, block_size := bs, num_blocks := nb\<rparr>) s;
                    if nb < 2 then
                      Some (RC TERR_WRONG_PARAM,
                            upd_fmp k (\<lambda>p. p\<lparr>fblkcnt := 0, num_blocks := 0, free_list := 0\<rparr>) s)
                    else
                      let (p_tmp, m) = link_blocks (nat (nb - 1)) bs sa (sa + bs) (mem32 s);
                          s = s\<lparr>mem32 := m(p_tmp := 0)\<rparr>
                      in Some (RC TERR_NO_ERR,
                               upd_fmp k (\<lambda>p. p\<lparr>free_list := sa, fblkcnt := nb, id_fmp := TN_ID_FSMEMORYPOOL\<rparr>) s) })"

definition tn_fmem_delete_loop :: "fid \<Rightarrow> bool \<Rightarrow> kstate \<Rightarrow> (kret \<times> kstate) option" where
  "tn_fmem_delete_loop k sr s =
     do { (sw, sr, s) \<leftarrow> delete_waiters (FmpWaitQ k) sr s;
          if sw then Some (SWITCH_LOOP, s)
          else let (sr, s) = (if \<not> irq_disabled s then tn_disable_interrupt s else (sr, s));
                   s = upd_fmp k (\<lambda>x. x\<lparr>id_fmp := 0\<rparr>) s
               in Some (RC TERR_NO_ERR, tn_enable_interrupt sr s) }"

definition tn_fmem_delete :: "fid option \<Rightarrow> kstate \<Rightarrow> (kret \<times> kstate) option" where
  "tn_fmem_delete fmp s =
     (case fmp of
        None \<Rightarrow> Some (RC TERR_WRONG_PARAM, s)
      | Some k \<Rightarrow>
          if id_fmp (fmps s k) \<noteq> TN_ID_FSMEMORYPOOL then Some (RC TERR_NOEXS, s)
          else if bad_non_int_context s then Some (RC TERR_WCONTEXT, s)
          else tn_fmem_delete_loop k False s)"

text \<open>\<open>fm_get\<close> returns \<open>NULL\<close>, here 0, when the pool is empty.\<close>

definition fm_get :: "fid \<Rightarrow> kstate \<Rightarrow> addr \<times> kstate" where
  "fm_get k s =
     (let p = fmps s k
      in if fblkcnt p > 0
         then (free_list p, upd_fmp k (\<lambda>p. p\<lparr>free_list := mem32 s (free_list p), fblkcnt := fblkcnt p - 1\<rparr>) s)
         else (0, s))"

definition fm_put :: "fid \<Rightarrow> addr \<Rightarrow> kstate \<Rightarrow> int \<times> kstate" where
  "fm_put k a s =
     (let p = fmps s k
      in if fblkcnt p < num_blocks p
         then (TERR_NO_ERR,
               upd_fmp k (\<lambda>p. p\<lparr>free_list := a, fblkcnt := fblkcnt p + 1\<rparr>)
                 (s\<lparr>mem32 := (mem32 s)(a := free_list p)\<rparr>))
         else (TERR_OVERFLOW, s))"

definition tn_fmem_get :: "fid option \<Rightarrow> bool \<Rightarrow> u32 \<Rightarrow> kstate \<Rightarrow> (kret \<times> addr option \<times> kstate) option" where
  "tn_fmem_get fmp p_data_null timeout s =
     (case fmp of
        None \<Rightarrow> Some (RC TERR_WRONG_PARAM, None, s)
      | Some k \<Rightarrow>
          if p_data_null \<or> timeout = 0 then Some (RC TERR_WRONG_PARAM, None, s)
          else if id_fmp (fmps s k) \<noteq> TN_ID_FSMEMORYPOOL then Some (RC TERR_NOEXS, None, s)
          else if bad_non_int_context s then Some (RC TERR_WCONTEXT, None, s)
          else
            let (sr, s) = tn_disable_interrupt s;
                (ptr, s) = fm_get k s
            in if ptr \<noteq> 0 then Some (RC TERR_NO_ERR, Some ptr, tn_enable_interrupt sr s)
               else do { s \<leftarrow> task_curr_to_wait_action (Some (FmpWaitQ k)) TSK_WAIT_REASON_WFIXMEM timeout s;
                         Some (SWITCH_WAIT_RC, None, tn_enable_interrupt sr s) })"

text \<open>When its caller \<open>t\<close> runs again, \<open>tn_fmem_get\<close> stores \<open>data_elem\<close> and returns the wait's code.\<close>

definition tn_fmem_get_resumed :: "tid \<Rightarrow> kstate \<Rightarrow> int \<times> addr" where
  "tn_fmem_get_resumed t s = (task_wait_rc (tcbs s t), data_elem (tcbs s t))"

definition tn_fmem_get_polling :: "fid option \<Rightarrow> bool \<Rightarrow> kstate \<Rightarrow> (kret \<times> addr option \<times> kstate) option" where
  "tn_fmem_get_polling fmp p_data_null s =
     (case fmp of
        None \<Rightarrow> Some (RC TERR_WRONG_PARAM, None, s)
      | Some k \<Rightarrow>
          if p_data_null then Some (RC TERR_WRONG_PARAM, None, s)
          else if id_fmp (fmps s k) \<noteq> TN_ID_FSMEMORYPOOL then Some (RC TERR_NOEXS, None, s)
          else if bad_non_int_context s then Some (RC TERR_WCONTEXT, None, s)
          else
            let (sr, s) = tn_disable_interrupt s;
                (ptr, s) = fm_get k s
            in if ptr \<noteq> 0 then Some (RC TERR_NO_ERR, Some ptr, tn_enable_interrupt sr s)
               else Some (RC TERR_TIMEOUT, None, tn_enable_interrupt sr s))"

definition tn_fmem_get_ipolling :: "fid option \<Rightarrow> bool \<Rightarrow> kstate \<Rightarrow> (int \<times> addr option \<times> kstate) option" where
  "tn_fmem_get_ipolling fmp p_data_null s =
     (case fmp of
        None \<Rightarrow> Some (TERR_WRONG_PARAM, None, s)
      | Some k \<Rightarrow>
          if p_data_null then Some (TERR_WRONG_PARAM, None, s)
          else if id_fmp (fmps s k) \<noteq> TN_ID_FSMEMORYPOOL then Some (TERR_NOEXS, None, s)
          else if bad_int_context s then Some (TERR_WCONTEXT, None, s)
          else
            let (ptr, s) = fm_get k s
            in if ptr \<noteq> 0 then Some (TERR_NO_ERR, Some ptr, s) else Some (TERR_TIMEOUT, None, s))"

text \<open>What the two releasing services share: the block goes to the first waiting task, or back to
  the pool (the result of \<open>fm_put\<close> is not looked at).\<close>

definition fmem_give :: "fid \<Rightarrow> addr \<Rightarrow> kstate \<Rightarrow> (bool \<times> kstate) option" where
  "fmem_give k a s =
     (if \<not> is_queue_empty (mem s) (FmpWaitQ k) then
        do { (p, s) \<leftarrow> wait_queue_pop (FmpWaitQ k) s;
             task \<leftarrow> p;
             let s = upd_tcb task (\<lambda>c. c\<lparr>data_elem := a\<rparr>) s;
             Some (task_wait_complete (Some task) False s) }
      else Some (False, snd (fm_put k a s)))"

definition tn_fmem_release :: "fid option \<Rightarrow> addr \<Rightarrow> kstate \<Rightarrow> (kret \<times> kstate) option" where
  "tn_fmem_release fmp p_data s =
     (case fmp of
        None \<Rightarrow> Some (RC TERR_WRONG_PARAM, s)
      | Some k \<Rightarrow>
          if p_data = 0 then Some (RC TERR_WRONG_PARAM, s)
          else if id_fmp (fmps s k) \<noteq> TN_ID_FSMEMORYPOOL then Some (RC TERR_NOEXS, s)
          else if bad_non_int_context s then Some (RC TERR_WCONTEXT, s)
          else
            let (sr, s) = tn_disable_interrupt s
            in do { r \<leftarrow> fmem_give k p_data s; Some (wake_ret sr r) })"

definition tn_fmem_irelease :: "fid option \<Rightarrow> addr \<Rightarrow> kstate \<Rightarrow> (int \<times> kstate) option" where
  "tn_fmem_irelease fmp p_data s =
     (case fmp of
        None \<Rightarrow> Some (TERR_WRONG_PARAM, s)
      | Some k \<Rightarrow>
          if p_data = 0 then Some (TERR_WRONG_PARAM, s)
          else if id_fmp (fmps s k) \<noteq> TN_ID_FSMEMORYPOOL then Some (TERR_NOEXS, s)
          else if bad_int_context s then Some (TERR_WCONTEXT, s)
          else do { r \<leftarrow> fmem_give k p_data s; Some (wake_iret r) })"

section \<open>Free lists\<close>

lemma free_chain_cong:
  "(\<And>x. x \<in> set (free_chain m n a) \<Longrightarrow> m' x = m x) \<Longrightarrow> free_chain m' n a = free_chain m n a"
  by (induction n arbitrary: a) auto

lemma length_free_chain [simp]: "length (free_chain m n a) = n"
  by (induction n arbitrary: a) auto

lemma fmp_wfD:
  assumes "fmp_wf s"
  shows "id_fmp (fmps s k) = TN_ID_FSMEMORYPOOL \<Longrightarrow> 0 \<le> fblkcnt (fmps s k) \<and> fblkcnt (fmps s k) \<le> num_blocks (fmps s k)"
    "distinct (free_blocks s k)" "0 \<notin> set (free_blocks s k)"
    "k \<noteq> k' \<Longrightarrow> set (free_blocks s k) \<inter> set (free_blocks s k') = {}"
  using assms by (auto simp: fmp_wf_def)

text \<open>One pool and the cells change, the free lists of the other pools stay.\<close>

lemma fmp_wf_upd:
  assumes wf: "fmp_wf s" and o: "fmps s' = (fmps s)(k := p)"
    and keep: "\<And>j. j \<noteq> k \<Longrightarrow> free_blocks s' j = free_blocks s j"
    and p: "id_fmp p = TN_ID_FSMEMORYPOOL \<Longrightarrow> 0 \<le> fblkcnt p \<and> fblkcnt p \<le> num_blocks p"
      "distinct (free_blocks s' k)" "0 \<notin> set (free_blocks s' k)"
      "\<And>j. j \<noteq> k \<Longrightarrow> set (free_blocks s' k) \<inter> set (free_blocks s j) = {}"
  shows "fmp_wf s'"
  unfolding fmp_wf_def
proof (intro conjI allI impI)
  fix i j :: nat assume "i \<noteq> j"
  then show "set (free_blocks s' i) \<inter> set (free_blocks s' j) = {}"
    using keep p(4) fmp_wfD(4) [OF wf, of i j] by (cases "i = k"; cases "j = k") auto
next
  fix i :: nat
  show "0 \<le> fblkcnt (fmps s' i)" "fblkcnt (fmps s' i) \<le> num_blocks (fmps s' i)"
    if "id_fmp (fmps s' i) = TN_ID_FSMEMORYPOOL"
    using that o p(1) fmp_wfD(1) [OF wf, of i] by (auto split: if_splits)
  show "distinct (free_blocks s' i)" "0 \<notin> set (free_blocks s' i)"
    using keep [of i] p(2,3) fmp_wfD(2,3) [OF wf, of i] by (cases "i = k"; simp)+
qed

section \<open>The invariant\<close>

lemma upd_fmp_simps [simp]:
  "mem (upd_fmp i f s) = mem s" "tcbs (upd_fmp i f s) = tcbs s" "mem32 (upd_fmp i f s) = mem32 s"
  "fmps (upd_fmp i f s) = (fmps s)(i := f (fmps s i))" "irq_disabled (upd_fmp i f s) = irq_disabled s"
  "tn_next_task_to_run (upd_fmp i f s) = tn_next_task_to_run s"
  "tn_curr_run_task (upd_fmp i f s) = tn_curr_run_task s"
  "tn_context_switch_request (upd_fmp i f s) = tn_context_switch_request s"
  "same_sched s0 (upd_fmp i f s) = same_sched s0 s"
  by (simp_all add: upd_fmp_def same_sched_def)

lemma fmp_live: "live s (FmpWaitQ k) \<longleftrightarrow> id_fmp (fmps s k) = TN_ID_FSMEMORYPOOL"
  by (simp add: live_def)

lemma sinv_upd_fmp:
  assumes i: "sinv s L" and s': "s' = s\<lparr>fmps := (fmps s)(k := p), mem32 := m\<rparr>" and wf: "fmp_wf s'"
    and l: "id_fmp p = TN_ID_FSMEMORYPOOL \<Longrightarrow> L (FmpWaitQ k) \<noteq> None"
    and w: "\<And>t. waiting (tcbs s t) \<Longrightarrow> pwait_queue (tcbs s t) = Some (FmpWaitQ k) \<Longrightarrow>
       id_fmp p = TN_ID_FSMEMORYPOOL \<and> fblkcnt p = 0"
  shows "sinv s' L"
  using i
proof (rule sinv_change_objects)
  have other: "live s' q = live s q" "wait_cause s' c q = wait_cause s c q" if "q \<noteq> FmpWaitQ k" for q c
    using that by (cases q; simp add: live_def wait_cause_def s')+
  show "wait_ok s' (tcbs s t)" if wt: "waiting (tcbs s t)" for t
  proof (cases "pwait_queue (tcbs s t) = Some (FmpWaitQ k)")
    case True
    with w [OF wt True] sinvD(2) [OF i, of t] wt show ?thesis
      by (simp add: wait_ok_def live_def wait_cause_def s')
  next
    case False
    with sinvD(2) [OF i, of t] other show ?thesis by (auto simp: wait_ok_def split: option.splits)
  qed
  show "L q \<noteq> None" if "live s' q" for q
  proof (cases "q = FmpWaitQ k")
    case True
    with that l show ?thesis by (simp add: live_def s')
  next
    case False
    with that other sinvD(3) [OF i] show ?thesis by simp
  qed
  show "objects_wf s'" using sinvD(5) [OF i] wf by (simp add: objects_wf_def s')
qed (simp_all add: s')

lemma fmp_of_inv: "sinv s L \<Longrightarrow> fmp_wf s"
  using sinvD(5) by (auto simp: objects_wf_def)

lemma fmp_no_waiters:
  assumes i: "sinv s L" and c: "fblkcnt (fmps s k) \<noteq> 0" and t: "waiting (tcbs s t)"
  shows "pwait_queue (tcbs s t) \<noteq> Some (FmpWaitQ k)"
  using sinvD(2) [OF i, of t] c t by (auto simp: wait_ok_def wait_cause_def)

text \<open>Taking a block: the first of the free list, never \<open>NULL\<close>.\<close>

lemma fm_get_ok:
  assumes i: "sinv s L" and l: "id_fmp (fmps s k) = TN_ID_FSMEMORYPOOL" and c: "fblkcnt (fmps s k) > 0"
    and r: "fm_get k s = (a, s')"
  shows "sinv s' L" "free_blocks s k = a # free_blocks s' k" "a \<noteq> 0"
    "\<And>j. j \<noteq> k \<Longrightarrow> free_blocks s' j = free_blocks s j" "same_sched s0 s' = same_sched s0 s"
proof -
  let ?p = "(fmps s k)\<lparr>free_list := mem32 s (free_list (fmps s k)), fblkcnt := fblkcnt (fmps s k) - 1\<rparr>"
  have a: "a = free_list (fmps s k)" "s' = s\<lparr>fmps := (fmps s)(k := ?p), mem32 := mem32 s\<rparr>"
    using r c by (auto simp: fm_get_def upd_fmp_def Let_def)
  have n: "nat (fblkcnt (fmps s k)) = Suc (nat (fblkcnt (fmps s k) - 1))" using c by simp
  show bl: "free_blocks s k = a # free_blocks s' k" using l a by (simp add: free_blocks_def n)
  show keep: "free_blocks s' j = free_blocks s j" if "j \<noteq> k" for j using that a(2) by (simp add: free_blocks_def)
  note wf = fmp_of_inv [OF i]
  show "a \<noteq> 0" using fmp_wfD(3) [OF wf, of k] bl by auto
  have "fmp_wf s'"
  proof (rule fmp_wf_upd [OF wf _ keep])
    show "distinct (free_blocks s' k)" "0 \<notin> set (free_blocks s' k)"
      using fmp_wfD(2,3) [OF wf, of k] bl by auto
    show "set (free_blocks s' k) \<inter> set (free_blocks s j) = {}" if "j \<noteq> k" for j
      using fmp_wfD(4) [OF wf, of k j] that bl by auto
    show "0 \<le> fblkcnt ?p \<and> fblkcnt ?p \<le> num_blocks ?p" using fmp_wfD(1) [OF wf l] c by simp
  qed (simp_all add: a(2))
  then show "sinv s' L"
    by (rule sinv_upd_fmp [OF i a(2)])
       (use l sinvD(3) [OF i, of "FmpWaitQ k"] c fmp_no_waiters [OF i, of k] in \<open>auto simp: fmp_live\<close>)
  show "same_sched s0 s' = same_sched s0 s" by (simp add: a(2) same_sched_def)
qed

text \<open>Giving a block back that is in no free list.\<close>

definition not_free :: "addr \<Rightarrow> kstate \<Rightarrow> bool" where
  "not_free a s \<longleftrightarrow> (\<forall>k. a \<notin> set (free_blocks s k))"

lemma fm_put_ok:
  assumes i: "sinv s L" and l: "id_fmp (fmps s k) = TN_ID_FSMEMORYPOOL" "L (FmpWaitQ k) = Some []"
    and a: "a \<noteq> 0" "not_free a s" and c: "fblkcnt (fmps s k) < num_blocks (fmps s k)"
    and r: "fm_put k a s = (rc, s')"
  shows "sinv s' L" "free_blocks s' k = a # free_blocks s k" "rc = TERR_NO_ERR"
    "\<And>j. j \<noteq> k \<Longrightarrow> free_blocks s' j = free_blocks s j" "same_sched s0 s' = same_sched s0 s"
proof -
  let ?p = "(fmps s k)\<lparr>free_list := a, fblkcnt := fblkcnt (fmps s k) + 1\<rparr>"
  let ?m = "(mem32 s)(a := free_list (fmps s k))"
  have s': "rc = TERR_NO_ERR" "s' = s\<lparr>fmps := (fmps s)(k := ?p), mem32 := ?m\<rparr>"
    using r c by (auto simp: fm_put_def upd_fmp_def Let_def)
  show "rc = TERR_NO_ERR" by (rule s'(1))
  note wf = fmp_of_inv [OF i]
  have n: "nat (fblkcnt (fmps s k) + 1) = Suc (nat (fblkcnt (fmps s k)))" using fmp_wfD(1) [OF wf l(1)] by (simp add: nat_add_distrib)
  have ch: "free_chain ?m (nat (fblkcnt (fmps s j))) (free_list (fmps s j)) =
      free_chain (mem32 s) (nat (fblkcnt (fmps s j))) (free_list (fmps s j))"
    if "id_fmp (fmps s j) = TN_ID_FSMEMORYPOOL" for j
    using a(2) that by (intro free_chain_cong) (auto simp: not_free_def free_blocks_def)
  show bl: "free_blocks s' k = a # free_blocks s k" using l(1) ch [OF l(1)] by (simp add: s'(2) free_blocks_def n)
  show keep: "free_blocks s' j = free_blocks s j" if "j \<noteq> k" for j
    using that ch [of j] by (simp add: s'(2) free_blocks_def)
  have "fmp_wf s'"
  proof (rule fmp_wf_upd [OF wf _ keep])
    show "distinct (free_blocks s' k)" "0 \<notin> set (free_blocks s' k)"
      using fmp_wfD(2,3) [OF wf, of k] bl a by (auto simp: not_free_def)
    show "set (free_blocks s' k) \<inter> set (free_blocks s j) = {}" if "j \<noteq> k" for j
      using fmp_wfD(4) [OF wf, of k j] that bl a(2) by (auto simp: not_free_def)
    show "0 \<le> fblkcnt ?p \<and> fblkcnt ?p \<le> num_blocks ?p" using fmp_wfD(1) [OF wf l(1)] c by simp
  qed (simp_all add: s'(2))
  then show "sinv s' L"
    by (rule sinv_upd_fmp [OF i s'(2)]) (use l sinv_no_waiter [OF i _ l(2)] in auto)
  show "same_sched s0 s' = same_sched s0 s" by (simp add: s'(2) same_sched_def)
qed

section \<open>Carving a pool out of memory\<close>

fun blocks :: "u32 \<Rightarrow> nat \<Rightarrow> addr \<Rightarrow> addr list" where
  "blocks bs 0 a = []"
| "blocks bs (Suc n) a = a # blocks bs n (a + bs)"

lemma length_blocks [simp]: "length (blocks bs n a) = n"
  by (induction n arbitrary: a) auto

lemma blocks_range:
  assumes "unat a + unat bs * n < 2 ^ 32" "0 < unat bs"
  shows "distinct (blocks bs n a)"
    "x \<in> set (blocks bs n a) \<Longrightarrow> unat a \<le> unat x \<and> unat x + unat bs \<le> unat a + unat bs * n"
proof -
  have "distinct (blocks bs n a) \<and> (\<forall>x \<in> set (blocks bs n a). unat a \<le> unat x \<and> unat x + unat bs \<le> unat a + unat bs * n)"
    using assms(1)
  proof (induction n arbitrary: a)
    case (Suc n)
    have u: "unat (a + bs) = unat a + unat bs" using Suc.prems by (intro unat_add_small) simp
    have "distinct (blocks bs n (a + bs))" "\<forall>x \<in> set (blocks bs n (a + bs)). unat a + unat bs \<le> unat x \<and>
        unat x + unat bs \<le> unat a + unat bs + unat bs * n"
      using Suc.IH [of "a + bs"] Suc.prems u by auto
    with assms(2) show ?case by fastforce
  qed simp
  then show "distinct (blocks bs n a)"
    "x \<in> set (blocks bs n a) \<Longrightarrow> unat a \<le> unat x \<and> unat x + unat bs \<le> unat a + unat bs * n" by auto
qed

text \<open>The linking loop makes the blocks a free list and touches nothing else.\<close>

lemma link_blocks_chain:
  assumes "link_blocks k bs p (p + bs) m = (l, m')" "distinct (blocks bs (Suc k) p)"
  shows "free_chain (m'(l := 0)) (Suc k) p = blocks bs (Suc k) p" "l \<in> set (blocks bs (Suc k) p)"
    "x \<notin> set (blocks bs (Suc k) p) \<Longrightarrow> m' x = m x"
proof -
  have "free_chain (m'(l := 0)) (Suc k) p = blocks bs (Suc k) p \<and> l \<in> set (blocks bs (Suc k) p) \<and>
      (\<forall>x. x \<notin> set (blocks bs (Suc k) p) \<longrightarrow> m' x = m x)"
    using assms
  proof (induction k arbitrary: p m)
    case (Suc k)
    have lk: "link_blocks k bs (p + bs) (p + bs + bs) (m(p := p + bs)) = (l, m')" using Suc.prems(1) by simp
    have d: "distinct (blocks bs (Suc k) (p + bs))" "p \<notin> set (blocks bs (Suc k) (p + bs))"
      using Suc.prems(2) by simp_all
    have ih: "free_chain (m'(l := 0)) (Suc k) (p + bs) = blocks bs (Suc k) (p + bs)"
      "l \<in> set (blocks bs (Suc k) (p + bs))"
      "x \<notin> set (blocks bs (Suc k) (p + bs)) \<Longrightarrow> m' x = (m(p := p + bs)) x" for x
      using Suc.IH [OF lk d(1)] by blast+
    have np: "(m'(l := 0)) p = p + bs" using ih(2) ih(3) [of p] d(2) by auto
    have "free_chain (m'(l := 0)) (Suc (Suc k)) p = p # free_chain (m'(l := 0)) (Suc k) (p + bs)"
      by (subst free_chain.simps) (simp only: np)
    then have "free_chain (m'(l := 0)) (Suc (Suc k)) p = blocks bs (Suc (Suc k)) p" by (simp only: ih(1) blocks.simps)
    moreover have "m' x = m x" if "x \<notin> set (blocks bs (Suc (Suc k)) p)" for x
      using ih(3) [of x] that by auto
    moreover have "l \<in> set (blocks bs (Suc (Suc k)) p)" using ih(2) by (simp del: blocks.simps add: blocks.simps(2) [of _ "Suc k"])
    ultimately show ?case by blast
  qed auto
  then show "free_chain (m'(l := 0)) (Suc k) p = blocks bs (Suc k) p" "l \<in> set (blocks bs (Suc k) p)"
    "x \<notin> set (blocks bs (Suc k) p) \<Longrightarrow> m' x = m x" by blast+
qed

text \<open>The search for the number of blocks ends with the largest number that fits.\<close>

lemma fit_blocks_max:
  assumes "unat a + unat bs * m < 2 ^ 32" "unat a \<le> unat i" "0 < unat bs"
  shows "\<exists>m'. fit_blocks bs i (a + bs * of_nat m) (int m) = Some (int m') \<and> m' \<le> m \<and>
     unat a + unat bs * m' \<le> unat i \<and> (m' < m \<longrightarrow> unat i < unat a + unat bs * Suc m')"
  using assms(1)
proof (induction m)
  case 0
  then show ?case using assms(2) by (subst fit_blocks.simps) (auto simp: word_less_nat_alt)
next
  case (Suc m)
  have lt: "unat a + unat bs * m < 2 ^ 32" using Suc.prems by simp
  have u: "unat (a + bs * of_nat (Suc m)) = unat a + unat bs * Suc m"
    using Suc.prems assms(3) unat_mul_small [of bs "Suc m"] by (subst unat_add_small) (simp_all del: of_nat_Suc)
  have j: "a + bs * of_nat (Suc m) - bs = a + bs * of_nat m" by (simp add: algebra_simps)
  show ?case
  proof (cases "i < a + bs * of_nat (Suc m)")
    case True
    from Suc.IH [OF lt] obtain m' where "fit_blocks bs i (a + bs * of_nat m) (int m) = Some (int m')" "m' \<le> m"
      "unat a + unat bs * m' \<le> unat i" "m' < m \<longrightarrow> unat i < unat a + unat bs * Suc m'" by blast
    moreover have "unat i < unat a + unat bs * Suc m" using True u by (simp add: word_less_nat_alt del: of_nat_Suc)
    moreover have "fit_blocks bs i (a + bs * of_nat (Suc m)) (int (Suc m)) = fit_blocks bs i (a + bs * of_nat m) (int m)"
      using True by (subst fit_blocks.simps) (simp add: j del: of_nat_Suc, simp)
    moreover have "m' < Suc m \<longrightarrow> unat i < unat a + unat bs * Suc m'" using calculation(2,4,5) by (cases "m' = m") auto
    ultimately show ?thesis by (intro exI [of _ m']) auto
  next
    case False
    then have "fit_blocks bs i (a + bs * of_nat (Suc m)) (int (Suc m)) = Some (int (Suc m))"
      by (subst fit_blocks.simps) (simp del: of_nat_Suc)
    moreover have "unat a + unat bs * Suc m \<le> unat i" using False u by (simp add: word_less_nat_alt del: of_nat_Suc)
    ultimately show ?thesis by blast
  qed
qed

lemma align_up_bounds:
  assumes "unat x + 3 < 2 ^ 32"
  shows "unat x \<le> unat (align_up x)" "unat (align_up x) \<le> unat x + 3" "unat (align_up x) mod 4 = 0"
proof -
  have "unat (x + 3) = unat x + 3" using assms by (subst unat_add_small) simp_all
  then have "unat (align_up x) = (unat x + 3) div 4 * 4"
    using assms by (simp add: align_up_def unat_word_ariths unat_div_distrib)
  then show "unat x \<le> unat (align_up x)" "unat (align_up x) \<le> unat x + 3" "unat (align_up x) mod 4 = 0" by presburger+
qed

text \<open>
  The memory handed to \<open>tn_fmem_create\<close> lies inside the address space (with room for the
  rounding up of the block size) and outside the free blocks of the other pools.
\<close>

definition pool_area :: "addr \<Rightarrow> u32 \<Rightarrow> int \<Rightarrow> addr \<Rightarrow> bool" where
  "pool_area start bsize n x \<longleftrightarrow> unat start \<le> unat x \<and> unat x < unat start + unat bsize * nat n"

definition pool_memory :: "addr \<Rightarrow> u32 \<Rightarrow> int \<Rightarrow> kstate \<Rightarrow> bool" where
  "pool_memory start bsize n s \<longleftrightarrow>
     unat start + 3 + (unat bsize + 3) * nat n < 2 ^ 32 \<and>
     (\<forall>k. \<forall>x \<in> set (free_blocks s k). \<not> pool_area start bsize n x)"

lemma carve_ok:
  assumes fits: "unat start + 3 + (unat bsize + 3) * nat n < 2 ^ 32" and n: "2 \<le> n" and b: "4 \<le> bsize"
  shows "\<exists>m. fit_blocks (align_up bsize) (start + bsize * word_of_int n) (align_up start + align_up bsize * word_of_int n) n =
       Some (int m) \<and> m \<le> nat n \<and> distinct (blocks (align_up bsize) m (align_up start)) \<and>
     (m < nat n \<longrightarrow> unat start + unat bsize * nat n < unat (align_up start) + unat (align_up bsize) * Suc m) \<and>
     (\<forall>x \<in> set (blocks (align_up bsize) m (align_up start)). unat start \<le> unat x \<and>
        unat x + unat bsize \<le> unat start + unat bsize * nat n)"
proof -
  let ?a = "align_up start" and ?bs = "align_up bsize" and ?m = "nat n"
  have b4: "4 \<le> unat bsize" using b by (simp add: word_le_nat_alt)
  have mono: "unat bsize * ?m \<le> (unat bsize + 3) * ?m" "(unat bsize + 3) * 1 \<le> (unat bsize + 3) * ?m"
    using n by (intro mult_le_mono; simp)+
  have sm: "unat start + 3 < 2 ^ 32" using fits by linarith
  have sb: "unat bsize + 3 < 2 ^ 32" using fits mono(2) unfolding mult_1_right by linarith
  note al = align_up_bounds [OF sm] and bl = align_up_bounds [OF sb]
  have w: "(word_of_int n :: u32) = of_nat ?m" using n by simp
  have "unat ?bs * ?m \<le> (unat bsize + 3) * ?m" using bl(2) by (intro mult_le_mono) simp_all
  then have j: "unat ?a + unat ?bs * ?m < 2 ^ 32" using al(2) fits by linarith
  have ub: "unat (bsize * of_nat ?m) = unat bsize * ?m" using fits mono b4 by (intro unat_mul_small) linarith+
  have i: "unat (start + bsize * of_nat ?m) = unat start + unat bsize * ?m"
    using fits mono ub by (subst unat_add_small) linarith+
  have ai: "unat ?a \<le> unat (start + bsize * of_nat ?m)"
  proof -
    have "4 * 1 \<le> unat bsize * ?m" using b4 n by (intro mult_le_mono) simp_all
    then show ?thesis using al(2) i by linarith
  qed
  have pos: "0 < unat ?bs" using bl(1) b4 by linarith
  obtain m where m: "fit_blocks ?bs (start + bsize * of_nat ?m) (?a + ?bs * of_nat ?m) (int ?m) = Some (int m)"
    "m \<le> ?m" "unat ?a + unat ?bs * m \<le> unat (start + bsize * of_nat ?m)"
    "m < ?m \<longrightarrow> unat (start + bsize * of_nat ?m) < unat ?a + unat ?bs * Suc m"
    using fit_blocks_max [OF j ai pos] by blast
  have lt: "unat ?a + unat ?bs * m < 2 ^ 32" using m(3) i fits mono by linarith
  have "unat start \<le> unat x \<and> unat x + unat bsize \<le> unat start + unat bsize * ?m"
    if "x \<in> set (blocks ?bs m ?a)" for x
    using blocks_range(2) [OF lt pos that] al(1) bl(1) m(3) i by linarith
  moreover have "int ?m = n" using n by simp
  ultimately show ?thesis using m(1,2) m(4) [unfolded i] blocks_range(1) [OF lt pos] unfolding w
    by (intro exI [of _ m]) simp
qed

lemma no_free_blocks: "id_fmp (fmps s k) \<noteq> TN_ID_FSMEMORYPOOL \<Longrightarrow> free_blocks s k = []"
  by (simp add: free_blocks_def)

text \<open>What a successful creation leaves: a pool of at least two free blocks inside its memory.\<close>

lemma create_pool:
  assumes i: "sinv s L" and l: "L (FmpWaitQ k) = Some []" "id_fmp (fmps s k) \<noteq> TN_ID_FSMEMORYPOOL"
    and pre: "pool_memory start bsize n s" and start: "start \<noteq> 0"
    and bl: "distinct (blocks bs (Suc m) sa)"
      "\<forall>x \<in> set (blocks bs (Suc m) sa). unat start \<le> unat x \<and> unat x + unat bsize \<le> unat start + unat bsize * nat n"
    and b: "4 \<le> bsize"
    and lk: "link_blocks m bs sa (sa + bs) (mem32 s) = (p_tmp, m')"
    and s': "s' = s\<lparr>fmps := (fmps s)(k := p), mem32 := m'(p_tmp := 0)\<rparr>"
    and p: "free_list p = sa" "fblkcnt p = int (Suc m)" "num_blocks p = int (Suc m)" "id_fmp p = TN_ID_FSMEMORYPOOL"
  shows "sinv s' L" "free_blocks s' k = blocks bs (Suc m) sa" "\<And>j. j \<noteq> k \<Longrightarrow> free_blocks s' j = free_blocks s j"
proof -
  note ch = link_blocks_chain [OF lk bl(1)]
  have b4: "0 < unat bsize" using b by (simp add: word_le_nat_alt)
  have fb: "free_blocks s' k = free_chain (m'(p_tmp := 0)) (nat (int (Suc m))) sa"
    using p by (simp add: free_blocks_def s' del: free_chain.simps of_nat_Suc)
  show bk: "free_blocks s' k = blocks bs (Suc m) sa" unfolding fb nat_int by (rule ch(1))
  have ar: "pool_area start bsize n x" if "x \<in> set (blocks bs (Suc m) sa)" for x
    using bl(2) that b4 unfolding pool_area_def by fastforce
  then have dj: "x \<notin> set (blocks bs (Suc m) sa)" if "x \<in> set (free_blocks s j)" for j x
    using pre that unfolding pool_memory_def by blast
  show keep: "free_blocks s' j = free_blocks s j" if "j \<noteq> k" for j
  proof (cases "id_fmp (fmps s j) = TN_ID_FSMEMORYPOOL")
    case True
    have "free_chain (m'(p_tmp := 0)) (nat (fblkcnt (fmps s j))) (free_list (fmps s j)) =
        free_chain (mem32 s) (nat (fblkcnt (fmps s j))) (free_list (fmps s j))"
    proof (rule free_chain_cong)
      fix x assume "x \<in> set (free_chain (mem32 s) (nat (fblkcnt (fmps s j))) (free_list (fmps s j)))"
      then have "x \<in> set (free_blocks s j)" using True by (simp add: free_blocks_def)
      from dj [OF this] ch(2) ch(3) [of x] show "(m'(p_tmp := 0)) x = mem32 s x" by (cases "x = p_tmp") auto
    qed
    then show ?thesis using that by (simp add: free_blocks_def s')
  qed (use that in \<open>simp add: free_blocks_def s'\<close>)
  have "0 \<notin> set (blocks bs (Suc m) sa)"
    using bl(2) start by (metis le_zero_eq unat_0 unat_eq_0)
  then have "fmp_wf s'" using bl(1) dj bk p
    by (intro fmp_wf_upd [OF fmp_of_inv [OF i] _ keep, of k p]) (auto simp: s')
  then show "sinv s' L" by (rule sinv_upd_fmp [OF i s']) (use l sinv_no_waiter [OF i _ l(1)] in auto)
qed

section \<open>Every service keeps the invariant\<close>

lemma sinv_fmp_gone:
  assumes i: "sinv s L" and w: "\<And>t. waiting (tcbs s t) \<Longrightarrow> pwait_queue (tcbs s t) \<noteq> Some (FmpWaitQ k)"
    and f: "id_fmp (f (fmps s k)) \<noteq> TN_ID_FSMEMORYPOOL"
  shows "sinv (upd_fmp k f s) L"
proof -
  have e: "upd_fmp k f s = s\<lparr>fmps := (fmps s)(k := f (fmps s k)), mem32 := mem32 s\<rparr>" by (simp add: upd_fmp_def)
  have nil: "free_blocks (upd_fmp k f s) k = []" using f by (simp add: no_free_blocks)
  have keep: "free_blocks (upd_fmp k f s) j = free_blocks s j" if "j \<noteq> k" for j using that by (simp add: free_blocks_def)
  have "fmp_wf (upd_fmp k f s)"
    by (rule fmp_wf_upd [OF fmp_of_inv [OF i] _ keep, of k "f (fmps s k)"]) (use f in \<open>simp_all add: nil\<close>)
  then show ?thesis by (rule sinv_upd_fmp [OF i e]) (use f w in auto)
qed

lemma fmp_dead_waiter:
  assumes "sinv s L" "id_fmp (fmps s k) \<noteq> TN_ID_FSMEMORYPOOL" "waiting (tcbs s t)"
  shows "pwait_queue (tcbs s t) \<noteq> Some (FmpWaitQ k)"
  using sinv_wait_cause [OF assms(1,3)] assms(2) by (auto simp: fmp_live)

text \<open>Creation: as many blocks as fit, all inside the caller's memory, at least two.\<close>

lemma fmem_create_carves:
  assumes i: "sinv s L" and k: "id_fmp (fmps s k) \<noteq> TN_ID_FSMEMORYPOOL" and start: "start \<noteq> 0"
    and n: "2 \<le> n" and b: "4 \<le> bsize" and pm: "pool_memory start bsize n s"
  shows "\<exists>m s' L'. tn_fmem_create (Some k) start bsize n s =
       Some (RC (if m < 2 then TERR_WRONG_PARAM else TERR_NO_ERR), s') \<and> sinv s' L' \<and> same_sched s s' \<and> m \<le> nat n \<and>
     (m < nat n \<longrightarrow> unat start + unat bsize * nat n < unat (align_up start) + unat (align_up bsize) * Suc m) \<and>
     (2 \<le> m \<longrightarrow> id_fmp (fmps s' k) = TN_ID_FSMEMORYPOOL \<and> num_blocks (fmps s' k) = int m \<and>
        L' (FmpWaitQ k) = Some [] \<and> free_blocks s' k = blocks (align_up bsize) m (align_up start)) \<and>
     (\<forall>x \<in> set (blocks (align_up bsize) m (align_up start)). unat start \<le> unat x \<and>
        unat x + unat bsize \<le> unat start + unat bsize * nat n) \<and>
     (2 \<le> m \<longrightarrow> (\<forall>j. j \<noteq> k \<longrightarrow> free_blocks s' j = free_blocks s j))"
proof -
  note dead = fmp_dead_waiter [OF i k]
  define s1 where "s1 = on_mem (queue_reset (FmpWaitQ k)) s"
  let ?L = "L(FmpWaitQ k \<mapsto> [])" and ?sa = "align_up start" and ?bs = "align_up bsize"
  have nl: "\<not> live s (FmpWaitQ k)" using k by (simp add: fmp_live)
  have i1: "sinv s1 ?L" unfolding s1_def using sinv_reset_queue [OF i _ nl] by simp
  have s1: "fmps s1 = fmps s" "mem32 s1 = mem32 s" "tcbs s1 = tcbs s" "same_sched s s1"
    "\<And>r m. same_sched s (s1\<lparr>fmps := r, mem32 := m\<rparr>)" by (simp_all add: s1_def same_sched_def)
  have pm1: "pool_memory start bsize n s1" using pm by (simp add: pool_memory_def free_blocks_def s1)
  obtain m where m: "fit_blocks ?bs (start + bsize * word_of_int n) (?sa + ?bs * word_of_int n) n = Some (int m)"
    "distinct (blocks ?bs m ?sa)" "\<forall>x \<in> set (blocks ?bs m ?sa). unat start \<le> unat x \<and>
      unat x + unat bsize \<le> unat start + unat bsize * nat n" "m \<le> nat n"
    "m < nat n \<longrightarrow> unat start + unat bsize * nat n < unat ?sa + unat ?bs * Suc m"
    using carve_ok [OF _ n b] pm unfolding pool_memory_def by blast
  have good: "\<not> (start = 0 \<or> n < 2 \<or> bsize < 4)" using start n b by (auto simp: not_less)
  let ?f = "\<lambda>p. p\<lparr>start_addr := ?sa, block_size := ?bs, num_blocks := int m\<rparr>"
  have "\<exists>s' L'. tn_fmem_create (Some k) start bsize n s =
       Some (RC (if m < 2 then TERR_WRONG_PARAM else TERR_NO_ERR), s') \<and> sinv s' L' \<and> same_sched s s' \<and>
     (2 \<le> m \<longrightarrow> id_fmp (fmps s' k) = TN_ID_FSMEMORYPOOL \<and> num_blocks (fmps s' k) = int m \<and>
        L' (FmpWaitQ k) = Some [] \<and> free_blocks s' k = blocks ?bs m ?sa) \<and>
     (2 \<le> m \<longrightarrow> (\<forall>j. j \<noteq> k \<longrightarrow> free_blocks s' j = free_blocks s j))"
  proof (cases "m < 2")
    case True
    let ?g = "\<lambda>p. p\<lparr>fblkcnt := 0, num_blocks := 0, free_list := 0\<rparr>"
    have "sinv (upd_fmp k (\<lambda>p. ?g (?f p)) s1) ?L"
      using i1 by (rule sinv_fmp_gone) (use dead k in \<open>simp_all add: s1\<close>)
    moreover have "upd_fmp k ?g (upd_fmp k ?f s1) = upd_fmp k (\<lambda>p. ?g (?f p)) s1" by (simp add: upd_fmp_def)
    moreover have "tn_fmem_create (Some k) start bsize n s = Some (RC TERR_WRONG_PARAM, upd_fmp k ?g (upd_fmp k ?f s1))"
      using k good m(1) True by (simp add: tn_fmem_create_def s1_def [symmetric] Let_def)
    ultimately show ?thesis using True s1(4) by auto
  next
    case False
    then obtain m0 where m0: "m = Suc m0" by (cases m) auto
    obtain p_tmp m' where lk: "link_blocks m0 ?bs ?sa (?sa + ?bs) (mem32 s1) = (p_tmp, m')" by fastforce
    let ?g = "\<lambda>p. p\<lparr>free_list := ?sa, fblkcnt := int m, id_fmp := TN_ID_FSMEMORYPOOL\<rparr>"
    let ?s = "s1\<lparr>fmps := (fmps s1)(k := ?g (?f (fmps s1 k))), mem32 := m'(p_tmp := 0)\<rparr>"
    have c: "sinv ?s ?L" "free_blocks ?s k = blocks ?bs (Suc m0) ?sa" "\<And>j. j \<noteq> k \<Longrightarrow> free_blocks ?s j = free_blocks s1 j"
      by (rule create_pool [OF i1 _ _ pm1 _ m(2,3) [unfolded m0] b lk refl]; use k start m0 in \<open>simp add: s1\<close>)+
    then have "free_blocks ?s j = free_blocks s j" if "j \<noteq> k" for j using that by (simp add: free_blocks_def s1)
    have "upd_fmp k ?g ((upd_fmp k ?f s1)\<lparr>mem32 := m'(p_tmp := 0)\<rparr>) = ?s" by (simp add: upd_fmp_def)
    moreover have "nat (int m - 1) = m0" using m0 by simp
    ultimately have "tn_fmem_create (Some k) start bsize n s = Some (RC TERR_NO_ERR, ?s)" using k good m(1) False lk
      by (simp add: tn_fmem_create_def s1_def [symmetric] Let_def)
    with c(1,2) False m0 s1(5) \<open>\<And>j. j \<noteq> k \<Longrightarrow> free_blocks ?s j = free_blocks s j\<close>
    show ?thesis by (intro exI [of _ ?s] exI [of _ ?L]) simp
  qed
  with m(3-5) show ?thesis by blast
qed

lemma fmem_create_ok:
  assumes "system_inv s" "running s" "pool_memory start bsize n s"
  shows "call_ok s (tn_fmem_create fmp start bsize n s)"
proof (cases "\<exists>k. fmp = Some k \<and> id_fmp (fmps s k) \<noteq> TN_ID_FSMEMORYPOOL")
  case False
  with assms show ?thesis by (auto simp: tn_fmem_create_def intro: call_ok_error split: option.split)
next
  case True
  then obtain k where k: "fmp = Some k" "id_fmp (fmps s k) \<noteq> TN_ID_FSMEMORYPOOL" by blast
  from assms(1) obtain L where i: "sinv s L" by (auto simp: system_inv_def)
  show ?thesis
  proof (cases "start = 0 \<or> n < 2 \<or> bsize < 4")
    case True
    have "sinv (upd_fmp k (\<lambda>p. p\<lparr>fblkcnt := 0, num_blocks := 0, id_fmp := 0, free_list := 0\<rparr>) s) L"
      using i fmp_dead_waiter [OF i k(2)] by (rule sinv_fmp_gone) simp_all
    with k True assms(2) show ?thesis by (auto simp: tn_fmem_create_def intro!: call_ok_RC [where L = L])
  next
    case False
    then have "start \<noteq> 0" "2 \<le> n" "4 \<le> bsize" by auto
    from fmem_create_carves [OF i k(2) this assms(3)] obtain c s' L' where
      "tn_fmem_create (Some k) start bsize n s = Some (RC c, s')" "sinv s' L'" "same_sched s s'" by blast
    with assms(2) k(1) show ?thesis by (auto intro!: call_ok_RC)
  qed
qed

lemma fmem_delete_loop_ok:
  assumes i: "sinv s L" and run: "running s" and l: "id_fmp (fmps s k) = TN_ID_FSMEMORYPOOL"
  shows "call_ok s (tn_fmem_delete_loop k sr s)"
  unfolding tn_fmem_delete_loop_def
proof (rule delete_segment_ok [OF i run])
  show "live s (FmpWaitQ k)" using l by (simp add: fmp_live)
  show "sinv (upd_fmp k (\<lambda>x. x\<lparr>id_fmp := 0\<rparr>) s') L'" if "sinv s' L'" "L' (FmpWaitQ k) = Some []" for s' L'
    using that(1) sinv_no_waiter [OF that(1) _ that(2)] by (rule sinv_fmp_gone) auto
qed simp

lemma fmem_delete_ok:
  assumes "system_inv s" "running s"
  shows "call_ok s (tn_fmem_delete fmp s)"
proof -
  from assms(1) obtain L where "sinv s L" by (auto simp: system_inv_def)
  with assms show ?thesis
    by (auto simp: tn_fmem_delete_def intro: call_ok_error fmem_delete_loop_ok split: option.split)
qed

text \<open>What taking a block comes to, in the services that do it.\<close>

lemma fm_get_cases:
  assumes i: "sinv s L" and l: "id_fmp (fmps s k) = TN_ID_FSMEMORYPOOL"
  shows "(\<exists>a s'. fm_get k s = (a, s') \<and> a \<noteq> 0 \<and> sinv s' L \<and> (\<forall>s0. same_sched s0 s' = same_sched s0 s)) \<or>
    fm_get k s = (0, s) \<and> fblkcnt (fmps s k) = 0"
proof (cases "fblkcnt (fmps s k) > 0")
  case True
  obtain a s' where r: "fm_get k s = (a, s')" by fastforce
  from fm_get_ok [OF i l True this] r show ?thesis by blast
next
  case False
  then have "fblkcnt (fmps s k) = 0" using fmp_wfD(1) [OF fmp_of_inv [OF i] l] by simp
  then show ?thesis by (simp add: fm_get_def)
qed

lemma fmem_get_ok:
  assumes "system_inv s" "user_running s"
  shows "call_ok s (drop_out (tn_fmem_get fmp p_null timeout s))"
proof (cases "\<exists>k. fmp = Some k \<and> timeout \<noteq> 0 \<and> \<not> p_null \<and> id_fmp (fmps s k) = TN_ID_FSMEMORYPOOL \<and> \<not> bad_non_int_context s")
  case False
  with assms show ?thesis
    by (auto simp: tn_fmem_get_def intro: call_ok_error user_running_running split: option.split)
next
  case True
  then obtain k where f: "fmp = Some k" "timeout \<noteq> 0" "\<not> p_null" "id_fmp (fmps s k) = TN_ID_FSMEMORYPOOL"
    "\<not> bad_non_int_context s" by blast
  note run = user_running_running [OF assms(2)]
  from assms(1) obtain L where i: "sinv s L" by (auto simp: system_inv_def)
  define s1 where "s1 = s\<lparr>irq_disabled := True\<rparr>"
  have i1: "sinv s1 L" "same_sched s s1" "id_fmp (fmps s1 k) = TN_ID_FSMEMORYPOOL" using i f by (simp_all add: s1_def)
  have dis: "tn_disable_interrupt s = (irq_disabled s, s1)" by (simp add: tn_disable_interrupt_def s1_def)
  from fm_get_cases [OF i1(1,3)] show ?thesis
  proof
    assume "\<exists>a s'. fm_get k s1 = (a, s') \<and> a \<noteq> 0 \<and> sinv s' L \<and> (\<forall>s0. same_sched s0 s' = same_sched s0 s1)"
    with f i1 run show ?thesis by (auto simp: tn_fmem_get_def dis intro!: call_ok_RC [where L = L])
  next
    assume e: "fm_get k s1 = (0, s1) \<and> fblkcnt (fmps s1 k) = 0"
    from assms(2) obtain t where t: "tn_curr_run_task s1 = Some t" "task_state (tcbs s1 t) = TSK_STATE_RUNNABLE"
      "t \<noteq> tn_idle_task" "t \<noteq> tn_timer_task" by (auto simp: user_running_def s1_def)
    have lv: "live s1 (FmpWaitQ k)" using i1(3) by (simp add: fmp_live)
    then obtain xs where xs: "L (FmpWaitQ k) = Some xs" using sinv_queue [OF i1(1)] by blast
    obtain s2 where "task_curr_to_wait_action (Some (FmpWaitQ k)) TSK_WAIT_REASON_WFIXMEM timeout s1 = Some s2"
      "call_ok s (Some (SWITCH_WAIT_RC, tn_enable_interrupt (irq_disabled s) s2))"
      by (rule block_call_ok [OF i1(1) t _ _ lv xs, of s SWITCH_WAIT_RC])
         (use e sinvD(4) [OF i1(1)] in \<open>auto simp: s1_def wait_cause_def wait_tcb_def
            intro: dque_sides_block [unfolded wait_tcb_def]\<close>)
    with e f show ?thesis by (simp add: tn_fmem_get_def dis)
  qed
qed

lemma fmem_polling_ok:
  assumes "system_inv s"
  shows "running s \<Longrightarrow> call_ok s (drop_out (tn_fmem_get_polling fmp p_null s))"
    "icall_ok s (drop_out (tn_fmem_get_ipolling fmp p_null s))"
proof -
  from assms obtain L where i: "sinv s L" by (auto simp: system_inv_def)
  show "call_ok s (drop_out (tn_fmem_get_polling fmp p_null s))" if run: "running s"
  proof (cases "\<exists>k. fmp = Some k \<and> \<not> p_null \<and> id_fmp (fmps s k) = TN_ID_FSMEMORYPOOL \<and> \<not> bad_non_int_context s")
    case False
    with assms run show ?thesis by (auto simp: tn_fmem_get_polling_def intro: call_ok_error split: option.split)
  next
    case True
    then obtain k where f: "fmp = Some k" "\<not> p_null" "id_fmp (fmps s k) = TN_ID_FSMEMORYPOOL" "\<not> bad_non_int_context s" by blast
    have i1: "sinv (s\<lparr>irq_disabled := True\<rparr>) L" "id_fmp (fmps (s\<lparr>irq_disabled := True\<rparr>) k) = TN_ID_FSMEMORYPOOL"
      using i f by simp_all
    show ?thesis using fm_get_cases [OF i1] run f i1(1)
      by (auto simp: tn_fmem_get_polling_def tn_disable_interrupt_def intro!: call_ok_RC [where L = L])
  qed
  show "icall_ok s (drop_out (tn_fmem_get_ipolling fmp p_null s))"
  proof (cases "\<exists>k. fmp = Some k \<and> \<not> p_null \<and> id_fmp (fmps s k) = TN_ID_FSMEMORYPOOL \<and> \<not> bad_int_context s")
    case False
    with assms show ?thesis by (auto simp: tn_fmem_get_ipolling_def intro: icall_ok_error split: option.split)
  next
    case True
    then obtain k where f: "fmp = Some k" "\<not> p_null" "id_fmp (fmps s k) = TN_ID_FSMEMORYPOOL" "\<not> bad_int_context s" by blast
    show ?thesis using fm_get_cases [OF i f(3)] f i
      by (auto simp: tn_fmem_get_ipolling_def intro!: icall_ok_RC [where L = L])
  qed
qed

text \<open>Giving a block back: to the first waiting task, else to the pool.\<close>

lemma fmem_give_ok:
  assumes i: "sinv s L" and ss: "same_sched s0 s" and l: "id_fmp (fmps s k) = TN_ID_FSMEMORYPOOL"
    and a: "a \<noteq> 0" "not_free a s"
  shows "\<exists>r. fmem_give k a s = Some r \<and> (running s0 \<longrightarrow> call_ok s0 (Some (wake_ret sr r))) \<and> icall_ok s0 (Some (wake_iret r))"
proof -
  obtain xs where xs: "L (FmpWaitQ k) = Some xs" using sinvD(3) [OF i, of "FmpWaitQ k"] l by (auto simp: fmp_live)
  have em: "is_queue_empty (mem s) (FmpWaitQ k) \<longleftrightarrow> xs = []" using sinv_empty [OF i xs] .
  show ?thesis
  proof (cases xs)
    case Nil
    have nil: "L (FmpWaitQ k) = Some []" using xs Nil by simp
    obtain rc s' where r: "fm_put k a s = (rc, s')" by fastforce
    have s': "sinv s' L \<and> same_sched s0 s'"
    proof (cases "fblkcnt (fmps s k) < num_blocks (fmps s k)")
      case True
      from fm_put_ok(1,5) [OF i l nil a True r] ss show ?thesis by simp
    qed (use r i ss in \<open>auto simp: fm_put_def Let_def\<close>)
    have "running s0 \<Longrightarrow> call_ok s0 (Some (wake_ret sr (False, s')))" "icall_ok s0 (Some (wake_iret (False, s')))"
      using s' by (auto simp: wake_ret_def wake_iret_def intro!: call_ok_RC [where L = L] icall_ok_RC [where L = L])
    with Nil em r show ?thesis by (simp add: fmem_give_def)
  next
    case (Cons n ys)
    have v: "tcb_view (c\<lparr>data_elem := a\<rparr>) = tcb_view c" for c by (simp add: tcb_view_def)
    obtain t s2 where t: "wait_queue_pop (FmpWaitQ k) s = Some (Some t, s2)"
      "running s0 \<longrightarrow> call_ok s0 (Some (wake_ret sr (task_wait_complete (Some t) False (upd_tcb t (\<lambda>c. c\<lparr>data_elem := a\<rparr>) s2))))"
      "icall_ok s0 (Some (wake_iret (task_wait_complete (Some t) False (upd_tcb t (\<lambda>c. c\<lparr>data_elem := a\<rparr>) s2))))"
      using wake_calls_ok [OF i ss _ _ v, of "FmpWaitQ k" n ys sr] xs Cons by auto
    with Cons em show ?thesis by (simp add: fmem_give_def)
  qed
qed

lemma fmem_release_ok:
  assumes "system_inv s" "not_free a s"
  shows "running s \<Longrightarrow> call_ok s (tn_fmem_release fmp a s)" "icall_ok s (tn_fmem_irelease fmp a s)"
proof -
  from assms(1) obtain L where i: "sinv s L" by (auto simp: system_inv_def)
  show "call_ok s (tn_fmem_release fmp a s)" if run: "running s"
  proof (cases "\<exists>k. fmp = Some k \<and> a \<noteq> 0 \<and> id_fmp (fmps s k) = TN_ID_FSMEMORYPOOL \<and> \<not> bad_non_int_context s")
    case False
    with assms run show ?thesis by (auto simp: tn_fmem_release_def intro: call_ok_error split: option.split)
  next
    case True
    then obtain k where f: "fmp = Some k" "a \<noteq> 0" "id_fmp (fmps s k) = TN_ID_FSMEMORYPOOL" "\<not> bad_non_int_context s" by blast
    have i1: "sinv (s\<lparr>irq_disabled := True\<rparr>) L" "same_sched s (s\<lparr>irq_disabled := True\<rparr>)"
      "id_fmp (fmps (s\<lparr>irq_disabled := True\<rparr>) k) = TN_ID_FSMEMORYPOOL" "not_free a (s\<lparr>irq_disabled := True\<rparr>)"
      using i f assms(2) by (simp_all add: not_free_def free_blocks_def)
    show ?thesis using fmem_give_ok [OF i1(1-3) f(2) i1(4), of "irq_disabled s"] run f
      by (auto simp: tn_fmem_release_def tn_disable_interrupt_def)
  qed
  show "icall_ok s (tn_fmem_irelease fmp a s)"
  proof (cases "\<exists>k. fmp = Some k \<and> a \<noteq> 0 \<and> id_fmp (fmps s k) = TN_ID_FSMEMORYPOOL \<and> \<not> bad_int_context s")
    case False
    with assms show ?thesis by (auto simp: tn_fmem_irelease_def intro: icall_ok_error split: option.split)
  next
    case True
    then obtain k where f: "fmp = Some k" "a \<noteq> 0" "id_fmp (fmps s k) = TN_ID_FSMEMORYPOOL" "\<not> bad_int_context s" by blast
    show ?thesis using fmem_give_ok [OF i same_sched_refl f(3,2) assms(2), of True] f by (auto simp: tn_fmem_irelease_def)
  qed
qed

interpretation fmem_create: init_service "pool_memory start bsize n" "tn_fmem_create fmp start bsize n" for fmp start bsize n
  by unfold_locales (rule fmem_create_ok)
interpretation fmem_delete: init_service "\<lambda>_. True" "tn_fmem_delete fmp" for fmp
  by unfold_locales (rule fmem_delete_ok)
interpretation fmem_get: kernel_service "\<lambda>_. True" "\<lambda>s. drop_out (tn_fmem_get fmp p_null timeout s)" for fmp p_null timeout
  by unfold_locales (rule fmem_get_ok)
interpretation fmem_get_polling: init_service "\<lambda>_. True" "\<lambda>s. drop_out (tn_fmem_get_polling fmp p_null s)" for fmp p_null
  by unfold_locales (rule fmem_polling_ok(1))
interpretation fmem_get_ipolling: isr_service "\<lambda>_. True" "\<lambda>s. drop_out (tn_fmem_get_ipolling fmp p_null s)" for fmp p_null
  by unfold_locales (rule fmem_polling_ok(2))
interpretation fmem_release: init_service "not_free a" "tn_fmem_release fmp a" for fmp a
  by unfold_locales (rule fmem_release_ok(1))
interpretation fmem_irelease: isr_service "not_free a" "tn_fmem_irelease fmp a" for fmp a
  by unfold_locales (rule fmem_release_ok(2))

end
