(* ===== verification/System.thy ===== *)
theory System
  imports Sem Ticks Event Dqueue Fmem
begin

text \<open>
  The kernel at work: a step relation in which the tasks of an application call services, the
  processor switches between them, interrupts arrive, nest and call the services meant for
  them, and the two system tasks run. Every state that can be reached from the start of the
  system satisfies the system invariant.
\<close>

section \<open>No service touches the interrupt nesting\<close>

definition ic :: "kstate \<Rightarrow> int \<times> int" where
  "ic s = (tn_int_counter s, tn_system_state s)"

named_theorems ic_rules \<open>routines that may fault and keep the interrupt nesting\<close>

lemma ic_fields [simp]:
  "ic (s\<lparr>mem := a\<rparr>) = ic s" "ic (s\<lparr>tcbs := b\<rparr>) = ic s" "ic (s\<lparr>sems := c\<rparr>) = ic s"
  "ic (s\<lparr>events := d\<rparr>) = ic s" "ic (s\<lparr>dques := e\<rparr>) = ic s" "ic (s\<lparr>fmps := f\<rparr>) = ic s"
  "ic (s\<lparr>mem32 := g\<rparr>) = ic s" "ic (s\<lparr>stk_mem := h\<rparr>) = ic s" "ic (s\<lparr>tn_tslice_ticks := i\<rparr>) = ic s"
  "ic (s\<lparr>tn_created_tasks_qty := j\<rparr>) = ic s" "ic (s\<lparr>tn_next_task_to_run := k\<rparr>) = ic s"
  "ic (s\<lparr>tn_curr_run_task := l\<rparr>) = ic s" "ic (s\<lparr>tn_context_switch_request := m\<rparr>) = ic s"
  "ic (s\<lparr>tn_ready_to_run_bmp := n\<rparr>) = ic s" "ic (s\<lparr>tn_idle_count := q\<rparr>) = ic s"
  "ic (s\<lparr>irq_disabled := r\<rparr>) = ic s"
  by (simp_all add: ic_def)

lemma ic_total [simp]:
  "ic (upd_tcb t F s) = ic s" "ic (on_mem G s) = ic s" "ic (upd_sem i S s) = ic s" "ic (upd_event i E s) = ic s"
  "ic (upd_dque i D s) = ic s" "ic (upd_fmp i P s) = ic s" "ic (tn_enable_interrupt sr s) = ic s"
  by (simp_all add: upd_tcb_def on_mem_def upd_sem_def upd_event_def upd_dque_def upd_fmp_def tn_enable_interrupt_def)

lemma ic_sched [simp]:
  "ic (task_to_runnable t s) = ic s" "ic (task_set_dormant_state t s) = ic s" "ic (init_task_stack t s) = ic s"
  "ic (drop_task t s) = ic s" "ic (snd (wake_ret sr r)) = ic (snd r)" "ic (snd (wake_iret r)) = ic (snd r)"
  "ic (snd (switch_ret sr s)) = ic s" "ic (snd (tn_disable_interrupt s)) = ic s"
  by (auto simp: task_to_runnable_def task_set_dormant_state_def init_task_stack_def drop_task_def wake_ret_def
      wake_iret_def switch_ret_def tn_disable_interrupt_def Let_def split: option.split prod.split)

lemma ic_wait_complete [simp]: "ic (snd (task_wait_complete t b s)) = ic s"
  by (auto simp: task_wait_complete_def Let_def split: option.split)

lemma ic_disable: "tn_disable_interrupt s = (sr, s') \<Longrightarrow> ic s' = ic s"
  by (auto simp: tn_disable_interrupt_def)

lemma ic_wake: "wake_ret sr r = (k, s') \<Longrightarrow> ic s' = ic (snd r)" "wake_iret r = (rc, s') \<Longrightarrow> ic s' = ic (snd r)"
  "switch_ret sr s = (k, s') \<Longrightarrow> ic s' = ic s" "task_wait_complete t b s = (w, s') \<Longrightarrow> ic s' = ic s"
  using ic_sched(5) [of sr r] ic_sched(6) [of r] ic_sched(7) [of sr s] ic_wait_complete [of t b s] by auto

lemma ic_find [ic_rules]: "find_next_task_to_run s = Some s' \<Longrightarrow> ic s' = ic s"
  by (auto simp: find_next_task_to_run_def bind_eq_Some)

lemma ic_non_runnable [ic_rules]: "task_to_non_runnable t s = Some s' \<Longrightarrow> ic s' = ic s"
  by (auto simp: task_to_non_runnable_def Let_def bind_eq_Some split: if_splits dest!: ic_find)

lemma ic_curr_to_wait [ic_rules]: "task_curr_to_wait_action q r timeout s = Some s' \<Longrightarrow> ic s' = ic s"
  by (auto simp: task_curr_to_wait_action_def Let_def bind_eq_Some split: option.splits if_splits dest!: ic_non_runnable)

lemma ic_change_priority [ic_rules]: "change_running_task_priority t p s = Some (r, s') \<Longrightarrow> ic s' = ic s"
  by (auto simp: change_running_task_priority_def Let_def bind_eq_Some split: if_splits dest!: ic_find)

lemma ic_pop [ic_rules]: "wait_queue_pop q s = Some (t, s') \<Longrightarrow> ic s' = ic s"
  by (auto simp: wait_queue_pop_def bind_eq_Some split: prod.splits)

lemma ic_leave [ic_rules]: "leave_wait_queues t s = Some s' \<Longrightarrow> ic s' = ic s"
  by (auto simp: leave_wait_queues_def bind_eq_Some Let_def split: if_splits)

lemma ic_delete_waiters_aux: "delete_waiters q sr s = Some r \<Longrightarrow> ic (snd (snd r)) = ic s"
proof (rule delete_waiters.raw_induct [where P = "\<lambda>q sr s r. ic (snd (snd r)) = ic s"])
  fix f q sr s r
  assume IH: "\<And>q sr s r. f q sr s = Some r \<Longrightarrow> ic (snd (snd r)) = ic s"
    and r: "(if is_queue_empty (mem s) q then Some (False, sr, s)
      else let (sr, s) = if \<not> irq_disabled s then tn_disable_interrupt s else (sr, s)
        in do { (task, s) \<leftarrow> wait_queue_pop q s;
                let (woken, s) = task_wait_complete task False s;
                if woken
                then do { t \<leftarrow> task;
                          Some (True, sr, tn_enable_interrupt sr
                                 (upd_tcb t (\<lambda>c. c\<lparr>task_wait_rc := TERR_DLT\<rparr>) s)) }
                else f q sr s }) = Some r"
  show "ic (snd (snd r)) = ic s"
    using r by (auto simp: bind_eq_Some split_def tn_disable_interrupt_def Let_def split: if_splits dest!: ic_pop IH)
qed

lemma ic_delete_waiters [ic_rules]: "delete_waiters q sr s = Some (w, sr', s') \<Longrightarrow> ic s' = ic s"
  using ic_delete_waiters_aux by fastforce

lemma ic_scan_aux: "scan_event_waitqueue_loop i que wc s = Some r \<Longrightarrow> ic (snd r) = ic s"
proof (rule scan_event_waitqueue_loop.raw_induct [where P = "\<lambda>i que wc s r. ic (snd r) = ic s"])
  fix f i que wcflag s r
  assume IH: "\<And>i que wc s r. f i que wc s = Some r \<Longrightarrow> ic (snd r) = ic s"
    and r: "do { p \<leftarrow> get_task_by_tsk_queue (Some que);
          task \<leftarrow> p;
          let tmp_que = nxt (mem s) que;
          if event_cond (ev_pattern (events s i)) (ewait_mode (tcbs s task)) (ewait_pattern (tcbs s task))
          then
            let s = on_mem (queue_remove_entry que) s;
                s = upd_tcb task (\<lambda>c. c\<lparr>ewait_pattern := ev_pattern (events s i)\<rparr>) s;
                (woken, s) = task_wait_complete (Some task) False s;
                wcflag = (wcflag \<or> woken)
            in if tmp_que = EventWaitQ i then Some (wcflag, s)
               else f i tmp_que wcflag s
          else if tmp_que = EventWaitQ i then Some (wcflag, s)
          else f i tmp_que wcflag s } = Some r"
  show "ic (snd r) = ic s"
    using r by (auto simp: bind_eq_Some Let_def split: if_splits prod.splits dest!: ic_wake(4) IH)
qed

lemma ic_event_set [ic_rules]: "event_set_flags i p s = Some r \<Longrightarrow> ic (snd r) = ic s"
  by (auto simp: event_set_flags_def scan_event_waitqueue_def bind_eq_Some Let_def split: if_splits dest!: ic_scan_aux)

lemma ic_event_try [ic_rules]: "event_try i w m s = Some (rc, v, s') \<Longrightarrow> ic s' = ic s"
  by (auto simp: event_try_def split: if_splits)

lemma ic_fifo [ic_rules]: "dque_fifo_write d x s = Some (rc, s') \<Longrightarrow> ic s' = ic s"
  "dque_fifo_read d n s = Some (rc, v, s') \<Longrightarrow> ic s' = ic s"
  by (auto simp: dque_fifo_write_def dque_fifo_read_def bind_eq_Some split: option.splits if_splits)

lemma ic_put [ic_rules]: "queue_put i x s = Some r \<Longrightarrow> ic (case r of Inl w \<Rightarrow> snd w | Inr w \<Rightarrow> snd w) = ic s"
  by (auto simp: queue_put_def bind_eq_Some Let_def split: if_splits dest!: ic_fifo ic_pop)

lemma ic_take [ic_rules]: "queue_take i s = Some r \<Longrightarrow> ic (case r of Inl (v, w) \<Rightarrow> snd w | Inr s \<Rightarrow> s) = ic s"
  by (auto simp: queue_take_def bind_eq_Some Let_def split: if_splits dest!: ic_fifo ic_pop)

lemma ic_fm [simp]: "ic (snd (fm_put k a s)) = ic s" "ic (snd (fm_get k s)) = ic s"
  by (simp_all add: fm_put_def fm_get_def Let_def)

lemma ic_get: "fm_get k s = (a, s') \<Longrightarrow> ic s' = ic s"
  using ic_fm(2) [of k s] by simp

lemma ic_give [ic_rules]: "fmem_give k a s = Some r \<Longrightarrow> ic (snd r) = ic s"
  by (auto simp: fmem_give_def bind_eq_Some Let_def split: if_splits dest!: ic_pop)

lemma bind_SomeE: "Option.bind m f = Some y \<Longrightarrow> (\<And>x. m = Some x \<Longrightarrow> f x = Some y \<Longrightarrow> P) \<Longrightarrow> P"
  by (auto simp: bind_eq_Some)

lemmas ic_unfold = split_def Let_def bind_eq_Some tn_disable_interrupt_def

lemma ic_sems:
  "tn_sem_create sem a b s = Some (k, s') \<Longrightarrow> ic s' = ic s"
  "tn_sem_delete sem s = Some (k, s') \<Longrightarrow> ic s' = ic s"
  "tn_sem_delete_loop i sr s = Some (k, s') \<Longrightarrow> ic s' = ic s"
  "tn_sem_signal sem s = Some (k, s') \<Longrightarrow> ic s' = ic s"
  "tn_sem_isignal sem s = Some (rc, s') \<Longrightarrow> ic s' = ic s"
  "tn_sem_acquire sem timeout s = Some (k, s') \<Longrightarrow> ic s' = ic s"
  "tn_sem_polling sem s = Some (k, s') \<Longrightarrow> ic s' = ic s"
  "tn_sem_ipolling sem s = Some (rc, s') \<Longrightarrow> ic s' = ic s"
proof -
  show l: "tn_sem_delete_loop i sr s = Some (k, s') \<Longrightarrow> ic s' = ic s" for i sr
    by (auto simp: tn_sem_delete_loop_def ic_unfold split: if_splits dest!: ic_rules)
  show "tn_sem_delete sem s = Some (k, s') \<Longrightarrow> ic s' = ic s"
    by (auto simp: tn_sem_delete_def split: option.splits if_splits dest!: l)
qed (auto simp: tn_sem_create_def tn_sem_signal_def tn_sem_isignal_def
      tn_sem_acquire_def tn_sem_polling_def tn_sem_ipolling_def ic_unfold
      split: option.splits if_splits dest!: ic_rules ic_wake)

lemma ic_tasks:
  "tn_task_create task f prio stk sz param option s = Some (k, s') \<Longrightarrow> ic s' = ic s"
  "tn_task_suspend task s = Some (k, s') \<Longrightarrow> ic s' = ic s"
  "tn_task_resume task s = Some (k, s') \<Longrightarrow> ic s' = ic s"
  "tn_task_sleep timeout s = Some (k, s') \<Longrightarrow> ic s' = ic s"
  "tn_task_wakeup task s = Some (k, s') \<Longrightarrow> ic s' = ic s"
  "tn_task_iwakeup task s = Some (rc, s') \<Longrightarrow> ic s' = ic s"
  "tn_task_activate task s = Some (k, s') \<Longrightarrow> ic s' = ic s"
  "tn_task_iactivate task s = Some (rc, s') \<Longrightarrow> ic s' = ic s"
  "tn_task_release_wait task s = Some (k, s') \<Longrightarrow> ic s' = ic s"
  "tn_task_irelease_wait task s = Some (rc, s') \<Longrightarrow> ic s' = ic s"
  "tn_task_terminate task s = Some (k, s') \<Longrightarrow> ic s' = ic s"
  "tn_task_delete task s = Some (k, s') \<Longrightarrow> ic s' = ic s"
  "tn_task_change_priority task prio s = Some (k, s') \<Longrightarrow> ic s' = ic s"
  by (auto simp: tn_task_create_def tn_task_suspend_def tn_task_resume_def tn_task_sleep_def tn_task_wakeup_def
      tn_task_iwakeup_def tn_task_activate_def tn_task_iactivate_def tn_task_release_wait_def tn_task_irelease_wait_def
      tn_task_terminate_def tn_task_delete_def tn_task_change_priority_def count_wakeup_def count_activate_def ic_unfold
      split: option.splits if_splits dest!: ic_rules ic_wake)

lemma ic_exit: "tn_task_exit attr s = Some (Inr s') \<Longrightarrow> ic s' = ic s"
  by (auto simp: tn_task_exit_def tn_switch_context_exit_def ic_unfold split: option.splits if_splits dest!: ic_rules)

lemma ic_events:
  "tn_event_create evf a p s = Some (k, s') \<Longrightarrow> ic s' = ic s"
  "tn_event_delete_loop i sr s = Some (k, s') \<Longrightarrow> ic s' = ic s"
  "tn_event_delete evf s = Some (k, s') \<Longrightarrow> ic s' = ic s"
  "tn_event_wait evf w m n timeout s = Some (k, v, s') \<Longrightarrow> ic s' = ic s"
  "tn_event_wait_polling evf w m n s = Some (k, v, s') \<Longrightarrow> ic s' = ic s"
  "tn_event_iwait evf w m n s = Some (rc, v, s') \<Longrightarrow> ic s' = ic s"
  "tn_event_set evf p s = Some (k, s') \<Longrightarrow> ic s' = ic s"
  "tn_event_iset evf p s = Some (rc, s') \<Longrightarrow> ic s' = ic s"
  "tn_event_clear evf p s = Some (k, s') \<Longrightarrow> ic s' = ic s"
  "tn_event_iclear evf p s = Some (rc, s') \<Longrightarrow> ic s' = ic s"
proof -
  show l: "tn_event_delete_loop i sr s = Some (k, s') \<Longrightarrow> ic s' = ic s" for i sr
    by (auto simp: tn_event_delete_loop_def ic_unfold split: if_splits dest!: ic_rules)
  show "tn_event_delete evf s = Some (k, s') \<Longrightarrow> ic s' = ic s"
    by (auto simp: tn_event_delete_def split: option.splits if_splits dest!: l)
qed (auto simp: tn_event_create_def tn_event_wait_def tn_event_wait_polling_def tn_event_iwait_def tn_event_set_def
      tn_event_iset_def tn_event_clear_def tn_event_iclear_def ic_unfold
      split: option.splits if_splits dest!: ic_rules ic_wake)

lemma ic_queues:
  "tn_queue_create dque xs n s = Some (k, s') \<Longrightarrow> ic s' = ic s"
  "tn_queue_delete_receivers i sr s = Some (k, s') \<Longrightarrow> ic s' = ic s"
  "tn_queue_delete_loop i sr s = Some (k, s') \<Longrightarrow> ic s' = ic s"
  "tn_queue_delete dque s = Some (k, s') \<Longrightarrow> ic s' = ic s"
  "tn_queue_send dque x timeout s = Some (k, s') \<Longrightarrow> ic s' = ic s"
  "tn_queue_send_polling dque x s = Some (k, s') \<Longrightarrow> ic s' = ic s"
  "tn_queue_isend_polling dque x s = Some (rc, s') \<Longrightarrow> ic s' = ic s"
  "tn_queue_receive dque b timeout s = Some (k, v, s') \<Longrightarrow> ic s' = ic s"
  "tn_queue_receive_polling dque b s = Some (k, v, s') \<Longrightarrow> ic s' = ic s"
  "tn_queue_ireceive dque b s = Some (rc, v, s') \<Longrightarrow> ic s' = ic s"
proof -
  show r: "tn_queue_delete_receivers i sr s = Some (k, s') \<Longrightarrow> ic s' = ic s" for i sr s
    by (auto simp: tn_queue_delete_receivers_def ic_unfold split: if_splits dest!: ic_rules)
  show l: "tn_queue_delete_loop i sr s = Some (k, s') \<Longrightarrow> ic s' = ic s" for i sr
    by (auto simp: tn_queue_delete_loop_def ic_unfold split: if_splits dest!: ic_rules r)
  show "tn_queue_delete dque s = Some (k, s') \<Longrightarrow> ic s' = ic s"
    by (auto simp: tn_queue_delete_def split: option.splits if_splits dest!: l)
  show "tn_queue_receive dque b timeout s = Some (k, v, s') \<Longrightarrow> ic s' = ic s"
    "tn_queue_receive_polling dque b s = Some (k, v, s') \<Longrightarrow> ic s' = ic s"
    "tn_queue_ireceive dque b s = Some (rc, v, s') \<Longrightarrow> ic s' = ic s"
    by (auto simp: tn_queue_receive_def tn_queue_receive_polling_def tn_queue_ireceive_def tn_disable_interrupt_def
        elim!: bind_SomeE split: option.split_asm if_split_asm sum.split_asm prod.split_asm dest!: ic_rules ic_wake)
qed (auto simp: tn_queue_create_def tn_queue_send_def tn_queue_send_polling_def tn_queue_isend_polling_def
      ic_unfold sum.case_eq_if split: option.splits if_splits dest!: ic_rules ic_wake)

lemma ic_fmems:
  "tn_fmem_create fmp a b n s = Some (k, s') \<Longrightarrow> ic s' = ic s"
  "tn_fmem_delete_loop i sr s = Some (k, s') \<Longrightarrow> ic s' = ic s"
  "tn_fmem_delete fmp s = Some (k, s') \<Longrightarrow> ic s' = ic s"
  "tn_fmem_get fmp p timeout s = Some (k, v, s') \<Longrightarrow> ic s' = ic s"
  "tn_fmem_get_polling fmp p s = Some (k, v, s') \<Longrightarrow> ic s' = ic s"
  "tn_fmem_get_ipolling fmp p s = Some (rc, v, s') \<Longrightarrow> ic s' = ic s"
  "tn_fmem_release fmp a s = Some (k, s') \<Longrightarrow> ic s' = ic s"
  "tn_fmem_irelease fmp a s = Some (rc, s') \<Longrightarrow> ic s' = ic s"
proof -
  show l: "tn_fmem_delete_loop i sr s = Some (k, s') \<Longrightarrow> ic s' = ic s" for i sr
    by (auto simp: tn_fmem_delete_loop_def ic_unfold split: if_splits dest!: ic_rules)
  show "tn_fmem_delete fmp s = Some (k, s') \<Longrightarrow> ic s' = ic s"
    by (auto simp: tn_fmem_delete_def split: option.splits if_splits dest!: l)
qed (auto simp: tn_fmem_create_def tn_fmem_get_def tn_fmem_get_polling_def tn_fmem_get_ipolling_def
      tn_fmem_release_def tn_fmem_irelease_def ic_unfold
      split: option.splits if_splits dest!: ic_rules ic_wake)

lemma ic_scan_timer: "timer_scan que s = Some s' \<Longrightarrow> ic s' = ic s"
proof (rule timer_scan.raw_induct [where P = "\<lambda>que s s'. ic s' = ic s"])
  fix f que s s'
  assume IH: "\<And>que s s'. f que s = Some s' \<Longrightarrow> ic s' = ic s"
    and r: "do { p \<leftarrow> get_task_by_timer_queque (Some que); task \<leftarrow> p;
          let s = count_down task s;
          if nxt (mem s) que = TimeoutL then Some s else f (nxt (mem s) que) s } = Some s'"
  have "ic (count_down t s) = ic s" for t by (simp add: count_down_def Let_def)
  then show "ic s' = ic s" using r by (auto simp: bind_eq_Some Let_def split: if_splits dest!: IH)
qed

lemma ic_ticks:
  "tn_timer_task_func s = Some (k, s') \<Longrightarrow> ic s' = ic s"
  "tn_sys_tslice_ticks p v s = Some (k, s') \<Longrightarrow> ic s' = ic s"
  "tn_tick_int_processing s = Some s' \<Longrightarrow> ic s' = ic s"
  "ic (tn_idle_task_func s) = ic s" "ic (tn_switch_context s) = ic s"
proof -
  have "round_robin t s = Some s' \<Longrightarrow> ic s' = ic s" for t s'
    by (auto simp: round_robin_def ic_unfold split: if_splits)
  then show "tn_tick_int_processing s = Some s' \<Longrightarrow> ic s' = ic s"
    by (auto simp: tn_tick_int_processing_def release_timer_task_def ic_unfold split: if_splits)
qed (auto simp: tn_timer_task_func_def tn_sys_tslice_ticks_def tn_idle_task_func_def tn_switch_context_def ic_unfold
      split: if_splits dest!: ic_rules ic_scan_timer)

section \<open>The calls\<close>

text \<open>
  The services that the start-up code of the application and every task may call, with the
  obligations of the caller. \<open>\<dots>_more\<close> is a deletion that continues after a context switch,
  while its object still exists.
\<close>

inductive init_call :: "kstate \<Rightarrow> (kret \<times> kstate) option \<Rightarrow> bool" where
  task_create: "create_pre task prio option s \<Longrightarrow> init_call s (tn_task_create task f prio stk sz param option s)"
| task_suspend: "user_target task s \<Longrightarrow> init_call s (tn_task_suspend task s)"
| task_resume: "init_call s (tn_task_resume task s)"
| task_wakeup: "init_call s (tn_task_wakeup task s)"
| task_activate: "init_call s (tn_task_activate task s)"
| task_release_wait: "init_call s (tn_task_release_wait task s)"
| task_terminate: "user_target task s \<Longrightarrow> init_call s (tn_task_terminate task s)"
| task_delete: "init_call s (tn_task_delete task s)"
| task_change_priority: "user_target task s \<Longrightarrow> init_call s (tn_task_change_priority task p s)"
| sys_tslice_ticks: "init_call s (tn_sys_tslice_ticks p v s)"
| sem_create: "init_call s (tn_sem_create (Some i) start_value max_val s)"
| sem_delete: "init_call s (tn_sem_delete sem s)"
| sem_delete_more: "id_sem (sems s i) = TN_ID_SEMAPHORE \<Longrightarrow> init_call s (tn_sem_delete_loop i sr s)"
| sem_signal: "init_call s (tn_sem_signal sem s)"
| sem_polling: "init_call s (tn_sem_polling sem s)"
| event_create: "init_call s (tn_event_create evf attr pattern s)"
| event_delete: "init_call s (tn_event_delete evf s)"
| event_delete_more: "id_event (events s i) = TN_ID_EVENT \<Longrightarrow> init_call s (tn_event_delete_loop i sr s)"
| event_polling: "init_call s (drop_out (tn_event_wait_polling evf wp mode p_null s))"
| event_set: "init_call s (tn_event_set evf pattern s)"
| event_clear: "init_call s (tn_event_clear evf pattern s)"
| queue_create: "fifo_array fifo n \<Longrightarrow> init_call s (tn_queue_create dque fifo n s)"
| queue_delete: "init_call s (tn_queue_delete dque s)"
| queue_delete_more: "id_dque (dques s i) = TN_ID_DATAQUEUE \<Longrightarrow> init_call s (tn_queue_delete_loop i sr s)"
| queue_delete_receivers_more: "id_dque (dques s i) = TN_ID_DATAQUEUE \<Longrightarrow> is_queue_empty (mem s) (DqSendQ i) \<Longrightarrow>
     init_call s (tn_queue_delete_receivers i sr s)"
| queue_send_polling: "init_call s (tn_queue_send_polling dque x s)"
| queue_receive_polling: "init_call s (drop_out (tn_queue_receive_polling dque p_null s))"
| fmem_create: "pool_memory start bsize n s \<Longrightarrow> init_call s (tn_fmem_create fmp start bsize n s)"
| fmem_delete: "init_call s (tn_fmem_delete fmp s)"
| fmem_delete_more: "id_fmp (fmps s i) = TN_ID_FSMEMORYPOOL \<Longrightarrow> init_call s (tn_fmem_delete_loop i sr s)"
| fmem_get_polling: "init_call s (drop_out (tn_fmem_get_polling fmp p_null s))"
| fmem_release: "not_free a s \<Longrightarrow> init_call s (tn_fmem_release fmp a s)"

text \<open>Tasks of the application may block, too.\<close>

inductive task_call :: "kstate \<Rightarrow> (kret \<times> kstate) option \<Rightarrow> bool" where
  init: "init_call s r \<Longrightarrow> task_call s r"
| task_sleep: "task_call s (tn_task_sleep timeout s)"
| sem_acquire: "task_call s (tn_sem_acquire sem timeout s)"
| event_wait: "task_call s (drop_out (tn_event_wait evf wp mode p_null timeout s))"
| queue_send: "task_call s (tn_queue_send dque x timeout s)"
| queue_receive: "task_call s (drop_out (tn_queue_receive dque p_null timeout s))"
| fmem_get: "task_call s (drop_out (tn_fmem_get fmp p_null timeout s))"

text \<open>The services of interrupt handlers.\<close>

inductive isr_call :: "kstate \<Rightarrow> (int \<times> kstate) option \<Rightarrow> bool" where
  tick: "isr_call s (map_option (Pair TERR_NO_ERR) (tn_tick_int_processing s))"
| task_iwakeup: "isr_call s (tn_task_iwakeup task s)"
| task_iactivate: "isr_call s (tn_task_iactivate task s)"
| task_irelease_wait: "isr_call s (tn_task_irelease_wait task s)"
| sem_isignal: "isr_call s (tn_sem_isignal sem s)"
| sem_ipolling: "isr_call s (tn_sem_ipolling sem s)"
| event_iwait: "isr_call s (drop_out (tn_event_iwait evf wp mode p_null s))"
| event_iset: "isr_call s (tn_event_iset evf pattern s)"
| event_iclear: "isr_call s (tn_event_iclear evf pattern s)"
| queue_isend_polling: "isr_call s (tn_queue_isend_polling dque x s)"
| queue_ireceive: "isr_call s (drop_out (tn_queue_ireceive dque p_null s))"
| fmem_get_ipolling: "isr_call s (drop_out (tn_fmem_get_ipolling fmp p_null s))"
| fmem_irelease: "not_free a s \<Longrightarrow> isr_call s (tn_fmem_irelease fmp a s)"

lemma init_call_ok:
  assumes r: "init_call s r" and i: "system_inv s" "running s"
  shows "call_ok s r"
proof -
  from i(1) obtain L where L: "sinv s L" by (auto simp: system_inv_def)
  note loops = sem_delete_loop_ok [OF L i(2)] event_delete_loop_ok [OF L i(2)] queue_delete_loop_ok [OF L i(2)]
    fmem_delete_loop_ok [OF L i(2)]
  have recv: "call_ok s (tn_queue_delete_receivers i sr s)"
    if lv: "id_dque (dques s i) = TN_ID_DATAQUEUE" and em: "is_queue_empty (mem s) (DqSendQ i)" for i sr
  proof -
    obtain xs where "L (DqSendQ i) = Some xs" using sinvD(3) [OF L, of "DqSendQ i"] lv by (auto simp: dque_live)
    with sinv_empty [OF L this] lv em show ?thesis by (intro delete_receivers_ok [OF L i(2)]) simp_all
  qed
  from r show ?thesis
    by cases (simp_all add: i loops recv task_create.init_call task_suspend.init_call task_resume.init_call
       task_wakeup.init_call task_activate.init_call task_release_wait.init_call task_terminate.init_call
       task_delete.init_call task_change_priority.init_call sys_tslice_ticks_ok sem_create.init_call sem_delete.init_call
       sem_signal.init_call sem_polling.init_call event_create.init_call event_delete.init_call
       event_polling.init_call event_set.init_call event_clear.init_call queue_create.init_call
       queue_delete.init_call queue_send_polling.init_call queue_receive_polling.init_call fmem_create.init_call
       fmem_delete.init_call fmem_get_polling.init_call fmem_release.init_call)
qed

lemma task_calls_ok:
  assumes "task_call s r" "system_inv s" "user_running s"
  shows "call_ok s r"
  using assms(1)
  by cases (simp_all add: assms(2,3) init_call_ok user_running_running task_sleep.service sem_acquire.service
     event_wait.service queue_send.service queue_receive.service fmem_get.service)

lemma isr_call_ok:
  assumes "isr_call s r" "system_inv s" "has_current s"
  shows "icall_ok s r"
  using assms(1)
  by cases (simp_all add: assms(2,3) tick_int_processing_ok task_iwakeup.iservice task_iactivate.iservice
     task_irelease_wait.iservice sem_isignal.iservice sem_ipolling.iservice event_iwait.iservice event_iset.iservice
     event_iclear.iservice queue_isend_polling.iservice queue_ireceive.iservice fmem_get_ipolling.iservice
     fmem_irelease.iservice)

lemma drop_out_Some: "drop_out r = Some (k, s') \<Longrightarrow> \<exists>v. r = Some (k, v, s')"
  by (auto simp: drop_out_def)

lemma calls_ic:
  "init_call s (Some (k, s')) \<Longrightarrow> ic s' = ic s"
  "task_call s (Some (k, s')) \<Longrightarrow> ic s' = ic s"
  "isr_call s (Some (rc, s')) \<Longrightarrow> ic s' = ic s"
proof -
  show l: "init_call s (Some (k, s')) \<Longrightarrow> ic s' = ic s"
    by (erule init_call.cases)
       (auto dest!: sym [of "Some _"] drop_out_Some dest: ic_tasks ic_sems ic_events ic_queues ic_fmems ic_ticks(1-3))
  show "task_call s (Some (k, s')) \<Longrightarrow> ic s' = ic s"
    by (erule task_call.cases)
       (auto dest!: sym [of "Some _"] drop_out_Some dest: l ic_tasks ic_sems ic_events ic_queues ic_fmems)
  show "isr_call s (Some (rc, s')) \<Longrightarrow> ic s' = ic s"
    by (erule isr_call.cases)
       (auto dest!: sym [of "Some _"] drop_out_Some dest: ic_tasks ic_sems ic_events ic_queues ic_fmems ic_ticks(1-3))
qed

section \<open>The step relation\<close>

text \<open>
  A configuration: the state of the kernel, and for every task whether the next thing it does is
  to call \<open>tn_switch_context\<close> at the end of a service. An interrupt may come first, so the
  call and the switch are two steps.
\<close>

record config =
  ks :: kstate
  pend :: "tid \<Rightarrow> bool"

definition at_task :: "tid \<Rightarrow> config \<Rightarrow> bool" where
  "at_task t c \<longleftrightarrow> tn_int_counter (ks c) = 0 \<and> tn_curr_run_task (ks c) = Some t"

definition returned :: "tid \<Rightarrow> kret \<times> kstate \<Rightarrow> config \<Rightarrow> config" where
  "returned t = (\<lambda>(r, s) c. \<lparr>ks = s, pend = (case r of RC _ \<Rightarrow> pend c | _ \<Rightarrow> (pend c)(t := True))\<rparr>)"

text \<open>
  The timer task first runs the application's \<open>tn_app_init\<close>; the relation lets it make such
  calls at any time. Interrupts nest as far as handlers enable them.
\<close>

inductive kstep :: "config \<Rightarrow> config \<Rightarrow> bool" where
  app_init: "at_task tn_timer_task c \<Longrightarrow> \<not> pend c tn_timer_task \<Longrightarrow> init_call (ks c) (Some r) \<Longrightarrow>
     kstep c (returned tn_timer_task r c)"
| timer_round: "at_task tn_timer_task c \<Longrightarrow> \<not> pend c tn_timer_task \<Longrightarrow> tn_timer_task_func (ks c) = Some r \<Longrightarrow>
     kstep c (returned tn_timer_task r c)"
| idle_round: "at_task tn_idle_task c \<Longrightarrow> \<not> pend c tn_idle_task \<Longrightarrow> kstep c (c\<lparr>ks := tn_idle_task_func (ks c)\<rparr>)"
| service: "at_task t c \<Longrightarrow> \<not> pend c t \<Longrightarrow> t \<noteq> tn_timer_task \<Longrightarrow> t \<noteq> tn_idle_task \<Longrightarrow> task_call (ks c) (Some r) \<Longrightarrow>
     kstep c (returned t r c)"
| exit: "at_task t c \<Longrightarrow> \<not> pend c t \<Longrightarrow> t \<noteq> tn_timer_task \<Longrightarrow> t \<noteq> tn_idle_task \<Longrightarrow>
     attr = TN_EXIT_AND_DELETE_TASK \<longrightarrow> activate_count (tcbs (ks c) t) \<le> 0 \<Longrightarrow>
     tn_task_exit attr (ks c) = Some (Inr s') \<Longrightarrow> kstep c \<lparr>ks = s', pend = (pend c)(t := False)\<rparr>"
| switch: "at_task t c \<Longrightarrow> pend c t \<Longrightarrow> kstep c \<lparr>ks = tn_switch_context (ks c), pend = (pend c)(t := False)\<rparr>"
| irq: "\<not> irq_disabled (ks c) \<Longrightarrow> kstep c (c\<lparr>ks := irq_enter (ks c)\<rparr>)"
| handler: "tn_int_counter (ks c) > 0 \<Longrightarrow> isr_call (ks c) (Some (rc, s')) \<Longrightarrow> kstep c (c\<lparr>ks := s'\<rparr>)"
| irq_return: "tn_int_counter (ks c) > 0 \<Longrightarrow> irq_exit (ks c) = Some s' \<Longrightarrow> kstep c (c\<lparr>ks := s'\<rparr>)"

text \<open>The invariant of configurations: the current task is runnable and the scheduler's choice,
  unless it is about to switch, or an interrupt handler has asked for a switch.\<close>

definition cinv :: "config \<Rightarrow> bool" where
  "cinv c \<longleftrightarrow> system_inv (ks c) \<and> has_current (ks c) \<and> 0 \<le> tn_int_counter (ks c) \<and>
     (\<forall>t. tn_curr_run_task (ks c) = Some t \<longrightarrow> \<not> pend c t \<longrightarrow>
        running (ks c) \<and> (scheduled (ks c) \<or> 0 < tn_int_counter (ks c) \<and> tn_context_switch_request (ks c)))"

lemma cinvD:
  assumes "cinv c" "at_task t c" "\<not> pend c t"
  shows "system_inv (ks c)" "running (ks c)" "scheduled (ks c)" "tn_curr_run_task (ks c) = Some t" "tn_int_counter (ks c) = 0"
  using assms by (auto simp: cinv_def at_task_def)

lemma ic_counter: "ic s' = ic s \<Longrightarrow> tn_int_counter s' = tn_int_counter s"
  by (simp add: ic_def)

lemma returned_inv:
  assumes "call_ok (ks c) (Some r)" "cinv c" "at_task t c" "\<not> pend c t" "ic (snd r) = ic (ks c)"
  shows "cinv (returned t r c)"
proof -
  obtain k s where r: "r = (k, s)" by fastforce
  show ?thesis using assms(1) cinvD [OF assms(2-4)] ic_counter [OF assms(5)] assms(4) unfolding r
    by (cases k) (auto simp: call_ok_def cinv_def returned_def)
qed

lemma switched_inv:
  assumes "system_inv s" "running s" "scheduled s" "0 \<le> tn_int_counter s"
  shows "cinv \<lparr>ks = s, pend = P\<rparr>"
  using assms by (simp add: cinv_def running_has_current)

lemma irq_return_inv:
  assumes c: "cinv c" and n: "tn_int_counter (ks c) > 0" and r: "irq_exit (ks c) = Some s'"
  shows "cinv (c\<lparr>ks := s'\<rparr>)"
proof -
  from c obtain L where i: "sinv (ks c) L" and h: "has_current (ks c)" by (auto simp: cinv_def system_inv_def)
  obtain m where m: "tn_next_task_to_run (ks c) = Some m" "task_state (tcbs (ks c) m) = TSK_STATE_RUNNABLE"
    using i by (rule sinv_next)
  have i': "system_inv s'" "0 \<le> tn_int_counter s'"
    using r i n by (auto simp: irq_exit_def Let_def system_inv_def split: if_splits option.splits)
  show ?thesis
  proof (cases "tn_int_counter (ks c) = 1 \<and> tn_context_switch_request (ks c)")
    case True
    then have "s' = (ks c)\<lparr>tn_int_counter := 0, tn_context_switch_request := False, tn_curr_run_task := Some m,
        irq_disabled := False\<rparr>" using r m by (simp add: irq_exit_def)
    then show ?thesis using i' m by (auto simp: cinv_def running_def scheduled_def has_current_def)
  next
    case False
    then have "s' = (ks c)\<lparr>tn_int_counter := tn_int_counter (ks c) - 1\<rparr> \<and> tn_int_counter (ks c) \<noteq> 1 \<or>
        s' = (ks c)\<lparr>tn_int_counter := 0, irq_disabled := False\<rparr> \<and> \<not> tn_context_switch_request (ks c)"
      using r by (auto simp: irq_exit_def Let_def split: if_splits)
    then show ?thesis using c n i' h
      by (auto simp: cinv_def running_def scheduled_def has_current_def)
  qed
qed

lemma kstep_inv:
  assumes "kstep c c'" "cinv c"
  shows "cinv c'"
  using assms(1)
proof cases
  case (app_init r)
  note d = cinvD [OF assms(2) app_init(2,3)]
  show ?thesis unfolding app_init(1)
    by (rule returned_inv [OF init_call_ok [OF app_init(4) d(1,2)] assms(2) app_init(2,3)])
       (use app_init(4) calls_ic(1) [of "ks c" "fst r" "snd r"] in simp)
next
  case (timer_round r)
  note d = cinvD [OF assms(2) timer_round(2,3)]
  have "call_ok (ks c) (tn_timer_task_func (ks c))"
    using timer_task_func_ok [OF d(1,4)] d(2,4) by (auto simp: running_def)
  then show ?thesis unfolding timer_round(1)
    by (intro returned_inv [OF _ assms(2) timer_round(2,3)])
       (use timer_round(4) ic_ticks(1) [of "ks c" "fst r" "snd r"] in simp_all)
next
  case idle_round
  note d = cinvD [OF assms(2) idle_round(2,3)]
  have "system_inv (tn_idle_task_func (ks c))" "running (tn_idle_task_func (ks c))" "scheduled (tn_idle_task_func (ks c))"
    using d(1-3) by (simp_all add: tn_idle_task_func_def tn_disable_interrupt_def tn_enable_interrupt_def system_inv_def running_def scheduled_def)
  then show ?thesis unfolding idle_round(1) using d(5) ic_counter [OF ic_ticks(4), of "ks c"]
    by (simp add: cinv_def running_has_current)
next
  case (service t r)
  note d = cinvD [OF assms(2) service(2,3)]
  have "user_running (ks c)" using d(2,4) service(4,5) by (auto simp: running_def user_running_def)
  then show ?thesis unfolding service(1)
    by (intro returned_inv [OF task_calls_ok [OF service(6) d(1)] assms(2) service(2,3)])
       (use service(6) calls_ic(2) [of "ks c" "fst r" "snd r"] in simp_all)
next
  case (exit t attr s')
  note d = cinvD [OF assms(2) exit(2,3)]
  have u: "user_running (ks c)" using d(2,4) exit(4,5) by (auto simp: running_def user_running_def)
  have "system_inv s' \<and> running s' \<and> scheduled s'"
    using task_exit_ok [OF d(1) u, of attr] exit(6,7) d(4) by auto
  then show ?thesis unfolding exit(1) using d(5) ic_counter [OF ic_exit [OF exit(7)]] by (intro switched_inv) simp_all
next
  case (switch t)
  have "system_inv (ks c)" "tn_int_counter (ks c) = 0" using assms(2) switch(2) by (auto simp: cinv_def at_task_def)
  with switch_running [of "ks c"] show ?thesis unfolding switch(1)
    by (intro switched_inv) (simp_all add: ic_counter [OF ic_ticks(5)])
next
  case irq
  then show ?thesis using assms(2)
    by (auto simp: cinv_def irq_enter_def system_inv_def has_current_def running_def scheduled_def)
next
  case (handler rc s')
  have i: "system_inv (ks c)" "has_current (ks c)" using assms(2) by (auto simp: cinv_def)
  have n: "tn_int_counter s' = tn_int_counter (ks c)" using ic_counter [OF calls_ic(3) [OF handler(3)]] .
  from isr_call_ok [OF handler(3) i] have r: "system_inv s'" "tn_curr_run_task s' = tn_curr_run_task (ks c)"
    "\<And>t. task_state (tcbs (ks c) t) = TSK_STATE_RUNNABLE \<Longrightarrow> task_state (tcbs s' t) = TSK_STATE_RUNNABLE"
    "\<And>t. task_state (tcbs s' t) = TSK_STATE_DORMANT \<Longrightarrow> task_state (tcbs (ks c) t) = TSK_STATE_DORMANT"
    "tn_context_switch_request s' \<or> tn_next_task_to_run s' = tn_next_task_to_run (ks c) \<and>
       tn_context_switch_request s' = tn_context_switch_request (ks c)"
    unfolding icall_ok_def by simp_all
  have "has_current s'" using i(2) r(2,4) by (auto simp: has_current_def)
  moreover have "running s'" if "running (ks c)" using that r(2,3) by (auto simp: running_def)
  ultimately show ?thesis using assms(2) r(1,2,5) n handler(2) unfolding handler(1) cinv_def scheduled_def by auto
next
  case (irq_return s')
  then show ?thesis using irq_return_inv assms(2) by simp
qed

text \<open>Configurations that can be reached from the start of the system.\<close>

definition boot_config :: "kstate \<Rightarrow> config" where
  "boot_config s = \<lparr>ks = s, pend = (\<lambda>_. False)\<rparr>"

definition link_ok :: "link_addrs \<Rightarrow> bool" where
  "link_ok A \<longleftrightarrow> timer_task_func A \<noteq> 0 \<and> idle_task_func A \<noteq> 0 \<and> timer_task_stack A \<noteq> 0 \<and> idle_task_stack A \<noteq> 0"

inductive reachable :: "config \<Rightarrow> bool" where
  boot: "boot_memory s \<Longrightarrow> link_ok A \<Longrightarrow> tn_start_system A s = Some s' \<Longrightarrow> reachable (boot_config s')"
| step: "reachable c \<Longrightarrow> kstep c c' \<Longrightarrow> reachable c'"

lemma reachable_inv: "reachable c \<Longrightarrow> cinv c"
proof (induction rule: reachable.induct)
  case (boot s A s')
  then show ?case using start_system_ok [of s A] unfolding link_ok_def boot_config_def
    by (intro switched_inv) auto
qed (rule kstep_inv)

end
