(* ===== verification/Sample.thy ===== *)
theory Sample
  imports System
begin

text \<open>
  A concrete system for the instances of the theorems: memory as the C start-up code leaves it,
  the kernel started in it, and an application whose \<open>tn_app_init\<close> creates one task.
\<close>

definition zero_tcb :: tn_tcb where
  "zero_tcb = \<lparr>task_stk = 0, pwait_queue = None, blk_task = None, stk_start = 0, stk_size = 0, task_func_addr = 0,
     task_func_param = 0, base_priority = 0, priority = 0, id_task = 0, task_state = 0, task_wait_reason = 0,
     task_wait_rc = 0, tick_count = 0, tslice_count = 0, ewait_pattern = 0, ewait_mode = 0, data_elem = 0,
     activate_count = 0, wakeup_count = 0, suspend_count = 0\<rparr>"

definition zero_memory :: kstate where
  "zero_memory = \<lparr>mem = \<lparr>prv = id, nxt = id\<rparr>, tcbs = (\<lambda>_. zero_tcb),
     sems = (\<lambda>_. \<lparr>sem_count = 0, sem_max_count = 0, id_sem = 0\<rparr>),
     events = (\<lambda>_. \<lparr>ev_attr = 0, ev_pattern = 0, id_event = 0\<rparr>),
     dques = (\<lambda>_. \<lparr>data_fifo = None, num_entries = 0, tail_cnt = 0, header_cnt = 0, id_dque = 0\<rparr>),
     fmps = (\<lambda>_. \<lparr>block_size = 0, num_blocks = 0, start_addr = 0, free_list = 0, fblkcnt = 0, id_fmp = 0\<rparr>),
     mutexes = (\<lambda>_. \<lparr>mtx_attr = 0, holder = None, ceil_priority = 0, mtx_cnt = 0, id_mutex = 0\<rparr>),
     mem32 = (\<lambda>_. 0), stk_mem = (\<lambda>_. 0), tn_tslice_ticks = (\<lambda>_. 0), tn_created_tasks_qty = 0,
     tn_system_state = 0, tn_next_task_to_run = None, tn_curr_run_task = None, tn_enable_switch_context = 0,
     tn_context_switch_request = False, tn_int_counter = 0, tn_ready_to_run_bmp = 0, tn_idle_count = 0,
     irq_disabled = True, tn_task_exit_addr = 0x8000\<rparr>"

definition sample_link :: link_addrs where
  "sample_link = \<lparr>timer_task_func = 0x1000, idle_task_func = 0x1100, timer_task_stack = 0x40000100,
     idle_task_stack = 0x40000200\<rparr>"

lemma zero_memory_boots: "boot_memory zero_memory" "link_ok sample_link"
  by (simp_all add: boot_memory_def zero_memory_def zero_tcb_def link_ok_def sample_link_def)

definition fresh_objects :: "kstate \<Rightarrow> bool" where
  "fresh_objects s \<longleftrightarrow> sems s = sems zero_memory \<and> events s = events zero_memory \<and> dques s = dques zero_memory \<and>
     fmps s = fmps zero_memory"

text \<open>The state in which the timer task starts to run.\<close>

lemma sample_started:
  "\<exists>s. tn_start_system sample_link zero_memory = Some s \<and> system_inv s \<and> running s \<and> scheduled s \<and>
     tn_curr_run_task s = Some tn_timer_task \<and> tn_system_state s = TN_ST_STATE_RUNNING \<and>
     \<not> irq_disabled s \<and> tn_int_counter s = 0 \<and> \<not> tn_context_switch_request s \<and> reachable (boot_config s) \<and>
     fresh_objects s \<and> (\<forall>t. t \<noteq> tn_timer_task \<longrightarrow> t \<noteq> tn_idle_task \<longrightarrow> tcbs s t = zero_tcb)"
  using start_system_ok [of zero_memory sample_link] zero_memory_boots reachable.boot [of zero_memory sample_link]
  by (auto simp: link_ok_def fresh_objects_def) (auto simp: zero_memory_def)

text \<open>A task of priority 5, created at start-up, runs when the timer task goes to sleep.\<close>

lemma sample_created:
  "\<exists>s. system_inv s \<and> running s \<and> tn_curr_run_task s = Some tn_timer_task \<and> \<not> irq_disabled s \<and>
     tn_int_counter s = 0 \<and> reachable \<lparr>ks = s, pend = (\<lambda>_. False)\<rparr> \<and> fresh_objects s \<and>
     task_state (tcbs s 2) = TSK_STATE_RUNNABLE \<and> priority (tcbs s 2) = 5 \<and> id_task (tcbs s 2) = TN_ID_TASK"
proof -
  obtain s where s: "system_inv s" "running s" "tn_curr_run_task s = Some tn_timer_task"
    "tn_system_state s = TN_ST_STATE_RUNNING" "\<not> irq_disabled s" "tn_int_counter s = 0" "reachable (boot_config s)"
    "fresh_objects s" "tcbs s 2 = zero_tcb"
    using sample_started by (auto simp: tn_timer_task_def tn_idle_task_def)
  have pre: "create_pre (Some 2) 5 TN_TASK_START_ON_CREATION s" using s(1,3)
    by (auto simp: create_pre_def tn_timer_task_def tn_idle_task_def system_inv_def sinv_def inv_objs_def system_tasks_def)
  define r where "r = tn_task_create (Some 2) 0x2000 5 0x40000400 100 0 TN_TASK_START_ON_CREATION s"
  have c: "init_call s r" unfolding r_def using pre by (rule init_call.task_create)
  have ok: "call_ok s r" using init_call_ok [OF c s(1,2)] .
  have "tn_task_create (Some 2) 0x2000 5 0x40000400 100 0 TN_TASK_START_ON_CREATION s = Some (RC TERR_NO_ERR, tn_enable_interrupt False
      (task_to_runnable 2 ((on_mem (queue_add_tail CreateL (CreateQ 2)) (init_task_stack 2
         (task_set_dormant_state 2 ((upd_tcb 2 (new_tcb 0x2000 0 0x40000400 100 5) (s\<lparr>irq_disabled := True\<rparr>))
            \<lparr>stk_mem := fill_stack 100 0x40000400 (stk_mem s)\<rparr>))))
            \<lparr>tn_created_tasks_qty := tn_created_tasks_qty s + 1\<rparr>)))" (is "_ = Some (_, ?s)")
    using s by (subst task_create_eq)
      (simp_all add: zero_tcb_def bad_non_int_context_def prio_ok_def Let_def disable_eq task_set_dormant_state_def)
  then have r: "r = Some (RC TERR_NO_ERR, ?s)" by (simp only: r_def)
  have st: "reachable (returned tn_timer_task (RC TERR_NO_ERR, ?s) (boot_config s))"
    using reachable.step [OF s(7) kstep.app_init [of "boot_config s" "(RC TERR_NO_ERR, ?s)"]] c s(3,6)
    by (simp add: boot_config_def at_task_def r)
  obtain m b n where sh: "task_to_runnable 2 s' = s'\<lparr>mem := m s', tn_ready_to_run_bmp := b s', tn_next_task_to_run := n s',
      tcbs := (tcbs s')(2 := (tcbs s' 2)\<lparr>task_state := TSK_STATE_RUNNABLE, pwait_queue := None\<rparr>)\<rparr>" for s'
    using task_to_runnable_shape [of 2] by metis
  show ?thesis
    using ok st s unfolding r
    by (intro exI [of _ ?s]) (auto simp: call_ok_def returned_def boot_config_def sh tn_enable_interrupt_def
        task_set_dormant_state_def new_tcb_def init_task_stack_def Let_def fresh_objects_def split: prod.split)
qed

lemma sample_user:
  "\<exists>c. reachable c \<and> user_running (ks c) \<and> (\<exists>t. at_task t c \<and> \<not> pend c t) \<and> tn_int_counter (ks c) = 0 \<and>
     \<not> irq_disabled (ks c) \<and> fresh_objects (ks c)"
proof -
  obtain s where s: "system_inv s" "running s" "tn_curr_run_task s = Some tn_timer_task" "\<not> irq_disabled s"
    "tn_int_counter s = 0" "reachable \<lparr>ks = s, pend = (\<lambda>_. False)\<rparr>" "fresh_objects s"
    "task_state (tcbs s 2) = TSK_STATE_RUNNABLE" "priority (tcbs s 2) = 5"
    using sample_created by blast
  have "task_state (tcbs s tn_timer_task) = TSK_STATE_RUNNABLE" using s(2,3) by (simp add: running_def)
  from timer_task_func_ok [OF s(1,3) this] obtain s' where s': "tn_timer_task_func s = Some (SWITCH_LOOP, s')"
    "call_ok s (Some (SWITCH_LOOP, s'))" "same_objects s s'" "irq_disabled s' = irq_disabled s"
    "\<forall>t. tcbs s' t = (if t = tn_timer_task then wait_tcb None TSK_WAIT_REASON_SLEEP TN_WAIT_INFINITE (tcbs s t)
       else tick_tcb (tcbs s t))" by fastforce
  have t2: "task_state (tcbs s' 2) = TSK_STATE_RUNNABLE" "priority (tcbs s' 2) = 5"
    using s'(5) s(8,9) by (simp_all add: tn_timer_task_def tick_tcb_def waiting_def)
  from s'(2) obtain L where i: "sinv s' L" by (auto simp: call_ok_def system_inv_def)
  obtain n where n: "tn_next_task_to_run s' = Some n" "task_state (tcbs s' n) = TSK_STATE_RUNNABLE"
    using i by (rule sinv_next)
  have "priority (tcbs s' n) \<le> 5" using sinv_best [OF i n(1) t2(1)] t2(2) by simp
  moreover have "priority (tcbs s' tn_idle_task) = 31" using sinvD(6) [OF i] by (simp add: system_tasks_def)
  ultimately have nt: "n \<noteq> tn_idle_task" "n \<noteq> tn_timer_task" using n(2) s'(5) by (auto simp: wait_tcb_def)
  let ?c = "\<lparr>ks = s, pend = (\<lambda>_. False)\<rparr>"
  let ?c1 = "returned tn_timer_task (SWITCH_LOOP, s') ?c"
  have k1: "kstep ?c ?c1" by (rule kstep.timer_round) (use s s' in \<open>simp_all add: at_task_def\<close>)
  have cnt: "tn_int_counter s' = 0" using ic_counter [OF ic_ticks(1) [OF s'(1)]] s(5) by simp
  have cur: "tn_curr_run_task s' = Some tn_timer_task" using s'(2) s(3) by (simp add: call_ok_def)
  let ?c2 = "\<lparr>ks = tn_switch_context (ks ?c1), pend = (pend ?c1)(tn_timer_task := False)\<rparr>"
  have k2: "kstep ?c1 ?c2" by (rule kstep.switch) (simp_all add: at_task_def returned_def cnt cur)
  have "reachable ?c2" using reachable.step [OF reachable.step [OF s(6) k1] k2] .
  moreover have "tn_switch_context s' = s'\<lparr>tn_curr_run_task := Some n\<rparr>" using n(1) nt cur by (simp add: tn_switch_context_def)
  ultimately show ?thesis using n nt cnt s(4,7) s'(3,4)
    by (intro exI [of _ ?c2]) (simp add: returned_def user_running_def at_task_def fresh_objects_def same_objects_def)
qed

text \<open>The task then creates objects.\<close>

lemma create_step:
  assumes "system_inv s" "user_running s" "call_ok s (Some (RC c, s'))"
  shows "system_inv s'" "user_running s'"
  using assms by (auto simp: call_ok_def running_def user_running_def)

lemma sample_objects:
  "\<exists>s. system_inv s \<and> user_running s \<and> tn_int_counter s = 0 \<and> \<not> irq_disabled s \<and>
     sems s 0 = \<lparr>sem_count = 1, sem_max_count = 2, id_sem = TN_ID_SEMAPHORE\<rparr> \<and>
     sems s 1 = \<lparr>sem_count = 0, sem_max_count = 1, id_sem = TN_ID_SEMAPHORE\<rparr> \<and>
     events s 0 = \<lparr>ev_attr = TN_EVENT_ATTR_MULTI, ev_pattern = 1, id_event = TN_ID_EVENT\<rparr> \<and>
     dques s 0 = \<lparr>data_fifo = Some [0, 0, 0, 0], num_entries = 4, tail_cnt = 0, header_cnt = 0, id_dque = TN_ID_DATAQUEUE\<rparr> \<and>
     fmps s = fmps zero_memory"
proof -
  obtain s where s: "system_inv s" "user_running s" "tn_int_counter s = 0" "\<not> irq_disabled s" "fresh_objects s"
    using sample_user reachable_inv unfolding cinv_def by blast
  define s1 where "s1 = upd_sem 0 (\<lambda>x. x\<lparr>sem_count := 1, sem_max_count := 2, id_sem := TN_ID_SEMAPHORE\<rparr>) (on_mem (queue_reset (SemWaitQ 0)) s)"
  define s2 where "s2 = upd_sem 1 (\<lambda>x. x\<lparr>sem_count := 0, sem_max_count := 1, id_sem := TN_ID_SEMAPHORE\<rparr>) (on_mem (queue_reset (SemWaitQ 1)) s1)"
  define s3 where "s3 = upd_event 0 (\<lambda>e. e\<lparr>id_event := TN_ID_EVENT\<rparr>)
     (upd_event 0 (\<lambda>e. e\<lparr>ev_pattern := 1, ev_attr := TN_EVENT_ATTR_MULTI\<rparr>) (on_mem (queue_reset (EventWaitQ 0)) s2))"
  define s4 where "s4 = upd_dque 0 (\<lambda>d. d\<lparr>data_fifo := Some [0, 0, 0, 0], num_entries := 4, tail_cnt := 0, header_cnt := 0,
     id_dque := TN_ID_DATAQUEUE\<rparr>) (on_mem (queue_reset (DqRecvQ 0)) (on_mem (queue_reset (DqSendQ 0)) s3))"
  have "tn_sem_create (Some 0) 1 2 s = Some (RC TERR_NO_ERR, s1)"
    using s by (simp add: tn_sem_create_def s1_def fresh_objects_def zero_memory_def bad_non_int_context_def)
  with sem_create_ok [OF s(1) user_running_running [OF s(2)], of 0 1 2] create_step [OF s(1,2)]
  have i1: "system_inv s1" "user_running s1" by auto
  have "tn_sem_create (Some 1) 0 1 s1 = Some (RC TERR_NO_ERR, s2)"
    using s by (simp add: tn_sem_create_def s2_def s1_def fresh_objects_def zero_memory_def bad_non_int_context_def upd_sem_def)
  with sem_create_ok [OF i1(1) user_running_running [OF i1(2)], of 1 0 1] create_step [OF i1]
  have i2: "system_inv s2" "user_running s2" by auto
  have "tn_event_create (Some 0) TN_EVENT_ATTR_MULTI 1 s2 = Some (RC TERR_NO_ERR, s3)"
    using s by (simp add: tn_event_create_def s3_def s2_def s1_def fresh_objects_def zero_memory_def upd_sem_def)
  with event_create_ok [OF i2(1) user_running_running [OF i2(2)], of "Some 0" TN_EVENT_ATTR_MULTI 1] create_step [OF i2]
  have i3: "system_inv s3" "user_running s3" by auto
  have "tn_queue_create (Some 0) (Some [0, 0, 0, 0]) 4 s3 = Some (RC TERR_NO_ERR, s4)"
    using s by (simp add: tn_queue_create_def s4_def s3_def s2_def s1_def fresh_objects_def zero_memory_def upd_sem_def upd_event_def)
  with queue_create_ok [OF i3(1) user_running_running [OF i3(2)], of "Some [0, 0, 0, 0]" 4 "Some 0"] create_step [OF i3]
  have i4: "system_inv s4" "user_running s4" by (auto simp: fifo_array_def)
  show ?thesis using i4 s
    by (intro exI [of _ s4]) (simp add: s4_def s3_def s2_def s1_def fresh_objects_def zero_memory_def
        upd_sem_def upd_event_def upd_dque_def)
qed

text \<open>A task that waits for a semaphore it has just created without units.\<close>

lemma sample_blocked:
  "\<exists>c t. reachable c \<and> waiting (tcbs (ks c) t) \<and> pwait_queue (tcbs (ks c) t) = Some (SemWaitQ 1) \<and>
     tick_count (tcbs (ks c) t) = 10 \<and> sems (ks c) 1 = \<lparr>sem_count = 0, sem_max_count = 1, id_sem = TN_ID_SEMAPHORE\<rparr>"
proof -
  obtain c t where c: "reachable c" "user_running (ks c)" "at_task t c" "\<not> pend c t" "tn_int_counter (ks c) = 0"
    "\<not> irq_disabled (ks c)" "fresh_objects (ks c)" using sample_user by blast
  have i: "system_inv (ks c)" using reachable_inv [OF c(1)] by (simp add: cinv_def)
  have t: "t \<noteq> tn_timer_task" "t \<noteq> tn_idle_task" using c(2,3) by (auto simp: user_running_def at_task_def)
  define s1 where "s1 = upd_sem 1 (\<lambda>x. x\<lparr>sem_count := 0, sem_max_count := 1, id_sem := TN_ID_SEMAPHORE\<rparr>)
     (on_mem (queue_reset (SemWaitQ 1)) (ks c))"
  have r1: "tn_sem_create (Some 1) 0 1 (ks c) = Some (RC TERR_NO_ERR, s1)"
    using c by (simp add: tn_sem_create_def s1_def fresh_objects_def zero_memory_def bad_non_int_context_def)
  have i1: "system_inv s1" "user_running s1"
    using sem_create_ok [OF i user_running_running [OF c(2)], of 1 0 1] create_step [OF i c(2)] r1 by auto
  let ?c1 = "returned t (RC TERR_NO_ERR, s1) c"
  have "task_call (ks c) (Some (RC TERR_NO_ERR, s1))"
    using task_call.init [OF init_call.sem_create [of "ks c" 1 0 1]] r1 by simp
  then have k1: "reachable ?c1" using reachable.step [OF c(1) kstep.service [OF c(3,4) t]] by blast
  have cur: "tn_curr_run_task s1 = Some t" using c(3) by (simp add: s1_def at_task_def)
  have st: "task_state (tcbs s1 t) = TSK_STATE_RUNNABLE" using i1(2) cur by (simp add: user_running_def)
  have sem: "sems s1 1 = \<lparr>sem_count = 0, sem_max_count = 1, id_sem = TN_ID_SEMAPHORE\<rparr>"
    using c(7) by (simp add: s1_def fresh_objects_def zero_memory_def)
  from i1(1) obtain L where L: "sinv s1 L" by (auto simp: system_inv_def)
  obtain xs where xs: "L (SemWaitQ 1) = Some xs" using sinvD(3) [OF L, of "SemWaitQ 1"] sem by (auto simp: sem_live)
  have ctx: "\<not> bad_non_int_context s1" using c(5,6) by (simp add: s1_def bad_non_int_context_def upd_sem_def)
  obtain s2 where s2: "tn_sem_acquire (Some 1) 10 s1 = Some (SWITCH_WAIT_RC, s2)"
    "tcbs s2 = (tcbs s1)(t := wait_tcb (Some (SemWaitQ 1)) TSK_WAIT_REASON_SEM 10 (tcbs s1 t))" "sems s2 = sems s1"
    using sem_acquire_blocks [OF L cur st t(2,1), where i = 1 and timeout = 10, OF _ _ _ ctx _ xs] sem by auto
  have at1: "at_task t ?c1" "\<not> pend ?c1 t" using c(3,4,5) cur
    by (simp_all add: at_task_def returned_def s1_def upd_sem_def)
  have "task_call (ks ?c1) (Some (SWITCH_WAIT_RC, s2))"
    using task_call.sem_acquire [of s1 "Some 1" 10] s2(1) by (simp add: returned_def)
  then have "reachable (returned t (SWITCH_WAIT_RC, s2) ?c1)" using reachable.step [OF k1 kstep.service [OF at1 t]] by blast
  then show ?thesis using s2(2,3) sem
    by (intro exI [of _ "returned t (SWITCH_WAIT_RC, s2) ?c1"] exI [of _ t]) (simp add: returned_def wait_tcb_def waiting_def)
qed

text \<open>A pool of four blocks of 16 bytes.\<close>

lemma sample_pool:
  "\<exists>s L. sinv s L \<and> id_fmp (fmps s 0) = TN_ID_FSMEMORYPOOL \<and> num_blocks (fmps s 0) = 4 \<and> L (FmpWaitQ 0) = Some [] \<and>
     free_blocks s 0 = [0x40001000, 0x40001010, 0x40001020, 0x40001030]"
proof -
  obtain s L where s: "sinv s L" "fmps s = fmps zero_memory" using sample_objects by (auto simp: system_inv_def)
  have pm: "pool_memory 0x40001000 16 4 s" by (simp add: pool_memory_def free_blocks_def s(2) zero_memory_def)
  have k: "id_fmp (fmps s 0) \<noteq> TN_ID_FSMEMORYPOOL" by (simp add: s(2) zero_memory_def)
  have al: "align_up 0x40001000 = 0x40001000" "align_up 16 = 16" by code_simp+
  from fmem_create_carves [OF s(1) k _ _ _ pm] obtain m s' L' where m: "sinv s' L'" "m \<le> 4"
    "m < 4 \<longrightarrow> unat (0x40001000 :: u32) + unat (16 :: u32) * 4 < unat (0x40001000 :: u32) + unat (16 :: u32) * Suc m"
    "2 \<le> m \<longrightarrow> id_fmp (fmps s' 0) = TN_ID_FSMEMORYPOOL \<and> num_blocks (fmps s' 0) = int m \<and>
        L' (FmpWaitQ 0) = Some [] \<and> free_blocks s' 0 = blocks 16 m 0x40001000"
    by (auto simp: al)
  have "m = 4" using m(2,3) by (cases "m < 4") simp_all
  moreover have "blocks 16 4 0x40001000 = [0x40001000, 0x40001010, 0x40001020, 0x40001030]" by code_simp
  ultimately show ?thesis using m(1,4) by auto
qed

end
