(* ===== verification/Net_Utils.thy ===== *)
theory Net_Utils
  imports Prelude
begin

text \<open>
  The memory utilities of the network stack, \<open>src/tn_net/tn_net_utils.c\<close>: \<open>bzero\<close>,
  \<open>bzero_dw\<close>, \<open>bcopy\<close>, \<open>s_memset\<close> and \<open>s_memcmp\<close>, over a byte-addressed memory. A word access
  to an address that is not a multiple of four is a fault (\<^const>\<open>None\<close>), as the ARM7 has no
  unaligned accesses. \<open>long\<close> and \<open>unsigned int\<close> are 32-bit words; \<open>sizeof\<close> makes the
  comparisons and divisions of \<open>bcopy\<close> unsigned, and a pointer difference wraps.

  The reference definitions \<open>memmove\<close> and \<open>memfill\<close> say what a block copy and a block fill are; the
  lemmas show that the optimised routines compute them, for every alignment and overlap.
\<close>

type_synonym bmem = "addr \<Rightarrow> u8"

section \<open>The routines\<close>

function bzero :: "addr \<Rightarrow> u32 \<Rightarrow> bmem \<Rightarrow> bmem" where
  "bzero p len m = (if len = 0 then m else bzero (p + 1) (len - 1) (m(p := 0)))"
  by pat_completeness auto
termination
  by (relation "measure (\<lambda>(p, len, m). unat len)") (auto simp: measure_unat)

definition ld_word :: "bmem \<Rightarrow> addr \<Rightarrow> u32 option" where
  "ld_word m a =
     (if a AND 3 = 0
      then Some (ucast (m a) OR push_bit 8 (ucast (m (a + 1))) OR
                 push_bit 16 (ucast (m (a + 2))) OR push_bit 24 (ucast (m (a + 3))))
      else None)"

definition st_word :: "addr \<Rightarrow> u32 \<Rightarrow> bmem \<Rightarrow> bmem option" where
  "st_word a w m =
     (if a AND 3 = 0
      then Some (m(a := ucast w, a + 1 := ucast (drop_bit 8 w),
                   a + 2 := ucast (drop_bit 16 w), a + 3 := ucast (drop_bit 24 w)))
      else None)"

function bzero_dw :: "addr \<Rightarrow> u32 \<Rightarrow> bmem \<Rightarrow> bmem option" where
  "bzero_dw p len m =
     (if len = 0 then Some m
      else do { m \<leftarrow> st_word p 0 m; bzero_dw (p + 4) (len - 1) m })"
  by pat_completeness auto
termination
  by (relation "measure (\<lambda>(p, len, m). unat len)") (auto simp: measure_unat)

text \<open>The macros \<open>TLOOP1(s)\<close>, \<open>do { s; } while (--t)\<close>, and \<open>TLOOP(s)\<close>, which guards it by \<open>if (t)\<close>.
  The state of the statement \<open>s\<close> is \<open>src\<close>, \<open>dst\<close> and the memory.\<close>

type_synonym cstate = "addr \<times> addr \<times> bmem"

function TLOOP1 :: "(cstate \<Rightarrow> cstate option) \<Rightarrow> u32 \<Rightarrow> cstate \<Rightarrow> cstate option" where
  "TLOOP1 s t c = do { c \<leftarrow> s c; if t - 1 = 0 then Some c else TLOOP1 s (t - 1) c }"
  by pat_completeness auto
termination
proof (relation "measure (\<lambda>(s, t, c). unat (t - 1))", goal_cases)
  case (2 s t c c')
  have "unat (t - 1 - 1) < unat (t - 1)"
    using 2 measure_unat [of "t - 1"] by simp
  then show ?case by simp
qed simp


definition TLOOP :: "(cstate \<Rightarrow> cstate option) \<Rightarrow> u32 \<Rightarrow> cstate \<Rightarrow> cstate option" where
  "TLOOP s t c = (if t \<noteq> 0 then TLOOP1 s t c else Some c)"

definition copy_up :: "cstate \<Rightarrow> cstate option" where
  "copy_up = (\<lambda>(src, dst, m). Some (src + 1, dst + 1, m(dst := m src)))"

definition copy_word_up :: "cstate \<Rightarrow> cstate option" where
  "copy_word_up = (\<lambda>(src, dst, m). do { w \<leftarrow> ld_word m src; m \<leftarrow> st_word dst w m; Some (src + 4, dst + 4, m) })"

definition copy_down :: "cstate \<Rightarrow> cstate option" where
  "copy_down = (\<lambda>(src, dst, m). Some (src - 1, dst - 1, m(dst - 1 := m (src - 1))))"

definition copy_word_down :: "cstate \<Rightarrow> cstate option" where
  "copy_word_down =
     (\<lambda>(src, dst, m). do { w \<leftarrow> ld_word m (src - 4); m \<leftarrow> st_word (dst - 4) w m; Some (src - 4, dst - 4, m) })"

abbreviation wsize :: u32 where "wsize \<equiv> 4"
abbreviation wmask :: u32 where "wmask \<equiv> 3" \<comment> \<open>\<open>wsize - 1\<close>\<close>

definition bcopy :: "addr \<Rightarrow> addr \<Rightarrow> u32 \<Rightarrow> bmem \<Rightarrow> bmem option" where
  "bcopy src dst len m =
     (if len = 0 \<or> dst = src then Some m
      else if dst < src then
        do { (len, c) \<leftarrow>
               (if (src OR dst) AND wmask \<noteq> 0 then
                  let t = (if (src XOR dst) AND wmask \<noteq> 0 \<or> len < wsize then len
                           else wsize - (src AND wmask))
                  in do { c \<leftarrow> TLOOP1 copy_up t (src, dst, m); Some (len - t, c) }
                else Some (len, (src, dst, m)));
             c \<leftarrow> TLOOP copy_word_up (len div wsize) c;
             (_, _, m) \<leftarrow> TLOOP copy_up (len AND wmask) c;
             Some m }
      else
        let src = src + len; dst = dst + len
        in do { (len, c) \<leftarrow>
                  (if (src OR dst) AND wmask \<noteq> 0 then
                     let t = (if (src XOR dst) AND wmask \<noteq> 0 \<or> len \<le> wsize then len
                              else src AND wmask)
                     in do { c \<leftarrow> TLOOP1 copy_down t (src, dst, m); Some (len - t, c) }
                   else Some (len, (src, dst, m)));
                c \<leftarrow> TLOOP copy_word_down (len div wsize) c;
                (_, _, m) \<leftarrow> TLOOP copy_down (len AND wmask) c;
                Some m })"

function s_memset_loop :: "addr \<Rightarrow> u32 \<Rightarrow> u32 \<Rightarrow> bmem \<Rightarrow> bmem" where
  "s_memset_loop ptr ch len m =
     (if len = 0 then m
      else let ptr = ptr + 1 in s_memset_loop ptr ch (len - 1) (m(ptr := ucast ch)))"
  by pat_completeness auto
termination
  by (relation "measure (\<lambda>(ptr, ch, len, m). unat len)") (auto simp: measure_unat)

definition s_memset :: "addr \<Rightarrow> u32 \<Rightarrow> u32 \<Rightarrow> bmem \<Rightarrow> bmem" where
  "s_memset dst ch len m = s_memset_loop (dst - 1) ch len m"

text \<open>\<open>while( --count && *buf1 == *buf2)\<close>: the count is decremented first, so that a count of 0
  does not stop the comparison.\<close>

function s_memcmp :: "addr \<Rightarrow> addr \<Rightarrow> u32 \<Rightarrow> bmem \<Rightarrow> int" where
  "s_memcmp buf1 buf2 count m =
     (if count - 1 \<noteq> 0 \<and> m buf1 = m buf2 then s_memcmp (buf1 + 1) (buf2 + 1) (count - 1) m
      else uint (m buf1) - uint (m buf2))"
  by pat_completeness auto
termination
proof (relation "measure (\<lambda>(a, b, t, m). unat (t - 1))", goal_cases)
  case (2 a b t m)
  have "unat (t - 1 - 1) < unat (t - 1)"
    using 2 measure_unat [of "t - 1"] by simp
  then show ?case by simp
qed simp

declare bzero.simps [simp del] bzero_dw.simps [simp del] TLOOP1.simps [simp del]
  s_memset_loop.simps [simp del] s_memcmp.simps [simp del]

section \<open>Block copy and block fill\<close>

definition memmove :: "bmem \<Rightarrow> addr \<Rightarrow> addr \<Rightarrow> nat \<Rightarrow> bmem" where
  "memmove m dst src n = (\<lambda>a. if unat (a - dst) < n then m (src + (a - dst)) else m a)"

definition memfill :: "bmem \<Rightarrow> addr \<Rightarrow> nat \<Rightarrow> u8 \<Rightarrow> bmem" where
  "memfill m p n v = (\<lambda>a. if unat (a - p) < n then v else m a)"

lemma memmove_0 [simp]: "memmove m dst src 0 = m"
  by (simp add: memmove_def)

lemma memmove_self [simp]: "memmove m a a n = m"
  by (simp add: memmove_def fun_eq_iff)

lemma memmove_1: "memmove m dst src (Suc 0) = m(dst := m src)"
  by (auto simp: memmove_def fun_eq_iff unat_eq_0)

text \<open>A copy upwards in two pieces: the first must not overwrite what the second still reads.\<close>

lemma memmove_up:
  assumes "k \<le> n" "n \<le> unat (dst - src)"
  shows "memmove (memmove m dst src k) (dst + of_nat k) (src + of_nat k) (n - k) = memmove m dst src n"
proof (rule ext)
  fix a
  define x D where "x = a - dst" and "D = dst - src"
  have lt: "n < 2 ^ 32" "k < 2 ^ 32" "unat D < 2 ^ 32" "n \<le> unat D"
    using assms unat_u32_less [of D] by (auto simp: D_def)
  have e: "a - (dst + of_nat k) = x - of_nat k" by (simp add: x_def)
  have 1: "unat (a - (dst + of_nat k)) = (if k \<le> unat x then unat x - k else unat x + 2 ^ 32 - k)"
    unfolding e by (rule unat_minus_of_nat [OF lt(2)])
  have f: "src + x - dst = x - D" by (simp add: D_def)
  have 2: "unat (src + x - dst) = unat x + 2 ^ 32 - unat D" if "unat x < n"
    unfolding f using that lt(4) unat_minus_u32 [of x D] by simp
  have 3: "src + of_nat k + (a - (dst + of_nat k)) = src + x" by (simp add: x_def)
  show "memmove (memmove m dst src k) (dst + of_nat k) (src + of_nat k) (n - k) a = memmove m dst src n a"
    unfolding memmove_def 1 3 x_def [symmetric] using 2 assms(1) lt by auto
qed

text \<open>A copy downwards in two pieces.\<close>

lemma memmove_down:
  assumes "j \<le> n" "n \<le> unat (src - dst)"
  shows "memmove (memmove m (dst + of_nat j) (src + of_nat j) (n - j)) dst src j = memmove m dst src n"
proof (rule ext)
  fix a
  define x D where "x = a - dst" and "D = src - dst"
  have lt: "n < 2 ^ 32" "j < 2 ^ 32" "unat D < 2 ^ 32" "n \<le> unat D"
    using assms unat_u32_less [of D] by (auto simp: D_def)
  have e: "a - (dst + of_nat j) = x - of_nat j" by (simp add: x_def)
  have 1: "unat (a - (dst + of_nat j)) = (if j \<le> unat x then unat x - j else unat x + 2 ^ 32 - j)"
    unfolding e by (rule unat_minus_of_nat [OF lt(2)])
  have 2: "unat (src + x - (dst + of_nat j)) = unat D + unat x - j" if "unat x < j"
  proof -
    have "unat (of_nat j - x) = j - unat x"
      using that unat_minus_u32 [of "of_nat j" x] unat_of_nat_u32 [OF lt(2)] by simp
    moreover have f: "src + x - (dst + of_nat j) = D - (of_nat j - x)" by (simp add: D_def)
    ultimately show ?thesis
      unfolding f using that lt(4) assms(1) unat_minus_u32 [of D "of_nat j - x"] by simp
  qed
  have 3: "src + of_nat j + (a - (dst + of_nat j)) = src + x" by (simp add: x_def)
  show "memmove (memmove m (dst + of_nat j) (src + of_nat j) (n - j)) dst src j a = memmove m dst src n a"
    unfolding memmove_def 1 3 x_def [symmetric] using 2 assms(1) lt by auto
qed

section \<open>The loops of \<open>bcopy\<close>\<close>

lemma word_copy:
  assumes "src AND 3 = 0" "dst AND 3 = 0"
  shows "do { w \<leftarrow> ld_word m src; st_word dst w m } = Some (memmove m dst src 4)"
proof -
  have "memmove m dst src 4 =
          m(dst := m src, dst + 1 := m (src + 1), dst + 2 := m (src + 2), dst + 3 := m (src + 3))"
  proof (rule ext)
    fix a
    consider "a = dst" | "a = dst + 1" | "a = dst + 2" | "a = dst + 3"
      | "a - dst \<noteq> 0" "a - dst \<noteq> 1" "a - dst \<noteq> 2" "a - dst \<noteq> 3" by (metis diff_add_cancel add.commute add_0)
    then show "memmove m dst src 4 a =
          (m(dst := m src, dst + 1 := m (src + 1), dst + 2 := m (src + 2), dst + 3 := m (src + 3))) a"
    proof cases
      case 5
      then have "unat (a - dst) \<noteq> 0" "unat (a - dst) \<noteq> 1" "unat (a - dst) \<noteq> 2" "unat (a - dst) \<noteq> 3"
        by (simp_all add: word_unat_eq_iff)
      then have "\<not> unat (a - dst) < 4" by linarith
      with 5 show ?thesis by (auto simp: memmove_def)
    qed (auto simp: memmove_def)
  qed
  moreover have "ucast (ucast a OR push_bit 8 (ucast b) OR push_bit 16 (ucast c) OR push_bit 24 (ucast d) :: u32) = a"
    "ucast (drop_bit 8 (ucast a OR push_bit 8 (ucast b) OR push_bit 16 (ucast c) OR push_bit 24 (ucast d) :: u32)) = b"
    "ucast (drop_bit 16 (ucast a OR push_bit 8 (ucast b) OR push_bit 16 (ucast c) OR push_bit 24 (ucast d) :: u32)) = c"
    "ucast (drop_bit 24 (ucast a OR push_bit 8 (ucast b) OR push_bit 16 (ucast c) OR push_bit 24 (ucast d) :: u32)) = d"
    for a b c d :: u8
    by (auto simp: bit_eq_iff bit_simps dest: bit_imp_le_length)
  ultimately show ?thesis using assms by (simp add: ld_word_def st_word_def)
qed

lemma TLOOP1_step:
  assumes "unat t = Suc n" "s c = Some c'"
  shows "TLOOP1 s t c = (if n = 0 then Some c' else TLOOP1 s (t - 1) c')" "unat (t - 1) = n"
proof -
  show 1: "unat (t - 1) = n" using assms(1) unat_minus_u32 [of t 1] by simp
  have "t - 1 = 0 \<longleftrightarrow> n = 0" using 1 by (simp add: word_unat_eq_iff)
  then show "TLOOP1 s t c = (if n = 0 then Some c' else TLOOP1 s (t - 1) c')"
    by (subst TLOOP1.simps) (simp add: assms(2))
qed

text \<open>A loop over statements that copy \<open>k\<close> bytes and move on by \<open>k\<close>, upwards or downwards, is one
  block copy. \<open>P\<close> is what the statement needs of the addresses.\<close>

lemma TLOOP_up:
  assumes body: "\<And>src dst m. P src dst \<Longrightarrow>
      s (src, dst, m) = Some (src + of_nat k, dst + of_nat k, memmove m dst src k) \<and> P (src + of_nat k) (dst + of_nat k)"
    and "P src dst" "unat t * k \<le> unat (dst - src)"
  shows "TLOOP s t (src, dst, m) =
           Some (src + of_nat (unat t * k), dst + of_nat (unat t * k), memmove m dst src (unat t * k))"
proof (cases "t = 0")
  case False
  have "TLOOP1 s t (src, dst, m) =
           Some (src + of_nat (Suc n * k), dst + of_nat (Suc n * k), memmove m dst src (Suc n * k))"
    if "unat t = Suc n" for n
    using assms(2,3) that
  proof (induction n arbitrary: t src dst m)
    case 0
    then show ?case using TLOOP1_step(1) [OF 0(3)] body [OF 0(1)] by simp
  next
    case (Suc n)
    let ?c = "(src + of_nat k, dst + of_nat k, memmove m dst src k)"
    note b = body [OF Suc.prems(1), of m]
    note st = TLOOP1_step [where s = s and c = "(src, dst, m)", OF Suc.prems(3) b [THEN conjunct1]]
    have le: "Suc (Suc n) * k \<le> unat (dst - src)" using Suc.prems by simp
    have "TLOOP1 s (t - 1) ?c = Some (src + of_nat k + of_nat (Suc n * k), dst + of_nat k + of_nat (Suc n * k),
            memmove (memmove m dst src k) (dst + of_nat k) (src + of_nat k) (Suc n * k))"
      using b st(2) le by (intro Suc.IH) auto
    also have "memmove (memmove m dst src k) (dst + of_nat k) (src + of_nat k) (Suc n * k) =
               memmove m dst src (Suc (Suc n) * k)"
      using memmove_up [of k "Suc (Suc n) * k" dst src m] le by simp
    finally show ?case using st(1) by (simp add: algebra_simps)
  qed
  from this [of "unat t - 1"] show ?thesis
    using False by (simp add: TLOOP_def unat_gt_0)
qed (simp add: TLOOP_def)

lemma TLOOP_down:
  assumes body: "\<And>src dst m. P src dst \<Longrightarrow>
      s (src, dst, m) = Some (src - of_nat k, dst - of_nat k, memmove m (dst - of_nat k) (src - of_nat k) k) \<and>
      P (src - of_nat k) (dst - of_nat k)"
    and "P src dst" "unat t * k \<le> unat (src - dst)"
  shows "TLOOP s t (src, dst, m) =
           Some (src - of_nat (unat t * k), dst - of_nat (unat t * k),
                 memmove m (dst - of_nat (unat t * k)) (src - of_nat (unat t * k)) (unat t * k))"
proof (cases "t = 0")
  case False
  have "TLOOP1 s t (src, dst, m) =
           Some (src - of_nat (Suc n * k), dst - of_nat (Suc n * k),
                 memmove m (dst - of_nat (Suc n * k)) (src - of_nat (Suc n * k)) (Suc n * k))"
    if "unat t = Suc n" for n
    using assms(2,3) that
  proof (induction n arbitrary: t src dst m)
    case 0
    then show ?case using TLOOP1_step(1) [OF 0(3)] body [OF 0(1)] by simp
  next
    case (Suc n)
    let ?m = "memmove m (dst - of_nat k) (src - of_nat k) k"
    let ?d = "dst - of_nat k - of_nat (Suc n * k)" and ?s = "src - of_nat k - of_nat (Suc n * k)"
    note b = body [OF Suc.prems(1), of m]
    note st = TLOOP1_step [where s = s and c = "(src, dst, m)", OF Suc.prems(3) b [THEN conjunct1]]
    have le: "Suc (Suc n) * k \<le> unat (src - dst)" using Suc.prems by simp
    have "TLOOP1 s (t - 1) (src - of_nat k, dst - of_nat k, ?m) = Some (?s, ?d, memmove ?m ?d ?s (Suc n * k))"
      using b st(2) le by (intro Suc.IH) auto
    also have "memmove ?m ?d ?s (Suc n * k) = memmove m ?d ?s (Suc (Suc n) * k)"
      using memmove_down [of "Suc n * k" "Suc (Suc n) * k" ?s ?d m] le by simp
    finally show ?case using st(1) by (simp add: algebra_simps)
  qed
  from this [of "unat t - 1"] show ?thesis
    using False by (simp add: TLOOP_def unat_gt_0)
qed (simp add: TLOOP_def)

subsection \<open>Alignment\<close>

lemma and_3: "(x :: u32) AND 3 = take_bit 2 x"
  by (simp add: take_bit_eq_mask mask_eq_exp_minus_1)

lemma unat_and_3: "unat ((x :: u32) AND 3) = unat x mod 4"
  by (simp add: and_3 take_bit_eq_mod unat_mod)

lemma aligned_iff: "(x :: u32) AND 3 = 0 \<longleftrightarrow> unat x mod 4 = 0"
  by (simp add: word_unat_eq_iff unat_and_3)

lemma unat_plus_mod_4: "unat (x + y :: u32) mod 4 = (unat x + unat y) mod 4"
  by (simp add: unat_word_ariths mod_mod_cancel)

lemma unat_minus_mod_4: "unat (y :: u32) mod 4 = 0 \<Longrightarrow> unat (x - y) mod 4 = unat x mod 4"
proof -
  assume "unat y mod 4 = 0"
  moreover have "unat x mod 4 = (unat (x - y) + unat y) mod 4"
    using unat_plus_mod_4 [of "x - y" y] by simp
  ultimately show ?thesis by (simp add: mod_add_eq mod_add_right_eq flip: mod_add_right_eq [of "unat (x - y)"])
qed

lemma same_low_bits: "((x :: u32) XOR y) AND 3 = 0 \<longleftrightarrow> x AND 3 = y AND 3"
proof -
  have "a = b" if "a XOR b = 0" for a b :: u32
  proof -
    from that have "a XOR (a XOR b) = a" by simp
    then show ?thesis by (simp flip: xor.assoc)
  qed
  then show ?thesis by (auto simp: and_3 take_bit_xor)
qed

lemma both_aligned: "((x :: u32) OR y) AND 3 = 0 \<longleftrightarrow> x AND 3 = 0 \<and> y AND 3 = 0"
  by (simp add: and_3 take_bit_or or_eq_0_iff)

definition aligned2 :: "addr \<Rightarrow> addr \<Rightarrow> bool" where
  "aligned2 a b \<longleftrightarrow> a AND 3 = 0 \<and> b AND 3 = 0"

lemma copy_up_body:
  "copy_up (src, dst, m) = Some (src + of_nat 1, dst + of_nat 1, memmove m dst src 1)"
  by (simp add: copy_up_def memmove_1)

lemma copy_down_body:
  "copy_down (src, dst, m) =
     Some (src - of_nat 1, dst - of_nat 1, memmove m (dst - of_nat 1) (src - of_nat 1) 1)"
  by (simp add: copy_down_def memmove_1)

lemma copy_word_up_body:
  assumes "aligned2 src dst"
  shows "copy_word_up (src, dst, m) = Some (src + of_nat 4, dst + of_nat 4, memmove m dst src 4) \<and>
         aligned2 (src + of_nat 4) (dst + of_nat 4)"
proof -
  from assms obtain w where "ld_word m src = Some w" "st_word dst w m = Some (memmove m dst src 4)"
    using word_copy [of src dst m] by (auto simp: aligned2_def bind_eq_Some)
  then show ?thesis using assms
    by (simp add: copy_word_up_def aligned2_def aligned_iff unat_plus_mod_4)
qed

lemma copy_word_down_body:
  assumes "aligned2 src dst"
  shows "copy_word_down (src, dst, m) =
           Some (src - of_nat 4, dst - of_nat 4, memmove m (dst - of_nat 4) (src - of_nat 4) 4) \<and>
         aligned2 (src - of_nat 4) (dst - of_nat 4)"
proof -
  have a: "aligned2 (src - of_nat 4) (dst - of_nat 4)"
    using assms by (auto simp: aligned2_def aligned_iff unat_minus_mod_4)
  then obtain w where "ld_word m (src - 4) = Some w"
      "st_word (dst - 4) w m = Some (memmove m (dst - 4) (src - 4) 4)"
    using word_copy [of "src - 4" "dst - 4" m] by (auto simp: aligned2_def bind_eq_Some)
  then show ?thesis using a by (simp add: copy_word_down_def)
qed

lemma word_count: "unat ((len :: u32) div 4) * 4 + unat (len AND 3) = unat len"
  by (simp add: unat_and_3 unat_div)

lemma copy_rest_up:
  assumes "4 \<le> unat len \<Longrightarrow> aligned2 src dst" "unat len \<le> unat (dst - src)"
  shows "do { c \<leftarrow> TLOOP copy_word_up (len div wsize) (src, dst, m);
              (_, _, m) \<leftarrow> TLOOP copy_up (len AND wmask) c; Some m } = Some (memmove m dst src (unat len))"
proof -
  let ?q = "unat (len div 4) * 4"
  have q: "?q + unat (len AND 3) = unat len" by (rule word_count)
  have "TLOOP copy_word_up (len div 4) (src, dst, m) = Some (src + of_nat ?q, dst + of_nat ?q, memmove m dst src ?q)"
  proof (cases "4 \<le> unat len")
    case True
    show ?thesis
      by (rule TLOOP_up [where P = aligned2, OF copy_word_up_body assms(1) [OF True]]) (use q assms(2) in auto)
  next
    case False
    then have "unat (len div 4) = 0" by (simp add: unat_div)
    then show ?thesis by (simp add: TLOOP_def unat_eq_0)
  qed
  moreover have "TLOOP copy_up (len AND 3) (src + of_nat ?q, dst + of_nat ?q, memmove m dst src ?q) =
    Some (src + of_nat ?q + of_nat (unat (len AND 3) * 1), dst + of_nat ?q + of_nat (unat (len AND 3) * 1),
          memmove (memmove m dst src ?q) (dst + of_nat ?q) (src + of_nat ?q) (unat (len AND 3) * 1))"
    by (rule TLOOP_up [where P = "\<lambda>_ _. True"]) (use q assms(2) copy_up_body in auto)
  moreover have "memmove (memmove m dst src ?q) (dst + of_nat ?q) (src + of_nat ?q) (unat (len AND 3)) = memmove m dst src (unat len)"
    using memmove_up [of ?q "unat len" dst src m] q assms(2) by (metis diff_add_inverse le_add1)
  ultimately show ?thesis by simp
qed

lemma memmove_down_end:
  assumes "q + r \<le> unat (src - dst)"
  shows "memmove (memmove m (dst - of_nat q) (src - of_nat q) q) (dst - of_nat q - of_nat r) (src - of_nat q - of_nat r) r =
         memmove m (dst - of_nat (q + r)) (src - of_nat (q + r)) (q + r)"
proof -
  have "memmove (memmove m (dst - of_nat (q + r) + of_nat r) (src - of_nat (q + r) + of_nat r) (q + r - r))
          (dst - of_nat (q + r)) (src - of_nat (q + r)) r =
        memmove m (dst - of_nat (q + r)) (src - of_nat (q + r)) (q + r)"
    using assms by (intro memmove_down) auto
  then show ?thesis by (simp add: algebra_simps)
qed

lemma copy_rest_down:
  assumes "4 \<le> unat len \<Longrightarrow> aligned2 src dst" "unat len \<le> unat (src - dst)"
  shows "do { c \<leftarrow> TLOOP copy_word_down (len div wsize) (src, dst, m);
              (_, _, m) \<leftarrow> TLOOP copy_down (len AND wmask) c; Some m } =
         Some (memmove m (dst - len) (src - len) (unat len))"
proof -
  let ?q = "unat (len div 4) * 4" and ?r = "unat (len AND 3)"
  let ?m = "memmove m (dst - of_nat ?q) (src - of_nat ?q) ?q"
  have q: "?q + ?r = unat len" by (rule word_count)
  then have len: "len = of_nat (?q + ?r)" by simp
  have "TLOOP copy_word_down (len div 4) (src, dst, m) = Some (src - of_nat ?q, dst - of_nat ?q, ?m)"
  proof (cases "4 \<le> unat len")
    case True
    show ?thesis
      by (rule TLOOP_down [where P = aligned2, OF copy_word_down_body assms(1) [OF True]]) (use q assms(2) in auto)
  next
    case False
    then have "unat (len div 4) = 0" by (simp add: unat_div)
    then show ?thesis by (simp add: TLOOP_def unat_eq_0)
  qed
  moreover have "TLOOP copy_down (len AND 3) (src - of_nat ?q, dst - of_nat ?q, ?m) =
    Some (src - of_nat ?q - of_nat (?r * 1), dst - of_nat ?q - of_nat (?r * 1),
          memmove ?m (dst - of_nat ?q - of_nat (?r * 1)) (src - of_nat ?q - of_nat (?r * 1)) (?r * 1))"
    by (rule TLOOP_down [where P = "\<lambda>_ _. True"]) (use q assms(2) copy_down_body in auto)
  moreover have "memmove ?m (dst - of_nat ?q - of_nat ?r) (src - of_nat ?q - of_nat ?r) ?r =
                 memmove m (dst - len) (src - len) (unat len)"
    using memmove_down_end [of ?q ?r src dst m] assms(2) unfolding len [symmetric] unfolding q by blast
  ultimately show ?thesis by simp
qed

lemma TLOOP1_eq: "t \<noteq> 0 \<Longrightarrow> TLOOP1 s t c = TLOOP s t c"
  by (simp add: TLOOP_def)

text \<open>The number of bytes that bring both pointers to a word boundary.\<close>

lemma low_bits:
  fixes src dst :: addr
  assumes "(src XOR dst) AND 3 = 0" "(src OR dst) AND 3 \<noteq> 0"
  shows "unat dst mod 4 = unat src mod 4" "unat src mod 4 \<noteq> 0"
proof -
  from assms(1) have "src AND 3 = dst AND 3" by (simp add: same_low_bits)
  then show 1: "unat dst mod 4 = unat src mod 4" by (simp flip: unat_and_3)
  from assms(2) have "\<not> (src AND 3 = 0 \<and> dst AND 3 = 0)" unfolding both_aligned .
  with 1 show "unat src mod 4 \<noteq> 0" by (simp add: aligned_iff)
qed

lemma mod_4_up: "(n :: nat) mod 4 = k mod 4 \<Longrightarrow> (n + (4 - k mod 4)) mod 4 = 0"
proof -
  assume a: "n mod 4 = k mod 4"
  have "n + (4 - r) = 4 * (q + 1)" if "4 * q + r = n" "r < 4" for q r using that by arith
  from this [of "n div 4" "n mod 4"] have "n + (4 - n mod 4) = 4 * (n div 4 + 1)" by simp
  then show ?thesis by (simp flip: a)
qed

lemma mod_4_down: "((u :: nat) + r) mod 4 = r \<Longrightarrow> u mod 4 = 0"
proof -
  assume a: "(u + r) mod 4 = r"
  have "u + r = 4 * ((u + r) div 4) + r" using mult_div_mod_eq [of 4 "u + r"] a by linarith
  then have "u = 4 * ((u + r) div 4)" by linarith
  then show ?thesis by (metis mod_mult_self1_is_0)
qed

lemma align_up_count:
  fixes src dst len :: u32
  assumes "(src XOR dst) AND 3 = 0" "\<not> len < 4" "(src OR dst) AND 3 \<noteq> 0"
  defines "t \<equiv> 4 - (src AND 3) :: u32"
  shows "t \<noteq> 0 \<and> unat t \<le> unat len \<and> aligned2 (src + t) (dst + t)"
proof -
  note lb = low_bits [OF assms(1,3)]
  have t: "unat t = 4 - unat src mod 4"
    using unat_minus_u32 [of 4 "src AND 3"] mod_less_divisor [of 4 "unat src"] by (simp add: t_def unat_and_3)
  then have "t \<noteq> 0" "unat t \<le> 4" using mod_less_divisor [of 4 "unat src"] by auto
  moreover have "(unat src + unat t) mod 4 = 0" "(unat dst + unat t) mod 4 = 0"
    using mod_4_up lb(1) by (simp_all add: t)
  ultimately show ?thesis
    using assms(2) by (auto simp: aligned2_def aligned_iff unat_plus_mod_4 word_less_nat_alt)
qed

lemma align_down_count:
  fixes src dst len :: u32
  assumes "(src XOR dst) AND 3 = 0" "\<not> len \<le> 4" "(src OR dst) AND 3 \<noteq> 0"
  defines "t \<equiv> src AND 3 :: u32"
  shows "t \<noteq> 0 \<and> unat t \<le> unat len \<and> aligned2 (src - t) (dst - t)"
proof -
  note lb = low_bits [OF assms(1,3)]
  have t: "unat t = unat src mod 4" by (simp add: t_def unat_and_3)
  then have "t \<noteq> 0" "unat t \<le> 4" using lb mod_less_divisor [of 4 "unat src"] by auto
  moreover have "unat (x - t) mod 4 = 0" if "unat x mod 4 = unat src mod 4" for x
    using that t unat_plus_mod_4 [of "x - t" t] by (intro mod_4_down [of _ "unat t"]) simp
  ultimately show ?thesis
    using assms(2) lb by (auto simp: aligned2_def aligned_iff word_le_nat_alt)
qed

lemma bcopy_up:
  assumes "dst < src" "unat src + unat len \<le> 2 ^ 32" "len \<noteq> 0"
  shows "bcopy src dst len m = Some (memmove m dst src (unat len))"
proof -
  have D: "unat len \<le> unat (dst - src)"
    using assms unat_minus_u32 [of dst src] by (simp add: word_less_nat_alt)
  have ne: "dst \<noteq> src" using assms(1) by auto
  show ?thesis
  proof (cases "(src OR dst) AND 3 = 0")
    case True
    then show ?thesis using assms(1,3) ne D copy_rest_up [of len src dst m]
      by (simp add: bcopy_def aligned2_def both_aligned)
  next
    case False
    let ?t = "if (src XOR dst) AND 3 \<noteq> 0 \<or> len < 4 then len else 4 - (src AND 3)"
    have t: "?t \<noteq> 0 \<and> unat ?t \<le> unat len \<and> (4 \<le> unat (len - ?t) \<longrightarrow> aligned2 (src + ?t) (dst + ?t))"
      using assms(3) align_up_count [OF _ _ False] by auto
    have "TLOOP1 copy_up ?t (src, dst, m) =
            Some (src + of_nat (unat ?t * 1), dst + of_nat (unat ?t * 1), memmove m dst src (unat ?t * 1))"
      unfolding TLOOP1_eq [OF t [THEN conjunct1]]
      by (rule TLOOP_up [where P = "\<lambda>_ _. True"]) (use t D copy_up_body in auto)
    then have 1: "TLOOP1 copy_up ?t (src, dst, m) = Some (src + ?t, dst + ?t, memmove m dst src (unat ?t))"
      by simp
    have u: "unat (len - ?t) = unat len - unat ?t" using t by (simp add: unat_sub word_le_nat_alt)
    have "memmove (memmove m dst src (unat ?t)) (dst + ?t) (src + ?t) (unat (len - ?t)) = memmove m dst src (unat len)"
      using memmove_up [of "unat ?t" "unat len" dst src m] t D unfolding u by simp
    moreover have "bcopy src dst len m =
        do { c \<leftarrow> TLOOP1 copy_up ?t (src, dst, m); c \<leftarrow> TLOOP copy_word_up ((len - ?t) div 4) c;
             (_, _, m) \<leftarrow> TLOOP copy_up ((len - ?t) AND 3) c; Some m }"
      using False assms(1,3) ne by (simp add: bcopy_def Let_def split del: if_split)
    ultimately show ?thesis
      using 1 D copy_rest_up [of "len - ?t" "src + ?t" "dst + ?t" "memmove m dst src (unat ?t)"] t u
      by (simp split del: if_split)
  qed
qed

lemma bcopy_down:
  assumes "src < dst" "unat dst + unat len \<le> 2 ^ 32" "len \<noteq> 0"
  shows "bcopy src dst len m = Some (memmove m dst src (unat len))"
proof -
  let ?s = "src + len" and ?d = "dst + len"
  have D: "unat len \<le> unat (?s - ?d)"
    using assms unat_minus_u32 [of src dst] by (simp add: word_less_nat_alt)
  have ne: "dst \<noteq> src" "\<not> dst < src" using assms(1) by auto
  show ?thesis
  proof (cases "(?s OR ?d) AND 3 = 0")
    case True
    then show ?thesis using assms(3) ne D copy_rest_down [of len ?s ?d m]
      by (simp add: bcopy_def aligned2_def both_aligned)
  next
    case False
    let ?t = "if (?s XOR ?d) AND 3 \<noteq> 0 \<or> len \<le> 4 then len else ?s AND 3"
    have t: "?t \<noteq> 0 \<and> unat ?t \<le> unat len \<and> (4 \<le> unat (len - ?t) \<longrightarrow> aligned2 (?s - ?t) (?d - ?t))"
      using assms(3) align_down_count [OF _ _ False] by auto
    have "TLOOP1 copy_down ?t (?s, ?d, m) =
            Some (?s - of_nat (unat ?t * 1), ?d - of_nat (unat ?t * 1),
                  memmove m (?d - of_nat (unat ?t * 1)) (?s - of_nat (unat ?t * 1)) (unat ?t * 1))"
      unfolding TLOOP1_eq [OF t [THEN conjunct1]]
      by (rule TLOOP_down [where P = "\<lambda>_ _. True"]) (use t D copy_down_body in auto)
    then have 1: "TLOOP1 copy_down ?t (?s, ?d, m) = Some (?s - ?t, ?d - ?t, memmove m (?d - ?t) (?s - ?t) (unat ?t))"
      by simp
    have u: "unat (len - ?t) = unat len - unat ?t" using t by (simp add: unat_sub word_le_nat_alt)
    have "memmove (memmove m (?d - ?t) (?s - ?t) (unat ?t)) dst src (unat (len - ?t)) = memmove m dst src (unat len)"
      using memmove_down_end [of "unat ?t" "unat (len - ?t)" ?s ?d m] t D unfolding u by simp
    moreover have "bcopy src dst len m =
        do { c \<leftarrow> TLOOP1 copy_down ?t (?s, ?d, m); c \<leftarrow> TLOOP copy_word_down ((len - ?t) div 4) c;
             (_, _, m) \<leftarrow> TLOOP copy_down ((len - ?t) AND 3) c; Some m }"
      using False assms(3) ne by (simp add: bcopy_def Let_def split del: if_split)
    ultimately show ?thesis
      using 1 D copy_rest_down [of "len - ?t" "?s - ?t" "?d - ?t" "memmove m (?d - ?t) (?s - ?t) (unat ?t)"] t u
      by (simp split del: if_split)
  qed
qed

lemma bcopy_memmove:
  assumes "unat src + unat len \<le> 2 ^ 32" "unat dst + unat len \<le> 2 ^ 32"
  shows "bcopy src dst len m = Some (memmove m dst src (unat len))"
proof -
  consider "len = 0" | "src = dst" | "dst < src" "len \<noteq> 0" | "src < dst" "len \<noteq> 0" by fastforce
  then show ?thesis
  proof cases
    case 3 then show ?thesis using bcopy_up assms by blast
  next
    case 4 then show ?thesis using bcopy_down assms by blast
  qed (simp_all add: bcopy_def)
qed

section \<open>Filling and comparing\<close>

lemma memfill_step:
  assumes "n < 2 ^ 32"
  shows "memfill (m(p := v)) (p + 1) n v = memfill m p (Suc n) v"
proof (rule ext)
  fix a
  have "unat (a - (p + 1)) = (if 1 \<le> unat (a - p) then unat (a - p) - 1 else unat (a - p) + 2 ^ 32 - 1)"
    using unat_minus_u32 [of "a - p" 1] by (simp add: diff_diff_eq)
  then show "memfill (m(p := v)) (p + 1) n v a = memfill m p (Suc n) v a"
    using assms by (cases "unat (a - p) = 0") (auto simp: memfill_def unat_eq_0)
qed

lemma memfill_0 [simp]: "memfill m p 0 v = m"
  by (simp add: memfill_def)

lemma bzero_fill: "bzero p len m = memfill m p (unat len) 0"
proof (induction p len m rule: bzero.induct)
  case (1 p len m)
  show ?case
  proof (cases "len = 0")
    case False
    have "bzero p len m = bzero (p + 1) (len - 1) (m(p := 0))" using False by (subst bzero.simps) simp
    also have "\<dots> = memfill (m(p := 0)) (p + 1) (unat (len - 1)) 0" by (rule 1 [OF False])
    also have "\<dots> = memfill m p (unat len) 0" using unat_pred [OF False] memfill_step by metis
    finally show ?thesis .
  qed (simp add: bzero.simps)
qed

lemma s_memset_fill: "s_memset dst ch len m = memfill m dst (unat len) (ucast ch)"
proof -
  have "s_memset_loop ptr ch len m = memfill m (ptr + 1) (unat len) (ucast ch)" for ptr
  proof (induction ptr ch len m rule: s_memset_loop.induct)
    case (1 ptr ch len m)
    show ?case
    proof (cases "len = 0")
      case False
      have "s_memset_loop ptr ch len m = s_memset_loop (ptr + 1) ch (len - 1) (m(ptr + 1 := ucast ch))"
        using False by (subst s_memset_loop.simps) (simp add: Let_def)
      also have "\<dots> = memfill (m(ptr + 1 := ucast ch)) (ptr + 1 + 1) (unat (len - 1)) (ucast ch)"
        by (rule 1 [OF False refl])
      also have "\<dots> = memfill m (ptr + 1) (unat len) (ucast ch)"
        using unat_pred [OF False] memfill_step by metis
      finally show ?thesis .
    qed (simp add: s_memset_loop.simps)
  qed
  from this [of "dst - 1"] show ?thesis by (simp add: s_memset_def)
qed

text \<open>\<open>s_memcmp\<close> returns the difference at the first place where the two blocks differ.\<close>

lemma s_memcmp_equal:
  assumes "\<And>i. i < unat count \<Longrightarrow> m (a + of_nat i) = m (b + of_nat i)" "count \<noteq> 0"
  shows "s_memcmp a b count m = 0"
  using assms
proof (induction a b count m rule: s_memcmp.induct)
  case (1 a b count m)
  have eq: "m a = m b" using 1(2) [of 0] 1(3) by (simp add: unat_gt_0)
  show ?case
  proof (cases "count - 1 = 0")
    case False
    then have "s_memcmp (a + 1) (b + 1) (count - 1) m = 0"
      using 1(2) [of "Suc i" for i] unat_pred [OF 1(3)] eq
      by (intro 1(1)) (auto simp: add.assoc)
    then show ?thesis using False eq by (subst s_memcmp.simps) simp
  qed (use eq in \<open>subst s_memcmp.simps; simp\<close>)
qed

lemma s_memcmp_differ:
  assumes "i < unat count" "m (a + of_nat i) \<noteq> m (b + of_nat i)"
    "\<And>j. j < i \<Longrightarrow> m (a + of_nat j) = m (b + of_nat j)"
  shows "s_memcmp a b count m = uint (m (a + of_nat i)) - uint (m (b + of_nat i))"
  using assms
proof (induction i arbitrary: a b count)
  case 0
  then show ?case by (subst s_memcmp.simps) simp
next
  case (Suc i)
  have eq: "m a = m b" using Suc.prems(3) [of 0] by simp
  have c: "count \<noteq> 0" using Suc.prems(1) by auto
  have lt: "i < unat (count - 1)" using unat_pred [OF c] Suc.prems(1) by simp
  then have "count - 1 \<noteq> 0" by auto
  moreover have "s_memcmp (a + 1) (b + 1) (count - 1) m
      = uint (m (a + 1 + of_nat i)) - uint (m (b + 1 + of_nat i))"
    using Suc.prems(2,3) lt Suc.prems(3) [of "Suc j" for j]
    by (intro Suc.IH) (auto simp: add.assoc)
  ultimately show ?case using eq by (subst s_memcmp.simps) (simp add: add.assoc)
qed

end
