(* ===== verification/Mbuf_State.thy ===== *)
theory Mbuf_State
  imports Net_Utils
begin

text \<open>
  The network buffers of \<open>src/tn_net/tn_mbuf.h\<close>: \<open>struct mbuf\<close>, and a store that maps the address of
  every allocated descriptor to its contents. A descriptor that is not in the store is free
  memory, so that every use of it is a fault. \<open>NULL\<close> is the address 0.

  \<open>m_len\<close> is a \<open>short\<close>, and \<open>m_tlen\<close>, \<open>m_dbtype\<close> and \<open>m_refcnt\<close> are bit fields of 20, 4 and 8 bits; they are
  kept as integers and every assignment goes through the conversion of its field.
\<close>

abbreviation M_DBHDR :: u16 where "M_DBHDR \<equiv> 0x0001"
abbreviation M_PKTHDR :: u16 where "M_PKTHDR \<equiv> 0x0002"
abbreviation M_NOALLOC :: u16 where "M_NOALLOC \<equiv> 0x0004"
abbreviation M_ETHHDR :: u16 where "M_ETHHDR \<equiv> 0x0008"
abbreviation M_BCAST :: u16 where "M_BCAST \<equiv> 0x0100"
abbreviation M_MCAST :: u16 where "M_MCAST \<equiv> 0x0200"

abbreviation INV_MEM :: addr where "INV_MEM \<equiv> 0xFFFFFFFF"
abbreviation (input) INV_MEM_VAL :: int where "INV_MEM_VAL \<equiv> -1"

record mbuf =
  m_flags :: u16
  m_len :: int
  m_next :: addr
  m_data :: addr
  m_dbuf :: addr
  m_nextpkt :: addr
  m_pri :: addr
  m_tlen :: int
  m_dbtype :: int
  m_refcnt :: int

definition to_short :: "int \<Rightarrow> int" where
  "to_short x = (x + 2 ^ 15) mod 2 ^ 16 - 2 ^ 15"

definition to_bits :: "nat \<Rightarrow> int \<Rightarrow> int" where
  "to_bits n x = x mod 2 ^ n"

lemma to_short_id [simp]: "- 32768 \<le> x \<Longrightarrow> x < 32768 \<Longrightarrow> to_short x = x"
  by (simp add: to_short_def)

lemma to_bits_id: "0 \<le> x \<Longrightarrow> x < 2 ^ n \<Longrightarrow> to_bits n x = x"
  by (simp add: to_bits_def)

type_synonym mheap = "addr \<Rightarrow> mbuf option"

section \<open>Chains\<close>

text \<open>The descriptors reached from \<open>p\<close> through \<open>m_next\<close>, up to \<open>NULL\<close>.\<close>

fun mchain :: "mheap \<Rightarrow> addr \<Rightarrow> addr list \<Rightarrow> bool" where
  "mchain h p [] \<longleftrightarrow> p = 0"
| "mchain h p (q # qs) \<longleftrightarrow>
     p = q \<and> q \<noteq> 0 \<and> (case h q of None \<Rightarrow> False | Some b \<Rightarrow> mchain h (m_next b) qs)"

text \<open>\<open>n\<close> bytes of memory, and the bytes of the descriptors of a chain.\<close>

definition bytes_at :: "bmem \<Rightarrow> addr \<Rightarrow> nat \<Rightarrow> u8 list" where
  "bytes_at m a n = map (\<lambda>i. m (a + of_nat i)) [0..<n]"

definition mbuf_data :: "bmem \<Rightarrow> mbuf \<Rightarrow> u8 list" where
  "mbuf_data m b = bytes_at m (m_data b) (nat (m_len b))"

definition chain_data :: "mheap \<Rightarrow> bmem \<Rightarrow> addr list \<Rightarrow> u8 list" where
  "chain_data h m ps = concat (map (\<lambda>p. mbuf_data m (the (h p))) ps)"

lemma length_bytes_at [simp]: "length (bytes_at m a n) = n"
  by (simp add: bytes_at_def)

lemma length_mbuf_data [simp]: "length (mbuf_data m b) = nat (m_len b)"
  by (simp add: mbuf_data_def)

lemma bytes_at_0 [simp]: "bytes_at m a 0 = []"
  by (simp add: bytes_at_def)

lemma bytes_at_Suc: "bytes_at m a (Suc n) = m a # bytes_at m (a + 1) n"
  by (auto simp: bytes_at_def upt_conv_Cons map_Suc_upt [symmetric] add.assoc simp del: upt_Suc)

lemma bytes_at_1: "bytes_at m a 1 = [m a]"
  by (simp add: bytes_at_def)

lemma bytes_at_add: "bytes_at m a (i + j) = bytes_at m a i @ bytes_at m (a + of_nat i) j"
  by (induction i arbitrary: a) (simp_all add: bytes_at_Suc add.assoc)

lemma take_bytes_at [simp]: "take k (bytes_at m a n) = bytes_at m a (min k n)"
proof (cases "k \<le> n")
  case True
  then show ?thesis using bytes_at_add [of m a k "n - k"] by (simp add: min_def)
qed (simp add: min_def)

lemma drop_bytes_at [simp]: "drop k (bytes_at m a n) = bytes_at m (a + of_nat k) (n - k)"
proof (cases "k \<le> n")
  case True
  then show ?thesis using bytes_at_add [of m a k "n - k"] by simp
qed simp

lemma bytes_at_upd:
  assumes "\<And>i. i < n \<Longrightarrow> a + of_nat i \<noteq> x"
  shows "bytes_at (m(x := v)) a n = bytes_at m a n"
  using assms by (auto simp: bytes_at_def)

lemma of_nat_eq_u32: "i < 2 ^ 32 \<Longrightarrow> j < 2 ^ 32 \<Longrightarrow> (of_nat i :: u32) = of_nat j \<longleftrightarrow> i = j"
  by (metis unat_of_nat_u32)

lemma mchain_alloc:
  "mchain h p ps \<Longrightarrow> q \<in> set ps \<Longrightarrow> q \<noteq> 0 \<and> h q \<noteq> None"
  by (induction ps arbitrary: p) (auto split: option.splits)

lemma mchain_unique: "mchain h p ps \<Longrightarrow> mchain h p qs \<Longrightarrow> ps = qs"
proof (induction ps arbitrary: p qs)
  case Nil
  then show ?case by (cases qs) auto
next
  case (Cons a ps)
  then show ?case by (cases qs) (auto split: option.splits)
qed

lemma mchain_append:
  "mchain h p (ps @ q # qs) \<Longrightarrow> mchain h q (q # qs)"
proof (induction ps arbitrary: p)
  case (Cons a ps)
  from Cons.prems have "mchain h (m_next (the (h a))) (ps @ q # qs)" by (auto split: option.splits)
  then show ?case by (rule Cons.IH)
qed simp

text \<open>A chain does not run into itself.\<close>

lemma mchain_distinct: "mchain h p ps \<Longrightarrow> distinct ps"
proof (induction ps arbitrary: p)
  case (Cons q qs)
  from Cons.prems obtain b where b: "h q = Some b" "mchain h (m_next b) qs" "p = q" "q \<noteq> 0"
    by (auto split: option.splits)
  have "q \<notin> set qs"
  proof
    assume "q \<in> set qs"
    then obtain xs ys where qs: "qs = xs @ q # ys" by (meson split_list)
    with b(2) have "mchain h q (q # ys)" using mchain_append by fastforce
    with Cons.prems b(3) have "q # qs = q # ys" using mchain_unique by blast
    with qs show False by simp
  qed
  with b Cons.IH show ?case by auto
qed simp

lemma mchain_cong:
  "(\<And>q. q \<in> set ps \<Longrightarrow> h' q = h q) \<Longrightarrow> mchain h' p ps = mchain h p ps"
  by (induction ps arbitrary: p) (auto split: option.splits)

end
