(* ===== verification/In_Cksum.thy ===== *)
theory In_Cksum
  imports Mbuf_State
begin

text \<open>
  The internet checksum, \<open>src/tn_net/in4_cksum.c\<close>: the optimised routine that walks a chain of
  buffers of any length and alignment, and its equivalence with the one's complement sum of the
  bytes the chain holds. The processor is little-endian. \<open>sum\<close> is the \<open>int\<close> of the code, read as an
  unsigned number by \<open>REDUCE\<close>; \<open>s_util.c[0]\<close> is \<open>ck_c0\<close>. A read of a half word at an odd address is a fault,
  and so are the two panics.
\<close>

section \<open>The routine\<close>

definition REDUCE :: "u32 \<Rightarrow> u32" where
  "REDUCE s = (let s = take_bit 16 s + drop_bit 16 s
                 in if s > 65535 then s - 65535 else s)"

definition half_word :: "u8 \<Rightarrow> u8 \<Rightarrow> u32" where
  "half_word c0 c1 = ucast c0 + 256 * ucast c1"

definition ld_half :: "bmem \<Rightarrow> addr \<Rightarrow> u32 option" where
  "ld_half m a = (if a AND 1 = 0 then Some (half_word (m a) (m (a + 1))) else None)"

text \<open>\<open>sum += w[0]; \<dots> sum += w[k - 1]\<close>.\<close>

fun add_halves :: "nat \<Rightarrow> bmem \<Rightarrow> addr \<Rightarrow> u32 \<Rightarrow> u32 option" where
  "add_halves 0 m w s = Some s"
| "add_halves (Suc k) m w s = do { h \<leftarrow> ld_half m w; add_halves k m (w + 2) (s + h) }"

text \<open>The three loops \<open>while((mlen -= 2 * k) >= 0)\<close> that add \<open>k\<close> half words per round; \<open>k\<close> is 16, 4 and 1.\<close>

partial_function (option) sum_loop :: "nat \<Rightarrow> bmem \<Rightarrow> addr \<Rightarrow> int \<Rightarrow> u32 \<Rightarrow> (addr \<times> int \<times> u32) option" where
  "sum_loop k m w mlen s =
     (let mlen = mlen - 2 * int k
      in if mlen \<ge> 0
         then do { s \<leftarrow> add_halves k m w s; sum_loop k m (w + of_nat (2 * k)) mlen s }
         else Some (w, mlen, s))"

record cksum =
  ck_sum :: u32
  ck_mlen :: int
  ck_c0 :: u8
  ck_off :: int
  ck_len :: int

text \<open>The loops by 16 and by 4 half words, which leave fewer than 8 bytes.\<close>

definition cksum_words :: "bmem \<Rightarrow> addr \<Rightarrow> int \<Rightarrow> u32 \<Rightarrow> (addr \<times> int \<times> u32) option" where
  "cksum_words m w mlen s =
     do { (w, mlen, s) \<leftarrow> sum_loop 16 m w mlen s;
          (w, mlen, s) \<leftarrow> sum_loop 4 m w (mlen + 32) s;
          Some (w, mlen + 8, s) }"

text \<open>The part of the loop body from ``force to even boundary'' on: \<open>mlen\<close> bytes at \<open>w\<close>.\<close>

definition cksum_block :: "bmem \<Rightarrow> addr \<Rightarrow> int \<Rightarrow> u32 \<Rightarrow> u8 \<Rightarrow> (u32 \<times> int \<times> u8) option" where
  "cksum_block m w mlen s c0 =
     (let (byte_swapped, s, c0, w, mlen) =
        (if w AND 1 \<noteq> 0 \<and> mlen > 0
         then (True, push_bit 8 (REDUCE s), m w, w + 1, mlen - 1)
         else (False, s, c0, w, mlen))
      in do { (w, mlen, s) \<leftarrow> cksum_words m w mlen s;
              if mlen = 0 \<and> \<not> byte_swapped then Some (s, mlen, c0)
              else do { (w, mlen, s) \<leftarrow> sum_loop 1 m w mlen (REDUCE s);
                        Some (if byte_swapped then
                                let s = push_bit 8 (REDUCE s)
                                in if mlen = -1 then (s + half_word c0 (m w), 0, c0)
                                   else (s, -1, c0)
                              else if mlen = -1 then (s, mlen, m w)
                              else (s, mlen, c0)) } })"

text \<open>The body of the loop over the buffers.\<close>

definition cksum_mbuf :: "bmem \<Rightarrow> mbuf \<Rightarrow> cksum \<Rightarrow> cksum option" where
  "cksum_mbuf m b c =
     (let w = m_data b + word_of_int (ck_off c);
          (s, w, mlen, len) =
            (if ck_mlen c = -1
             then (ck_sum c + half_word (ck_c0 c) (m w), w + 1, m_len b - ck_off c - 1, ck_len c - 1)
             else (ck_sum c, w, m_len b - ck_off c, ck_len c));
          mlen = (if len < mlen then len else mlen);
          len = len - mlen
      in do { (s, mlen, c0) \<leftarrow> cksum_block m w mlen s (ck_c0 c);
              Some \<lparr>ck_sum = s, ck_mlen = mlen, ck_c0 = c0, ck_off = 0, ck_len = len\<rparr> })"

partial_function (option) cksum_loop :: "mheap \<Rightarrow> bmem \<Rightarrow> addr \<Rightarrow> cksum \<Rightarrow> cksum option" where
  "cksum_loop h m p c =
     (if p \<noteq> 0 \<and> ck_len c \<noteq> 0
      then do { b \<leftarrow> h p;
                c \<leftarrow> (if m_len b = 0 then Some c else cksum_mbuf m b c);
                cksum_loop h m (m_next b) c }
      else Some c)"

partial_function (option) cksum_skip :: "mheap \<Rightarrow> addr \<Rightarrow> int \<Rightarrow> (addr \<times> int) option" where
  "cksum_skip h p off =
     (if p \<noteq> 0 \<and> off > 0
      then do { b \<leftarrow> h p;
                if m_len b > off then Some (p, off) else cksum_skip h (m_next b) (off - m_len b) }
      else Some (p, off))"

text \<open>The pseudo header \<open>struct ipovly\<close>, as its 20 bytes: protocol and length in network order, and the
  addresses of the IP header at \<open>d\<close>.\<close>

definition pseudo_header :: "bmem \<Rightarrow> addr \<Rightarrow> u8 \<Rightarrow> int \<Rightarrow> u8 list" where
  "pseudo_header m d nxt len =
     replicate 9 0 @ [nxt, word_of_int (len div 256), word_of_int len] @ bytes_at m (d + 12) 8"

definition in4_cksum :: "mheap \<Rightarrow> bmem \<Rightarrow> addr \<Rightarrow> u8 \<Rightarrow> int \<Rightarrow> int \<Rightarrow> int option" where
  "in4_cksum h m p nxt off len =
     do { s \<leftarrow>
            (if nxt \<noteq> 0 then
               do { b \<leftarrow> h p;
                    if (0 \<le> off \<and> off < 20) \<or> (0 \<le> m_len b \<and> m_len b < 20) then None
                    else let u = pseudo_header m (m_data b) nxt len
                         in Some (sum_list (map (\<lambda>i. half_word (u ! (2 * i)) (u ! (2 * i + 1))) [0..<10])) }
             else Some 0);
          (p, off) \<leftarrow> cksum_skip h p off;
          c \<leftarrow> cksum_loop h m p \<lparr>ck_sum = s, ck_mlen = 0, ck_c0 = 0, ck_off = off, ck_len = len\<rparr>;
          let s = (if ck_mlen c = -1 then ck_sum c + half_word (ck_c0 c) 0 else ck_sum c);
          Some (uint (NOT (REDUCE s) AND 0xffff)) }"

abbreviation in_cksum :: "mheap \<Rightarrow> bmem \<Rightarrow> addr \<Rightarrow> int \<Rightarrow> int option" where
  "in_cksum h m p len \<equiv> in4_cksum h m p 0 0 len"

section \<open>One's complement sums\<close>

text \<open>\<open>ocv n\<close> is the 16-bit one's complement value of the sum \<open>n\<close>: the carries are added back until
  none is left, so that only the sum 0 has the value 0.\<close>

definition ocv :: "nat \<Rightarrow> nat" where
  "ocv n = (if n = 0 then 0 else (n - 1) mod 65535 + 1)"

lemma mod_Suc_iff: "Suc a mod n = Suc b mod n \<longleftrightarrow> a mod n = b mod n"
proof -
  have "int (Suc a) mod int n = int (Suc b) mod int n \<longleftrightarrow> int a mod int n = int b mod int n"
    by (simp add: mod_eq_dvd_iff)
  then show ?thesis by (simp flip: zmod_int del: of_nat_Suc)
qed

lemma ocv_eq_iff: "ocv a = ocv b \<longleftrightarrow> a mod 65535 = b mod 65535 \<and> (a = 0 \<longleftrightarrow> b = 0)"
  by (cases a; cases b) (simp_all add: ocv_def mod_Suc_iff)

lemma ocv_add: "ocv a = ocv b \<Longrightarrow> ocv (a + c) = ocv (b + c)"
  by (auto simp: ocv_eq_iff intro: mod_add_cong)

lemma ocv_add2: "ocv a = ocv b \<Longrightarrow> ocv c = ocv d \<Longrightarrow> ocv (a + c) = ocv (b + d)"
  by (auto simp: ocv_eq_iff intro: mod_add_cong)

lemma ocv_mult: "ocv a = ocv b \<Longrightarrow> ocv (k * a) = ocv (k * b)"
  by (auto simp: ocv_eq_iff intro: mod_mult_cong)

lemma ocv_65536: "ocv (65536 * a) = ocv a"
proof -
  have "(65535 * a + a) mod 65535 = a mod 65535" by (simp only: mod_mult_self4)
  moreover have "65535 * a + a = 65536 * a" by simp
  ultimately show ?thesis by (simp add: ocv_eq_iff)
qed

lemma ocv_small: "a \<le> 65535 \<Longrightarrow> ocv a = a"
  by (auto simp: ocv_def)

lemma ocv_le: "ocv a \<le> 65535"
  using mod_less_divisor [of 65535 "a - 1"] by (simp add: ocv_def del: mod_less_divisor)

lemma ocv_minus: "65535 < a \<Longrightarrow> ocv (a - 65535) = ocv a"
  by (auto simp: ocv_eq_iff le_mod_geq)

lemma unat_REDUCE: "unat (REDUCE s) = ocv (unat s)"
proof -
  let ?q = "unat s div 65536" and ?r = "unat s mod 65536"
  have q: "?q < 65536" using unat_u32_less [of s] by (simp add: div_less_iff_less_mult)
  have "unat (take_bit 16 s) = ?r" "unat (drop_bit 16 s) = ?q"
    by (simp_all add: take_bit_eq_mod drop_bit_eq_div unat_mod unat_div)
  then have t: "unat (take_bit 16 s + drop_bit 16 s) = ?r + ?q"
    using q mod_less_divisor [of 65536 "unat s"] by (subst unat_add_small) simp_all
  have "ocv (unat s) = ocv (65536 * ?q + ?r)" by simp
  also have "\<dots> = ocv (?r + ?q)" using ocv_add [OF ocv_65536, of ?q ?r] by (simp add: add.commute)
  finally have v: "ocv (unat s) = ocv (?r + ?q)" .
  have "?r + ?q - 65535 \<le> 65535" using q mod_less_divisor [of 65536 "unat s"] by linarith
  then show ?thesis
    using v t ocv_minus [of "?r + ?q"] ocv_small [of "?r + ?q"] ocv_small [of "?r + ?q - 65535"]
    by (simp add: REDUCE_def Let_def word_less_nat_alt unat_minus_u32)
qed

text \<open>The sum of the half words of a byte string, the low byte of each first (\<open>hi\<close> is false) or the high
  byte first.\<close>

fun wsum :: "bool \<Rightarrow> u8 list \<Rightarrow> nat" where
  "wsum hi [] = 0"
| "wsum hi (x # xs) = (if hi then 256 else 1) * unat x + wsum (\<not> hi) xs"

lemma wsum_append: "wsum hi (xs @ ys) = wsum hi xs + wsum (hi \<noteq> odd (length xs)) ys"
proof (induction xs arbitrary: hi)
  case (Cons x xs)
  have "((\<not> hi) \<noteq> odd (length xs)) = (hi \<noteq> odd (length (x # xs)))" by auto
  with Cons [of "\<not> hi"] show ?case by (simp only: append_Cons wsum.simps)
qed simp

text \<open>Exchanging the bytes of every half word multiplies the sum by 256.\<close>

lemma wsum_swap: "ocv (256 * wsum hi xs) = ocv (wsum (\<not> hi) xs)"
proof (induction xs arbitrary: hi)
  case (Cons x xs)
  have "ocv (256 * ((if hi then 256 else 1) * unat x)) = ocv ((if \<not> hi then 256 else 1) * unat x)"
    using ocv_65536 [of "unat x"] by simp
  from ocv_add2 [OF this Cons.IH [of "\<not> hi"]] show ?case by (simp only: wsum.simps distrib_left)
qed simp

lemma unat_u8: "unat (x :: u8) \<le> 255"
proof -
  have "unat x < 2 ^ LENGTH(8)" by (rule unsigned_less)
  then show ?thesis by simp
qed

lemma wsum_pair_bound: "length xs = 2 * k \<Longrightarrow> wsum False xs \<le> 65535 * k"
proof (induction k arbitrary: xs)
  case (Suc k)
  then obtain a b ys where xs: "xs = a # b # ys" "length ys = 2 * k"
    by (cases xs; cases "tl xs") auto
  note unat_u8 [of a] unat_u8 [of b]
  with Suc.IH [OF xs(2)] xs(1) show ?case by simp
qed simp

section \<open>The loops\<close>

lemma and_1: "(w :: u32) AND 1 = 0 \<longleftrightarrow> even w"
  by (simp add: and_one_eq even_iff_mod_2_eq_zero)

lemma unat_half_word: "unat (half_word a b) = unat a + 256 * unat b"
proof -
  have u: "unat (ucast x :: u32) = unat x" for x :: u8
    using unat_u8 [of x] by (simp add: unsigned_ucast_eq take_bit_nat_eq_self)
  have "unat (256 * ucast b :: u32) = 256 * unat b"
    using unat_mul_small [of 256 "unat b"] unat_u8 [of b] u [of b] by (simp add: mult.commute)
  with u [of a] unat_u8 [of a] unat_u8 [of b] show ?thesis
    unfolding half_word_def by (subst unat_add_small) simp_all
qed

lemma add_halves_sum:
  "even w \<Longrightarrow> unat s + 65535 * k < 2 ^ 32 \<Longrightarrow>
   \<exists>s'. add_halves k m w s = Some s' \<and> unat s' = unat s + wsum False (bytes_at m w (2 * k))"
proof (induction k arbitrary: w s)
  case (Suc k)
  let ?h = "half_word (m w) (m (w + 1))"
  have h: "unat ?h \<le> 65535" using unat_u8 [of "m w"] unat_u8 [of "m (w + 1)"] by (simp add: unat_half_word)
  then have s: "unat (s + ?h) = unat s + unat ?h" using Suc.prems by (intro unat_add_small) simp
  have "even (w + 2)" using Suc.prems(1) by simp
  moreover have "unat (s + ?h) + 65535 * k < 2 ^ 32" using s h Suc.prems by simp
  ultimately obtain s' where s': "add_halves k m (w + 2) (s + ?h) = Some s'"
      "unat s' = unat (s + ?h) + wsum False (bytes_at m (w + 2) (2 * k))"
    using Suc.IH by blast
  have "bytes_at m w (2 * Suc k) = m w # m (w + 1) # bytes_at m (w + 2) (2 * k)"
    by (simp add: bytes_at_Suc add.assoc)
  with s s' Suc.prems show ?case by (simp add: ld_half_def and_1 unat_half_word)
qed simp

lemma sum_loop_sum:
  assumes "even w" "0 \<le> mlen" "0 < k" "2 * unat s + 65535 * nat mlen < 2 ^ 33"
  shows "\<exists>s'. sum_loop k m w mlen s = Some (w + of_nat (2 * k * (nat mlen div (2 * k))),
               int (nat mlen mod (2 * k)) - 2 * int k, s') \<and>
            unat s' = unat s + wsum False (bytes_at m w (2 * k * (nat mlen div (2 * k))))"
  using assms
proof (induction "nat mlen" arbitrary: w mlen s rule: less_induct)
  case less
  let ?n = "nat mlen"
  show ?case
  proof (cases "mlen - 2 * int k \<ge> 0")
    case False
    then have "?n < 2 * k" using less.prems by linarith
    with False less.prems show ?thesis by (subst sum_loop.simps) simp
  next
    case True
    define l where "l = mlen - 2 * int k"
    have n: "?n = 2 * k + nat l" using True by (simp add: l_def nat_diff_distrib)
    have "unat s + 65535 * k < 2 ^ 32" using less.prems(4) n by simp
    then obtain s1 where s1: "add_halves k m w s = Some s1" "unat s1 = unat s + wsum False (bytes_at m w (2 * k))"
      using add_halves_sum less.prems(1) by blast
    have b: "wsum False (bytes_at m w (2 * k)) \<le> 65535 * k" by (rule wsum_pair_bound) simp
    have "\<exists>s'. sum_loop k m (w + of_nat (2 * k)) l s1 = Some (w + of_nat (2 * k) + of_nat (2 * k * (nat l div (2 * k))),
               int (nat l mod (2 * k)) - 2 * int k, s') \<and>
            unat s' = unat s1 + wsum False (bytes_at m (w + of_nat (2 * k)) (2 * k * (nat l div (2 * k))))"
      using less.prems n True s1(2) b by (intro less.hyps) (auto simp: l_def)
    then obtain s' where s': "sum_loop k m (w + of_nat (2 * k)) l s1 =
        Some (w + of_nat (2 * k) + of_nat (2 * k * (nat l div (2 * k))), int (nat l mod (2 * k)) - 2 * int k, s')"
      "unat s' = unat s1 + wsum False (bytes_at m (w + of_nat (2 * k)) (2 * k * (nat l div (2 * k))))" by blast
    have d: "?n div (2 * k) = Suc (nat l div (2 * k))" "?n mod (2 * k) = nat l mod (2 * k)"
      using n less.prems(3) by (simp_all add: div_add_self1)
    have e: "2 * k * (?n div (2 * k)) = 2 * k + 2 * k * (nat l div (2 * k))" using d by simp
    have w: "wsum False (bytes_at m w (2 * k * (?n div (2 * k)))) =
        wsum False (bytes_at m w (2 * k)) + wsum False (bytes_at m (w + of_nat (2 * k)) (2 * k * (nat l div (2 * k))))"
      unfolding e bytes_at_add wsum_append by simp
    have "sum_loop k m w mlen s = sum_loop k m (w + of_nat (2 * k)) l s1"
      using True s1(1) by (subst sum_loop.simps) (simp add: l_def)
    with s' d w s1(2) show ?thesis by (simp add: e algebra_simps)
  qed
qed

lemma sum_loop_rest:
  assumes "even w" "0 < k" "2 * unat s + 65535 * n < 2 ^ 33"
  shows "\<exists>s'. sum_loop k m w (int n) s = Some (w + of_nat (n - n mod (2 * k)), int (n mod (2 * k)) - 2 * int k, s') \<and>
            unat s' = unat s + wsum False (bytes_at m w (n - n mod (2 * k)))"
  using sum_loop_sum [of w "int n" k s m] assms by (simp add: minus_mod_eq_mult_div)

lemma even_of_nat_word: "even n \<Longrightarrow> even (of_nat n :: u32)"
  by (auto elim!: evenE)

lemma even_minus_mod: "even (n - n mod (2 * k))" for n k :: nat
  by (simp add: minus_mod_eq_mult_div)

lemma wsum_split:
  assumes "r = n mod (2 * k)"
  shows "wsum False (bytes_at m w (n - r)) + wsum False (bytes_at m (w + of_nat (n - r)) j) =
         wsum False (bytes_at m w (n - r + j))"
proof -
  have "even (length (bytes_at m w (n - r)))" using even_minus_mod [of n k] assms by (simp only: length_bytes_at)
  then show ?thesis unfolding bytes_at_add wsum_append by simp
qed

text \<open>The first two loops leave fewer than eight bytes.\<close>

lemma two_loops:
  assumes "even w" "2 * unat s + 65535 * n < 2 ^ 33"
  shows "\<exists>s'. cksum_words m w (int n) s = Some (w + of_nat (n - n mod 8), int (n mod 8), s') \<and>
            unat s' = unat s + wsum False (bytes_at m w (n - n mod 8))"
proof -
  let ?r = "n mod 32"
  from sum_loop_rest [of w 16 s n m] assms obtain s1 where s1:
    "sum_loop 16 m w (int n) s = Some (w + of_nat (n - ?r), int ?r - 32, s1)"
    "unat s1 = unat s + wsum False (bytes_at m w (n - ?r))" by auto
  have ev: "even (n - ?r)" using even_minus_mod [of n 16] by simp
  then obtain h where h: "n - ?r = 2 * h" by blast
  have "wsum False (bytes_at m w (n - ?r)) \<le> 65535 * h" by (rule wsum_pair_bound) (simp add: h)
  then have "2 * unat s1 + 65535 * ?r \<le> 2 * unat s + 65535 * (n - ?r) + 65535 * ?r" using s1(2) h by simp
  also have "\<dots> = 2 * unat s + 65535 * n" by (simp flip: distrib_left add: add.assoc)
  finally have "2 * unat s1 + 65535 * ?r < 2 ^ 33" using assms(2) by simp
  moreover have "even (w + of_nat (n - ?r))" using dvd_add [OF assms(1) even_of_nat_word [OF ev]] .
  ultimately obtain s2 where s2: "sum_loop 4 m (w + of_nat (n - ?r)) (int ?r) s1 =
      Some (w + of_nat (n - ?r) + of_nat (?r - ?r mod 8), int (?r mod 8) - 8, s2)"
    "unat s2 = unat s1 + wsum False (bytes_at m (w + of_nat (n - ?r)) (?r - ?r mod 8))"
    using sum_loop_rest [of "w + of_nat (n - ?r)" 4 s1 ?r m] by auto
  have m8: "?r mod 8 = n mod 8" by (simp add: mod_mod_cancel)
  have le: "n mod 8 \<le> ?r" using m8 mod_le_divisor by (metis mod_less_eq_dividend)
  have e: "n - ?r + (?r - n mod 8) = n - n mod 8" using le by simp
  have "(of_nat (n - ?r) + of_nat (?r - n mod 8) :: u32) = of_nat (n - n mod 8)"
    unfolding e [symmetric] by simp
  then have w: "w + of_nat (n - ?r) + of_nat (?r - n mod 8) = w + of_nat (n - n mod 8)"
    by (simp only: add.assoc)
  show ?thesis
    using s1 s2 wsum_split [of ?r n 16 m w "?r - n mod 8"] unfolding m8 e w by (simp add: cksum_words_def)
qed

text \<open>All three loops, with the reduction between the second and the third.\<close>

lemma three_loops:
  assumes "even w" "2 * unat s + 65535 * n < 2 ^ 33"
  shows "\<exists>w2 s2 s4. cksum_words m w (int n) s = Some (w2, int (n mod 8), s2) \<and>
            unat s2 = unat s + wsum False (bytes_at m w (n - n mod 8)) \<and>
            sum_loop 1 m w2 (int (n mod 8)) (REDUCE s2) =
               Some (w + of_nat (n - n mod 2), int (n mod 2) - 2, s4) \<and>
            ocv (unat s4) = ocv (unat s + wsum False (bytes_at m w (n - n mod 2))) \<and> unat s4 \<le> 65535 * 9"
proof -
  let ?r = "n mod 8"
  from two_loops [OF assms] obtain s2 where s2:
    "cksum_words m w (int n) s = Some (w + of_nat (n - ?r), int ?r, s2)"
    "unat s2 = unat s + wsum False (bytes_at m w (n - ?r))" by blast
  have ev: "even (n - ?r)" using even_minus_mod [of n 4] by simp
  have w2: "even (w + of_nat (n - ?r))" using dvd_add [OF assms(1) even_of_nat_word [OF ev]] .
  have r: "unat (REDUCE s2) = ocv (unat s2)" "ocv (unat s2) \<le> 65535" by (simp_all add: unat_REDUCE ocv_le)
  have r8: "?r < 8" by simp
  have "2 * x + 65535 * k < 2 ^ 33" if "x \<le> 65535" "k < 8" for x k :: nat using that by simp
  from sum_loop_rest [OF w2 _ this, of 1 "REDUCE s2" ?r m] obtain s4 where s4:
    "sum_loop 1 m (w + of_nat (n - ?r)) (int ?r) (REDUCE s2) =
       Some (w + of_nat (n - ?r) + of_nat (?r - ?r mod 2), int (?r mod 2) - 2, s4)"
    "unat s4 = ocv (unat s2) + wsum False (bytes_at m (w + of_nat (n - ?r)) (?r - ?r mod 2))"
    using r by auto
  have m2: "?r mod 2 = n mod 2" by (simp add: mod_mod_cancel)
  have le: "n mod 2 \<le> ?r" using m2 by (metis mod_less_eq_dividend)
  have e: "n - ?r + (?r - n mod 2) = n - n mod 2" using le by simp
  have "(of_nat (n - ?r) + of_nat (?r - n mod 2) :: u32) = of_nat (n - n mod 2)"
    unfolding e [symmetric] by simp
  then have w: "w + of_nat (n - ?r) + of_nat (?r - n mod 2) = w + of_nat (n - n mod 2)"
    by (simp only: add.assoc)
  let ?W = "wsum False (bytes_at m (w + of_nat (n - ?r)) (?r - n mod 2))"
  have "ocv (unat s4) = ocv (ocv (unat s2) + ?W)" using s4(2) m2 by simp
  also have "\<dots> = ocv (unat s2 + ?W)" using r(2) by (intro ocv_add) (simp add: ocv_small)
  also have "unat s2 + ?W = unat s + wsum False (bytes_at m w (n - n mod 2))"
    using s2(2) wsum_split [of ?r n 4 m w "?r - n mod 2"] unfolding e by simp
  finally have "ocv (unat s4) = ocv (unat s + wsum False (bytes_at m w (n - n mod 2)))" .
  moreover have "even (?r - n mod 2)" using even_minus_mod [of ?r 1] m2 by simp
  then obtain j where j: "?r - n mod 2 = 2 * j" by blast
  have "?W \<le> 65535 * j" by (rule wsum_pair_bound) (simp only: j length_bytes_at)
  then have "unat s4 \<le> 65535 * 9" using s4(2) r(2) r8 j m2 by simp
  ultimately show ?thesis using s2 s4(1) unfolding m2 w by blast
qed

text \<open>What the loop body leaves: a pending low byte exactly when the number of bytes is odd, and
  together with it the sum of all bytes. The sum grows only by whole half words.\<close>

definition block_ok :: "bmem \<Rightarrow> addr \<Rightarrow> nat \<Rightarrow> u32 \<Rightarrow> u32 \<times> int \<times> u8 \<Rightarrow> bool" where
  "block_ok m w n s = (\<lambda>(s', mlen, c0).
     ocv (unat s' + (if mlen = -1 then unat c0 else 0)) = ocv (unat s + wsum False (bytes_at m w n)) \<and>
     (mlen = -1 \<longleftrightarrow> odd n) \<and> (unat s' \<le> 65535 * 257 \<or> even n \<and> 2 * unat s' \<le> 2 * unat s + 65535 * n))"

lemma block_even:
  assumes "even w" "2 * unat s + 65535 * n < 2 ^ 33"
  shows "\<exists>r. cksum_block m w (int n) s c0 = Some r \<and> block_ok m w n s r"
proof -
  from three_loops [OF assms, of m] obtain w2 s2 s4 where s:
    "cksum_words m w (int n) s = Some (w2, int (n mod 8), s2)"
    "unat s2 = unat s + wsum False (bytes_at m w (n - n mod 8))"
    "sum_loop 1 m w2 (int (n mod 8)) (REDUCE s2) = Some (w + of_nat (n - n mod 2), int (n mod 2) - 2, s4)"
    "ocv (unat s4) = ocv (unat s + wsum False (bytes_at m w (n - n mod 2)))" "unat s4 \<le> 65535 * 9" by blast
  have c: "cksum_block m w (int n) s c0 =
      (if n mod 8 = 0 then Some (s2, 0, c0)
       else Some (if odd n then (s4, -1, m (w + of_nat (n - 1))) else (s4, -2, c0)))"
    using assms(1) s(1,3) by (auto simp: cksum_block_def and_1 odd_iff_mod_2_eq_one)
  show ?thesis
  proof (cases "n mod 8 = 0")
    case True
    then obtain j where j: "n = 2 * j" using even_minus_mod [of n 4] by auto
    have "wsum False (bytes_at m w n) \<le> 65535 * j" by (rule wsum_pair_bound) (simp add: j)
    with True s(2) j c show ?thesis by (auto simp: block_ok_def)
  next
    case False
    show ?thesis
    proof (cases "odd n")
      case odd: True
      then have n: "n = Suc (n - 1)" "n - n mod 2 = n - 1" "even (n - 1)" by (auto simp: odd_iff_mod_2_eq_one odd_pos)
      have "bytes_at m w n = bytes_at m w (n - 1) @ [m (w + of_nat (n - 1))]"
        using bytes_at_add [of m w "n - 1" 1] n(1) by (simp add: bytes_at_Suc)
      then have "wsum False (bytes_at m w n) = wsum False (bytes_at m w (n - 1)) + unat (m (w + of_nat (n - 1)))"
        using n(3) by (simp add: wsum_append)
      with ocv_add [OF s(4) [unfolded n(2)], of "unat (m (w + of_nat (n - 1)))"]
      have "ocv (unat s4 + unat (m (w + of_nat (n - 1)))) = ocv (unat s + wsum False (bytes_at m w n))"
        by (simp only: add.assoc)
      with c False odd s(5) show ?thesis by (simp add: block_ok_def)
    next
      case even: False
      with c False s(4,5) show ?thesis by (simp add: block_ok_def)
    qed
  qed
qed

lemma unat_shift_8: "unat s \<le> 65535 \<Longrightarrow> unat (push_bit 8 s :: u32) = 256 * unat s"
  using unat_mul_small [of 256 "unat s"] by (simp add: push_bit_eq_mult mult.commute)

lemma block_odd:
  assumes "odd w" "65535 * n < 2 ^ 32"
  shows "\<exists>r. cksum_block m w (int (Suc n)) s c0 = Some r \<and> block_ok m w (Suc n) s r"
proof -
  define s0 where "s0 = push_bit 8 (REDUCE s)"
  have s0: "unat s0 = 256 * ocv (unat s)" using ocv_le unat_shift_8 by (simp add: s0_def unat_REDUCE)
  let ?e = "n - n mod 2"
  have "2 * unat s0 + 65535 * n < 2 ^ 33" using s0 ocv_le [of "unat s"] assms(2) by simp
  moreover have "even (w + 1)" using assms(1) by simp
  ultimately obtain w2 s2 s4 where s:
    "cksum_words m (w + 1) (int n) s0 = Some (w2, int (n mod 8), s2)"
    "sum_loop 1 m w2 (int (n mod 8)) (REDUCE s2) = Some (w + 1 + of_nat ?e, int (n mod 2) - 2, s4)"
    "ocv (unat s4) = ocv (unat s0 + wsum False (bytes_at m (w + 1) ?e))"
    using three_loops [of "w + 1" s0 n m] by blast
  define s5 where "s5 = push_bit 8 (REDUCE s4)"
  have s5: "unat s5 = 256 * ocv (unat s4)" using ocv_le unat_shift_8 by (simp add: s5_def unat_REDUCE)
  let ?W = "bytes_at m (w + 1) ?e"
  have "ocv (256 * ocv (unat s4)) = ocv (256 * (unat s0 + wsum False ?W))"
    using s(3) ocv_small [OF ocv_le, of "unat s4"] by (intro ocv_mult) simp
  also have "256 * (unat s0 + wsum False ?W) = 65536 * ocv (unat s) + 256 * wsum False ?W" using s0 by simp
  also have "ocv \<dots> = ocv (unat s + wsum True ?W)"
    using ocv_65536 [of "ocv (unat s)"] ocv_small [OF ocv_le, of "unat s"] wsum_swap [of False ?W]
    by (intro ocv_add2) simp_all
  finally have v: "ocv (unat s5) = ocv (unat s + wsum True ?W)" using s5 by simp
  have c: "cksum_block m w (int (Suc n)) s c0 =
      Some (if odd n then (s5 + half_word (m w) (m (w + 1 + of_nat ?e)), 0, m w) else (s5, -1, m w))"
    using assms(1) s(1,2) by (auto simp: cksum_block_def and_1 s0_def s5_def odd_iff_mod_2_eq_one)
  show ?thesis
  proof (cases "odd n")
    case True
    let ?l = "m (w + 1 + of_nat ?e)"
    have e: "n = ?e + 1" "even ?e" using True by (auto simp: odd_iff_mod_2_eq_one odd_pos)
    have "bytes_at m (w + 1) n = ?W @ [?l]"
      using bytes_at_add [of m "w + 1" ?e 1] unfolding e(1) [symmetric] bytes_at_1 .
    then have "bytes_at m w (Suc n) = m w # ?W @ [?l]" unfolding bytes_at_Suc by simp
    then have ws: "wsum False (bytes_at m w (Suc n)) = unat (m w) + wsum True ?W + 256 * unat ?l"
      using e(2) by (simp add: wsum_append)
    have b: "unat s5 \<le> 65535 * 256" using s5 ocv_le [of "unat s4"] by simp
    have h: "unat (half_word (m w) ?l) = unat (m w) + 256 * unat ?l" by (rule unat_half_word)
    have hb: "unat (m w) + 256 * unat ?l \<le> 65535" using unat_u8 [of "m w"] unat_u8 [of ?l] by simp
    have "unat (s5 + half_word (m w) ?l) = unat s5 + (unat (m w) + 256 * unat ?l)"
      using b hb unfolding h [symmetric] by (intro unat_add_small) simp
    with ocv_add [OF v, of "unat (m w) + 256 * unat ?l"] b hb ws True c show ?thesis
      by (simp add: block_ok_def ac_simps)
  next
    case False
    then have "?e = n" by auto
    then have ws: "wsum False (bytes_at m w (Suc n)) = unat (m w) + wsum True ?W" by (simp add: bytes_at_Suc)
    have b: "unat s5 \<le> 65535 * 256" using s5 ocv_le [of "unat s4"] by simp
    with ocv_add [OF v, of "unat (m w)"] ws False c show ?thesis by (simp add: block_ok_def ac_simps)
  qed
qed

lemma block_sum:
  assumes "2 * unat s + 65535 * n < 2 ^ 33" "n \<le> 65536"
  shows "\<exists>r. cksum_block m w (int n) s c0 = Some r \<and> block_ok m w n s r"
proof -
  consider "even w" | "odd w" "n = 0" | k where "odd w" "n = Suc k" by (cases n) auto
  then show ?thesis
  proof cases
    case 1
    then show ?thesis using assms(1) block_even by blast
  next
    case 2
    then have "cksum_block m w (int n) s c0 = Some (s, 0, c0)"
      by (simp add: cksum_block_def cksum_words_def sum_loop.simps)
    then show ?thesis using 2 by (simp add: block_ok_def)
  next
    case 3
    then show ?thesis using assms block_odd [OF 3(1), of k m s c0] by simp
  qed
qed

section \<open>The chain of buffers\<close>

text \<open>The state after the bytes \<open>ds\<close>, on top of the sum \<open>S\<close> of the pseudo header.\<close>

definition ck_ok :: "nat \<Rightarrow> u8 list \<Rightarrow> u32 \<Rightarrow> int \<Rightarrow> u8 \<Rightarrow> bool" where
  "ck_ok S ds s mlen c0 \<longleftrightarrow>
     ocv (unat s + (if mlen = -1 then unat c0 else 0)) = ocv (S + wsum False ds) \<and>
     (mlen = -1 \<longleftrightarrow> odd (length ds)) \<and>
     2 * unat s + (if mlen = -1 then 65535 else 0) \<le> 2 * (65535 * 267) + 65535 * length ds"

lemma ck_ok_block:
  assumes ok: "ck_ok S ds s ml c0" "ml \<noteq> -1" and n: "length ds + n \<le> 65536"
  shows "\<exists>s' ml' c'. cksum_block m w (int n) s c = Some (s', ml', c') \<and> ck_ok S (ds @ bytes_at m w n) s' ml' c'"
proof -
  from ok have ev: "even (length ds)" and v: "ocv (unat s) = ocv (S + wsum False ds)"
    and b: "2 * unat s \<le> 2 * (65535 * 267) + 65535 * length ds"
    by (auto simp: ck_ok_def)
  have "65535 * length ds + 65535 * n \<le> 65535 * 65536"
    unfolding distrib_left [symmetric] by (rule mult_le_mono2) (rule n)
  with b have "2 * unat s + 65535 * n < 2 ^ 33" by simp
  with n obtain s' ml' c' where r: "cksum_block m w (int n) s c = Some (s', ml', c')" "block_ok m w n s (s', ml', c')"
    using block_sum [of s n m w c] by (auto simp del: split_paired_Ex)
  have "ocv (S + wsum False (ds @ bytes_at m w n)) = ocv (unat s + wsum False (bytes_at m w n))"
    using ocv_add [OF v, of "wsum False (bytes_at m w n)"] ev by (simp add: wsum_append add.assoc)
  with r(2) ev b have "ck_ok S (ds @ bytes_at m w n) s' ml' c'"
    by (auto simp: ck_ok_def block_ok_def algebra_simps)
  with r(1) show ?thesis by blast
qed

lemma ck_ok_byte:
  assumes ok: "ck_ok S ds s (-1) c0" and n: "length ds < 65536"
  shows "ck_ok S (ds @ [x]) (s + half_word c0 x) 0 c"
proof -
  from ok have od: "odd (length ds)" and v: "ocv (unat s + unat c0) = ocv (S + wsum False ds)"
    and b: "2 * unat s + 65535 \<le> 2 * (65535 * 267) + 65535 * length ds"
    by (auto simp: ck_ok_def)
  have h: "unat (half_word c0 x) = unat c0 + 256 * unat x" by (rule unat_half_word)
  have hb: "unat c0 + 256 * unat x \<le> 65535" using unat_u8 [of c0] unat_u8 [of x] by simp
  have u: "unat (s + half_word c0 x) = unat s + (unat c0 + 256 * unat x)"
    using b hb n unfolding h [symmetric] by (intro unat_add_small) simp
  have "ocv (unat s + unat c0 + 256 * unat x) = ocv (S + wsum False ds + 256 * unat x)"
    by (rule ocv_add [OF v])
  with od b hb u show ?thesis by (simp add: ck_ok_def wsum_append add.assoc)
qed

lemma cksum_mbuf_ok:
  assumes ok: "ck_ok S ds (ck_sum c) (ck_mlen c) (ck_c0 c)"
    and off: "0 \<le> ck_off c" "ck_off c < m_len b" and len: "0 < ck_len c" "int (length ds) + ck_len c \<le> 65536"
    and seg0: "seg = take (nat (ck_len c)) (drop (nat (ck_off c)) (mbuf_data m b))"
  shows "\<exists>c'. cksum_mbuf m b c = Some c' \<and> ck_ok S (ds @ seg) (ck_sum c') (ck_mlen c') (ck_c0 c') \<and>
           ck_off c' = 0 \<and> ck_len c' = ck_len c - int (length seg)"
proof -
  define w where "w = m_data b + of_nat (nat (ck_off c))"
  define k where "k = min (nat (ck_len c)) (nat (m_len b) - nat (ck_off c))"
  have seg: "seg = bytes_at m w k"
    by (simp add: seg0 mbuf_data_def w_def k_def)
  have k: "int k = min (ck_len c) (m_len b - ck_off c)" "0 < k" "length ds + k \<le> 65536"
    using off len by (auto simp: k_def)
  have w': "m_data b + word_of_int (ck_off c) = w" using off by (simp add: w_def)
  have res: "\<exists>c'. do { (s, mlen, c0) \<leftarrow> r; Some \<lparr>ck_sum = s, ck_mlen = mlen, ck_c0 = c0, ck_off = 0, ck_len = l\<rparr> } = Some c' \<and>
      ck_ok S xs (ck_sum c') (ck_mlen c') (ck_c0 c') \<and> ck_off c' = 0 \<and> ck_len c' = l"
    if "\<exists>s' ml' c'. r = Some (s', ml', c') \<and> ck_ok S xs s' ml' c'" for r l xs using that by auto
  show ?thesis
  proof (cases "ck_mlen c = -1")
    case True
    from k(2) obtain j where j: "k = Suc j" by (cases k) auto
    have mj: "(if ck_len c - 1 < m_len b - ck_off c - 1 then ck_len c - 1 else m_len b - ck_off c - 1) = int j"
      using k(1) j by auto
    have "ck_ok S (ds @ [m w]) (ck_sum c + half_word (ck_c0 c) (m w)) 0 (ck_c0 c)"
      using ok True k(3) j by (intro ck_ok_byte) auto
    from ck_ok_block [OF this, of j m "w + 1" "ck_c0 c"] k(3) j
    have "\<exists>s' ml' c'. cksum_block m (w + 1) (int j) (ck_sum c + half_word (ck_c0 c) (m w)) (ck_c0 c) = Some (s', ml', c') \<and>
        ck_ok S (ds @ seg) s' ml' c'" by (simp add: seg bytes_at_Suc)
    note r = res [OF this, of "ck_len c - 1 - int j"]
    have e: "cksum_mbuf m b c =
        do { (s, mlen, c0) \<leftarrow> cksum_block m (w + 1) (int j) (ck_sum c + half_word (ck_c0 c) (m w)) (ck_c0 c);
             Some \<lparr>ck_sum = s, ck_mlen = mlen, ck_c0 = c0, ck_off = 0, ck_len = ck_len c - 1 - int j\<rparr> }"
      using True mj by (simp add: cksum_mbuf_def w' Let_def)
    have l: "ck_len c - int (length seg) = ck_len c - 1 - int j" using j by (simp add: seg)
    show ?thesis unfolding e l by (rule r)
  next
    case False
    have mk: "(if ck_len c < m_len b - ck_off c then ck_len c else m_len b - ck_off c) = int k"
      using k(1) by auto
    from ck_ok_block [OF ok False k(3), of m w "ck_c0 c"] have "\<exists>s' ml' c'.
        cksum_block m w (int k) (ck_sum c) (ck_c0 c) = Some (s', ml', c') \<and> ck_ok S (ds @ seg) s' ml' c'"
      by (simp add: seg)
    from res [OF this, of "ck_len c - int k"] False mk show ?thesis
      by (simp add: cksum_mbuf_def w' seg Let_def)
  qed
qed

lemma chain_data_Cons: "chain_data h m (p # ps) = mbuf_data m (the (h p)) @ chain_data h m ps"
  by (simp add: chain_data_def)

lemma cksum_loop_ok:
  assumes "mchain h p ps" "\<forall>q \<in> set ps. 0 \<le> m_len (the (h q))"
    and "ck_ok S ds (ck_sum c) (ck_mlen c) (ck_c0 c)" "0 \<le> ck_len c" "int (length ds) + ck_len c \<le> 65536"
    and "ck_off c = 0 \<or> 0 \<le> ck_off c \<and> (ps \<noteq> [] \<longrightarrow> ck_off c < m_len (the (h p)))"
  shows "\<exists>c'. cksum_loop h m p c = Some c' \<and>
     ck_ok S (ds @ take (nat (ck_len c)) (drop (nat (ck_off c)) (chain_data h m ps))) (ck_sum c') (ck_mlen c') (ck_c0 c')"
  using assms
proof (induction ps arbitrary: p c ds)
  case Nil
  then show ?case by (subst cksum_loop.simps) (simp add: chain_data_def)
next
  case (Cons q ps)
  then obtain b where b: "p = q" "q \<noteq> 0" "h q = Some b" "mchain h (m_next b) ps" by (auto split: option.splits)
  have len0: "0 \<le> m_len b" using Cons.prems(2) b(3) by simp
  show ?case
  proof (cases "ck_len c = 0")
    case True
    then show ?thesis using Cons.prems(3) by (subst cksum_loop.simps) simp
  next
    case len: False
    show ?thesis
    proof (cases "m_len b = 0")
      case True
      with Cons.prems b have off: "ck_off c = 0" by auto
      have "chain_data h m (q # ps) = chain_data h m ps"
        using True b(3) by (simp add: chain_data_Cons mbuf_data_def)
      moreover have "cksum_loop h m p c = cksum_loop h m (m_next b) c"
        using b len True by (subst cksum_loop.simps) simp
      ultimately show ?thesis using Cons.IH [OF b(4) _ Cons.prems(3-5)] Cons.prems(2) off by simp
    next
      case False
      let ?seg = "take (nat (ck_len c)) (drop (nat (ck_off c)) (mbuf_data m b))"
      have off: "0 \<le> ck_off c" "ck_off c < m_len b" using Cons.prems(6) b len0 False by auto
      have pos: "0 < ck_len c" using len Cons.prems(4) by simp
      from cksum_mbuf_ok [OF Cons.prems(3) off pos Cons.prems(5) refl, of m] obtain c1 where
        c1: "cksum_mbuf m b c = Some c1" "ck_ok S (ds @ ?seg) (ck_sum c1) (ck_mlen c1) (ck_c0 c1)"
          "ck_off c1 = 0" "ck_len c1 = ck_len c - int (length ?seg)" by blast
      have sl: "int (length ?seg) \<le> ck_len c" using pos by simp
      have rest: "take (nat (ck_len c)) (drop (nat (ck_off c)) (chain_data h m (q # ps))) =
          ?seg @ take (nat (ck_len c1)) (chain_data h m ps)"
        using off b(3) pos by (simp add: chain_data_Cons c1(4) nat_diff_distrib min_def)
      have "\<exists>c'. cksum_loop h m (m_next b) c1 = Some c' \<and> ck_ok S ((ds @ ?seg) @ take (nat (ck_len c1))
          (drop (nat (ck_off c1)) (chain_data h m ps))) (ck_sum c') (ck_mlen c') (ck_c0 c')"
      proof (rule Cons.IH [OF b(4) _ c1(2)])
        show "int (length (ds @ ?seg)) + ck_len c1 \<le> 65536"
          using Cons.prems(5) unfolding c1(4) length_append of_nat_add by linarith
        show "0 \<le> ck_len c1" unfolding c1(4) using sl by linarith
      qed (use Cons.prems(2) c1(3) in simp_all)
      moreover have "cksum_loop h m p c = cksum_loop h m (m_next b) c1"
        using b len False c1(1) by (subst cksum_loop.simps) simp
      ultimately show ?thesis unfolding rest using c1(3) by simp
    qed
  qed
qed

lemma cksum_skip_ok:
  assumes "mchain h p ps" "\<forall>q \<in> set ps. 0 \<le> m_len (the (h q))" "0 \<le> off"
  shows "\<exists>p' off' ps'. cksum_skip h p off = Some (p', off') \<and> mchain h p' ps' \<and> set ps' \<subseteq> set ps \<and>
    drop (nat off') (chain_data h m ps') = drop (nat off) (chain_data h m ps) \<and>
    (off' = 0 \<or> 0 \<le> off' \<and> (ps' \<noteq> [] \<longrightarrow> off' < m_len (the (h p'))))"
  using assms
proof (induction ps arbitrary: p off)
  case Nil
  then have "cksum_skip h p off = Some (p, off)" by (subst cksum_skip.simps) simp
  with Nil show ?case by (intro exI [of _ p] exI [of _ off] exI [of _ "[]"]) simp
next
  case (Cons q ps)
  then obtain b where b: "p = q" "q \<noteq> 0" "h q = Some b" "mchain h (m_next b) ps" by (auto split: option.splits)
  have len0: "0 \<le> m_len b" using Cons.prems(2) b(3) by simp
  show ?case
  proof (cases "off = 0 \<or> m_len b > off")
    case True
    then have "cksum_skip h p off = Some (p, off)" using Cons.prems(3) b by (subst cksum_skip.simps) auto
    with True Cons.prems b show ?thesis
      by (intro exI [of _ p] exI [of _ off] exI [of _ "q # ps"]) auto
  next
    case False
    then have "cksum_skip h p off = cksum_skip h (m_next b) (off - m_len b)"
      using Cons.prems(3) b by (subst cksum_skip.simps) simp
    moreover have "drop (nat off) (chain_data h m (q # ps)) = drop (nat (off - m_len b)) (chain_data h m ps)"
      using False len0 b(3) by (simp add: chain_data_Cons nat_diff_distrib nat_le_eq_zle)
    moreover have "\<exists>p' off' ps'. cksum_skip h (m_next b) (off - m_len b) = Some (p', off') \<and> mchain h p' ps' \<and>
      set ps' \<subseteq> set ps \<and> drop (nat off') (chain_data h m ps') = drop (nat (off - m_len b)) (chain_data h m ps) \<and>
      (off' = 0 \<or> 0 \<le> off' \<and> (ps' \<noteq> [] \<longrightarrow> off' < m_len (the (h p'))))"
      by (rule Cons.IH [OF b(4)]) (use False Cons.prems(2) in auto)
    ultimately obtain p' off' ps' where "cksum_skip h p off = Some (p', off')" "mchain h p' ps'" "set ps' \<subseteq> set (q # ps)"
      "drop (nat off') (chain_data h m ps') = drop (nat off) (chain_data h m (q # ps))"
      "off' = 0 \<or> 0 \<le> off' \<and> (ps' \<noteq> [] \<longrightarrow> off' < m_len (the (h p')))" by fastforce
    then show ?thesis by blast
  qed
qed

lemma halves_sum:
  assumes "2 * k \<le> length u" "65535 * k < 2 ^ 32"
  shows "unat (sum_list (map (\<lambda>i. half_word (u ! (2 * i)) (u ! (2 * i + 1))) [0..<k])) = wsum False (take (2 * k) u)"
  using assms
proof (induction k)
  case (Suc k)
  let ?h = "half_word (u ! (2 * k)) (u ! (2 * k + 1))"
  let ?s = "sum_list (map (\<lambda>i. half_word (u ! (2 * i)) (u ! (2 * i + 1))) [0..<k])"
  have t: "take (2 * Suc k) u = take (2 * k) u @ [u ! (2 * k), u ! (2 * k + 1)]"
    using Suc.prems(1) by (simp add: take_Suc_conv_app_nth)
  have IH: "unat ?s = wsum False (take (2 * k) u)" using Suc by simp
  have "unat ?s \<le> 65535 * k" unfolding IH by (rule wsum_pair_bound) (use Suc.prems(1) in simp)
  moreover have "unat ?h \<le> 65535"
    using unat_u8 [of "u ! (2 * k)"] unat_u8 [of "u ! (2 * k + 1)"] by (simp add: unat_half_word)
  ultimately have "unat (?s + ?h) = unat ?s + unat ?h" using Suc.prems(2) by (intro unat_add_small) simp
  then show ?case using IH Suc.prems(1) unfolding t by (simp add: unat_half_word wsum_append)
qed simp

lemma uint_not_low: "unat r \<le> 65535 \<Longrightarrow> uint (NOT r AND 0xffff :: u32) = 65535 - int (unat r)"
proof -
  assume r: "unat r \<le> 65535"
  then have "take_bit 16 r = r" by (simp add: word_unat_eq_iff take_bit_eq_mod unat_mod)
  have "NOT r AND 0xffff = take_bit 16 (NOT r)" by (simp add: take_bit_eq_mask mask_eq_exp_minus_1)
  also have "\<dots> = 65535 - r" using \<open>take_bit 16 r = r\<close> by (simp add: take_bit_not_eq_mask_diff mask_eq_exp_minus_1)
  finally have "unat (NOT r AND 0xffff) = 65535 - unat r" using r by (simp add: unat_minus_u32)
  then have "int (unat (NOT r AND 0xffff)) = 65535 - int (unat r)" using r by linarith
  then show ?thesis by simp
qed

text \<open>The checksum of a chain is the complement of the one's complement sum of its bytes from \<open>off\<close> on, and
  of the pseudo header when a protocol is given.\<close>

definition cksum_data :: "mheap \<Rightarrow> bmem \<Rightarrow> addr list \<Rightarrow> u8 \<Rightarrow> int \<Rightarrow> int \<Rightarrow> u8 list" where
  "cksum_data h m ps nxt off len =
     (if nxt = 0 then [] else pseudo_header m (m_data (the (h (hd ps)))) nxt len) @
     take (nat len) (drop (nat off) (chain_data h m ps))"

lemma in4_cksum_sum:
  assumes ch: "mchain h p ps" "\<forall>q \<in> set ps. 0 \<le> m_len (the (h q))"
    and rng: "0 \<le> off" "0 \<le> len" "len \<le> 65535"
    and hdr: "nxt \<noteq> 0 \<Longrightarrow> 20 \<le> off \<and> ps \<noteq> [] \<and> 20 \<le> m_len (the (h p))"
  shows "in4_cksum h m p nxt off len = Some (65535 - int (ocv (wsum False (cksum_data h m ps nxt off len))))"
proof -
  let ?u = "if nxt = 0 then [] else pseudo_header m (m_data (the (h (hd ps)))) nxt len"
  let ?d = "take (nat len) (drop (nat off) (chain_data h m ps))"
  have lu: "length ?u = (if nxt = 0 then 0 else 20)" by (simp add: pseudo_header_def)
  define s0 where "s0 = (if nxt = 0 then 0 else
     sum_list (map (\<lambda>i. half_word (?u ! (2 * i)) (?u ! (2 * i + 1))) [0..<10]))"
  have s0: "unat s0 = wsum False ?u"
  proof (cases "nxt = 0")
    case False
    then show ?thesis using halves_sum [of 10 ?u] lu by (simp add: s0_def)
  qed (simp add: s0_def)
  have first: "(if nxt \<noteq> 0 then
       do { b \<leftarrow> h p;
            if (0 \<le> off \<and> off < 20) \<or> (0 \<le> m_len b \<and> m_len b < 20) then None
            else let u = pseudo_header m (m_data b) nxt len
                 in Some (sum_list (map (\<lambda>i. half_word (u ! (2 * i)) (u ! (2 * i + 1))) [0..<10])) }
     else Some 0) = Some s0"
  proof (cases "nxt = 0")
    case False
    from hdr [OF False] have r: "ps \<noteq> []" "20 \<le> off" "20 \<le> m_len (the (h p))" by blast+
    from r(1) obtain q qs where ps: "ps = q # qs" by (cases ps) auto
    have q: "q = p" using ch(1) unfolding ps by simp
    have "h q \<noteq> None" using mchain_alloc [OF ch(1), of q] ps by simp
    then obtain b where b: "h p = Some b" using q by blast
    have "\<not> (0 \<le> off \<and> off < 20 \<or> 0 \<le> m_len b \<and> m_len b < 20)" using r b by simp
    then show ?thesis using False b ps q by (simp add: s0_def Let_def del: upt_rec_numeral)
  qed (simp add: s0_def)
  have "wsum False ?u \<le> 65535 * (if nxt = 0 then 0 else 10)" by (rule wsum_pair_bound) (simp add: lu)
  then have s0b: "unat s0 \<le> 65535 * 10" using s0 by (simp split: if_splits)
  from cksum_skip_ok [OF ch rng(1), of m] obtain p' off' ps' where sk: "cksum_skip h p off = Some (p', off')"
    "mchain h p' ps'" "set ps' \<subseteq> set ps" "drop (nat off') (chain_data h m ps') = drop (nat off) (chain_data h m ps)"
    "off' = 0 \<or> 0 \<le> off' \<and> (ps' \<noteq> [] \<longrightarrow> off' < m_len (the (h p')))" by blast
  let ?c = "\<lparr>ck_sum = s0, ck_mlen = 0, ck_c0 = 0, ck_off = off', ck_len = len\<rparr>"
  have "ck_ok (wsum False ?u) [] (ck_sum ?c) (ck_mlen ?c) (ck_c0 ?c)" using s0 s0b by (simp add: ck_ok_def)
  from cksum_loop_ok [OF sk(2) _ this, of m] sk(3,5) ch(2) rng obtain c' where
    c': "cksum_loop h m p' ?c = Some c'" "ck_ok (wsum False ?u) ?d (ck_sum c') (ck_mlen c') (ck_c0 c')"
    using sk(4) by auto
  let ?s = "if ck_mlen c' = -1 then ck_sum c' + half_word (ck_c0 c') 0 else ck_sum c'"
  have w: "wsum False (cksum_data h m ps nxt off len) = wsum False ?u + wsum False ?d"
    unfolding cksum_data_def wsum_append lu by simp
  have ld: "length ?d \<le> 65535" using rng by simp
  have "2 * unat (ck_sum c') \<le> 2 * (65535 * 267) + 65535 * length ?d" using c'(2) by (simp add: ck_ok_def)
  also have "\<dots> \<le> 2 * (65535 * 267) + 65535 * 65535" using ld by (intro add_left_mono mult_le_mono2)
  finally have "unat (ck_sum c') < 2 ^ 32 - 256" by simp
  then have "unat ?s = unat (ck_sum c') + (if ck_mlen c' = -1 then unat (ck_c0 c') else 0)"
    using unat_u8 [of "ck_c0 c'"] unat_half_word [of "ck_c0 c'" 0] by (auto simp: unat_add_small)
  moreover have "ocv (unat (ck_sum c') + (if ck_mlen c' = -1 then unat (ck_c0 c') else 0)) =
      ocv (wsum False ?u + wsum False ?d)" using c'(2) unfolding ck_ok_def by blast
  ultimately have v: "unat (REDUCE ?s) = ocv (wsum False (cksum_data h m ps nxt off len))"
    unfolding unat_REDUCE w by (simp only:)
  then have "uint (NOT (REDUCE ?s) AND 0xffff) = 65535 - int (ocv (wsum False (cksum_data h m ps nxt off len)))"
    using uint_not_low [of "REDUCE ?s"] ocv_le by simp
  moreover have "in4_cksum h m p nxt off len = Some (uint (NOT (REDUCE ?s) AND 0xffff))"
    unfolding in4_cksum_def first by (simp add: sk(1) c'(1) Let_def)
  ultimately show ?thesis by simp
qed

section \<open>A checksum that was stored verifies\<close>

lemma ocv_complement: "ocv (S + (65535 - ocv S)) = 65535"
proof (cases "S = 0")
  case False
  have m: "ocv S mod 65535 = S mod 65535" using ocv_small [OF ocv_le, of S] by (simp add: ocv_eq_iff)
  have "(S + (65535 - ocv S)) mod 65535 = (ocv S + (65535 - ocv S)) mod 65535"
    using m by (intro mod_add_cong) simp_all
  also have "ocv S + (65535 - ocv S) = 65535" using ocv_le [of S] by simp
  finally have "ocv (S + (65535 - ocv S)) = ocv 65535" using False by (simp add: ocv_eq_iff)
  then show ?thesis by (simp add: ocv_small)
qed (simp add: ocv_def)

text \<open>The half word at the even offset \<open>k\<close> of a buffer, low byte first.\<close>

definition store_half :: "addr \<Rightarrow> int \<Rightarrow> bmem \<Rightarrow> bmem" where
  "store_half a c m = m(a := word_of_int c, a + 1 := word_of_int (c div 256))"

lemma wsum_store_half:
  assumes k: "even k" "k + 1 < n" "n < 2 ^ 32" and z: "m (a + of_nat k) = 0" "m (a + of_nat k + 1) = 0"
    and c: "0 \<le> c" "c < 65536"
  shows "wsum False (bytes_at (store_half (a + of_nat k) c m) a n) = wsum False (bytes_at m a n) + nat c"
proof -
  let ?x = "a + of_nat k" and ?m = "store_half (a + of_nat k) c m"
  have x1: "?x + 1 = a + of_nat (k + 1)" by (simp add: add.assoc add.commute)
  have ne: "a + of_nat i \<noteq> ?x" "a + of_nat i \<noteq> ?x + 1" if "i < n" "i \<noteq> k" "i \<noteq> k + 1" for i
    using that k of_nat_eq_u32 [of i k] of_nat_eq_u32 [of i "k + 1"] unfolding x1 by auto
  have lo: "bytes_at ?m a k = bytes_at m a k"
    unfolding store_half_def using ne k by (subst bytes_at_upd; (subst bytes_at_upd)?) auto
  have hi: "bytes_at ?m (?x + 2) (n - k - 2) = bytes_at m (?x + 2) (n - k - 2)"
  proof -
    have "?x + 2 + of_nat i = a + of_nat (k + 2 + i)" for i by (simp add: add.assoc add.left_commute)
    then have "?x + 2 + of_nat i \<noteq> ?x" "?x + 2 + of_nat i \<noteq> ?x + 1" if "i < n - k - 2" for i
      using that k(2) ne [of "k + 2 + i"] by auto
    then show ?thesis unfolding store_half_def by (subst bytes_at_upd; (subst bytes_at_upd)?) auto
  qed
  have sp: "bytes_at m' a n = bytes_at m' a k @ [m' ?x, m' (?x + 1)] @ bytes_at m' (?x + 2) (n - k - 2)" for m'
  proof -
    have "n = k + (2 + (n - k - 2))" using k(2) by simp
    then have "bytes_at m' a n = bytes_at m' a (k + (2 + (n - k - 2)))" by (rule arg_cong)
    also have "\<dots> = bytes_at m' a k @ bytes_at m' ?x (2 + (n - k - 2))" by (rule bytes_at_add)
    also have "bytes_at m' ?x (2 + (n - k - 2)) = [m' ?x, m' (?x + 1)] @ bytes_at m' (?x + 2) (n - k - 2)"
      by (simp add: bytes_at_Suc numeral_2_eq_2 add.assoc)
    finally show ?thesis .
  qed
  have v: "?m ?x = word_of_int c" "?m (?x + 1) = word_of_int (c div 256)" by (simp_all add: store_half_def)
  have u: "unat (word_of_int i :: u8) = nat (i mod 256)" for i
    by (simp add: unat_eq_nat_uint uint_word_of_int del: nat_uint_eq)
  have "c div 256 < 256" "0 \<le> c div 256" using c by (simp_all add: pos_imp_zdiv_nonneg_iff div_less_iff_less_mult)
  then have "unat (?m ?x) + 256 * unat (?m (?x + 1)) = nat (c mod 256) + 256 * nat (c div 256)"
    unfolding v u by simp
  also have "int (nat (c mod 256) + 256 * nat (c div 256)) = c"
    using \<open>0 \<le> c div 256\<close> by (simp add: mod_mult_div_eq)
  then have "nat (c mod 256) + 256 * nat (c div 256) = nat c" by (metis nat_int)
  finally have s: "unat (?m ?x) + 256 * unat (?m (?x + 1)) = nat c" .
  show ?thesis
    unfolding sp [of ?m] sp [of m] lo hi using k(1) z s by (simp add: wsum_append)
qed

lemma cksum_round_trip:
  assumes ch: "h p = Some b" "m_next b = 0" "p \<noteq> 0" and len: "0 \<le> len" "len \<le> 65535" "len \<le> m_len b"
    and k: "even k" "int k + 1 < len" and z: "m (m_data b + of_nat k) = 0" "m (m_data b + of_nat k + 1) = 0"
    and c: "in_cksum h m p len = Some c"
  shows "in_cksum h (store_half (m_data b + of_nat k) c m) p len = Some 0"
proof -
  have chain: "mchain h p [p]" "\<forall>q \<in> set [p]. 0 \<le> m_len (the (h q))" using ch len by auto
  have d: "cksum_data h m' [p] 0 0 len = bytes_at m' (m_data b) (nat len)" for m'
    using ch len by (simp add: cksum_data_def chain_data_def mbuf_data_def min_def)
  note sm = in4_cksum_sum [OF chain order_refl len(1,2), of 0, simplified d]
  let ?S = "wsum False (bytes_at m (m_data b) (nat len))"
  have cv: "c = 65535 - int (ocv ?S)" using c sm [of m] by simp
  have "wsum False (bytes_at (store_half (m_data b + of_nat k) c m) (m_data b) (nat len)) = ?S + nat c"
    by (rule wsum_store_half) (use k z len ocv_le [of ?S] cv in auto)
  moreover have "nat c = 65535 - ocv ?S" using cv by simp
  ultimately show ?thesis using sm [of "store_half (m_data b + of_nat k) c m"] ocv_complement [of ?S] by simp
qed

end
