(* ===== verification/Net_Mem.thy ===== *)
theory Net_Mem
  imports Fmem
begin

text \<open>
  The buffer pools of the network stack, \<open>src/tn_net/tn_net_mem.c\<close>, on the memory pools of the kernel.
  \<open>tnet\<close> holds the names of the five \<open>TN_FMP\<close> members of \<open>struct _TN_NET\<close> and the addresses of their memory.

  The network code is modelled as it runs when its task keeps the processor: the result \<^const>\<open>None\<close> means that the
  call does not return to its caller in this run, because of a fault, an endless loop
  (\<open>tn_net_panic\<close> is one) or because the caller has to wait or is preempted. That calls do return is part of
  every lemma below.
\<close>

section \<open>The routines\<close>

abbreviation (input) TNNET_SMALL_BUF :: int where "TNNET_SMALL_BUF \<equiv> 0"
abbreviation (input) TNNET_MID1_BUF :: int where "TNNET_MID1_BUF \<equiv> 1"
abbreviation (input) TNNET_HI_BUF :: int where "TNNET_HI_BUF \<equiv> 2"
abbreviation (input) TNNET_SMALL_BUF_SIZE :: int where "TNNET_SMALL_BUF_SIZE \<equiv> 32"
abbreviation (input) TNNET_MID1_BUF_SIZE :: int where "TNNET_MID1_BUF_SIZE \<equiv> 128"
abbreviation (input) TNNET_HI_BUF_SIZE :: int where "TNNET_HI_BUF_SIZE \<equiv> 1536"
abbreviation (input) MB_NOWAIT :: int where "MB_NOWAIT \<equiv> 0"
abbreviation (input) MB_WAIT :: int where "MB_WAIT \<equiv> 1"
abbreviation (input) MEM_DRV_START_ADDR :: addr where "MEM_DRV_START_ADDR \<equiv> 0x7FE00000"

abbreviation (input) NUM_SMALL_BUF :: int where "NUM_SMALL_BUF \<equiv> 64"
abbreviation (input) NUM_MID1_BUF :: int where "NUM_MID1_BUF \<equiv> 48"
abbreviation (input) NUM_HI_BUF :: int where "NUM_HI_BUF \<equiv> 6"
abbreviation (input) NUM_DRV_SMALL_BUF :: int where "NUM_DRV_SMALL_BUF \<equiv> 8"
abbreviation (input) NUM_DRV_MID1_BUF :: int where "NUM_DRV_MID1_BUF \<equiv> 48"

record tn_net =
  lobuf_mpool :: fid
  m1buf_mpool :: fid
  hibuf_mpool :: fid
  drv_lobuf_mpool :: fid
  drv_m1buf_mpool :: fid
  mem_lobuf_mpool :: addr
  mem_m1buf_mpool :: addr
  mem_hibuf_mpool :: addr
  mem_drv_lobuf_mpool :: addr
  mem_drv_m1buf_mpool :: addr

text \<open>The return code of a service that came back without a context switch.\<close>

definition came_back :: "kret \<Rightarrow> int option" where
  "came_back r = (case r of RC rc \<Rightarrow> Some rc | _ \<Rightarrow> None)"

definition do_alloc :: "fid \<Rightarrow> int \<Rightarrow> kstate \<Rightarrow> (addr \<times> kstate) option" where
  "do_alloc mpool wait s =
     (if wait = 0 then
        do { (r, v, s) \<leftarrow> tn_fmem_get_polling (Some mpool) False s;
             rc \<leftarrow> came_back r;
             Some (if rc \<noteq> TERR_NO_ERR then 0 else case v of None \<Rightarrow> 0 | Some a \<Rightarrow> a, s) }
      else
        do { (r, v, s) \<leftarrow> tn_fmem_get (Some mpool) False TN_WAIT_INFINITE s;
             rc \<leftarrow> came_back r;
             Some (if rc \<noteq> TERR_NO_ERR then 0 else case v of None \<Rightarrow> 0 | Some a \<Rightarrow> a, s) })"

definition do_ialloc :: "fid \<Rightarrow> kstate \<Rightarrow> (addr \<times> kstate) option" where
  "do_ialloc mpool s =
     do { (rc, v, s) \<leftarrow> tn_fmem_get_ipolling (Some mpool) False s;
          Some (if rc \<noteq> TERR_NO_ERR then 0 else case v of None \<Rightarrow> 0 | Some a \<Rightarrow> a, s) }"

definition do_free :: "fid \<Rightarrow> addr \<Rightarrow> kstate \<Rightarrow> (int \<times> kstate) option" where
  "do_free mpool ptr s =
     do { (r, s) \<leftarrow> tn_fmem_release (Some mpool) ptr s; rc \<leftarrow> came_back r; Some (rc, s) }"

definition do_ifree :: "fid \<Rightarrow> addr \<Rightarrow> kstate \<Rightarrow> (int \<times> kstate) option" where
  "do_ifree mpool ptr s = tn_fmem_irelease (Some mpool) ptr s"

text \<open>\<open>id_fmp = 0\<close> and \<open>tn_fmem_create\<close>, for one pool.\<close>

definition init_pool :: "fid \<Rightarrow> addr \<Rightarrow> int \<Rightarrow> int \<Rightarrow> kstate \<Rightarrow> (int \<times> kstate) option" where
  "init_pool k start bsize n s =
     do { (r, s) \<leftarrow> tn_fmem_create (Some k) start (word_of_int bsize) n (upd_fmp k (\<lambda>p. p\<lparr>id_fmp := 0\<rparr>) s);
          rc \<leftarrow> came_back r;
          Some (rc, s) }"

definition tn_net_init_mem_pools :: "tn_net \<Rightarrow> kstate \<Rightarrow> (int \<times> kstate) option" where
  "tn_net_init_mem_pools tnet s =
     do { (rc, s) \<leftarrow> init_pool (lobuf_mpool tnet) (mem_lobuf_mpool tnet) TNNET_SMALL_BUF_SIZE NUM_SMALL_BUF s;
          if rc \<noteq> TERR_NO_ERR then Some (rc, s) else
     do { (rc, s) \<leftarrow> init_pool (m1buf_mpool tnet) (mem_m1buf_mpool tnet) TNNET_MID1_BUF_SIZE NUM_MID1_BUF s;
          if rc \<noteq> TERR_NO_ERR then Some (rc, s) else
     do { (rc, s) \<leftarrow> init_pool (hibuf_mpool tnet) (mem_hibuf_mpool tnet) TNNET_HI_BUF_SIZE NUM_HI_BUF s;
          if rc \<noteq> TERR_NO_ERR then Some (rc, s) else
     do { (rc, s) \<leftarrow> init_pool (drv_lobuf_mpool tnet) (mem_drv_lobuf_mpool tnet) TNNET_SMALL_BUF_SIZE NUM_DRV_SMALL_BUF s;
          if rc \<noteq> TERR_NO_ERR then Some (rc, s) else
     do { (rc, s) \<leftarrow> init_pool (drv_m1buf_mpool tnet) (mem_drv_m1buf_mpool tnet) TNNET_MID1_BUF_SIZE NUM_DRV_MID1_BUF s;
          if rc \<noteq> TERR_NO_ERR then Some (rc, s) else Some (TERR_NO_ERR, s) }}}}}"

definition tn_net_alloc_min :: "tn_net \<Rightarrow> int \<Rightarrow> kstate \<Rightarrow> (addr \<times> kstate) option" where
  "tn_net_alloc_min tnet wait s = do_alloc (lobuf_mpool tnet) wait s"

definition tn_net_ialloc_min :: "tn_net \<Rightarrow> kstate \<Rightarrow> (addr \<times> kstate) option" where
  "tn_net_ialloc_min tnet s = do_ialloc (lobuf_mpool tnet) s"

definition tn_net_free_min :: "tn_net \<Rightarrow> addr \<Rightarrow> kstate \<Rightarrow> (int \<times> kstate) option" where
  "tn_net_free_min tnet ptr s =
     (if ptr < MEM_DRV_START_ADDR then do_free (lobuf_mpool tnet) ptr s
      else do_free (drv_lobuf_mpool tnet) ptr s)"

definition tn_net_ifree_min :: "tn_net \<Rightarrow> addr \<Rightarrow> kstate \<Rightarrow> (int \<times> kstate) option" where
  "tn_net_ifree_min tnet ptr s =
     (if ptr < MEM_DRV_START_ADDR then do_ifree (lobuf_mpool tnet) ptr s
      else do_ifree (drv_lobuf_mpool tnet) ptr s)"

definition tn_net_alloc_tx_min :: "tn_net \<Rightarrow> int \<Rightarrow> kstate \<Rightarrow> (addr \<times> kstate) option" where
  "tn_net_alloc_tx_min tnet wait s = do_alloc (drv_lobuf_mpool tnet) wait s"

definition tn_net_ialloc_tx_min :: "tn_net \<Rightarrow> kstate \<Rightarrow> (addr \<times> kstate) option" where
  "tn_net_ialloc_tx_min tnet s = do_ialloc (drv_lobuf_mpool tnet) s"

definition tn_net_alloc_mid1 :: "tn_net \<Rightarrow> int \<Rightarrow> kstate \<Rightarrow> (addr \<times> kstate) option" where
  "tn_net_alloc_mid1 tnet wait s = do_alloc (m1buf_mpool tnet) wait s"

definition tn_net_ialloc_mid1 :: "tn_net \<Rightarrow> kstate \<Rightarrow> (addr \<times> kstate) option" where
  "tn_net_ialloc_mid1 tnet s = do_ialloc (m1buf_mpool tnet) s"

definition tn_net_alloc_tx_mid1 :: "tn_net \<Rightarrow> int \<Rightarrow> kstate \<Rightarrow> (addr \<times> kstate) option" where
  "tn_net_alloc_tx_mid1 tnet wait s = do_alloc (drv_m1buf_mpool tnet) wait s"

definition tn_net_ialloc_tx_mid1 :: "tn_net \<Rightarrow> kstate \<Rightarrow> (addr \<times> kstate) option" where
  "tn_net_ialloc_tx_mid1 tnet s = do_ialloc (drv_m1buf_mpool tnet) s"

definition tn_net_free_mid1 :: "tn_net \<Rightarrow> addr \<Rightarrow> kstate \<Rightarrow> (int \<times> kstate) option" where
  "tn_net_free_mid1 tnet ptr s =
     (if ptr < MEM_DRV_START_ADDR then do_free (m1buf_mpool tnet) ptr s
      else do_free (drv_m1buf_mpool tnet) ptr s)"

text \<open>The two functions without a result drop the return code.\<close>

definition tn_net_ifree_mid1 :: "tn_net \<Rightarrow> addr \<Rightarrow> kstate \<Rightarrow> kstate option" where
  "tn_net_ifree_mid1 tnet ptr s =
     map_option snd (if ptr < MEM_DRV_START_ADDR then do_ifree (m1buf_mpool tnet) ptr s
                     else do_ifree (drv_m1buf_mpool tnet) ptr s)"

definition tn_net_alloc_hi :: "tn_net \<Rightarrow> int \<Rightarrow> kstate \<Rightarrow> (addr \<times> kstate) option" where
  "tn_net_alloc_hi tnet wait s = do_alloc (hibuf_mpool tnet) wait s"

definition tn_net_ialloc_hi :: "tn_net \<Rightarrow> kstate \<Rightarrow> (addr \<times> kstate) option" where
  "tn_net_ialloc_hi tnet s = do_ialloc (hibuf_mpool tnet) s"

definition tn_net_free_hi :: "tn_net \<Rightarrow> addr \<Rightarrow> kstate \<Rightarrow> (int \<times> kstate) option" where
  "tn_net_free_hi tnet ptr s = do_free (hibuf_mpool tnet) ptr s"

definition tn_net_ifree_hi :: "tn_net \<Rightarrow> addr \<Rightarrow> kstate \<Rightarrow> kstate option" where
  "tn_net_ifree_hi tnet ptr s = map_option snd (do_ifree (hibuf_mpool tnet) ptr s)"

definition tn_net_alloc :: "tn_net \<Rightarrow> int \<Rightarrow> int \<Rightarrow> kstate \<Rightarrow> (addr \<times> kstate) option" where
  "tn_net_alloc tnet sz wait s =
     (if sz \<le> TNNET_SMALL_BUF_SIZE then do_alloc (lobuf_mpool tnet) wait s
      else if sz \<le> TNNET_MID1_BUF_SIZE then do_alloc (m1buf_mpool tnet) wait s
      else if sz \<le> TNNET_HI_BUF_SIZE then do_alloc (hibuf_mpool tnet) wait s
      else Some (0, s))"

definition tn_net_free_pool :: "tn_net \<Rightarrow> int \<Rightarrow> addr \<Rightarrow> kstate \<Rightarrow> (int \<times> kstate) option" where
  "tn_net_free_pool tnet pool ptr s =
     (if pool = TNNET_SMALL_BUF then
        (if ptr < MEM_DRV_START_ADDR then do_free (lobuf_mpool tnet) ptr s
         else do_free (drv_lobuf_mpool tnet) ptr s)
      else if pool = TNNET_MID1_BUF then
        (if ptr < MEM_DRV_START_ADDR then do_free (m1buf_mpool tnet) ptr s
         else do_free (drv_m1buf_mpool tnet) ptr s)
      else if pool = TNNET_HI_BUF then do_free (hibuf_mpool tnet) ptr s
      else Some (-1, s))"

definition tn_net_ifree_pool :: "tn_net \<Rightarrow> int \<Rightarrow> addr \<Rightarrow> kstate \<Rightarrow> (int \<times> kstate) option" where
  "tn_net_ifree_pool tnet pool ptr s =
     (if pool = TNNET_SMALL_BUF then
        (if ptr < MEM_DRV_START_ADDR then do_ifree (lobuf_mpool tnet) ptr s
         else do_ifree (drv_lobuf_mpool tnet) ptr s)
      else if pool = TNNET_MID1_BUF then
        (if ptr < MEM_DRV_START_ADDR then do_ifree (m1buf_mpool tnet) ptr s
         else do_ifree (drv_m1buf_mpool tnet) ptr s)
      else if pool = TNNET_HI_BUF then do_ifree (hibuf_mpool tnet) ptr s
      else Some (-1, s))"

section \<open>The interface of a set of pools\<close>

text \<open>
  What the buffer code relies on. \<open>avail\<close> is the list of the free blocks of a pool, \<open>room\<close> how many more it can
  take back. Taking a block gives the first free one, or \<open>NULL\<close> when there is none; giving one
  back that is free nowhere puts it in front; the other pools do not change.
\<close>

locale block_pools =
  fixes ok :: "'s \<Rightarrow> bool" and avail :: "'p \<Rightarrow> 's \<Rightarrow> addr list" and room :: "'p \<Rightarrow> 's \<Rightarrow> nat"
    and pool :: "'p \<Rightarrow> 's \<Rightarrow> bool"
    and take_block :: "'p \<Rightarrow> 's \<Rightarrow> (addr \<times> 's) option" and give_block :: "'p \<Rightarrow> addr \<Rightarrow> 's \<Rightarrow> (int \<times> 's) option"
  assumes take_empty: "ok s \<Longrightarrow> pool p s \<Longrightarrow> avail p s = [] \<Longrightarrow> take_block p s = Some (0, s)"
    and take_first: "ok s \<Longrightarrow> pool p s \<Longrightarrow> avail p s = a # as \<Longrightarrow>
      \<exists>s'. take_block p s = Some (a, s') \<and> ok s' \<and> pool q s' = pool q s \<and> avail p s' = as \<and> room p s' = Suc (room p s) \<and>
        (q \<noteq> p \<longrightarrow> avail q s' = avail q s \<and> room q s' = room q s)"
    and give: "ok s \<Longrightarrow> pool p s \<Longrightarrow> a \<noteq> 0 \<Longrightarrow> (\<And>q. a \<notin> set (avail q s)) \<Longrightarrow> 0 < room p s \<Longrightarrow>
      \<exists>s'. give_block p a s = Some (0, s') \<and> ok s' \<and> pool q s' = pool q s \<and> avail p s' = a # avail p s \<and> Suc (room p s') = room p s \<and>
        (q \<noteq> p \<longrightarrow> avail q s' = avail q s \<and> room q s' = room q s)"
    and avail_distinct: "ok s \<Longrightarrow> distinct (avail p s)" "ok s \<Longrightarrow> 0 \<notin> set (avail p s)"
      "ok s \<Longrightarrow> p \<noteq> q \<Longrightarrow> set (avail p s) \<inter> set (avail q s) = {}"
begin

lemma take_block_cases:
  assumes "ok s" "pool p s"
  shows "\<exists>a s'. take_block p s = Some (a, s') \<and> ok s' \<and> (a = 0 \<longleftrightarrow> avail p s = []) \<and>
    (a = 0 \<longrightarrow> s' = s) \<and> (a \<noteq> 0 \<longrightarrow> avail p s = a # avail p s')"
proof (cases "avail p s")
  case Nil
  with take_empty [OF assms] assms show ?thesis by simp
next
  case (Cons a as)
  from take_first [OF assms this] obtain s' where "take_block p s = Some (a, s')" "ok s'" "avail p s' = as" by blast
  moreover have "a \<noteq> 0" using avail_distinct(2) [OF assms(1), of p] Cons by auto
  ultimately show ?thesis using Cons by auto
qed

text \<open>A block that was taken is free nowhere, and giving it back restores the free lists.\<close>

lemma take_give:
  assumes "ok s" "pool p s" "avail p s \<noteq> []"
  shows "\<exists>a s1 s2. take_block p s = Some (a, s1) \<and> a \<noteq> 0 \<and> (\<forall>q. a \<notin> set (avail q s1)) \<and>
    give_block p a s1 = Some (0, s2) \<and> ok s2 \<and> avail p s2 = avail p s"
proof -
  from assms(3) obtain a as where a: "avail p s = a # as" by (cases "avail p s") auto
  from take_first [OF assms(1,2) a] obtain s1 where s1: "take_block p s = Some (a, s1)" "ok s1" "pool p s1"
    "avail p s1 = as" "room p s1 = Suc (room p s)" using assms(2) by blast
  have o: "avail q s1 = avail q s" if "q \<noteq> p" for q
    using take_first [OF assms(1,2) a, of q] s1(1) that by auto
  have a0: "a \<noteq> 0" using avail_distinct(2) [OF assms(1), of p] a by auto
  have nf: "a \<notin> set (avail q s1)" for q
    using avail_distinct(1) [OF assms(1), of p] avail_distinct(3) [OF assms(1), of p q] a s1(4) o [of q]
    by (cases "q = p") auto
  from give [OF s1(2,3) a0 nf, of p] s1(5) obtain s2 where "give_block p a s1 = Some (0, s2)" "ok s2"
    "avail p s2 = a # avail p s1" by auto
  with s1 a0 nf a show ?thesis by metis
qed

end

section \<open>The kernel's pools are such pools\<close>

definition task_ok :: "kstate \<Rightarrow> bool" where
  "task_ok s \<longleftrightarrow> system_inv s \<and> \<not> bad_non_int_context s"

definition isr_ok :: "kstate \<Rightarrow> bool" where
  "isr_ok s \<longleftrightarrow> system_inv s \<and> \<not> bad_int_context s"

text \<open>A pool that exists and that no task waits for.\<close>

definition open_pool :: "fid \<Rightarrow> kstate \<Rightarrow> bool" where
  "open_pool k s \<longleftrightarrow> id_fmp (fmps s k) = TN_ID_FSMEMORYPOOL \<and> is_queue_empty (mem s) (FmpWaitQ k)"

abbreviation avail_blocks :: "fid \<Rightarrow> kstate \<Rightarrow> addr list" where
  "avail_blocks k s \<equiv> free_blocks s k"

definition pool_room :: "fid \<Rightarrow> kstate \<Rightarrow> nat" where
  "pool_room k s = nat (num_blocks (fmps s k) - fblkcnt (fmps s k))"

lemma free_blocks_empty_iff:
  assumes "system_inv s" "open_pool k s"
  shows "free_blocks s k = [] \<longleftrightarrow> fblkcnt (fmps s k) = 0" "0 \<le> fblkcnt (fmps s k)"
    "fblkcnt (fmps s k) \<le> num_blocks (fmps s k)"
proof -
  from assms(1) obtain L where "sinv s L" by (auto simp: system_inv_def)
  then have "0 \<le> fblkcnt (fmps s k) \<and> fblkcnt (fmps s k) \<le> num_blocks (fmps s k)"
    using assms(2) fmp_wfD(1) [OF fmp_of_inv] by (simp add: open_pool_def)
  then show "0 \<le> fblkcnt (fmps s k)" "fblkcnt (fmps s k) \<le> num_blocks (fmps s k)" by auto
  with assms(2) show "free_blocks s k = [] \<longleftrightarrow> fblkcnt (fmps s k) = 0"
    by (simp add: free_blocks_def open_pool_def flip: length_0_conv)
qed

text \<open>Taking the first free block, whether or not interrupts are disabled meanwhile.\<close>

lemma fm_get_first:
  assumes i: "system_inv s" and p: "open_pool k s" and a: "free_blocks s k = a # as"
  shows "\<exists>s'. fm_get k s = (a, s') \<and> a \<noteq> 0 \<and> system_inv s' \<and> free_blocks s' k = as \<and> pool_room k s' = Suc (pool_room k s) \<and>
    (\<forall>q. q \<noteq> k \<longrightarrow> free_blocks s' q = free_blocks s q \<and> pool_room q s' = pool_room q s) \<and>
    (\<forall>q. open_pool q s' = open_pool q s) \<and> bad_non_int_context s' = bad_non_int_context s \<and>
    bad_int_context s' = bad_int_context s \<and> irq_disabled s' = irq_disabled s"
proof -
  from i obtain L where L: "sinv s L" by (auto simp: system_inv_def)
  have id: "id_fmp (fmps s k) = TN_ID_FSMEMORYPOOL" using p by (simp add: open_pool_def)
  have c: "0 < fblkcnt (fmps s k)" using free_blocks_empty_iff [OF i p] a by auto
  obtain a' s' where r: "fm_get k s = (a', s')" by fastforce
  note g = fm_get_ok [OF L id c r]
  have s': "s' = upd_fmp k (\<lambda>p. p\<lparr>free_list := mem32 s (free_list p), fblkcnt := fblkcnt p - 1\<rparr>) s"
    using r c by (simp add: fm_get_def Let_def)
  have "system_inv s'" using g(1) by (auto simp: system_inv_def)
  moreover have "pool_room k s' = Suc (pool_room k s)"
    using c free_blocks_empty_iff(3) [OF i p] by (simp add: s' pool_room_def)
  moreover have "open_pool q s' = open_pool q s" for q by (simp add: s' open_pool_def)
  moreover have "pool_room q s' = pool_room q s" if "q \<noteq> k" for q using that by (simp add: s' pool_room_def)
  moreover have "bad_non_int_context s' = bad_non_int_context s" "bad_int_context s' = bad_int_context s"
    "irq_disabled s' = irq_disabled s"
    by (simp_all add: s' upd_fmp_def bad_non_int_context_def bad_int_context_def)
  ultimately show ?thesis using g a r by auto
qed

lemma fm_put_front:
  assumes i: "system_inv s" and p: "open_pool k s" and a: "a \<noteq> 0" "\<And>q. a \<notin> set (free_blocks s q)" and r: "0 < pool_room k s"
  shows "\<exists>s'. fm_put k a s = (TERR_NO_ERR, s') \<and> system_inv s' \<and> free_blocks s' k = a # free_blocks s k \<and>
    Suc (pool_room k s') = pool_room k s \<and>
    (\<forall>q. q \<noteq> k \<longrightarrow> free_blocks s' q = free_blocks s q \<and> pool_room q s' = pool_room q s) \<and>
    (\<forall>q. open_pool q s' = open_pool q s) \<and> bad_non_int_context s' = bad_non_int_context s \<and>
    bad_int_context s' = bad_int_context s \<and> irq_disabled s' = irq_disabled s"
proof -
  from i obtain L where L: "sinv s L" by (auto simp: system_inv_def)
  have id: "id_fmp (fmps s k) = TN_ID_FSMEMORYPOOL" using p by (simp add: open_pool_def)
  obtain xs where xs: "L (FmpWaitQ k) = Some xs" using sinvD(3) [OF L, of "FmpWaitQ k"] id by (auto simp: fmp_live)
  then have nil: "L (FmpWaitQ k) = Some []" using sinv_empty [OF L xs] p by (simp add: open_pool_def)
  have c: "fblkcnt (fmps s k) < num_blocks (fmps s k)" using r by (simp add: pool_room_def)
  have nf: "not_free a s" using a(2) by (simp add: not_free_def)
  obtain rc s' where g0: "fm_put k a s = (rc, s')" by fastforce
  note g = fm_put_ok [OF L id nil a(1) nf c g0]
  have s': "s' = upd_fmp k (\<lambda>p. p\<lparr>free_list := a, fblkcnt := fblkcnt p + 1\<rparr>)
      (s\<lparr>mem32 := (mem32 s)(a := free_list (fmps s k))\<rparr>)"
    using g0 c by (auto simp: fm_put_def Let_def)
  have "system_inv s'" using g(1) by (auto simp: system_inv_def)
  moreover have "Suc (pool_room k s') = pool_room k s" using c by (simp add: s' pool_room_def)
  moreover have "open_pool q s' = open_pool q s" for q by (simp add: s' open_pool_def)
  moreover have "pool_room q s' = pool_room q s" if "q \<noteq> k" for q using that by (simp add: s' pool_room_def)
  moreover have "bad_non_int_context s' = bad_non_int_context s" "bad_int_context s' = bad_int_context s"
    "irq_disabled s' = irq_disabled s"
    by (simp_all add: s' upd_fmp_def bad_non_int_context_def bad_int_context_def)
  ultimately show ?thesis using g g0 by auto
qed

lemma irq_field [simp]:
  "free_blocks (s\<lparr>irq_disabled := b\<rparr>) k = free_blocks s k" "pool_room k (s\<lparr>irq_disabled := b\<rparr>) = pool_room k s"
  "open_pool k (s\<lparr>irq_disabled := b\<rparr>) = open_pool k s" "system_inv (s\<lparr>irq_disabled := b\<rparr>) = system_inv s"
  by (simp_all add: free_blocks_def pool_room_def open_pool_def system_inv_def)

lemma fm_ctx:
  "fm_get k s = (a, s') \<Longrightarrow> tn_int_counter s' = tn_int_counter s \<and> tn_system_state s' = tn_system_state s"
  "fm_put k a s = (rc, s') \<Longrightarrow> tn_int_counter s' = tn_int_counter s \<and> tn_system_state s' = tn_system_state s"
  by (auto simp: fm_get_def fm_put_def upd_fmp_def Let_def split: if_splits)

interpretation task_pools: block_pools task_ok avail_blocks pool_room open_pool "\<lambda>k. do_alloc k MB_NOWAIT" do_free
proof unfold_locales
  fix s k assume ok: "task_ok s" and p: "open_pool k s" and e: "free_blocks s k = []"
  have "fblkcnt (fmps s k) = 0" using free_blocks_empty_iff [OF _ p] ok e by (simp add: task_ok_def)
  then have "fm_get k (s\<lparr>irq_disabled := True\<rparr>) = (0, s\<lparr>irq_disabled := True\<rparr>)" by (simp add: fm_get_def)
  with ok p show "do_alloc k MB_NOWAIT s = Some (0, s)"
    by (simp add: do_alloc_def tn_fmem_get_polling_def tn_disable_interrupt_def tn_enable_interrupt_def came_back_def
        task_ok_def open_pool_def)
next
  fix s k q a as assume ok: "task_ok s" and p: "open_pool k s" and a: "free_blocks s k = a # as"
  let ?s = "s\<lparr>irq_disabled := True\<rparr>"
  have "system_inv ?s" "open_pool k ?s" "free_blocks ?s k = a # as" using ok p a by (simp_all add: task_ok_def)
  from fm_get_first [OF this] obtain s' where s': "fm_get k ?s = (a, s')" "a \<noteq> 0" "system_inv s'" "free_blocks s' k = as"
    "pool_room k s' = Suc (pool_room k s)" "\<And>q. q \<noteq> k \<Longrightarrow> free_blocks s' q = free_blocks s q \<and> pool_room q s' = pool_room q s"
    "\<And>q. open_pool q s' = open_pool q s" "irq_disabled s'" by auto
  let ?r = "s'\<lparr>irq_disabled := irq_disabled s\<rparr>"
  have "do_alloc k MB_NOWAIT s = Some (a, ?r)"
    using s'(1,2) ok p by (simp add: do_alloc_def tn_fmem_get_polling_def tn_disable_interrupt_def tn_enable_interrupt_def
        came_back_def task_ok_def open_pool_def)
  moreover have "\<not> bad_non_int_context ?r"
    using ok fm_ctx(1) [OF s'(1)] by (simp add: task_ok_def bad_non_int_context_def)
  ultimately show "\<exists>s'. do_alloc k MB_NOWAIT s = Some (a, s') \<and> task_ok s' \<and> open_pool q s' = open_pool q s \<and>
      free_blocks s' k = as \<and> pool_room k s' = Suc (pool_room k s) \<and>
      (q \<noteq> k \<longrightarrow> free_blocks s' q = free_blocks s q \<and> pool_room q s' = pool_room q s)"
    using s' by (simp add: task_ok_def)
next
  fix s k q a assume ok: "task_ok s" and p: "open_pool k s" and a: "a \<noteq> 0" "\<And>q. a \<notin> set (free_blocks s q)" "0 < pool_room k s"
  let ?s = "s\<lparr>irq_disabled := True\<rparr>"
  have "system_inv ?s" "open_pool k ?s" "\<And>q. a \<notin> set (free_blocks ?s q)" "0 < pool_room k ?s"
    using ok p a by (simp_all add: task_ok_def)
  from fm_put_front [OF this(1,2) a(1) this(3,4)] obtain s' where s': "fm_put k a ?s = (0, s')" "system_inv s'"
    "free_blocks s' k = a # free_blocks s k"
    "Suc (pool_room k s') = pool_room k s" "\<And>q. q \<noteq> k \<Longrightarrow> free_blocks s' q = free_blocks s q \<and> pool_room q s' = pool_room q s"
    "\<And>q. open_pool q s' = open_pool q s" "irq_disabled s'" by auto
  let ?r = "s'\<lparr>irq_disabled := irq_disabled s\<rparr>"
  have "do_free k a s = Some (0, ?r)"
    using s'(1) ok p a(1) by (simp add: do_free_def tn_fmem_release_def fmem_give_def tn_disable_interrupt_def
        tn_enable_interrupt_def wake_ret_def came_back_def task_ok_def open_pool_def)
  moreover have "\<not> bad_non_int_context ?r"
    using ok fm_ctx(2) [OF s'(1)] by (simp add: task_ok_def bad_non_int_context_def)
  ultimately show "\<exists>s'. do_free k a s = Some (0, s') \<and> task_ok s' \<and> open_pool q s' = open_pool q s \<and>
      free_blocks s' k = a # free_blocks s k \<and> Suc (pool_room k s') = pool_room k s \<and>
      (q \<noteq> k \<longrightarrow> free_blocks s' q = free_blocks s q \<and> pool_room q s' = pool_room q s)"
    using s' by (simp add: task_ok_def)
next
  fix s k q assume "task_ok s"
  then obtain L where "sinv s L" by (auto simp: task_ok_def system_inv_def)
  note wf = fmp_wfD [OF fmp_of_inv [OF this]]
  show "distinct (free_blocks s k)" "0 \<notin> set (free_blocks s k)" by (rule wf)+
  show "set (free_blocks s k) \<inter> set (free_blocks s q) = {}" if "k \<noteq> q" using wf(4) that by blast
qed

interpretation isr_pools: block_pools isr_ok avail_blocks pool_room open_pool do_ialloc do_ifree
proof unfold_locales
  fix s k assume ok: "isr_ok s" and p: "open_pool k s" and e: "free_blocks s k = []"
  have "fblkcnt (fmps s k) = 0" using free_blocks_empty_iff [OF _ p] ok e by (simp add: isr_ok_def)
  then have "fm_get k s = (0, s)" by (simp add: fm_get_def)
  with ok p show "do_ialloc k s = Some (0, s)"
    by (simp add: do_ialloc_def tn_fmem_get_ipolling_def isr_ok_def open_pool_def)
next
  fix s k q a as assume ok: "isr_ok s" and p: "open_pool k s" and a: "free_blocks s k = a # as"
  from fm_get_first [OF _ p a] ok obtain s' where s': "fm_get k s = (a, s')" "a \<noteq> 0" "system_inv s'" "free_blocks s' k = as"
    "pool_room k s' = Suc (pool_room k s)" "\<And>q. q \<noteq> k \<Longrightarrow> free_blocks s' q = free_blocks s q \<and> pool_room q s' = pool_room q s"
    "\<And>q. open_pool q s' = open_pool q s" "bad_int_context s' = bad_int_context s" by (auto simp: isr_ok_def)
  then show "\<exists>s'. do_ialloc k s = Some (a, s') \<and> isr_ok s' \<and> open_pool q s' = open_pool q s \<and>
      free_blocks s' k = as \<and> pool_room k s' = Suc (pool_room k s) \<and>
      (q \<noteq> k \<longrightarrow> free_blocks s' q = free_blocks s q \<and> pool_room q s' = pool_room q s)"
    using ok p by (simp add: do_ialloc_def tn_fmem_get_ipolling_def isr_ok_def open_pool_def)
next
  fix s k q a assume ok: "isr_ok s" and p: "open_pool k s" and a: "a \<noteq> 0" "\<And>q. a \<notin> set (free_blocks s q)" "0 < pool_room k s"
  from fm_put_front [OF _ p a] ok obtain s' where s': "fm_put k a s = (0, s')" "system_inv s'" "free_blocks s' k = a # free_blocks s k"
    "Suc (pool_room k s') = pool_room k s" "\<And>q. q \<noteq> k \<Longrightarrow> free_blocks s' q = free_blocks s q \<and> pool_room q s' = pool_room q s"
    "\<And>q. open_pool q s' = open_pool q s" "bad_int_context s' = bad_int_context s" by (auto simp: isr_ok_def)
  then show "\<exists>s'. do_ifree k a s = Some (0, s') \<and> isr_ok s' \<and> open_pool q s' = open_pool q s \<and>
      free_blocks s' k = a # free_blocks s k \<and> Suc (pool_room k s') = pool_room k s \<and>
      (q \<noteq> k \<longrightarrow> free_blocks s' q = free_blocks s q \<and> pool_room q s' = pool_room q s)"
    using ok p a(1) by (simp add: do_ifree_def tn_fmem_irelease_def fmem_give_def wake_iret_def isr_ok_def open_pool_def)
next
  fix s k q assume "isr_ok s"
  then obtain L where "sinv s L" by (auto simp: isr_ok_def system_inv_def)
  note wf = fmp_wfD [OF fmp_of_inv [OF this]]
  show "distinct (free_blocks s k)" "0 \<notin> set (free_blocks s k)" by (rule wf)+
  show "set (free_blocks s k) \<inter> set (free_blocks s q) = {}" if "k \<noteq> q" using wf(4) that by blast
qed

end
