(* ===== verification/Net_Pools.thy ===== *)
theory Net_Pools
  imports Net_Mem
begin

text \<open>
  The start of the network stack's memory: \<open>tn_net_init_mem_pools\<close> creates five pools that hold all their blocks,
  from memory that is laid out without overlaps.
\<close>

section \<open>One pool\<close>

lemma fmem_create_frame:
  assumes "tn_fmem_create (Some k) start bsize n s = Some (r, s')"
  shows "bad_non_int_context s' = bad_non_int_context s"
    "j \<noteq> k \<Longrightarrow> fmps s' j = fmps s j" "j \<noteq> k \<Longrightarrow> is_queue_empty (mem s') (FmpWaitQ j) = is_queue_empty (mem s) (FmpWaitQ j)"
proof -
  let ?s = "on_mem (queue_reset (FmpWaitQ k)) s"
  have "(\<exists>f. s' = upd_fmp k f s) \<or> (\<exists>f m. s' = upd_fmp k f (?s\<lparr>mem32 := m\<rparr>))"
  proof -
    have n: "id_fmp (fmps s k) \<noteq> TN_ID_FSMEMORYPOOL \<Longrightarrow> start = 0 \<or> n < 2 \<or> bsize < 4 \<Longrightarrow> ?thesis"
      using assms by (auto simp: tn_fmem_create_def)
    have "upd_fmp k id s = s" by (simp add: upd_fmp_def)
    then have e: "id_fmp (fmps s k) = TN_ID_FSMEMORYPOOL \<Longrightarrow> ?thesis" using assms by (auto simp: tn_fmem_create_def intro!: exI [of _ id])
    have "upd_fmp k f (upd_fmp k g x) = upd_fmp k (\<lambda>p. f (g p)) x" "x\<lparr>mem32 := mem32 x\<rparr> = x"
      "(upd_fmp k f x)\<lparr>mem32 := m\<rparr> = upd_fmp k f (x\<lparr>mem32 := m\<rparr>)" for f g x m
      by (simp_all add: upd_fmp_def)
    note u = this
    have "?thesis" if a: "id_fmp (fmps s k) \<noteq> TN_ID_FSMEMORYPOOL" "\<not> (start = 0 \<or> n < 2 \<or> bsize < 4)"
    proof -
      from assms a obtain nb where nb: "(if nb < 2 then Some (RC TERR_WRONG_PARAM, upd_fmp k (\<lambda>p. p\<lparr>fblkcnt := 0, num_blocks := 0, free_list := 0\<rparr>)
           (upd_fmp k (\<lambda>p. p\<lparr>start_addr := align_up start, block_size := align_up bsize, num_blocks := nb\<rparr>) ?s))
         else (let (p_tmp, m) = link_blocks (nat (nb - 1)) (align_up bsize) (align_up start) (align_up start + align_up bsize) (mem32 ?s)
           in Some (RC TERR_NO_ERR, upd_fmp k (\<lambda>p. p\<lparr>free_list := align_up start, fblkcnt := nb, id_fmp := TN_ID_FSMEMORYPOOL\<rparr>)
             ((upd_fmp k (\<lambda>p. p\<lparr>start_addr := align_up start, block_size := align_up bsize, num_blocks := nb\<rparr>) ?s)\<lparr>mem32 := m(p_tmp := 0)\<rparr>)))) = Some (r, s')"
        unfolding tn_fmem_create_def by (simp add: Let_def bind_eq_Some cong: if_cong) blast
      show ?thesis
      proof (cases "nb < 2")
        case True
        then obtain f where "s' = upd_fmp k f ?s" using nb by (auto simp: u)
        moreover have "?s = ?s\<lparr>mem32 := mem32 ?s\<rparr>" by simp
        ultimately have "s' = upd_fmp k f (?s\<lparr>mem32 := mem32 ?s\<rparr>)" by metis
        then show ?thesis by blast
      next
        case False
        then show ?thesis using nb by (auto simp: u split: prod.splits)
      qed
    qed
    with n e show ?thesis by blast
  qed
  then show "bad_non_int_context s' = bad_non_int_context s"
    "j \<noteq> k \<Longrightarrow> fmps s' j = fmps s j" "j \<noteq> k \<Longrightarrow> is_queue_empty (mem s') (FmpWaitQ j) = is_queue_empty (mem s) (FmpWaitQ j)"
    by (auto simp: upd_fmp_def on_mem_def queue_reset_def is_queue_empty_def bad_non_int_context_def)
qed

text \<open>Memory that is split without loss: the start and the block size are multiples of the alignment.\<close>

lemma init_pool_ok:
  assumes ok: "task_ok s" and k: "id_fmp (fmps s k) \<noteq> TN_ID_FSMEMORYPOOL" and start: "start \<noteq> 0" "align_up start = start"
    and n: "2 \<le> n" and b: "4 \<le> bsize" "align_up bsize = bsize" "word_of_int bs = bsize" and pm: "pool_memory start bsize n s"
  shows "\<exists>s'. init_pool k start bs n s = Some (TERR_NO_ERR, s') \<and> task_ok s' \<and> open_pool k s' \<and>
    free_blocks s' k = blocks bsize (nat n) start \<and>
    (\<forall>j. j \<noteq> k \<longrightarrow> fmps s' j = fmps s j \<and> free_blocks s' j = free_blocks s j \<and> open_pool j s' = open_pool j s)"
proof -
  let ?s = "upd_fmp k (\<lambda>p. p\<lparr>id_fmp := 0\<rparr>) s"
  from ok obtain L where i: "sinv s L" by (auto simp: task_ok_def system_inv_def)
  have i1: "sinv ?s L" by (rule sinv_fmp_gone [OF i fmp_dead_waiter [OF i k]]) simp_all
  have fb: "free_blocks ?s j = free_blocks s j" for j using k by (cases "j = k") (simp_all add: free_blocks_def)
  have pm1: "pool_memory start bsize n ?s" using pm by (simp add: pool_memory_def fb)
  have k1: "id_fmp (fmps ?s k) \<noteq> TN_ID_FSMEMORYPOOL" by simp
  obtain m s' L' where m: "tn_fmem_create (Some k) start bsize n ?s = Some (RC (if m < 2 then TERR_WRONG_PARAM else TERR_NO_ERR), s')"
    "sinv s' L'" "m \<le> nat n" "m < nat n \<longrightarrow> unat start + unat bsize * nat n < unat start + unat bsize * Suc m"
    "2 \<le> m \<longrightarrow> id_fmp (fmps s' k) = TN_ID_FSMEMORYPOOL \<and> L' (FmpWaitQ k) = Some [] \<and> free_blocks s' k = blocks bsize m start"
    "2 \<le> m \<longrightarrow> (\<forall>j. j \<noteq> k \<longrightarrow> free_blocks s' j = free_blocks ?s j)"
    using fmem_create_carves [OF i1 k1 start(1) n b(1) pm1] unfolding start(2) b(2) by blast
  have mn: "m = nat n"
  proof (rule ccontr)
    assume "m \<noteq> nat n"
    then have "Suc m \<le> nat n" "m < nat n" using m(3) by auto
    then have "unat bsize * Suc m \<le> unat bsize * nat n" by (intro mult_le_mono) auto
    with m(4) \<open>m < nat n\<close> show False by linarith
  qed
  have m2: "2 \<le> m" using n mn by simp
  note fr = fmem_create_frame [OF m(1)]
  have "init_pool k start bs n s = Some (TERR_NO_ERR, s')" using m(1) m2 b(3) by (simp add: init_pool_def came_back_def)
  moreover have "task_ok s'" using ok m(2) fr(1) by (auto simp: task_ok_def system_inv_def bad_non_int_context_def upd_fmp_def)
  moreover have "open_pool k s'" using m(5) m2 sinv_empty [OF m(2), of "FmpWaitQ k" "[]"] by (simp add: open_pool_def)
  moreover have "fmps s' j = fmps s j \<and> free_blocks s' j = free_blocks s j \<and> open_pool j s' = open_pool j s" if "j \<noteq> k" for j
    using fr(2,3) [OF that] m(6) m2 that fb [of j] by (simp add: open_pool_def)
  moreover have "free_blocks s' k = blocks bsize (nat n) start" using m(5) m2 mn by simp
  ultimately show ?thesis by blast
qed

section \<open>All pools\<close>

text \<open>The arguments of the five calls: the pool, its memory, the size and the number of its blocks.\<close>

definition pool_specs :: "tn_net \<Rightarrow> (fid \<times> addr \<times> int \<times> int) list" where
  "pool_specs tnet =
     [(lobuf_mpool tnet, mem_lobuf_mpool tnet, TNNET_SMALL_BUF_SIZE, NUM_SMALL_BUF),
      (m1buf_mpool tnet, mem_m1buf_mpool tnet, TNNET_MID1_BUF_SIZE, NUM_MID1_BUF),
      (hibuf_mpool tnet, mem_hibuf_mpool tnet, TNNET_HI_BUF_SIZE, NUM_HI_BUF),
      (drv_lobuf_mpool tnet, mem_drv_lobuf_mpool tnet, TNNET_SMALL_BUF_SIZE, NUM_DRV_SMALL_BUF),
      (drv_m1buf_mpool tnet, mem_drv_m1buf_mpool tnet, TNNET_MID1_BUF_SIZE, NUM_DRV_MID1_BUF)]"

fun init_pools :: "(fid \<times> addr \<times> int \<times> int) list \<Rightarrow> kstate \<Rightarrow> (int \<times> kstate) option" where
  "init_pools [] s = Some (TERR_NO_ERR, s)"
| "init_pools ((k, a, bs, n) # ps) s =
     do { (rc, s) \<leftarrow> init_pool k a bs n s; if rc \<noteq> TERR_NO_ERR then Some (rc, s) else init_pools ps s }"

lemma init_mem_pools_list: "tn_net_init_mem_pools tnet s = init_pools (pool_specs tnet) s"
  by (simp add: tn_net_init_mem_pools_def pool_specs_def cong: if_cong)

text \<open>Memory for a list of pools.\<close>

definition spec_ok :: "fid \<times> addr \<times> int \<times> int \<Rightarrow> bool" where
  "spec_ok = (\<lambda>(k, a, bs, n). a \<noteq> 0 \<and> align_up a = a \<and> 2 \<le> n \<and> 4 \<le> (word_of_int bs :: u32) \<and>
     align_up (word_of_int bs) = (word_of_int bs) \<and> unat a + 3 + (unat (word_of_int bs :: u32) + 3) * nat n < 2 ^ 32)"

definition spec_area :: "fid \<times> addr \<times> int \<times> int \<Rightarrow> addr \<Rightarrow> bool" where
  "spec_area = (\<lambda>(k, a, bs, n). pool_area a (word_of_int bs) n)"

fun specs_apart :: "(fid \<times> addr \<times> int \<times> int) list \<Rightarrow> bool" where
  "specs_apart [] \<longleftrightarrow> True"
| "specs_apart (p # ps) \<longleftrightarrow> (\<forall>q \<in> set ps. fst q \<noteq> fst p \<and> (\<forall>x. spec_area p x \<longrightarrow> \<not> spec_area q x)) \<and> specs_apart ps"

definition spec_blocks :: "fid \<times> addr \<times> int \<times> int \<Rightarrow> addr list" where
  "spec_blocks = (\<lambda>(k, a, bs, n). blocks (word_of_int bs) (nat n) a)"

lemma spec_blocks_area:
  assumes "spec_ok p" "x \<in> set (spec_blocks p)"
  shows "spec_area p x"
proof -
  obtain k a bs n where p: "p = (k, a, bs, n)" by (cases p)
  let ?b = "word_of_int bs :: u32"
  have h: "unat a + 3 + (unat ?b + 3) * nat n < 2 ^ 32" "4 \<le> unat ?b"
    using assms(1) unfolding p spec_ok_def by (auto simp: word_le_nat_alt)
  have "unat ?b * nat n \<le> (unat ?b + 3) * nat n" by simp
  then have "unat a + unat ?b * nat n < 2 ^ 32" using h(1) by linarith
  from blocks_range(2) [OF this, of x] h(2) assms(2) show ?thesis
    unfolding p spec_blocks_def spec_area_def pool_area_def by auto
qed

lemma init_pools_ok:
  assumes "task_ok s" "list_all spec_ok ps" "specs_apart ps" "\<And>p. p \<in> set ps \<Longrightarrow> id_fmp (fmps s (fst p)) \<noteq> TN_ID_FSMEMORYPOOL"
    "\<And>p j x. p \<in> set ps \<Longrightarrow> x \<in> set (free_blocks s j) \<Longrightarrow> \<not> spec_area p x"
  shows "\<exists>s'. init_pools ps s = Some (TERR_NO_ERR, s') \<and> task_ok s' \<and>
    (\<forall>p \<in> set ps. open_pool (fst p) s' \<and> free_blocks s' (fst p) = spec_blocks p) \<and>
    (\<forall>j. j \<notin> fst ` set ps \<longrightarrow> fmps s' j = fmps s j \<and> free_blocks s' j = free_blocks s j \<and> open_pool j s' = open_pool j s)"
  using assms
proof (induction ps arbitrary: s)
  case (Cons p ps)
  obtain k a bs n where p: "p = (k, a, bs, n)" by (cases p)
  have sp: "spec_ok (k, a, bs, n)" using Cons.prems(2) p by simp
  have pm: "pool_memory a (word_of_int bs) n s"
    using sp Cons.prems(5) [of p] by (auto simp: spec_ok_def pool_memory_def spec_area_def p)
  have k: "id_fmp (fmps s k) \<noteq> TN_ID_FSMEMORYPOOL" using Cons.prems(4) [of p] p by simp
  obtain s1 where s1: "init_pool k a bs n s = Some (TERR_NO_ERR, s1)" "task_ok s1" "open_pool k s1"
    "free_blocks s1 k = spec_blocks p"
    "\<And>j. j \<noteq> k \<Longrightarrow> fmps s1 j = fmps s j \<and> free_blocks s1 j = free_blocks s j \<and> open_pool j s1 = open_pool j s"
    using init_pool_ok [OF Cons.prems(1) k _ _ _ _ _ refl pm] sp by (auto simp: spec_ok_def spec_blocks_def p)
  have ne: "fst q \<noteq> k" "\<And>x. spec_area p x \<Longrightarrow> \<not> spec_area q x" if "q \<in> set ps" for q using Cons.prems(3) that p by auto
  have fr: "\<not> spec_area q x" if "q \<in> set ps" "x \<in> set (free_blocks s1 j)" for q j x
  proof (cases "j = k")
    case True
    then have "spec_area p x" using that(2) s1(4) Cons.prems(2) spec_blocks_area [of p x] by simp
    then show ?thesis using ne(2) [OF that(1)] by blast
  next
    case False
    then show ?thesis using Cons.prems(5) [of q x j] s1(5) that by simp
  qed
  obtain s' where s': "init_pools ps s1 = Some (TERR_NO_ERR, s')" "task_ok s'"
    "\<forall>p \<in> set ps. open_pool (fst p) s' \<and> free_blocks s' (fst p) = spec_blocks p"
    "\<forall>j. j \<notin> fst ` set ps \<longrightarrow> fmps s' j = fmps s1 j \<and> free_blocks s' j = free_blocks s1 j \<and> open_pool j s' = open_pool j s1"
    using Cons.IH [OF s1(2)] Cons.prems(2,3,4) s1(5) ne(1) fr by auto
  have "k \<notin> fst ` set ps" using ne(1) by auto
  then show ?case using s1 s' p by (intro exI [of _ s']) auto
qed simp

end
