(* ===== verification/Mbuf.thy ===== *)
theory Mbuf
  imports Mbuf_State Net_Mem
begin

text \<open>
  The operations on network buffers, \<open>src/tn_net/tn_mbuf.c\<close>. The state is the kernel (for the pools), the
  store of the descriptors and the bytes of the data buffers. A descriptor
  enters the store when \<open>m_alloc_hdr\<close> takes and clears its block, and leaves it when the block goes back to its
  pool, so that a use after the release is a fault.

  As in \<open>Net_Mem\<close>, \<^const>\<open>None\<close> is a fault, an endless loop (\<open>tn_net_panic\<close> is one) or a call that gives up the
  processor. Around the reference count the code disables interrupts, which changes
  nothing here because no other code runs in between.
\<close>

section \<open>The routines\<close>

record nstate =
  kst :: kstate
  mbs :: mheap
  bytes :: bmem

abbreviation (input) MB_MIN :: int where "MB_MIN \<equiv> TNNET_SMALL_BUF"
abbreviation (input) MB_MID1 :: int where "MB_MID1 \<equiv> TNNET_MID1_BUF"
abbreviation (input) MB_HI :: int where "MB_HI \<equiv> TNNET_HI_BUF"

definition deref :: "addr \<Rightarrow> nstate \<Rightarrow> mbuf option" where
  "deref p st = (if p = 0 then None else mbs st p)"

definition set_mbuf :: "addr \<Rightarrow> (mbuf \<Rightarrow> mbuf) \<Rightarrow> nstate \<Rightarrow> nstate option" where
  "set_mbuf p f st = (case deref p st of None \<Rightarrow> None | Some b \<Rightarrow> Some (st\<lparr>mbs := (mbs st)(p \<mapsto> f b)\<rparr>))"

definition on_kernel :: "(kstate \<Rightarrow> ('a \<times> kstate) option) \<Rightarrow> nstate \<Rightarrow> ('a \<times> nstate) option" where
  "on_kernel f st = (case f (kst st) of None \<Rightarrow> None | Some (x, k) \<Rightarrow> Some (x, st\<lparr>kst := k\<rparr>))"

definition free_descr :: "(addr \<Rightarrow> kstate \<Rightarrow> (int \<times> kstate) option) \<Rightarrow> addr \<Rightarrow> nstate \<Rightarrow> (int \<times> nstate) option" where
  "free_descr release p st =
     do { (rc, st) \<leftarrow> on_kernel (release p) st;
          Some (rc, if rc = 0 then st\<lparr>mbs := (mbs st)(p := None)\<rparr> else st) }"

text \<open>\<open>m_free\<close> and \<open>m_ifree\<close> differ in the functions that release memory. The last test reads \<open>mb->m_flags\<close> also when
  \<open>mb\<close> is the primary descriptor that was released just before; the result does not depend on it then, as the
  other half of the test is false.\<close>

definition m_free_by :: "(addr \<Rightarrow> kstate \<Rightarrow> (int \<times> kstate) option) \<Rightarrow>
    (int \<Rightarrow> addr \<Rightarrow> kstate \<Rightarrow> (int \<times> kstate) option) \<Rightarrow> addr \<Rightarrow> nstate \<Rightarrow> (addr \<times> nstate) option" where
  "m_free_by free_min free_pool mb st =
     (if mb = 0 then Some (0, st)
      else do {
        b \<leftarrow> deref mb st;
        let rv = m_next b in
        if m_flags b AND M_ETHHDR \<noteq> 0 then
          do { (rc, st) \<leftarrow> free_descr free_min mb st; Some (if rc \<noteq> 0 then INV_MEM else rv, st) }
        else
          let p_pri = (if m_flags b AND M_DBHDR \<noteq> 0 then mb else m_pri b) in
          if p_pri = 0 then Some (0, st)
          else do {
            p \<leftarrow> deref p_pri st;
            st \<leftarrow> (if m_refcnt p > 0 then set_mbuf p_pri (\<lambda>p. p\<lparr>m_refcnt := m_refcnt p - 1\<rparr>) st else Some st);
            (rv, st) \<leftarrow>
              (if m_refcnt p > 0 \<and> m_refcnt p - 1 = 0 then
                 do { (rv, st) \<leftarrow>
                        (if m_flags p AND M_NOALLOC = 0 \<and> m_dbuf p \<noteq> 0 then
                           do { (rc, st) \<leftarrow> on_kernel (free_pool (m_dbtype p) (m_dbuf p)) st;
                                Some (if rc \<noteq> 0 then INV_MEM else rv, st) }
                         else Some (rv, st));
                      (rc, st) \<leftarrow> free_descr free_min p_pri st;
                      Some (if rc \<noteq> 0 then INV_MEM else rv, st) }
               else Some (rv, st));
            if p_pri \<noteq> mb \<and> m_flags b AND M_DBHDR = 0 then
              do { (rc, st) \<leftarrow> free_descr free_min mb st; Some (if rc \<noteq> 0 then INV_MEM else rv, st) }
            else Some (rv, st) } })"

definition m_free :: "tn_net \<Rightarrow> addr \<Rightarrow> nstate \<Rightarrow> (addr \<times> nstate) option" where
  "m_free tnet mb st = m_free_by (tn_net_free_min tnet) (tn_net_free_pool tnet) mb st"

definition m_ifree :: "tn_net \<Rightarrow> addr \<Rightarrow> nstate \<Rightarrow> (addr \<times> nstate) option" where
  "m_ifree tnet mb st = m_free_by (tn_net_ifree_min tnet) (tn_net_ifree_pool tnet) mb st"

partial_function (option) m_freem :: "tn_net \<Rightarrow> addr \<Rightarrow> nstate \<Rightarrow> (int \<times> nstate) option" where
  "m_freem tnet mb st =
     (if mb \<noteq> 0 then
        do { (mb, st) \<leftarrow> m_free tnet mb st;
             if mb = INV_MEM then Some (-1, st) else m_freem tnet mb st }
      else Some (0, st))"

partial_function (option) m_ifreem :: "tn_net \<Rightarrow> addr \<Rightarrow> nstate \<Rightarrow> (int \<times> nstate) option" where
  "m_ifreem tnet mb st =
     (if mb \<noteq> 0 then
        do { (mb, st) \<leftarrow> m_ifree tnet mb st;
             if mb = INV_MEM then Some (-1, st) else m_ifreem tnet mb st }
      else Some (0, st))"

text \<open>\<open>if(m_freem(...) == INV_MEM_VAL) tn_net_panic(...)\<close>\<close>

definition freem_or_panic :: "tn_net \<Rightarrow> addr \<Rightarrow> nstate \<Rightarrow> nstate option" where
  "freem_or_panic tnet mb st = do { (rc, st) \<leftarrow> m_freem tnet mb st; if rc = INV_MEM_VAL then None else Some st }"

text \<open>\<open>if(m_free(...) == INV_MEM) tn_net_panic(...)\<close>\<close>

definition free_or_panic :: "tn_net \<Rightarrow> addr \<Rightarrow> nstate \<Rightarrow> (addr \<times> nstate) option" where
  "free_or_panic tnet mb st = do { (mb, st) \<leftarrow> m_free tnet mb st; if mb = INV_MEM then None else Some (mb, st) }"

subsection \<open>Allocation\<close>

definition zero_mbuf :: mbuf where
  "zero_mbuf = \<lparr>m_flags = 0, m_len = 0, m_next = 0, m_data = 0, m_dbuf = 0, m_nextpkt = 0, m_pri = 0,
     m_tlen = 0, m_dbtype = 0, m_refcnt = 0\<rparr>"

text \<open>\<open>bzero_dw\<close> clears the eight words of the descriptor; it writes words, so that the block has to be aligned.\<close>

definition clear_descr :: "addr \<Rightarrow> nstate \<Rightarrow> nstate option" where
  "clear_descr p st = (if p AND 3 = 0 then Some (st\<lparr>mbs := (mbs st)(p \<mapsto> zero_mbuf)\<rparr>) else None)"

definition m_alloc_hdr :: "tn_net \<Rightarrow> int \<Rightarrow> nstate \<Rightarrow> (addr \<times> nstate) option" where
  "m_alloc_hdr tnet wait st =
     do { (res, st) \<leftarrow> on_kernel (tn_net_alloc_min tnet wait) st;
          if res = 0 then Some (0, st) else do { st \<leftarrow> clear_descr res st; Some (res, st) } }"

definition m_ialloc_hdr :: "tn_net \<Rightarrow> nstate \<Rightarrow> (addr \<times> nstate) option" where
  "m_ialloc_hdr tnet st =
     do { (res, st) \<leftarrow> on_kernel (tn_net_ialloc_min tnet) st;
          if res = 0 then Some (0, st) else do { st \<leftarrow> clear_descr res st; Some (res, st) } }"

text \<open>The \<open>switch\<close> that allocates the data buffer; an unknown type leaves the \<open>NULL\<close> of the cleared descriptor.\<close>

definition dbuf_get :: "tn_net \<Rightarrow> int \<Rightarrow> int \<Rightarrow> bool \<Rightarrow> nstate \<Rightarrow> (addr \<times> nstate) option" where
  "dbuf_get tnet mbuf_type wait use_tx_pool st =
     (if mbuf_type = MB_MIN then
        (if use_tx_pool then on_kernel (tn_net_alloc_tx_min tnet wait) st else on_kernel (tn_net_alloc_min tnet wait) st)
      else if mbuf_type = MB_MID1 then
        (if use_tx_pool then on_kernel (tn_net_alloc_tx_mid1 tnet wait) st else on_kernel (tn_net_alloc_mid1 tnet wait) st)
      else if mbuf_type = MB_HI then on_kernel (tn_net_alloc_hi tnet wait) st
      else Some (0, st))"

definition dbuf_iget :: "tn_net \<Rightarrow> int \<Rightarrow> bool \<Rightarrow> nstate \<Rightarrow> (addr \<times> nstate) option" where
  "dbuf_iget tnet mbuf_type use_tx_pool st =
     (if mbuf_type = MB_MIN then
        (if use_tx_pool then on_kernel (tn_net_ialloc_tx_min tnet) st else on_kernel (tn_net_ialloc_min tnet) st)
      else if mbuf_type = MB_MID1 then
        (if use_tx_pool then on_kernel (tn_net_ialloc_tx_mid1 tnet) st else on_kernel (tn_net_ialloc_mid1 tnet) st)
      else if mbuf_type = MB_HI then on_kernel (tn_net_ialloc_hi tnet) st
      else Some (0, st))"

text \<open>\<open>mb_get\<close> and \<open>mb_iget\<close> differ in the functions that take and release memory.\<close>

definition mb_get_by :: "(nstate \<Rightarrow> (addr \<times> nstate) option) \<Rightarrow> (nstate \<Rightarrow> (addr \<times> nstate) option) \<Rightarrow>
    (addr \<Rightarrow> kstate \<Rightarrow> (int \<times> kstate) option) \<Rightarrow> int \<Rightarrow> nstate \<Rightarrow> (addr \<times> nstate) option" where
  "mb_get_by alloc_hdr alloc_dbuf free_min mbuf_type st =
     do { (res, st) \<leftarrow> alloc_hdr st;
          if res = 0 then Some (0, st)
          else do {
            (d, st) \<leftarrow> alloc_dbuf st;
            st \<leftarrow> set_mbuf res (\<lambda>b. b\<lparr>m_dbuf := d\<rparr>) st;
            if d = 0 then do { (_, st) \<leftarrow> free_descr free_min res st; Some (0, st) }
            else do {
              st \<leftarrow> set_mbuf res (\<lambda>b. b\<lparr>m_pri := res, m_dbtype := to_bits 4 mbuf_type, m_data := m_dbuf b,
                      m_refcnt := 1, m_flags := M_DBHDR\<rparr>) st;
              Some (res, st) } } }"

definition mb_get :: "tn_net \<Rightarrow> int \<Rightarrow> int \<Rightarrow> bool \<Rightarrow> nstate \<Rightarrow> (addr \<times> nstate) option" where
  "mb_get tnet mbuf_type wait use_tx_pool st =
     mb_get_by (m_alloc_hdr tnet wait) (dbuf_get tnet mbuf_type wait use_tx_pool) (tn_net_free_min tnet) mbuf_type st"

definition mb_iget :: "tn_net \<Rightarrow> int \<Rightarrow> bool \<Rightarrow> nstate \<Rightarrow> (addr \<times> nstate) option" where
  "mb_iget tnet mbuf_type use_tx_pool st =
     mb_get_by (m_ialloc_hdr tnet) (dbuf_iget tnet mbuf_type use_tx_pool) (tn_net_ifree_min tnet) mbuf_type st"

definition m_get_dbuf_size :: "int \<Rightarrow> int" where
  "m_get_dbuf_size dtype =
     (if dtype = TNNET_SMALL_BUF then TNNET_SMALL_BUF_SIZE
      else if dtype = TNNET_MID1_BUF then TNNET_MID1_BUF_SIZE
      else if dtype = TNNET_HI_BUF then TNNET_HI_BUF_SIZE else 0)"

definition tn_get_dbuf_size :: "addr \<Rightarrow> nstate \<Rightarrow> int option" where
  "tn_get_dbuf_size mb st =
     (if mb = 0 then Some (-1)
      else do {
        b \<leftarrow> deref mb st;
        let p_pri = (if m_flags b AND M_DBHDR \<noteq> 0 then mb else m_pri b) in
        if p_pri = 0 then Some (-1) else do { p \<leftarrow> deref p_pri st; Some (m_get_dbuf_size (m_dbtype p)) } })"

subsection \<open>Copies that share the data buffers\<close>

partial_function (option) m_copym_skip :: "addr \<Rightarrow> int \<Rightarrow> nstate \<Rightarrow> (addr \<times> int) option" where
  "m_copym_skip mb offset st =
     (if mb \<noteq> 0 then
        do { b \<leftarrow> deref mb st;
             if m_len b \<le> offset then m_copym_skip (m_next b) (offset - m_len b) st else Some (mb, offset) }
      else Some (mb, offset))"

text \<open>The body of the loop up to the new length of the copy \<open>t_mb\<close>; the result is the state and \<open>mb_first\<close>.\<close>

definition m_copym_one :: "addr \<Rightarrow> addr \<Rightarrow> addr \<Rightarrow> addr \<Rightarrow> int \<Rightarrow> int \<Rightarrow> nstate \<Rightarrow> (addr \<times> nstate) option" where
  "m_copym_one t_mb mb mb_first mb_prev offset len st =
     do { st \<leftarrow> (if mb_prev \<noteq> 0 then set_mbuf mb_prev (\<lambda>b. b\<lparr>m_next := t_mb\<rparr>) st else Some st);
          b \<leftarrow> deref mb st;
          let p_pri = (if m_flags b AND M_DBHDR \<noteq> 0 then mb else m_pri b) in do {
          st \<leftarrow> set_mbuf p_pri (\<lambda>p. p\<lparr>m_refcnt := to_bits 8 (m_refcnt p + 1)\<rparr>) st;
          st \<leftarrow> set_mbuf t_mb (\<lambda>t. t\<lparr>m_flags := (if m_flags b AND M_PKTHDR \<noteq> 0 then M_NOALLOC OR M_PKTHDR else M_NOALLOC),
                  m_pri := p_pri\<rparr>) st;
          b \<leftarrow> deref mb st;
          if mb_first = 0 then
            do { st \<leftarrow> set_mbuf t_mb (\<lambda>t. t\<lparr>m_tlen := to_bits 20 len, m_data := m_data b + word_of_int offset,
                         m_len := to_short (min len (m_len b - offset))\<rparr>) st;
                 Some (t_mb, st) }
          else
            do { st \<leftarrow> set_mbuf t_mb (\<lambda>t. t\<lparr>m_data := m_data b, m_len := to_short (min len (m_len b))\<rparr>) st;
                 Some (mb_first, st) } } }"

partial_function (option) m_copym_loop ::
    "tn_net \<Rightarrow> int \<Rightarrow> int \<Rightarrow> addr \<Rightarrow> addr \<Rightarrow> addr \<Rightarrow> int \<Rightarrow> int \<Rightarrow> int \<Rightarrow> nstate \<Rightarrow> (addr \<times> nstate) option" where
  "m_copym_loop tnet wait org_len mb mb_first mb_prev offset len tot st =
     do { (t_mb, st) \<leftarrow> m_alloc_hdr tnet wait st;
          if t_mb = 0 \<and> mb_first \<noteq> 0 then do { st \<leftarrow> freem_or_panic tnet mb_first st; Some (0, st) }
          else do {
            (mb_first, st) \<leftarrow> m_copym_one t_mb mb mb_first mb_prev offset len st;
            t \<leftarrow> deref t_mb st;
            if len - m_len t \<le> 0 then
              (if tot + m_len t \<noteq> org_len then
                 (if mb_first \<noteq> 0 then do { st \<leftarrow> freem_or_panic tnet mb_first st; Some (0, st) } else Some (0, st))
               else Some (mb_first, st))
            else do {
              b \<leftarrow> deref mb st;
              if m_next b = 0 then
                (if mb_first \<noteq> 0 then do { st \<leftarrow> freem_or_panic tnet mb_first st; Some (0, st) } else Some (0, st))
              else m_copym_loop tnet wait org_len (m_next b) mb_first t_mb offset (len - m_len t) (tot + m_len t) st } } }"

definition m_copym :: "tn_net \<Rightarrow> addr \<Rightarrow> int \<Rightarrow> int \<Rightarrow> int \<Rightarrow> nstate \<Rightarrow> (addr \<times> nstate) option" where
  "m_copym tnet mb offset len wait st =
     (if offset < 0 \<or> len \<le> 0 then Some (0, st)
      else do {
        (mb, offset) \<leftarrow> m_copym_skip mb offset st;
        if mb = 0 then Some (0, st) else m_copym_loop tnet wait len mb 0 0 offset len 0 st })"

subsection \<open>Trimming\<close>

partial_function (option) m_adj_head :: "addr \<Rightarrow> int \<Rightarrow> nstate \<Rightarrow> (int \<times> nstate) option" where
  "m_adj_head m len st =
     (if m \<noteq> 0 \<and> len > 0 then
        do { b \<leftarrow> deref m st;
             if m_len b \<le> len then
               do { st \<leftarrow> set_mbuf m (\<lambda>b. b\<lparr>m_len := 0\<rparr>) st; m_adj_head (m_next b) (len - m_len b) st }
             else
               do { st \<leftarrow> set_mbuf m (\<lambda>b. b\<lparr>m_len := to_short (m_len b - len), m_data := m_data b + word_of_int len\<rparr>) st;
                    m_adj_head m 0 st } }
      else Some (len, st))"

partial_function (option) m_adj_last :: "addr \<Rightarrow> int \<Rightarrow> nstate \<Rightarrow> (addr \<times> int) option" where
  "m_adj_last m count st =
     do { b \<leftarrow> deref m st;
          if m_next b = 0 then Some (m, count + m_len b) else m_adj_last (m_next b) (count + m_len b) st }"

partial_function (option) m_adj_cut :: "addr \<Rightarrow> int \<Rightarrow> nstate \<Rightarrow> (addr \<times> nstate) option" where
  "m_adj_cut m count st =
     (if m \<noteq> 0 then
        do { b \<leftarrow> deref m st;
             if m_len b \<ge> count then do { st \<leftarrow> set_mbuf m (\<lambda>b. b\<lparr>m_len := to_short count\<rparr>) st; Some (m, st) }
             else m_adj_cut (m_next b) (count - m_len b) st }
      else Some (m, st))"

partial_function (option) m_adj_clear :: "addr \<Rightarrow> nstate \<Rightarrow> nstate option" where
  "m_adj_clear m st =
     (if m \<noteq> 0 then
        do { st \<leftarrow> set_mbuf m (\<lambda>b. b\<lparr>m_len := 0\<rparr>) st; b \<leftarrow> deref m st; m_adj_clear (m_next b) st }
      else Some st)"

text \<open>The common part of the tail branches of \<open>m_adj\<close> and \<open>m_adj_free\<close>; the address returned is that of the descriptor
  with the last data, or \<open>NULL\<close> when only the last descriptor was concerned.\<close>

definition m_adj_tail :: "addr \<Rightarrow> int \<Rightarrow> nstate \<Rightarrow> (addr \<times> nstate) option" where
  "m_adj_tail mp len st =
     do { (m, count) \<leftarrow> m_adj_last mp 0 st;
          b \<leftarrow> deref m st;
          p \<leftarrow> deref mp st;
          if m_len b \<ge> len then
            do { st \<leftarrow> set_mbuf m (\<lambda>b. b\<lparr>m_len := to_short (m_len b - len)\<rparr>) st;
                 st \<leftarrow> (if m_flags p AND M_PKTHDR \<noteq> 0 then set_mbuf mp (\<lambda>b. b\<lparr>m_tlen := to_bits 20 (m_tlen b - len)\<rparr>) st
                       else Some st);
                 Some (0, st) }
          else
            let count = (if count - len < 0 then 0 else count - len) in
            do { st \<leftarrow> (if m_flags p AND M_PKTHDR \<noteq> 0 then set_mbuf mp (\<lambda>b. b\<lparr>m_tlen := to_bits 20 count\<rparr>) st else Some st);
                 (m, st) \<leftarrow> m_adj_cut mp count st;
                 b \<leftarrow> deref m st;
                 Some (m, st) } }"

definition m_adj :: "addr \<Rightarrow> int \<Rightarrow> nstate \<Rightarrow> nstate option" where
  "m_adj mp req_len st =
     (if mp = 0 then Some st
      else if req_len \<ge> 0 then
        do { (len, st) \<leftarrow> m_adj_head mp req_len st;
             p \<leftarrow> deref mp st;
             if m_flags p AND M_PKTHDR \<noteq> 0 then set_mbuf mp (\<lambda>b. b\<lparr>m_tlen := to_bits 20 (m_tlen b - (req_len - len))\<rparr>) st
             else Some st }
      else
        do { (m, st) \<leftarrow> m_adj_tail mp (- req_len) st;
             if m = 0 then Some st else do { b \<leftarrow> deref m st; m_adj_clear (m_next b) st } })"

partial_function (option) m_adj_free_head :: "tn_net \<Rightarrow> addr \<Rightarrow> int \<Rightarrow> nstate \<Rightarrow> (int \<times> nstate) option" where
  "m_adj_free_head tnet m len st =
     (if m \<noteq> 0 \<and> len > 0 then
        do { b \<leftarrow> deref m st;
             if m_len b \<le> len then
               do { st \<leftarrow> set_mbuf m (\<lambda>b. b\<lparr>m_len := 0\<rparr>) st;
                    (m, st) \<leftarrow> free_or_panic tnet m st;
                    m_adj_free_head tnet m (len - m_len b) st }
             else
               do { st \<leftarrow> set_mbuf m (\<lambda>b. b\<lparr>m_len := to_short (m_len b - len), m_data := m_data b + word_of_int len\<rparr>) st;
                    m_adj_free_head tnet m 0 st } }
      else Some (len, st))"

definition m_adj_free :: "tn_net \<Rightarrow> addr \<Rightarrow> int \<Rightarrow> nstate \<Rightarrow> nstate option" where
  "m_adj_free tnet mp req_len st =
     (if mp = 0 then Some st
      else if req_len \<ge> 0 then
        do { (len, st) \<leftarrow> m_adj_free_head tnet mp req_len st;
             p \<leftarrow> deref mp st;
             if m_flags p AND M_PKTHDR \<noteq> 0 then set_mbuf mp (\<lambda>b. b\<lparr>m_tlen := to_bits 20 (m_tlen b - (req_len - len))\<rparr>) st
             else Some st }
      else
        do { (m, st) \<leftarrow> m_adj_tail mp (- req_len) st;
             if m = 0 then Some st
             else do { b \<leftarrow> deref m st;
                       st \<leftarrow> (if m_next b \<noteq> 0 then freem_or_panic tnet (m_next b) st else Some st);
                       set_mbuf m (\<lambda>b. b\<lparr>m_next := 0\<rparr>) st } })"

subsection \<open>Copies of the data\<close>

definition copy_bytes :: "addr \<Rightarrow> addr \<Rightarrow> int \<Rightarrow> nstate \<Rightarrow> nstate option" where
  "copy_bytes src dst len st = do { m \<leftarrow> bcopy src dst (word_of_int len) (bytes st); Some (st\<lparr>bytes := m\<rparr>) }"

partial_function (option) m_read_loop :: "tn_net \<Rightarrow> addr \<Rightarrow> addr \<Rightarrow> int \<Rightarrow> nstate \<Rightarrow> (int \<times> nstate) option" where
  "m_read_loop tnet mb dst_ptr tot st =
     (if mb \<noteq> 0 then
        do { b \<leftarrow> deref mb st;
             st \<leftarrow> copy_bytes (m_data b) dst_ptr (m_len b) st;
             (mb, st) \<leftarrow> free_or_panic tnet mb st;
             st \<leftarrow> (if mb \<noteq> 0 then set_mbuf mb (\<lambda>n. n\<lparr>m_next := m_next b\<rparr>) st else Some st);
             m_read_loop tnet mb (dst_ptr + word_of_int (m_len b)) (tot + m_len b) st }
      else Some (tot, st))"

definition m_read :: "tn_net \<Rightarrow> addr \<Rightarrow> addr \<Rightarrow> nstate \<Rightarrow> (int \<times> nstate) option" where
  "m_read tnet mb dst_ptr st = (if dst_ptr = 0 then Some (0, st) else m_read_loop tnet mb dst_ptr 0 st)"

partial_function (option) m_cat_last :: "addr \<Rightarrow> nstate \<Rightarrow> addr option" where
  "m_cat_last m st = do { b \<leftarrow> deref m st; if m_next b \<noteq> 0 then m_cat_last (m_next b) st else Some m }"

partial_function (option) m_cat_loop :: "tn_net \<Rightarrow> addr \<Rightarrow> addr \<Rightarrow> nstate \<Rightarrow> nstate option" where
  "m_cat_loop tnet m n st =
     (if n \<noteq> 0 then
        do { b \<leftarrow> deref m st;
             let p_pri = (if m_flags b AND M_DBHDR \<noteq> 0 then m else m_pri b) in
             if p_pri = 0 then Some st
             else do {
               p \<leftarrow> deref p_pri st;
               let buf_size = m_get_dbuf_size (m_dbtype p) in
               if buf_size = 0 then Some st
               else do {
                 c \<leftarrow> deref n st;
                 if m_flags b AND M_NOALLOC \<noteq> 0 \<or>
                    m_data b + word_of_int (m_len b) + word_of_int (m_len c) \<ge> m_dbuf p + word_of_int buf_size
                 then set_mbuf m (\<lambda>b. b\<lparr>m_next := n\<rparr>) st
                 else do {
                   st \<leftarrow> copy_bytes (m_data c) (m_data b + word_of_int (m_len b)) (m_len c) st;
                   st \<leftarrow> set_mbuf m (\<lambda>b. b\<lparr>m_len := to_short (m_len b + m_len c)\<rparr>) st;
                   (n, st) \<leftarrow> free_or_panic tnet n st;
                   m_cat_loop tnet m n st } } } }
      else Some st)"

definition m_cat :: "tn_net \<Rightarrow> addr \<Rightarrow> addr \<Rightarrow> nstate \<Rightarrow> nstate option" where
  "m_cat tnet m n st = do { m \<leftarrow> m_cat_last m st; m_cat_loop tnet m n st }"

text \<open>The loop of \<open>m_hi_to_mid1\<close>: the result is \<open>mb_first\<close> and the last buffer \<open>mb\<close>, \<open>None\<close> when the memory ran out.\<close>

partial_function (option) m_hi_loop ::
    "tn_net \<Rightarrow> addr \<Rightarrow> addr \<Rightarrow> addr \<Rightarrow> int \<Rightarrow> nstate \<Rightarrow> ((addr \<times> addr) option \<times> nstate) option" where
  "m_hi_loop tnet mb_first mb_prev ptr len st =
     (if len \<noteq> 0 then
        let nbytes = (if len > TNNET_MID1_BUF_SIZE then TNNET_MID1_BUF_SIZE else len) in
        do { (mb, st) \<leftarrow> mb_get tnet MB_MID1 MB_NOWAIT False st;
             if mb = 0 then
               do { st \<leftarrow> (if mb_first \<noteq> 0 then freem_or_panic tnet mb_first st else Some st); Some (None, st) }
             else do {
               st \<leftarrow> set_mbuf mb (\<lambda>b. b\<lparr>m_len := to_short nbytes\<rparr>) st;
               b \<leftarrow> deref mb st;
               st \<leftarrow> copy_bytes ptr (m_data b) nbytes st;
               st \<leftarrow> (if mb_prev = 0 then Some st else set_mbuf mb_prev (\<lambda>b. b\<lparr>m_next := mb\<rparr>) st);
               m_hi_loop tnet (if mb_prev = 0 then mb else mb_first) mb (ptr + word_of_int nbytes) (len - nbytes) st } }
      else Some (Some (mb_first, mb_prev), st))"

definition m_hi_to_mid1 :: "tn_net \<Rightarrow> addr \<Rightarrow> nstate \<Rightarrow> (addr \<times> nstate) option" where
  "m_hi_to_mid1 tnet mb_hi st =
     (if mb_hi = 0 then Some (0, st)
      else do {
        h \<leftarrow> deref mb_hi st;
        (r, st) \<leftarrow> m_hi_loop tnet 0 0 (m_data h) (m_len h) st;
        case r of
          None \<Rightarrow> Some (0, st)
        | Some (mb_first, mb) \<Rightarrow>
            do { h \<leftarrow> deref mb_hi st;
                 st \<leftarrow> (if mb \<noteq> 0 then set_mbuf mb (\<lambda>b. b\<lparr>m_next := m_next h\<rparr>) st else Some st);
                 h \<leftarrow> deref mb_hi st;
                 st \<leftarrow> (if mb_first \<noteq> 0
                       then set_mbuf mb_first (\<lambda>b. b\<lparr>m_flags := m_flags h, m_tlen := to_bits 20 (m_len h),
                              m_nextpkt := m_nextpkt h\<rparr>) st
                       else Some st);
                 Some (mb_first, st) } })"

partial_function (option) buf_to_mbuf_loop ::
    "tn_net \<Rightarrow> bool \<Rightarrow> addr \<Rightarrow> addr \<Rightarrow> addr \<Rightarrow> int \<Rightarrow> nstate \<Rightarrow> (addr option \<times> nstate) option" where
  "buf_to_mbuf_loop tnet use_drv_pool mb_first mb_prev ptr tx_len st =
     (if tx_len \<noteq> 0 then
        let nbytes = min TNNET_MID1_BUF_SIZE tx_len in
        do { (mb, st) \<leftarrow> mb_get tnet MB_MID1 MB_NOWAIT use_drv_pool st;
             if mb = 0 then
               do { st \<leftarrow> (if mb_first \<noteq> 0 then freem_or_panic tnet mb_first st else Some st); Some (None, st) }
             else do {
               b \<leftarrow> deref mb st;
               st \<leftarrow> copy_bytes ptr (m_data b) nbytes st;
               st \<leftarrow> set_mbuf mb (\<lambda>b. b\<lparr>m_len := to_short nbytes\<rparr>) st;
               st \<leftarrow> (if mb_prev = 0 then Some st else set_mbuf mb_prev (\<lambda>b. b\<lparr>m_next := mb\<rparr>) st);
               buf_to_mbuf_loop tnet use_drv_pool (if mb_prev = 0 then mb else mb_first) mb
                 (ptr + word_of_int nbytes) (tx_len - nbytes) st } }
      else Some (Some mb_first, st))"

definition buf_to_mbuf :: "tn_net \<Rightarrow> addr \<Rightarrow> int \<Rightarrow> bool \<Rightarrow> nstate \<Rightarrow> (addr \<times> nstate) option" where
  "buf_to_mbuf tnet buf len use_drv_pool st =
     do { (r, st) \<leftarrow> buf_to_mbuf_loop tnet use_drv_pool 0 0 buf len st;
          case r of
            None \<Rightarrow> Some (0, st)
          | Some mb_first \<Rightarrow>
              do { st \<leftarrow> set_mbuf mb_first (\<lambda>b. b\<lparr>m_flags := m_flags b OR M_PKTHDR, m_tlen := to_bits 20 len\<rparr>) st;
                   Some (mb_first, st) } }"

end
