(* ===== verification/Mbuf_Trim.thy ===== *)
theory Mbuf_Trim
  imports Mbuf
begin

text \<open>
  What \<open>m_adj\<close> does to the data of a chain: it drops bytes at the front or at the end, keeps the chain and the
  memory, and brings the packet length up to date.
\<close>

section \<open>Chains with sensible lengths\<close>

definition lens_ok :: "mheap \<Rightarrow> addr list \<Rightarrow> bool" where
  "lens_ok h ps \<longleftrightarrow> list_all (\<lambda>p. case h p of None \<Rightarrow> False | Some b \<Rightarrow> 0 \<le> m_len b \<and> m_len b < 2 ^ 15) ps"

definition chain_len :: "mheap \<Rightarrow> addr list \<Rightarrow> int" where
  "chain_len h ps = sum_list (map (\<lambda>p. m_len (the (h p))) ps)"

text \<open>Only the lengths and the starts of the data of the descriptors \<open>ps\<close> differ.\<close>

definition trimmed :: "addr list \<Rightarrow> nstate \<Rightarrow> nstate \<Rightarrow> bool" where
  "trimmed ps st st' \<longleftrightarrow> kst st' = kst st \<and> bytes st' = bytes st \<and> (\<forall>q. q \<notin> set ps \<longrightarrow> mbs st' q = mbs st q) \<and>
     (\<forall>q. \<exists>l d. mbs st' q = map_option (\<lambda>b. b\<lparr>m_len := l, m_data := d\<rparr>) (mbs st q))"

lemma lens_ok_simps [simp]:
  "lens_ok h []"
  "lens_ok h (p # ps) \<longleftrightarrow> (\<exists>b. h p = Some b \<and> 0 \<le> m_len b \<and> m_len b < 2 ^ 15) \<and> lens_ok h ps"
  "lens_ok h (ps @ qs) \<longleftrightarrow> lens_ok h ps \<and> lens_ok h qs"
  by (auto simp: lens_ok_def split: option.splits)

lemma chain_len_simps [simp]:
  "chain_len h [] = 0" "chain_len h (p # ps) = m_len (the (h p)) + chain_len h ps"
  "chain_len h (ps @ qs) = chain_len h ps + chain_len h qs"
  by (simp_all add: chain_len_def)

lemma chain_data_simps [simp]:
  "chain_data h m [] = []" "chain_data h m (p # ps) = mbuf_data m (the (h p)) @ chain_data h m ps"
  "chain_data h m (ps @ qs) = chain_data h m ps @ chain_data h m qs"
  by (simp_all add: chain_data_def)

lemma chain_len_data: "lens_ok h ps \<Longrightarrow> chain_len h ps = int (length (chain_data h m ps))"
  by (induction ps) auto

lemma chain_len_nonneg: "lens_ok h ps \<Longrightarrow> 0 \<le> chain_len h ps"
  using chain_len_data by fastforce

lemma chain_heap_cong:
  assumes "\<And>q. q \<in> set ps \<Longrightarrow> h' q = h q"
  shows "lens_ok h' ps = lens_ok h ps" "chain_len h' ps = chain_len h ps" "chain_data h' m ps = chain_data h m ps"
proof -
  from assms have "map (\<lambda>p. h' p) ps = map (\<lambda>p. h p) ps" by simp
  with assms show "lens_ok h' ps = lens_ok h ps" "chain_len h' ps = chain_len h ps" "chain_data h' m ps = chain_data h m ps"
    by (auto simp: lens_ok_def chain_len_def chain_data_def list_all_iff cong: map_cong)
qed

text \<open>Updates of a descriptor that is not in the chain.\<close>

lemma chain_upd [simp]:
  assumes "q \<notin> set ps"
  shows "mchain (h(q := b)) p ps = mchain h p ps" "lens_ok (h(q := b)) ps = lens_ok h ps"
    "chain_len (h(q := b)) ps = chain_len h ps" "chain_data (h(q := b)) m ps = chain_data h m ps"
  using assms by (auto intro!: mchain_cong chain_heap_cong)

lemma mchain_Cons:
  "mchain h p (q # qs) \<longleftrightarrow> p = q \<and> q \<noteq> 0 \<and> (\<exists>b. h q = Some b \<and> mchain h (m_next b) qs)"
  by (auto split: option.splits)

lemma mchain_ConsE:
  assumes "mchain h p (q # qs)"
  obtains b where "p = q" "q \<noteq> 0" "h q = Some b" "mchain h (m_next b) qs" "q \<notin> set qs"
  using assms mchain_distinct [OF assms] by (auto split: option.splits)

lemma mchain_next_0: "mchain h p ps \<Longrightarrow> p = 0 \<longleftrightarrow> ps = []"
  by (cases ps) auto

lemma trimmed_refl [simp]: "trimmed ps st st"
proof -
  have "\<exists>l d. mbs st q = map_option (\<lambda>b. b\<lparr>m_len := l, m_data := d\<rparr>) (mbs st q)" for q
    by (rule exI [of _ "m_len (the (mbs st q))"], rule exI [of _ "m_data (the (mbs st q))"]) (cases "mbs st q"; simp)
  then show ?thesis by (simp add: trimmed_def)
qed

lemma trimmed_trans:
  assumes "trimmed ps st st1" "trimmed qs st1 st2" "set qs \<subseteq> set rs" "set ps \<subseteq> set rs"
  shows "trimmed rs st st2"
proof -
  have "\<exists>l d. mbs st2 q = map_option (\<lambda>b. b\<lparr>m_len := l, m_data := d\<rparr>) (mbs st q)" for q
  proof -
    from assms(1) obtain l d where "mbs st1 q = map_option (\<lambda>b. b\<lparr>m_len := l, m_data := d\<rparr>) (mbs st q)"
      unfolding trimmed_def by blast
    moreover from assms(2) obtain l' d' where "mbs st2 q = map_option (\<lambda>b. b\<lparr>m_len := l', m_data := d'\<rparr>) (mbs st1 q)"
      unfolding trimmed_def by blast
    ultimately have "mbs st2 q = map_option (\<lambda>b. b\<lparr>m_len := l', m_data := d'\<rparr>) (mbs st q)" by (cases "mbs st q") auto
    then show ?thesis by blast
  qed
  moreover have "mbs st2 q = mbs st q" if "q \<notin> set rs" for q
  proof -
    have "q \<notin> set ps" "q \<notin> set qs" using assms(3,4) that by auto
    then show ?thesis using assms(1,2) by (simp add: trimmed_def)
  qed
  ultimately show ?thesis using assms(1,2) by (simp add: trimmed_def)
qed

lemma trimmed_upd:
  assumes "mbs st q = Some b" "b' = b\<lparr>m_len := l, m_data := d\<rparr>" "q \<in> set ps"
  shows "trimmed ps st (st\<lparr>mbs := (mbs st)(q \<mapsto> b')\<rparr>)"
proof -
  have "\<exists>l d. mbs st r = map_option (\<lambda>b. b\<lparr>m_len := l, m_data := d\<rparr>) (mbs st r)" for r
    using trimmed_refl [of ps st] unfolding trimmed_def by blast
  then show ?thesis using assms by (auto simp: trimmed_def)
qed

lemma trimmed_len: "mbs st q = Some b \<Longrightarrow> q \<in> set ps \<Longrightarrow> trimmed ps st (st\<lparr>mbs := (mbs st)(q \<mapsto> b\<lparr>m_len := l\<rparr>)\<rparr>)"
  by (rule trimmed_upd [where b = b and l = l and d = "m_data b"]) simp_all

lemma trimmed_mchain: "trimmed qs st st' \<Longrightarrow> mchain (mbs st') p ps = mchain (mbs st) p ps"
proof (induction ps arbitrary: p)
  case (Cons q ps)
  from Cons.prems obtain l d where "mbs st' q = map_option (\<lambda>b. b\<lparr>m_len := l, m_data := d\<rparr>) (mbs st q)"
    unfolding trimmed_def by blast
  with Cons.IH [OF Cons.prems] show ?case by (cases "mbs st q") simp_all
qed simp

lemma trimmed_field:
  assumes "trimmed ps st st'" "mbs st q = Some b"
  obtains l d where "mbs st' q = Some (b\<lparr>m_len := l, m_data := d\<rparr>)"
  using assms unfolding trimmed_def by (metis option.simps(9))

section \<open>The loops\<close>

lemma deref_chain: "mchain (mbs st) p (q # qs) \<Longrightarrow> deref p st = mbs st q \<and> p = q"
  by (auto simp: deref_def mchain_Cons)

lemma m_adj_head_ok:
  assumes "mchain (mbs st) m ps" "lens_ok (mbs st) ps" "0 \<le> len"
  shows "\<exists>st'. m_adj_head m len st = Some (max 0 (len - chain_len (mbs st) ps), st') \<and> trimmed ps st st' \<and>
    lens_ok (mbs st') ps \<and> chain_data (mbs st') (bytes st) ps = drop (nat len) (chain_data (mbs st) (bytes st) ps)"
  using assms
proof (induction ps arbitrary: m len st)
  case Nil
  then show ?case by (subst m_adj_head.simps) simp
next
  case (Cons q qs)
  from Cons.prems(1) obtain b where b: "m = q" "q \<noteq> 0" "mbs st q = Some b" "mchain (mbs st) (m_next b) qs" "q \<notin> set qs"
    by (rule mchain_ConsE)
  from Cons.prems(2) b have l: "0 \<le> m_len b" "m_len b < 2 ^ 15" "lens_ok (mbs st) qs" by auto
  note n = chain_len_nonneg [OF l(3)]
  have d: "deref m st = Some b" using b by (simp add: deref_def)
  consider "len = 0" | "0 < len" "m_len b \<le> len" | "0 < len" "len < m_len b" using Cons.prems(3) by linarith
  then show ?case
  proof cases
    case 1
    then show ?thesis using Cons.prems n b l by (subst m_adj_head.simps) simp
  next
    case 2
    let ?st = "st\<lparr>mbs := (mbs st)(q \<mapsto> b\<lparr>m_len := 0\<rparr>)\<rparr>"
    have "mchain (mbs ?st) (m_next b) qs" "lens_ok (mbs ?st) qs" "0 \<le> len - m_len b" using b l 2 by simp_all
    from Cons.IH [OF this] obtain st' where st': "m_adj_head (m_next b) (len - m_len b) ?st
        = Some (max 0 (len - m_len b - chain_len (mbs st) qs), st')" "trimmed qs ?st st'" "lens_ok (mbs st') qs"
      "chain_data (mbs st') (bytes st) qs = drop (nat (len - m_len b)) (chain_data (mbs st) (bytes st) qs)"
      using b(5) by (auto simp del: fun_upd_apply)
    have e: "m_adj_head m len st = Some (max 0 (len - chain_len (mbs st) (q # qs)), st')"
      using 2 d b st'(1) by (subst m_adj_head.simps) (simp add: set_mbuf_def diff_diff_eq)
    have t: "trimmed (q # qs) st st'"
      by (rule trimmed_trans [OF trimmed_len [of _ q _ "[q]"] st'(2)]) (use b in auto)
    have q: "mbs st' q = Some (b\<lparr>m_len := 0\<rparr>)" using st'(2) b(5) by (simp add: trimmed_def)
    have "chain_data (mbs st') (bytes st) (q # qs) = drop (nat len) (chain_data (mbs st) (bytes st) (q # qs))"
      using q st'(4) 2 b l by (simp add: mbuf_data_def nat_diff_distrib)
    with e t q st'(3) show ?thesis by simp
  next
    case 3
    let ?b = "b\<lparr>m_len := m_len b - len, m_data := m_data b + word_of_int len\<rparr>"
    let ?st = "st\<lparr>mbs := (mbs st)(q \<mapsto> ?b)\<rparr>"
    have e: "m_adj_head m len st = Some (0, ?st)"
      using 3 d b l m_adj_head.simps [of q 0 ?st] by (subst m_adj_head.simps) (simp add: set_mbuf_def)
    have w: "(word_of_int len :: addr) = of_nat (nat len)" using 3 by simp
    have "mbuf_data (bytes st) ?b = drop (nat len) (mbuf_data (bytes st) b)"
      using 3 w by (simp add: mbuf_data_def nat_diff_distrib)
    moreover have "nat len - nat (m_len b) = 0" using 3 by simp
    moreover have "trimmed (q # qs) st ?st" by (rule trimmed_upd [OF b(3) refl]) simp
    ultimately show ?thesis using e b l 3 n by simp
  qed
qed

lemma m_adj_last_ok:
  assumes "mchain (mbs st) m ps" "ps \<noteq> []"
  shows "m_adj_last m count st = Some (last ps, count + chain_len (mbs st) ps)"
  using assms
proof (induction ps arbitrary: m count)
  case (Cons q qs)
  from Cons.prems(1) obtain b where b: "m = q" "q \<noteq> 0" "mbs st q = Some b" "mchain (mbs st) (m_next b) qs" "q \<notin> set qs"
    by (rule mchain_ConsE)
  show ?case using Cons.IH [OF b(4)] b mchain_next_0 [OF b(4)]
    by (subst m_adj_last.simps) (auto simp: deref_def)
qed simp

lemma m_adj_cut_ok:
  assumes "mchain (mbs st) m ps" "lens_ok (mbs st) ps" "ps \<noteq> []" "0 \<le> count" "count \<le> chain_len (mbs st) ps"
  shows "\<exists>xs q ys st'. ps = xs @ q # ys \<and> m_adj_cut m count st = Some (q, st') \<and> trimmed ps st st' \<and>
    lens_ok (mbs st') ps \<and> (\<forall>r. r \<noteq> q \<longrightarrow> mbs st' r = mbs st r) \<and>
    chain_data (mbs st') (bytes st) (xs @ [q]) = take (nat count) (chain_data (mbs st) (bytes st) ps)"
  using assms
proof (induction ps arbitrary: m count)
  case (Cons q qs)
  from Cons.prems(1) obtain b where b: "m = q" "q \<noteq> 0" "mbs st q = Some b" "mchain (mbs st) (m_next b) qs" "q \<notin> set qs"
    by (rule mchain_ConsE)
  from Cons.prems(2) b have l: "0 \<le> m_len b" "m_len b < 2 ^ 15" "lens_ok (mbs st) qs" by auto
  have d: "deref m st = Some b" using b by (simp add: deref_def)
  show ?case
  proof (cases "count \<le> m_len b")
    case True
    let ?st = "st\<lparr>mbs := (mbs st)(q \<mapsto> b\<lparr>m_len := count\<rparr>)\<rparr>"
    have "m_adj_cut m count st = Some (q, ?st)"
      using True d b l Cons.prems(4) by (subst m_adj_cut.simps) (simp add: set_mbuf_def)
    moreover have "chain_data (mbs ?st) (bytes st) ([] @ [q]) = take (nat count) (chain_data (mbs st) (bytes st) (q # qs))"
      using True b by (simp add: mbuf_data_def min_def)
    moreover have "trimmed (q # qs) st ?st" using b by (intro trimmed_len) simp_all
    moreover have "lens_ok (mbs ?st) (q # qs)" using b l True Cons.prems(4) by simp
    moreover have "q # qs = [] @ q # qs" "\<forall>r. r \<noteq> q \<longrightarrow> mbs ?st r = mbs st r" by simp_all
    ultimately show ?thesis by blast
  next
    case False
    then have ne: "qs \<noteq> []" using Cons.prems(5) b by auto
    have "0 \<le> count - m_len b" "count - m_len b \<le> chain_len (mbs st) qs" using False Cons.prems(5) b by simp_all
    from Cons.IH [OF b(4) l(3) ne this] obtain xs r ys st' where st': "qs = xs @ r # ys"
      "m_adj_cut (m_next b) (count - m_len b) st = Some (r, st')" "trimmed qs st st'" "lens_ok (mbs st') qs"
      "\<And>a. a \<noteq> r \<Longrightarrow> mbs st' a = mbs st a"
      "chain_data (mbs st') (bytes st) (xs @ [r]) = take (nat (count - m_len b)) (chain_data (mbs st) (bytes st) qs)"
      by blast
    have q: "mbs st' q = Some b" using st'(1,5) b(3,5) by auto
    have "m_adj_cut m count st = Some (r, st')" using False d b st'(2) by (subst m_adj_cut.simps) simp
    moreover have "chain_data (mbs st') (bytes st) ((q # xs) @ [r]) = take (nat count) (chain_data (mbs st) (bytes st) (q # qs))"
      using st'(6) q b False l by (simp add: nat_diff_distrib mbuf_data_def min_def)
    moreover have "trimmed (q # qs) st st'" by (rule trimmed_trans [OF trimmed_refl st'(3)]) auto
    moreover have "q # qs = (q # xs) @ r # ys" "lens_ok (mbs st') (q # qs)" using st'(1,4) q l by simp_all
    ultimately show ?thesis using st'(5) by blast
  qed
qed simp

lemma m_adj_clear_ok:
  assumes "mchain (mbs st) m ps" "lens_ok (mbs st) ps"
  shows "\<exists>st'. m_adj_clear m st = Some st' \<and> trimmed ps st st' \<and> lens_ok (mbs st') ps \<and> chain_data (mbs st') (bytes st) ps = []"
  using assms
proof (induction ps arbitrary: m st)
  case Nil
  then show ?case by (subst m_adj_clear.simps) simp
next
  case (Cons q qs)
  from Cons.prems(1) obtain b where b: "m = q" "q \<noteq> 0" "mbs st q = Some b" "mchain (mbs st) (m_next b) qs" "q \<notin> set qs"
    by (rule mchain_ConsE)
  let ?st = "st\<lparr>mbs := (mbs st)(q \<mapsto> b\<lparr>m_len := 0\<rparr>)\<rparr>"
  have "mchain (mbs ?st) (m_next b) qs" "lens_ok (mbs ?st) qs" using b Cons.prems(2) by simp_all
  from Cons.IH [OF this] obtain st' where st': "m_adj_clear (m_next b) ?st = Some st'" "trimmed qs ?st st'" "lens_ok (mbs st') qs"
    "chain_data (mbs st') (bytes st) qs = []" by auto
  have q: "mbs st' q = Some (b\<lparr>m_len := 0\<rparr>)" using st'(2) b(5) by (simp add: trimmed_def)
  have "m_adj_clear m st = Some st'" using b st'(1) by (subst m_adj_clear.simps) (simp add: set_mbuf_def deref_def)
  moreover have "trimmed (q # qs) st st'" by (rule trimmed_trans [OF trimmed_len [of _ q _ "[q]"] st'(2)]) (use b in auto)
  ultimately show ?case using st' q by (simp add: mbuf_data_def)
qed

section \<open>The whole function\<close>

text \<open>A change of another field of a descriptor does not matter for the data.\<close>

lemma chain_field_upd:
  assumes "h q = Some b" "m_len b' = m_len b" "m_data b' = m_data b" "m_next b' = m_next b"
  shows "mchain (h(q \<mapsto> b')) p ps = mchain h p ps" "lens_ok (h(q \<mapsto> b')) ps = lens_ok h ps"
    "chain_len (h(q \<mapsto> b')) ps = chain_len h ps" "chain_data (h(q \<mapsto> b')) m ps = chain_data h m ps"
proof -
  show "mchain (h(q \<mapsto> b')) p ps = mchain h p ps" using assms by (induction ps arbitrary: p) (auto split: option.splits)
  show "lens_ok (h(q \<mapsto> b')) ps = lens_ok h ps" "chain_len (h(q \<mapsto> b')) ps = chain_len h ps"
    "chain_data (h(q \<mapsto> b')) m ps = chain_data h m ps"
    using assms by (induction ps) (auto simp: mbuf_data_def)
qed

text \<open>The packet length in the first descriptor is right.\<close>

definition tlen_ok :: "mheap \<Rightarrow> bmem \<Rightarrow> addr list \<Rightarrow> bool" where
  "tlen_ok h m ps \<longleftrightarrow> (case ps of [] \<Rightarrow> True | p # _ \<Rightarrow> m_tlen (the (h p)) = int (length (chain_data h m ps)))"

text \<open>The state after \<open>m_adj\<close>: the chain, with the data \<open>D\<close>, and everything else as before.\<close>

definition adjusted :: "addr \<Rightarrow> addr list \<Rightarrow> u8 list \<Rightarrow> nstate \<Rightarrow> nstate \<Rightarrow> bool" where
  "adjusted mp ps D st st' \<longleftrightarrow> mchain (mbs st') mp ps \<and> lens_ok (mbs st') ps \<and> chain_data (mbs st') (bytes st') ps = D \<and>
     kst st' = kst st \<and> bytes st' = bytes st \<and> (\<forall>q. q \<notin> set ps \<longrightarrow> mbs st' q = mbs st q) \<and>
     (m_flags (the (mbs st mp)) AND M_PKTHDR \<noteq> 0 \<longrightarrow> length (chain_data (mbs st) (bytes st) ps) < 2 ^ 20 \<longrightarrow>
        tlen_ok (mbs st) (bytes st) ps \<longrightarrow> tlen_ok (mbs st') (bytes st') ps)"

text \<open>The assignment to the packet length.\<close>

definition set_tlen :: "addr \<Rightarrow> int \<Rightarrow> nstate \<Rightarrow> nstate" where
  "set_tlen mp t st = (case mbs st mp of None \<Rightarrow> st
     | Some b \<Rightarrow> if m_flags b AND M_PKTHDR \<noteq> 0 then st\<lparr>mbs := (mbs st)(mp \<mapsto> b\<lparr>m_tlen := to_bits 20 t\<rparr>)\<rparr> else st)"

lemma set_tlen_chain [simp]:
  "mchain (mbs (set_tlen mp t st)) p ps = mchain (mbs st) p ps" "lens_ok (mbs (set_tlen mp t st)) ps = lens_ok (mbs st) ps"
  "chain_len (mbs (set_tlen mp t st)) ps = chain_len (mbs st) ps"
  "chain_data (mbs (set_tlen mp t st)) m ps = chain_data (mbs st) m ps"
  "kst (set_tlen mp t st) = kst st" "bytes (set_tlen mp t st) = bytes st" "q \<noteq> mp \<Longrightarrow> mbs (set_tlen mp t st) q = mbs st q"
  using chain_field_upd [of "mbs st" mp "the (mbs st mp)" "(the (mbs st mp))\<lparr>m_tlen := to_bits 20 t\<rparr>"]
  by (auto simp: set_tlen_def split: option.split)

lemma trimmed_set_tlen:
  assumes "trimmed ps st s" "mbs st mp = Some b"
  shows "trimmed ps (set_tlen mp t st) (set_tlen mp t s)"
proof -
  obtain l d where ld: "mbs s mp = Some (b\<lparr>m_len := l, m_data := d\<rparr>)" using trimmed_field [OF assms] .
  have "\<exists>l d. mbs (set_tlen mp t s) q = map_option (\<lambda>b. b\<lparr>m_len := l, m_data := d\<rparr>) (mbs (set_tlen mp t st) q)" for q
  proof (cases "q = mp")
    case True
    show ?thesis using assms(2) ld by (auto simp: True set_tlen_def intro!: exI [of _ l] exI [of _ d])
  next
    case False
    then show ?thesis using assms(1) by (simp add: trimmed_def)
  qed
  moreover have "mbs (set_tlen mp t s) q = mbs (set_tlen mp t st) q" if "q \<notin> set ps" for q
  proof (cases "q = mp")
    case True
    then have "mbs s mp = mbs st mp" using assms(1) that by (simp add: trimmed_def)
    then show ?thesis by (simp add: True set_tlen_def split: option.split)
  next
    case False
    then show ?thesis using assms(1) that by (simp add: trimmed_def)
  qed
  ultimately show ?thesis using assms(1) by (simp add: trimmed_def)
qed

lemma adjustedI:
  assumes "mchain (mbs st) mp (mp # qs)" "trimmed (mp # qs) (set_tlen mp t st) st'" "lens_ok (mbs st') (mp # qs)"
    "chain_data (mbs st') (bytes st) (mp # qs) = D"
    "tlen_ok (mbs st) (bytes st) (mp # qs) \<Longrightarrow> t = int (length D)"
    "length D \<le> length (chain_data (mbs st) (bytes st) (mp # qs))"
  shows "adjusted mp (mp # qs) D st st'"
proof -
  have c: "mchain (mbs st') mp (mp # qs)" unfolding trimmed_mchain [OF assms(2)] set_tlen_chain by (rule assms(1))
  obtain b where b: "mbs st mp = Some b" using assms(1) by (auto split: option.splits)
  have k: "kst st' = kst st" "bytes st' = bytes st" "\<And>q. q \<notin> set (mp # qs) \<Longrightarrow> mbs st' q = mbs st q"
    using assms(2) by (auto simp: trimmed_def)
  have "tlen_ok (mbs st') (bytes st') (mp # qs)"
    if "m_flags (the (mbs st mp)) AND M_PKTHDR \<noteq> 0" "length (chain_data (mbs st) (bytes st) (mp # qs)) < 2 ^ 20"
      "tlen_ok (mbs st) (bytes st) (mp # qs)"
  proof -
    have m: "mbs (set_tlen mp t st) mp = Some (b\<lparr>m_tlen := to_bits 20 t\<rparr>)" using that(1) b by (simp add: set_tlen_def)
    obtain l d where ld: "mbs st' mp = Some (b\<lparr>m_tlen := to_bits 20 t, m_len := l, m_data := d\<rparr>)"
      using trimmed_field [OF assms(2) m] .
    have "t = int (length D)" using assms(5) that(3) by blast
    moreover have "length D < 2 ^ 20" using assms(6) that(2) by (rule le_less_trans)
    ultimately have "to_bits 20 t = int (length D)" by (simp add: to_bits_def)
    then show ?thesis using ld assms(4) k(2) unfolding tlen_ok_def by simp
  qed
  with c assms(3,4) k show ?thesis unfolding adjusted_def by simp
qed

text \<open>The two assignments to \<open>m_tlen\<close> in the code.\<close>

lemma set_tlen_code:
  assumes "mbs st mp = Some b" "mp \<noteq> 0"
  shows "(if m_flags b AND M_PKTHDR \<noteq> 0 then set_mbuf mp (\<lambda>b. b\<lparr>m_tlen := to_bits 20 (f b)\<rparr>) st else Some st)
    = Some (set_tlen mp (f b) st)"
  using assms by (simp add: set_tlen_def set_mbuf_def deref_def)

lemma m_adj_head_adjusts:
  assumes c: "mchain (mbs st) mp (mp # qs)" and l: "lens_ok (mbs st) (mp # qs)" and n: "0 \<le> n"
  shows "\<exists>st'. m_adj mp n st = Some st' \<and> adjusted mp (mp # qs) (drop (nat n) (chain_data (mbs st) (bytes st) (mp # qs))) st st'"
proof -
  let ?D = "chain_data (mbs st) (bytes st) (mp # qs)"
  obtain b where b: "mp \<noteq> 0" "mbs st mp = Some b" using c by (auto split: option.splits)
  define r where "r = max 0 (n - chain_len (mbs st) (mp # qs))"
  obtain s where s: "m_adj_head mp n st = Some (r, s)" "trimmed (mp # qs) st s" "lens_ok (mbs s) (mp # qs)"
    "chain_data (mbs s) (bytes st) (mp # qs) = drop (nat n) ?D"
    using m_adj_head_ok [OF c l n] unfolding r_def by blast
  obtain l d where ld: "mbs s mp = Some (b\<lparr>m_len := l, m_data := d\<rparr>)" using trimmed_field [OF s(2) b(2)] .
  let ?t = "m_tlen b - (n - r)"
  have "m_adj mp n st = Some (set_tlen mp ?t s)"
    using s(1) n b ld set_tlen_code [OF ld b(1), of "\<lambda>b. m_tlen b - (n - r)"] by (simp add: m_adj_def deref_def)
  moreover have "adjusted mp (mp # qs) (drop (nat n) ?D) st (set_tlen mp ?t s)"
  proof (rule adjustedI [OF c trimmed_set_tlen [OF s(2) b(2)]])
    assume "tlen_ok (mbs st) (bytes st) (mp # qs)"
    then have "m_tlen b = chain_len (mbs st) (mp # qs)" using b chain_len_data [OF assms(2)] by (simp add: tlen_ok_def)
    then show "?t = int (length (drop (nat n) ?D))" using chain_len_data [OF assms(2), of "bytes st"] n unfolding r_def by auto
  qed (simp_all only: set_tlen_chain s(3,4) length_drop diff_le_self)
  ultimately show ?thesis by blast
qed

text \<open>Cutting the end, when only the last descriptor is concerned and when more of them are.\<close>

lemma m_adj_last_adjusts:
  assumes c: "mchain (mbs st) mp (mp # qs)" and l: "lens_ok (mbs st) (mp # qs)" and n: "n < 0"
    and q: "mp # qs = xs @ [q]" "mbs st q = Some b'" "- n \<le> m_len b'"
  shows "\<exists>st'. m_adj mp n st = Some st' \<and>
    adjusted mp (mp # qs) (take (length (chain_data (mbs st) (bytes st) (mp # qs)) - nat (- n)) (chain_data (mbs st) (bytes st) (mp # qs))) st st'"
proof -
  let ?D = "chain_data (mbs st) (bytes st) (mp # qs)"
  obtain b where b: "mp \<noteq> 0" "mbs st mp = Some b" using c by (auto split: option.splits)
  have last: "m_adj_last mp 0 st = Some (q, chain_len (mbs st) (mp # qs))" using m_adj_last_ok [OF c] unfolding q(1) by simp
  have q0: "q \<noteq> 0" "q \<in> set (mp # qs)" using mchain_alloc [OF c, of q] by (auto simp: q(1))
  have dist: "q \<notin> set xs" using mchain_distinct [OF c] by (simp add: q(1))
  have bl: "0 \<le> m_len b'" "m_len b' < 2 ^ 15" "lens_ok (mbs st) xs" using l q(2) by (auto simp: q(1))
  have nl: "nat (m_len b' + n) = nat (m_len b') - nat (- n)" using q(3) n by simp
  let ?b = "b'\<lparr>m_len := m_len b' + n\<rparr>"
  define s where "s = st\<lparr>mbs := (mbs st)(q \<mapsto> ?b)\<rparr>"
  have tr: "trimmed (mp # qs) st s" unfolding s_def by (rule trimmed_len [OF q(2) q0(2)])
  obtain l d where ld: "mbs s mp = Some (b\<lparr>m_len := l, m_data := d\<rparr>)" using trimmed_field [OF tr b(2)] .
  let ?t = "m_tlen b + n"
  have "m_adj mp n st = Some (set_tlen mp ?t s)"
    using last n b q0(1) q(2,3) bl ld by (simp add: m_adj_def m_adj_tail_def deref_def set_mbuf_def set_tlen_def flip: s_def)
  moreover have "adjusted mp (mp # qs) (take (length ?D - nat (- n)) ?D) st (set_tlen mp ?t s)"
  proof (rule adjustedI [OF c trimmed_set_tlen [OF tr b(2)]])
    show "lens_ok (mbs (set_tlen mp ?t s)) (mp # qs)"
      unfolding set_tlen_chain q(1) using dist bl q(3) n by (simp add: s_def)
    show "chain_data (mbs (set_tlen mp ?t s)) (bytes st) (mp # qs) = take (length ?D - nat (- n)) ?D"
      unfolding set_tlen_chain q(1) using dist bl q(2,3) n by (simp add: s_def mbuf_data_def min_def nl)
    assume "tlen_ok (mbs st) (bytes st) (mp # qs)"
    then have "m_tlen b = int (length ?D)" using b by (simp add: tlen_ok_def)
    moreover have "nat (- n) \<le> length ?D" using q(2,3) by (simp only: q(1)) simp
    moreover have "int (length (take (length E - k) E)) = int (length E) - int k" if "k \<le> length E" for k and E :: "u8 list"
      using that by simp
    ultimately show "?t = int (length (take (length ?D - nat (- n)) ?D))" using n by (simp only: nat_0_le)
  qed simp
  ultimately show ?thesis by blast
qed

lemma m_adj_cut_adjusts:
  assumes c: "mchain (mbs st) mp (mp # qs)" and l: "lens_ok (mbs st) (mp # qs)" and n: "n < 0"
    and q: "mp # qs = us @ [u]" "mbs st u = Some b'" "m_len b' < - n"
  shows "\<exists>st'. m_adj mp n st = Some st' \<and>
    adjusted mp (mp # qs) (take (length (chain_data (mbs st) (bytes st) (mp # qs)) - nat (- n)) (chain_data (mbs st) (bytes st) (mp # qs))) st st'"
proof -
  let ?D = "chain_data (mbs st) (bytes st) (mp # qs)" and ?ps = "mp # qs"
  obtain b where b: "mp \<noteq> 0" "mbs st mp = Some b" using c by (auto split: option.splits)
  define N where "N = length ?D"
  have len: "chain_len (mbs st) ?ps = int N" unfolding N_def by (rule chain_len_data [OF l])
  have last: "m_adj_last mp 0 st = Some (u, int N)" using m_adj_last_ok [OF c] unfolding len by (simp add: q(1))
  have u: "u \<noteq> 0" using mchain_alloc [OF c, of u] by (auto simp: q(1))
  define cnt where "cnt = (if int N + n < 0 then 0 else int N + n)"
  have cnt: "nat cnt = N - nat (- n)" "cnt = int (N - nat (- n))" using n by (auto simp: cnt_def)
  define s0 where "s0 = set_tlen mp cnt st"
  have c0: "mchain (mbs s0) mp ?ps" "lens_ok (mbs s0) ?ps" "0 \<le> cnt" "cnt \<le> chain_len (mbs s0) ?ps"
    using c l unfolding s0_def set_tlen_chain len cnt(2) by auto
  obtain xs q ys s where s: "?ps = xs @ q # ys" "m_adj_cut mp cnt s0 = Some (q, s)" "trimmed ?ps s0 s" "lens_ok (mbs s) ?ps"
    "\<And>r. r \<noteq> q \<Longrightarrow> mbs s r = mbs s0 r" "chain_data (mbs s) (bytes s0) (xs @ [q]) = take (nat cnt) (chain_data (mbs s0) (bytes s0) ?ps)"
    using m_adj_cut_ok [OF c0(1,2) _ c0(3,4)] by blast
  have cs: "mchain (mbs s) mp (xs @ q # ys)" using trimmed_mchain [OF s(3)] c0(1) unfolding s(1) by simp
  obtain b2 where b2: "q \<noteq> 0" "mbs s q = Some b2" "mchain (mbs s) (m_next b2) ys" using mchain_append [OF cs] by (rule mchain_ConsE)
  have ys: "set (xs @ [q]) \<inter> set ys = {}" using mchain_distinct [OF cs] by auto
  have "lens_ok (mbs s) (xs @ [q])" "lens_ok (mbs s) ys" using s(4) unfolding s(1) by simp_all
  note lo = this
  from m_adj_clear_ok [OF b2(3) lo(2)] obtain st' where st': "m_adj_clear (m_next b2) s = Some st'" "trimmed ys s st'"
    "lens_ok (mbs st') ys" "chain_data (mbs st') (bytes s) ys = []" by blast
  have "m_adj_tail mp (- n) st = Some (q, s)"
    using last q(2,3) b u s(2) b2 set_tlen_code [OF b(2,1), of "\<lambda>b. cnt"]
    by (simp add: m_adj_tail_def deref_def Let_def flip: cnt_def s0_def split del: if_split cong: if_cong)
  then have "m_adj mp n st = Some st'" using b n b2 st'(1) by (simp add: m_adj_def deref_def)
  moreover have "adjusted mp ?ps (take (length ?D - nat (- n)) ?D) st st'"
  proof (rule adjustedI [OF c])
    show "trimmed ?ps (set_tlen mp cnt st) st'" unfolding s0_def [symmetric]
      by (rule trimmed_trans [OF s(3) st'(2)]) (use s(1) in auto)
    have h: "mbs st' r = mbs s r" if "r \<in> set (xs @ [q])" for r using st'(2) that ys by (auto simp: trimmed_def)
    note hc = chain_heap_cong [of "xs @ [q]" "mbs st'" "mbs s", OF h]
    have "lens_ok (mbs st') (xs @ [q])" using lo(1) by (simp only: hc(1))
    then show "lens_ok (mbs st') ?ps" unfolding s(1) using st'(3) by simp
    have bs: "bytes s0 = bytes st" "bytes s = bytes st" using s(3) by (auto simp: s0_def trimmed_def)
    have "chain_data (mbs st') (bytes st) (xs @ [q]) = take (length ?D - nat (- n)) ?D"
      using s(6) unfolding bs cnt(1) N_def by (simp only: s0_def set_tlen_chain hc)
    then show "chain_data (mbs st') (bytes st) ?ps = take (length ?D - nat (- n)) ?D" unfolding s(1) using st'(4) bs(2) by simp
    show "cnt = int (length (take (length ?D - nat (- n)) ?D))" unfolding cnt(2) N_def
      by (simp only: length_take min.absorb2 diff_le_self)
  qed simp
  ultimately show ?thesis by blast
qed

text \<open>\<open>m_adj\<close> with a positive length drops bytes at the front, with a negative one at the end.\<close>

theorem m_adj_ok:
  assumes c: "mchain (mbs st) mp (mp # qs)" and l: "lens_ok (mbs st) (mp # qs)"
  shows "\<exists>st'. m_adj mp n st = Some st' \<and> adjusted mp (mp # qs)
    (let D = chain_data (mbs st) (bytes st) (mp # qs) in if 0 \<le> n then drop (nat n) D else take (length D - nat (- n)) D) st st'"
proof (cases "0 \<le> n")
  case True
  then show ?thesis using m_adj_head_adjusts [OF assms] unfolding Let_def by simp
next
  case False
  obtain xs q where q: "mp # qs = xs @ [q]" by (metis list.distinct(1) rev_exhaust)
  then obtain b' where b': "mbs st q = Some b'" using mchain_alloc [OF c, of q] by auto
  from False have n: "n < 0" by simp
  show ?thesis
  proof (cases "- n \<le> m_len b'")
    case True
    then show ?thesis using m_adj_last_adjusts [OF assms n q b'] False unfolding Let_def by simp
  next
    case nl: False
    then show ?thesis using m_adj_cut_adjusts [OF assms n q b'] False unfolding Let_def by simp
  qed
qed

end
