(* ===== verification/Mbuf_Alloc.thy ===== *)
theory Mbuf_Alloc
  imports Mbuf_Trim "HOL-Library.Multiset"
begin

text \<open>
  Allocation and release of network buffers, for the functions that tasks use and for those of the interrupt handlers at
  once: the locale \<open>net_buffers\<close> extends the interface of the pools by the two functions that find the pool of
  a block from its type and its address.

  The lemmas follow the blocks that are in use: \<open>holds\<close> says that the blocks of a list
  are free nowhere and that their pools have room for all of them.
\<close>

section \<open>Blocks in use\<close>

definition holds :: "('p \<Rightarrow> 's \<Rightarrow> addr list) \<Rightarrow> ('p \<Rightarrow> 's \<Rightarrow> nat) \<Rightarrow> ('p \<Rightarrow> 's \<Rightarrow> bool) \<Rightarrow> ('p \<times> addr) list \<Rightarrow> 's \<Rightarrow> bool" where
  "holds avail room pool H s \<longleftrightarrow> distinct (map snd H) \<and>
     (\<forall>x \<in> set H. pool (fst x) s \<and> snd x \<noteq> 0 \<and> (\<forall>q. snd x \<notin> set (avail q s))) \<and>
     (\<forall>k. count_list (map fst H) k \<le> room k s)"

lemma holds_Cons:
  "holds avail room pool ((k, a) # H) s \<longleftrightarrow> pool k s \<and> a \<noteq> 0 \<and> a \<notin> snd ` set H \<and> (\<forall>q. a \<notin> set (avail q s)) \<and>
     count_list (map fst H) k < room k s \<and> holds avail room pool H s"
proof -
  have "(\<forall>q. (if k = q then count_list (map fst H) q + 1 else count_list (map fst H) q) \<le> room q s) \<longleftrightarrow>
      count_list (map fst H) k < room k s \<and> (\<forall>q. count_list (map fst H) q \<le> room q s)"
  proof (intro iffI conjI allI)
    fix q assume a: "\<forall>q. (if k = q then count_list (map fst H) q + 1 else count_list (map fst H) q) \<le> room q s"
    show "count_list (map fst H) k < room k s" using spec [OF a, of k] by simp
    show "count_list (map fst H) q \<le> room q s" using spec [OF a, of q] by (simp split: if_splits)
  qed auto
  then show ?thesis by (simp add: holds_def) blast
qed

lemma holds_perm: "holds avail room pool H s \<Longrightarrow> mset H' = mset H \<Longrightarrow> holds avail room pool H' s"
proof -
  assume h: "holds avail room pool H s" and m: "mset H' = mset H"
  then have "mset (map snd H') = mset (map snd H)" "mset (map fst H') = mset (map fst H)" "set H' = set H"
    by (auto dest: mset_eq_setD)
  then have "distinct (map snd H') = distinct (map snd H)" "count_list (map fst H') = count_list (map fst H)"
    by (auto simp: distinct_count_atmost_1 count_mset [symmetric] fun_eq_iff dest: mset_eq_setD simp del: mset_map)
  with h \<open>set H' = set H\<close> show ?thesis by (simp add: holds_def)
qed

context block_pools begin

lemma take_ok:
  assumes "ok s" "pool p s" "avail p s = a # as"
  shows "\<exists>s'. take_block p s = Some (a, s') \<and> ok s' \<and> a \<noteq> 0 \<and> (\<lambda>q. pool q s') = (\<lambda>q. pool q s) \<and>
    (\<lambda>q. avail q s') = (\<lambda>q. avail q s)(p := as) \<and> (\<lambda>q. room q s') = (\<lambda>q. room q s)(p := Suc (room p s))"
proof -
  obtain s' where s': "take_block p s = Some (a, s')" "ok s'" using take_first [OF assms] by blast
  have "pool q s' = pool q s \<and> avail q s' = ((\<lambda>q. avail q s)(p := as)) q \<and> room q s' = ((\<lambda>q. room q s)(p := Suc (room p s))) q" for q
    using take_first [OF assms, of q] s'(1) by auto
  moreover have "a \<noteq> 0" using avail_distinct(2) [OF assms(1), of p] assms(3) by auto
  ultimately show ?thesis using s' by (intro exI [of _ s']) auto
qed

lemma give_ok:
  assumes "ok s" "pool p s" "a \<noteq> 0" "\<And>q. a \<notin> set (avail q s)" "0 < room p s"
  shows "\<exists>s'. give_block p a s = Some (0, s') \<and> ok s' \<and> (\<lambda>q. pool q s') = (\<lambda>q. pool q s) \<and>
    (\<lambda>q. avail q s') = (\<lambda>q. avail q s)(p := a # avail p s) \<and> (\<lambda>q. room q s') = (\<lambda>q. room q s)(p := room p s - 1)"
proof -
  obtain s' where s': "give_block p a s = Some (0, s')" "ok s'" using give [OF assms] by blast
  have "pool q s' = pool q s \<and> avail q s' = ((\<lambda>q. avail q s)(p := a # avail p s)) q \<and> room q s' = ((\<lambda>q. room q s)(p := room p s - 1)) q" for q
    using give [OF assms, of q] s'(1) by auto
  then show ?thesis using s' by (intro exI [of _ s']) auto
qed

lemma take_holds:
  assumes "ok s" "pool p s" "avail p s = a # as" "holds avail room pool H s"
  shows "\<exists>s'. take_block p s = Some (a, s') \<and> ok s' \<and> a \<noteq> 0 \<and> (\<lambda>q. pool q s') = (\<lambda>q. pool q s) \<and>
    (\<lambda>q. avail q s') = (\<lambda>q. avail q s)(p := as) \<and> holds avail room pool ((p, a) # H) s'"
proof -
  obtain s' where s': "take_block p s = Some (a, s')" "ok s'" "a \<noteq> 0" "(\<lambda>q. pool q s') = (\<lambda>q. pool q s)"
    "(\<lambda>q. avail q s') = (\<lambda>q. avail q s)(p := as)" "(\<lambda>q. room q s') = (\<lambda>q. room q s)(p := Suc (room p s))"
    using take_ok [OF assms(1,2,3)] by blast
  have e: "pool q s' = pool q s" "avail q s' = (if q = p then as else avail q s)" "room q s' = (if q = p then Suc (room p s) else room q s)" for q
    using fun_cong [OF s'(4), of q] fun_cong [OF s'(5), of q] fun_cong [OF s'(6), of q] by simp_all
  have a: "a \<notin> set as" "q \<noteq> p \<Longrightarrow> a \<notin> set (avail q s)" for q
    using avail_distinct(1) [OF assms(1), of p] avail_distinct(3) [OF assms(1), of q p] assms(3) by auto
  have H: "snd x \<noteq> a" if "x \<in> set H" for x using assms(3,4) that by (metis holds_def list.set_intros(1))
  have "count_list (map fst H) q \<le> room q s" for q using assms(4) by (simp add: holds_def)
  moreover have "snd x \<notin> set (avail q s')" if "x \<in> set H" for x q
  proof -
    have "snd x \<notin> set (avail q s)" using assms(4) that by (simp add: holds_def)
    then show ?thesis using assms(3) by (auto simp: e)
  qed
  ultimately have "holds avail room pool H s'" using assms(4) by (auto simp: holds_def e le_SucI)
  moreover have "count_list (map fst H) p < room p s'" using \<open>\<And>q. count_list (map fst H) q \<le> room q s\<close> [of p] by (simp add: e)
  ultimately have "holds avail room pool ((p, a) # H) s'"
    using assms(2) a s'(3) H by (auto simp: holds_Cons e)
  with s' show ?thesis by blast
qed

lemma give_holds:
  assumes "ok s" "holds avail room pool ((p, a) # H) s"
  shows "\<exists>s'. give_block p a s = Some (0, s') \<and> ok s' \<and> (\<lambda>q. pool q s') = (\<lambda>q. pool q s) \<and>
    (\<lambda>q. avail q s') = (\<lambda>q. avail q s)(p := a # avail p s) \<and> holds avail room pool H s'"
proof -
  have h: "pool p s" "a \<noteq> 0" "\<And>q. a \<notin> set (avail q s)" "0 < room p s" "a \<notin> snd ` set H"
    "count_list (map fst H) p < room p s" "holds avail room pool H s"
    using assms(2) by (auto simp: holds_Cons)
  obtain s' where s': "give_block p a s = Some (0, s')" "ok s'" "(\<lambda>q. pool q s') = (\<lambda>q. pool q s)"
    "(\<lambda>q. avail q s') = (\<lambda>q. avail q s)(p := a # avail p s)" "(\<lambda>q. room q s') = (\<lambda>q. room q s)(p := room p s - 1)"
    using give_ok [OF assms(1) h(1-4)] by blast
  have e: "pool q s' = pool q s" "avail q s' = (if q = p then a # avail p s else avail q s)" "room q s' = (if q = p then room p s - 1 else room q s)" for q
    using fun_cong [OF s'(3), of q] fun_cong [OF s'(4), of q] fun_cong [OF s'(5), of q] by simp_all
  have "count_list (map fst H) q \<le> room q s'" for q using h(6,7) by (auto simp: e holds_def)
  moreover have "snd x \<notin> set (avail q s')" if "x \<in> set H" for x q
  proof -
    have "snd x \<notin> set (avail q s)" "snd x \<noteq> a" using h(5,7) that by (auto simp: holds_def)
    then show ?thesis using h(7) that by (simp add: e holds_def)
  qed
  ultimately have "holds avail room pool H s'" using h(7) by (auto simp: holds_def e)
  with s' show ?thesis by blast
qed

end

section \<open>The pools of the network stack\<close>

abbreviation in_use :: "(fid \<times> addr) list \<Rightarrow> kstate \<Rightarrow> bool" where
  "in_use \<equiv> holds avail_blocks pool_room open_pool"

abbreviation free_map :: "kstate \<Rightarrow> fid \<Rightarrow> addr list" where
  "free_map s \<equiv> \<lambda>k. free_blocks s k"

definition net_pools :: "tn_net \<Rightarrow> fid set" where
  "net_pools tnet = {lobuf_mpool tnet, m1buf_mpool tnet, hibuf_mpool tnet, drv_lobuf_mpool tnet, drv_m1buf_mpool tnet}"

text \<open>The pool that a release puts a block into, and the one that \<open>mb_get\<close> takes a data buffer from.\<close>

definition min_home :: "tn_net \<Rightarrow> addr \<Rightarrow> fid" where
  "min_home tnet a = (if a < MEM_DRV_START_ADDR then lobuf_mpool tnet else drv_lobuf_mpool tnet)"

definition home_pool :: "tn_net \<Rightarrow> int \<Rightarrow> addr \<Rightarrow> fid option" where
  "home_pool tnet ty a =
     (if ty = TNNET_SMALL_BUF then Some (min_home tnet a)
      else if ty = TNNET_MID1_BUF then Some (if a < MEM_DRV_START_ADDR then m1buf_mpool tnet else drv_m1buf_mpool tnet)
      else if ty = TNNET_HI_BUF then Some (hibuf_mpool tnet) else None)"

definition data_pool :: "tn_net \<Rightarrow> int \<Rightarrow> bool \<Rightarrow> fid" where
  "data_pool tnet ty tx =
     (if ty = TNNET_SMALL_BUF then (if tx then drv_lobuf_mpool tnet else lobuf_mpool tnet)
      else if ty = TNNET_MID1_BUF then (if tx then drv_m1buf_mpool tnet else m1buf_mpool tnet)
      else hibuf_mpool tnet)"

text \<open>The memory layout: the driver pools lie above \<open>MEM_DRV_START_ADDR\<close>, the regular ones below; descriptors are aligned.\<close>

definition well_placed :: "tn_net \<Rightarrow> fid \<Rightarrow> addr \<Rightarrow> bool" where
  "well_placed tnet k a \<longleftrightarrow>
     (k = lobuf_mpool tnet \<longrightarrow> a < MEM_DRV_START_ADDR \<and> a AND 3 = 0) \<and> (k = m1buf_mpool tnet \<longrightarrow> a < MEM_DRV_START_ADDR) \<and>
     (k = drv_lobuf_mpool tnet \<or> k = drv_m1buf_mpool tnet \<longrightarrow> \<not> a < MEM_DRV_START_ADDR)"

definition net_wf :: "tn_net \<Rightarrow> nstate \<Rightarrow> bool" where
  "net_wf tnet st \<longleftrightarrow> (\<forall>k \<in> net_pools tnet. open_pool k (kst st)) \<and>
     (\<forall>k. \<forall>a \<in> set (free_blocks (kst st) k). well_placed tnet k a \<and> mbs st a = None)"

lemma fun_upd_back: "g = f(k := as) \<Longrightarrow> f k = a # as \<Longrightarrow> f = g(k := a # g k)"
  by auto

lemma home_of_data_pool:
  "ty \<in> {0, 1, 2} \<Longrightarrow> well_placed tnet (data_pool tnet ty tx) a \<Longrightarrow> home_pool tnet ty a = Some (data_pool tnet ty tx)"
  by (auto simp: home_pool_def data_pool_def well_placed_def min_home_def)

lemma data_pool_net: "data_pool tnet ty tx \<in> net_pools tnet"
  by (simp add: data_pool_def net_pools_def)

lemma lobuf_home: "well_placed tnet (lobuf_mpool tnet) a \<Longrightarrow> min_home tnet a = lobuf_mpool tnet"
  by (simp add: well_placed_def min_home_def)

text \<open>The descriptor that \<open>mb_get\<close> returns.\<close>

definition new_mbuf :: "addr \<Rightarrow> addr \<Rightarrow> int \<Rightarrow> mbuf" where
  "new_mbuf p d ty = zero_mbuf\<lparr>m_dbuf := d, m_pri := p, m_dbtype := ty, m_data := d, m_refcnt := 1, m_flags := M_DBHDR\<rparr>"

lemma new_mbuf_fields [simp]:
  "m_flags (new_mbuf p d ty) = M_DBHDR" "m_refcnt (new_mbuf p d ty) = 1" "m_dbuf (new_mbuf p d ty) = d" "m_data (new_mbuf p d ty) = d"
  "m_dbtype (new_mbuf p d ty) = ty" "m_next (new_mbuf p d ty) = 0" "m_pri (new_mbuf p d ty) = p" "m_len (new_mbuf p d ty) = 0"
  by (simp_all add: new_mbuf_def zero_mbuf_def)

locale net_buffers = block_pools ok avail_blocks pool_room open_pool take_block give_block
  for ok :: "kstate \<Rightarrow> bool" and take_block :: "fid \<Rightarrow> kstate \<Rightarrow> (addr \<times> kstate) option"
    and give_block :: "fid \<Rightarrow> addr \<Rightarrow> kstate \<Rightarrow> (int \<times> kstate) option" +
  fixes tnet :: tn_net and alloc_hdr :: "nstate \<Rightarrow> (addr \<times> nstate) option"
    and alloc_dbuf :: "int \<Rightarrow> bool \<Rightarrow> nstate \<Rightarrow> (addr \<times> nstate) option"
    and free_min :: "addr \<Rightarrow> kstate \<Rightarrow> (int \<times> kstate) option" and free_pool :: "int \<Rightarrow> addr \<Rightarrow> kstate \<Rightarrow> (int \<times> kstate) option"
  assumes alloc_hdr: "alloc_hdr st = do { (res, st) \<leftarrow> on_kernel (take_block (lobuf_mpool tnet)) st;
      if res = 0 then Some (0, st) else do { st \<leftarrow> clear_descr res st; Some (res, st) } }"
    and alloc_dbuf: "ty \<in> {0, 1, 2} \<Longrightarrow> alloc_dbuf ty tx st = on_kernel (take_block (data_pool tnet ty tx)) st"
    and free_min: "free_min a s = give_block (min_home tnet a) a s"
    and free_pool: "home_pool tnet ty a = Some k \<Longrightarrow> free_pool ty a s = give_block k a s"
begin

lemma free_descr_ok:
  assumes "ok (kst st)" "in_use ((min_home tnet p, p) # H) (kst st)"
  shows "\<exists>s'. free_descr free_min p st = Some (0, st\<lparr>kst := s', mbs := (mbs st)(p := None)\<rparr>) \<and> ok s' \<and> in_use H s' \<and>
    (\<lambda>q. open_pool q s') = (\<lambda>q. open_pool q (kst st)) \<and>
    free_map s' = (free_map (kst st))(min_home tnet p := p # free_blocks (kst st) (min_home tnet p))"
  using give_holds [OF assms] by (auto simp: free_descr_def on_kernel_def free_min)

text \<open>The last reference to a buffer returns the data buffer and the descriptor.\<close>

lemma m_free_primary:
  assumes b: "mbs st p = Some b" "p \<noteq> 0" "m_flags b AND M_ETHHDR = 0" "m_flags b AND M_DBHDR \<noteq> 0" "m_flags b AND M_NOALLOC = 0"
      "m_refcnt b = 1" "m_dbuf b \<noteq> 0" "home_pool tnet (m_dbtype b) (m_dbuf b) = Some k"
    and u: "ok (kst st)" "in_use ((k, m_dbuf b) # (min_home tnet p, p) # H) (kst st)"
  shows "\<exists>s'. m_free_by free_min free_pool p st = Some (m_next b, st\<lparr>kst := s', mbs := (mbs st)(p := None)\<rparr>) \<and> ok s' \<and> in_use H s' \<and>
    (\<lambda>q. open_pool q s') = (\<lambda>q. open_pool q (kst st)) \<and>
    free_map s' = (let A = (free_map (kst st))(k := m_dbuf b # free_blocks (kst st) k) in A(min_home tnet p := p # A (min_home tnet p)))"
proof -
  let ?st = "st\<lparr>mbs := (mbs st)(p \<mapsto> b\<lparr>m_refcnt := 0\<rparr>)\<rparr>"
  obtain s1 where s1: "give_block k (m_dbuf b) (kst st) = Some (0, s1)" "ok s1" "in_use ((min_home tnet p, p) # H) s1"
    "(\<lambda>q. open_pool q s1) = (\<lambda>q. open_pool q (kst st))"
    "free_map s1 = (free_map (kst st))(k := m_dbuf b # free_blocks (kst st) k)"
    using give_holds [OF u] by blast
  have "ok (kst (?st\<lparr>kst := s1\<rparr>))" "in_use ((min_home tnet p, p) # H) (kst (?st\<lparr>kst := s1\<rparr>))" using s1 by simp_all
  from free_descr_ok [OF this] obtain s2 where s2: "free_descr free_min p (?st\<lparr>kst := s1\<rparr>)
      = Some (0, st\<lparr>kst := s2, mbs := (mbs st)(p := None)\<rparr>)" "ok s2" "in_use H s2"
    "(\<lambda>q. open_pool q s2) = (\<lambda>q. open_pool q s1)"
    "free_map s2 = (free_map s1)(min_home tnet p := p # free_blocks s1 (min_home tnet p))" by auto
  have "m_free_by free_min free_pool p st = Some (m_next b, st\<lparr>kst := s2, mbs := (mbs st)(p := None)\<rparr>)"
    using b s1(1) s2(1) free_pool [OF b(8)]
    by (simp add: m_free_by_def deref_def set_mbuf_def on_kernel_def Let_def)
  moreover have "free_blocks s1 q = ((free_map (kst st))(k := m_dbuf b # free_blocks (kst st) k)) q" for q
    using fun_cong [OF s1(5), of q] .
  then have "free_map s2 = (let A = (free_map (kst st))(k := m_dbuf b # free_blocks (kst st) k)
      in A(min_home tnet p := p # A (min_home tnet p)))"
    unfolding Let_def s2(5) s1(5) by (simp only:)
  moreover have "(\<lambda>q. open_pool q s2) = (\<lambda>q. open_pool q (kst st))" unfolding s2(4) by (rule s1(4))
  ultimately show ?thesis using s2(2,3) by blast
qed

text \<open>A descriptor with more references stays; a copy goes away alone.\<close>

lemma m_free_shared:
  assumes b: "mbs st p = Some b" "p \<noteq> 0" "m_flags b AND M_ETHHDR = 0" "m_flags b AND M_DBHDR \<noteq> 0" "1 < m_refcnt b"
  shows "m_free_by free_min free_pool p st = Some (m_next b, st\<lparr>mbs := (mbs st)(p \<mapsto> b\<lparr>m_refcnt := m_refcnt b - 1\<rparr>)\<rparr>)"
  using b by (simp add: m_free_by_def deref_def set_mbuf_def Let_def)

lemma m_free_copy:
  assumes b: "mbs st p = Some b" "p \<noteq> 0" "m_flags b AND M_ETHHDR = 0" "m_flags b AND M_DBHDR = 0"
    and q: "m_pri b = q" "q \<noteq> 0" "q \<noteq> p" "mbs st q = Some c" "1 < m_refcnt c"
    and u: "ok (kst st)" "in_use ((min_home tnet p, p) # H) (kst st)"
  shows "\<exists>s'. m_free_by free_min free_pool p st
        = Some (m_next b, st\<lparr>kst := s', mbs := (mbs st)(q \<mapsto> c\<lparr>m_refcnt := m_refcnt c - 1\<rparr>, p := None)\<rparr>) \<and>
    ok s' \<and> in_use H s' \<and> (\<lambda>q. open_pool q s') = (\<lambda>q. open_pool q (kst st)) \<and>
    free_map s' = (free_map (kst st))(min_home tnet p := p # free_blocks (kst st) (min_home tnet p))"
proof -
  let ?st = "st\<lparr>mbs := (mbs st)(q \<mapsto> c\<lparr>m_refcnt := m_refcnt c - 1\<rparr>)\<rparr>"
  obtain s' where s': "free_descr free_min p ?st = Some (0, ?st\<lparr>kst := s', mbs := (mbs ?st)(p := None)\<rparr>)" "ok s'" "in_use H s'"
    "(\<lambda>q. open_pool q s') = (\<lambda>q. open_pool q (kst st))"
    "free_map s' = (free_map (kst st))(min_home tnet p := p # free_blocks (kst st) (min_home tnet p))"
    using free_descr_ok [of ?st p H] u by auto
  then show ?thesis using b q by (auto simp: m_free_by_def deref_def set_mbuf_def Let_def)
qed

text \<open>\<open>mb_get\<close> returns a buffer of its own, or \<open>NULL\<close> when the memory is used up; then it has changed nothing.\<close>

lemma mb_get_ok:
  assumes u: "ok (kst st)" "in_use H (kst st)" "net_wf tnet st" and ty: "ty \<in> {0, 1, 2}"
  shows "(\<exists>st'. mb_get_by alloc_hdr (alloc_dbuf ty tx) free_min ty st = Some (0, st') \<and> ok (kst st') \<and> in_use H (kst st') \<and>
      (\<lambda>q. open_pool q (kst st')) = (\<lambda>q. open_pool q (kst st)) \<and> free_map (kst st') = free_map (kst st) \<and>
      mbs st' = mbs st \<and> bytes st' = bytes st \<and> (free_blocks (kst st) (lobuf_mpool tnet) = [] \<or>
        ((free_map (kst st))(lobuf_mpool tnet := tl (free_blocks (kst st) (lobuf_mpool tnet)))) (data_pool tnet ty tx) = [])) \<or>
    (\<exists>p d s'. mb_get_by alloc_hdr (alloc_dbuf ty tx) free_min ty st = Some (p, st\<lparr>kst := s', mbs := (mbs st)(p \<mapsto> new_mbuf p d ty)\<rparr>) \<and>
      p \<noteq> 0 \<and> ok s' \<and> in_use ((data_pool tnet ty tx, d) # (lobuf_mpool tnet, p) # H) s' \<and>
      (\<lambda>q. open_pool q s') = (\<lambda>q. open_pool q (kst st)) \<and>
      (\<exists>A. free_map (kst st) = A(lobuf_mpool tnet := p # A (lobuf_mpool tnet)) \<and>
           A = (free_map s')(data_pool tnet ty tx := d # free_map s' (data_pool tnet ty tx))))"
proof (cases "free_blocks (kst st) (lobuf_mpool tnet)")
  let ?lo = "lobuf_mpool tnet" and ?kd = "data_pool tnet ty tx"
  have op: "open_pool ?lo (kst st)" "open_pool ?kd (kst st)" using u(3) data_pool_net [of tnet ty tx] by (auto simp: net_wf_def net_pools_def)
  {
    case Nil
    have "mb_get_by alloc_hdr (alloc_dbuf ty tx) free_min ty st = Some (0, st)"
      using take_empty [OF u(1) op(1) Nil] by (simp add: mb_get_by_def alloc_hdr on_kernel_def)
    then show ?thesis using u(1,2) Nil by blast
  next
    case (Cons p as)
    from take_holds [OF u(1) op(1) Cons u(2)] obtain s1 where s1: "take_block ?lo (kst st) = Some (p, s1)" "ok s1" "p \<noteq> 0"
      "(\<lambda>q. open_pool q s1) = (\<lambda>q. open_pool q (kst st))" "free_map s1 = (free_map (kst st))(?lo := as)" "in_use ((?lo, p) # H) s1"
      by blast
    have p: "well_placed tnet ?lo p" "mbs st p = None"
      using u(3) Cons unfolding net_wf_def by (metis list.set_intros(1))+
    then have hm: "min_home tnet p = ?lo" "p AND 3 = 0" by (auto simp: lobuf_home well_placed_def)
    define st1 where "st1 = st\<lparr>kst := s1, mbs := (mbs st)(p \<mapsto> zero_mbuf)\<rparr>"
    have h: "alloc_hdr st = Some (p, st1)" using s1(1,3) hm(2) by (simp add: alloc_hdr on_kernel_def clear_descr_def st1_def)
    have op1: "open_pool ?kd s1" using fun_cong [OF s1(4), of ?kd] op(2) by simp
    have fm: "free_map (kst st) = (free_map s1)(?lo := p # free_blocks s1 ?lo)"
      by (rule fun_upd_back [OF s1(5) Cons])
    show ?thesis
    proof (cases "free_blocks s1 ?kd")
      case Nil
      let ?st = "st1\<lparr>mbs := (mbs st)(p \<mapsto> zero_mbuf\<lparr>m_dbuf := 0\<rparr>)\<rparr>"
      have "ok (kst ?st)" "in_use ((min_home tnet p, p) # H) (kst ?st)" using s1 hm by (simp_all add: st1_def)
      from free_descr_ok [OF this] obtain s2 where s2: "free_descr free_min p ?st = Some (0, ?st\<lparr>kst := s2, mbs := (mbs ?st)(p := None)\<rparr>)"
        "ok s2" "in_use H s2" "(\<lambda>q. open_pool q s2) = (\<lambda>q. open_pool q s1)" "free_map s2 = (free_map s1)(?lo := p # free_blocks s1 ?lo)"
        using hm(1) by (auto simp: st1_def)
      have "mb_get_by alloc_hdr (alloc_dbuf ty tx) free_min ty st = Some (0, ?st\<lparr>kst := s2, mbs := (mbs ?st)(p := None)\<rparr>)"
        using h s1(2,3) take_empty [OF s1(2) op1 Nil] s2(1) alloc_dbuf [OF ty]
        by (simp add: mb_get_by_def on_kernel_def st1_def set_mbuf_def deref_def)
      moreover have "mbs (?st\<lparr>kst := s2, mbs := (mbs ?st)(p := None)\<rparr>) = mbs st" using p(2) by (simp add: fun_upd_idem)
      ultimately have "mb_get_by alloc_hdr (alloc_dbuf ty tx) free_min ty st = Some (0, st\<lparr>kst := s2\<rparr>)" by (simp add: st1_def)
      moreover have "(\<lambda>q. open_pool q s2) = (\<lambda>q. open_pool q (kst st))" unfolding s2(4) by (rule s1(4))
      moreover have "free_map s2 = free_map (kst st)" unfolding s2(5) fm ..
      moreover have "((free_map (kst st))(?lo := tl (free_blocks (kst st) ?lo))) ?kd = []"
        using Nil fun_cong [OF s1(5), of ?kd] \<open>free_blocks (kst st) ?lo = p # as\<close> by simp
      ultimately show ?thesis using s2(2,3) by (intro disjI1 exI [of _ "st\<lparr>kst := s2\<rparr>"]) simp
    next
      case (Cons d ds)
      from take_holds [OF s1(2) op1 Cons s1(6)] obtain s2 where s2: "take_block ?kd s1 = Some (d, s2)" "ok s2" "d \<noteq> 0"
        "(\<lambda>q. open_pool q s2) = (\<lambda>q. open_pool q s1)" "free_map s2 = (free_map s1)(?kd := ds)" "in_use ((?kd, d) # (?lo, p) # H) s2"
        by blast
      have "mb_get_by alloc_hdr (alloc_dbuf ty tx) free_min ty st = Some (p, st\<lparr>kst := s2, mbs := (mbs st)(p \<mapsto> new_mbuf p d ty)\<rparr>)"
        using h s1(3) s2(1,3) alloc_dbuf [OF ty] ty
        by (auto simp: mb_get_by_def on_kernel_def st1_def set_mbuf_def deref_def new_mbuf_def to_bits_def)
      moreover have "(\<lambda>q. open_pool q s2) = (\<lambda>q. open_pool q (kst st))" unfolding s2(4) by (rule s1(4))
      moreover have "free_map s1 = (free_map s2)(?kd := d # free_blocks s2 ?kd)"
        by (rule fun_upd_back [OF s2(5) Cons])
      ultimately show ?thesis using s1(3) s2(2,6) fm by blast
    qed
  }
qed

text \<open>A buffer that is freed again leaves everything as it was.\<close>

lemma get_free_by:
  assumes u: "ok (kst st)" "net_wf tnet st" and ty: "ty \<in> {0, 1, 2}"
    and g: "mb_get_by alloc_hdr (alloc_dbuf ty tx) free_min ty st = Some (p, st1)" "p \<noteq> 0"
  shows "\<exists>s2. m_free_by free_min free_pool p st1 = Some (0, st\<lparr>kst := s2\<rparr>) \<and> free_map s2 = free_map (kst st) \<and> ok s2"
proof -
  let ?kd = "data_pool tnet ty tx" and ?lo = "lobuf_mpool tnet"
  have "in_use [] (kst st)" by (simp add: holds_def)
  from mb_get_ok [OF u(1) this u(2) ty, of tx] g obtain d s' A where s': "st1 = st\<lparr>kst := s', mbs := (mbs st)(p \<mapsto> new_mbuf p d ty)\<rparr>"
    "ok s'" "in_use [(?kd, d), (?lo, p)] s'" "free_map (kst st) = A(?lo := p # A ?lo)" "A = (free_map s')(?kd := d # free_map s' ?kd)"
    by auto
  have "d \<in> set (A ?kd)" unfolding s'(5) by simp
  then have "p \<in> set (free_map (kst st) ?lo)" "d \<in> set (free_map (kst st) ?kd)" unfolding s'(4) by auto
  then have w: "well_placed tnet ?lo p" "mbs st p = None" "well_placed tnet ?kd d" using u(2) by (auto simp: net_wf_def)
  have "d \<noteq> 0" using s'(3) by (simp add: holds_Cons)
  then obtain s2 where s2: "m_free_by free_min free_pool p st1 = Some (0, st1\<lparr>kst := s2, mbs := (mbs st1)(p := None)\<rparr>)" "ok s2"
    "free_map s2 = (let A = (free_map s')(?kd := d # free_blocks s' ?kd) in A(?lo := p # A ?lo))"
    using m_free_primary [of st1 p "new_mbuf p d ty" ?kd "[]"] s'(1,2,3) g(2) home_of_data_pool [OF ty w(3)] lobuf_home [OF w(1)]
    by auto
  have "free_map s2 = free_map (kst st)" unfolding s2(3) s'(4,5) Let_def ..
  moreover have "st1\<lparr>kst := s2, mbs := (mbs st1)(p := None)\<rparr> = st\<lparr>kst := s2\<rparr>" using w(2) by (simp add: s'(1) fun_upd_idem)
  ultimately show ?thesis using s2(1,2) by auto
qed

end

section \<open>The functions of the tasks and of the interrupt handlers\<close>

interpretation task_buffers: net_buffers task_ok "\<lambda>k. do_alloc k MB_NOWAIT" do_free tnet "m_alloc_hdr tnet MB_NOWAIT"
    "\<lambda>ty. dbuf_get tnet ty MB_NOWAIT" "tn_net_free_min tnet" "tn_net_free_pool tnet" for tnet
  by unfold_locales
    (auto simp: m_alloc_hdr_def tn_net_alloc_min_def dbuf_get_def data_pool_def tn_net_alloc_tx_min_def tn_net_alloc_mid1_def
      tn_net_alloc_tx_mid1_def tn_net_alloc_hi_def on_kernel_def tn_net_free_min_def min_home_def tn_net_free_pool_def home_pool_def
      split: if_splits)

interpretation isr_buffers: net_buffers isr_ok do_ialloc do_ifree tnet "m_ialloc_hdr tnet"
    "dbuf_iget tnet" "tn_net_ifree_min tnet" "tn_net_ifree_pool tnet" for tnet
  by unfold_locales
    (auto simp: m_ialloc_hdr_def tn_net_ialloc_min_def dbuf_iget_def data_pool_def tn_net_ialloc_tx_min_def tn_net_ialloc_mid1_def
      tn_net_ialloc_tx_mid1_def tn_net_ialloc_hi_def on_kernel_def tn_net_ifree_min_def min_home_def tn_net_ifree_pool_def home_pool_def
      split: if_splits)

text \<open>A buffer that is allocated and freed again, by a task or by an interrupt handler.\<close>

lemma get_free:
  assumes "task_ok (kst st)" "net_wf tnet st" "ty \<in> {0, 1, 2}" "mb_get tnet ty MB_NOWAIT tx st = Some (p, st1)" "p \<noteq> 0"
  shows "\<exists>s2. m_freem tnet p st1 = Some (0, st\<lparr>kst := s2\<rparr>) \<and> free_map s2 = free_map (kst st) \<and> task_ok s2"
proof -
  obtain s2 where s2: "m_free tnet p st1 = Some (0, st\<lparr>kst := s2\<rparr>)" "free_map s2 = free_map (kst st)" "task_ok s2"
    using task_buffers.get_free_by [OF assms(1-3) assms(4) [unfolded mb_get_def] assms(5)] unfolding m_free_def by blast
  moreover have "m_freem tnet p st1 = Some (0, st\<lparr>kst := s2\<rparr>)"
    using s2(1) assms(5) m_freem.simps [of tnet 0] by (subst m_freem.simps) simp
  ultimately show ?thesis by blast
qed

lemma iget_ifree:
  assumes "isr_ok (kst st)" "net_wf tnet st" "ty \<in> {0, 1, 2}" "mb_iget tnet ty tx st = Some (p, st1)" "p \<noteq> 0"
  shows "\<exists>s2. m_ifreem tnet p st1 = Some (0, st\<lparr>kst := s2\<rparr>) \<and> free_map s2 = free_map (kst st) \<and> isr_ok s2"
proof -
  obtain s2 where s2: "m_ifree tnet p st1 = Some (0, st\<lparr>kst := s2\<rparr>)" "free_map s2 = free_map (kst st)" "isr_ok s2"
    using isr_buffers.get_free_by [OF assms(1-3) assms(4) [unfolded mb_iget_def] assms(5)] unfolding m_ifree_def by blast
  moreover have "m_ifreem tnet p st1 = Some (0, st\<lparr>kst := s2\<rparr>)"
    using s2(1) assms(5) m_ifreem.simps [of tnet 0] by (subst m_ifreem.simps) simp
  ultimately show ?thesis by blast
qed

end
