(* ===== verification/Mbuf_Copy.thy ===== *)
theory Mbuf_Copy
  imports Mbuf_Alloc
begin

text \<open>
  \<open>m_copym\<close> makes a chain of new descriptors that share the data buffers of another chain and raises the reference
  counts of their primary descriptors. The lemmas describe the heap after it in closed form, show that the copy
  reads as the bytes that were asked for, and that \<open>m_freem\<close> of the copy undoes it.
\<close>

section \<open>Heaps with copies\<close>

text \<open>The heap \<open>h\<close> with one more reference to every descriptor in the list.\<close>

definition refs_added :: "mheap \<Rightarrow> addr list \<Rightarrow> mheap" where
  "refs_added h ns = (\<lambda>r. map_option (\<lambda>b. b\<lparr>m_refcnt := m_refcnt b + int (count_list ns r)\<rparr>) (h r))"

text \<open>The descriptors \<open>es\<close> at the addresses \<open>qs\<close>, linked to a chain.\<close>

fun linked :: "addr list \<Rightarrow> mbuf list \<Rightarrow> mheap" where
  "linked (q # qs) (e # es) = (linked qs es)(q \<mapsto> e\<lparr>m_next := (case qs of [] \<Rightarrow> 0 | q' # _ \<Rightarrow> q')\<rparr>)"
| "linked _ _ = Map.empty"

definition pri_of :: "addr \<Rightarrow> mbuf \<Rightarrow> addr" where
  "pri_of p b = (if m_flags b AND M_DBHDR \<noteq> 0 then p else m_pri b)"

lemma pri_of_refcnt [simp]: "pri_of p (b\<lparr>m_refcnt := n\<rparr>) = pri_of p b"
  by (simp add: pri_of_def)

lemma refs_added_Nil [simp]: "refs_added h [] = h"
  by (simp add: refs_added_def option.map_ident_strong)

lemma refs_added_Some: "h r = Some b \<Longrightarrow> refs_added h ns r = Some (b\<lparr>m_refcnt := m_refcnt b + int (count_list ns r)\<rparr>)"
  by (simp add: refs_added_def)

lemma refs_added_None [simp]: "refs_added h ns r = None \<longleftrightarrow> h r = None"
  by (simp add: refs_added_def)

lemma dom_linked [simp]: "length es = length qs \<Longrightarrow> dom (linked qs es) = set qs"
  by (induction qs es rule: linked.induct) auto

lemma linked_None: "length es = length qs \<Longrightarrow> r \<notin> set qs \<Longrightarrow> linked qs es r = None"
  using dom_linked by (metis domIff)

lemma linked_snoc:
  assumes "length es = length qs" "distinct qs" "t \<notin> set qs"
  shows "linked (qs @ [t]) (es @ [f]) =
    (if qs = [] then Map.empty else (linked qs es)(last qs \<mapsto> (last es)\<lparr>m_next := t\<rparr>))(t \<mapsto> f\<lparr>m_next := 0\<rparr>)"
  using assms
proof (induction qs es rule: linked.induct)
  case (1 q qs e es)
  show ?case
  proof (cases qs)
    case Nil
    then show ?thesis using 1 by (auto simp: fun_eq_iff)
  next
    case (Cons q' qs')
    then have "q \<noteq> last qs" "es \<noteq> []" using 1(3) 1(2) by auto
    then show ?thesis using 1 Cons by (auto simp: fun_eq_iff)
  qed
qed auto

lemma linked_last: "length es = length qs \<Longrightarrow> distinct qs \<Longrightarrow> qs \<noteq> [] \<Longrightarrow> linked qs es (last qs) = Some ((last es)\<lparr>m_next := 0\<rparr>)"
proof (induction qs es rule: linked.induct)
  case (1 q qs e es)
  then show ?case by (cases qs) auto
qed auto

lemma linked_chain:
  assumes "length es = length qs" "distinct qs" "0 \<notin> set qs" "qs \<noteq> []" "\<And>q. q \<in> set qs \<Longrightarrow> h q = linked qs es q"
  shows "mchain h (hd qs) qs" "chain_data h m qs = concat (map (mbuf_data m) es)"
proof -
  have "mchain h (hd qs) qs \<and> chain_data h m qs = concat (map (mbuf_data m) es)"
    using assms
  proof (induction qs es rule: linked.induct)
    case (1 q qs e es)
    have hq: "h q = Some (e\<lparr>m_next := (case qs of [] \<Rightarrow> 0 | q' # _ \<Rightarrow> q')\<rparr>)" using 1(6) by simp
    have d: "mbuf_data m (e\<lparr>m_next := x\<rparr>) = mbuf_data m e" for x by (simp add: mbuf_data_def)
    show ?case
    proof (cases qs)
      case Nil
      then show ?thesis using hq d 1(2-5) by auto
    next
      case (Cons q' qs')
      have "h r = linked qs es r" if "r \<in> set qs" for r using 1(6) [of r] that 1(3) by auto
      then have "mchain h (hd qs) qs \<and> chain_data h m qs = concat (map (mbuf_data m) es)"
        using 1(1) 1(2-5) Cons by simp
      then show ?thesis using hq d 1(4) Cons by simp
    qed
  qed auto
  then show "mchain h (hd qs) qs" "chain_data h m qs = concat (map (mbuf_data m) es)" by auto
qed

section \<open>One descriptor\<close>

definition copy_of :: "addr \<Rightarrow> mbuf \<Rightarrow> int \<Rightarrow> int \<Rightarrow> mbuf" where
  "copy_of p b offset len = zero_mbuf\<lparr>m_flags := (if m_flags b AND M_PKTHDR \<noteq> 0 then M_NOALLOC OR M_PKTHDR else M_NOALLOC),
     m_pri := pri_of p b, m_data := m_data b + word_of_int offset, m_len := to_short (min len (m_len b - offset))\<rparr>"

definition first_copy :: "addr \<Rightarrow> mbuf \<Rightarrow> int \<Rightarrow> int \<Rightarrow> mbuf" where
  "first_copy p b offset len = (copy_of p b offset len)\<lparr>m_tlen := to_bits 20 len\<rparr>"

lemma copy_of_fields [simp]:
  "m_flags (copy_of p b offset len) AND M_DBHDR = 0" "m_flags (copy_of p b offset len) AND M_ETHHDR = 0"
  "m_pri (copy_of p b offset len) = pri_of p b" "m_data (copy_of p b offset len) = m_data b + word_of_int offset"
  "m_len (copy_of p b offset len) = to_short (min len (m_len b - offset))"
  "m_flags (first_copy p b offset len) AND M_DBHDR = 0" "m_flags (first_copy p b offset len) AND M_ETHHDR = 0"
  "m_pri (first_copy p b offset len) = pri_of p b" "m_data (first_copy p b offset len) = m_data b + word_of_int offset"
  "m_len (first_copy p b offset len) = to_short (min len (m_len b - offset))"
  "m_tlen (first_copy p b offset len) = to_bits 20 len"
  by (simp_all add: copy_of_def first_copy_def)

text \<open>The loop has made the copies \<open>es\<close> at \<open>qs\<close> of descriptors of the heap \<open>h\<close>.\<close>

definition copies_made :: "mheap \<Rightarrow> addr list \<Rightarrow> mbuf list \<Rightarrow> nstate \<Rightarrow> bool" where
  "copies_made h qs es st \<longleftrightarrow> length es = length qs \<and> distinct qs \<and> 0 \<notin> set qs \<and> dom h \<inter> set qs = {} \<and>
     mbs st = refs_added h (map m_pri es) ++ linked qs es"

lemma copies_made_old:
  assumes "copies_made h qs es st" "h r = Some b"
  shows "mbs st r = Some (b\<lparr>m_refcnt := m_refcnt b + int (count_list (map m_pri es) r)\<rparr>)" "r \<notin> set qs"
proof -
  show "r \<notin> set qs" using assms by (auto simp: copies_made_def)
  then show "mbs st r = Some (b\<lparr>m_refcnt := m_refcnt b + int (count_list (map m_pri es) r)\<rparr>)"
    using assms by (simp add: copies_made_def map_add_def linked_None refs_added_Some)
qed

lemma copies_made_snoc:
  assumes c: "copies_made h qs es st" and t: "t \<noteq> 0" "t \<notin> set qs" "h t = None" and f: "m_next f = 0" "h (m_pri f) = Some c"
    and st': "mbs st' = (if qs = [] then mbs st else (mbs st)(last qs \<mapsto> (last es)\<lparr>m_next := t\<rparr>))
      (m_pri f \<mapsto> c\<lparr>m_refcnt := m_refcnt c + int (count_list (map m_pri es) (m_pri f)) + 1\<rparr>, t \<mapsto> f)"
  shows "copies_made h (qs @ [t]) (es @ [f]) st'"
proof -
  have k: "length es = length qs" "distinct qs" "mbs st = refs_added h (map m_pri es) ++ linked qs es" using c by (auto simp: copies_made_def)
  have ff: "f\<lparr>m_next := 0\<rparr> = f" using f(1) by (cases f) simp
  have p: "m_pri f \<notin> set qs" "m_pri f \<noteq> t" using copies_made_old(2) [OF c f(2)] f(2) t(3) by auto
  have "mbs st' r = (refs_added h (map m_pri (es @ [f])) ++ linked (qs @ [t]) (es @ [f])) r" for r
  proof -
    consider "r = t" | "r \<noteq> t" "r \<in> set qs" | "r \<noteq> t" "r \<notin> set qs" "r = m_pri f" | "r \<noteq> t" "r \<notin> set qs" "r \<noteq> m_pri f" by blast
    then show ?thesis
    proof cases
      case 1
      then show ?thesis using ff by (simp add: st' linked_snoc [OF k(1,2) t(2)])
    next
      case 2
      then obtain x where x: "linked qs es r = Some x" using dom_linked [OF k(1)] by blast
      with 2 show ?thesis using p by (auto simp: st' k(3) linked_snoc [OF k(1,2) t(2)] map_add_def)
    next
      case 3
      then show ?thesis using f(2) linked_None [OF k(1), of r]
        by (auto simp: st' linked_snoc [OF k(1,2) t(2)] map_add_def refs_added_Some last_in_set)
    next
      case 4
      then have "r \<noteq> last qs" if "qs \<noteq> []" using that last_in_set by metis
      then show ?thesis using 4 linked_None [OF k(1) 4(2)]
        by (auto simp: st' k(3) linked_snoc [OF k(1,2) t(2)] map_add_def refs_added_def)
    qed
  qed
  then show ?thesis using c t by (auto simp: copies_made_def fun_eq_iff)
qed

lemma m_copym_one_ok:
  assumes c: "copies_made h qs es st" and t: "t \<noteq> 0" "t \<notin> set qs" "h t = None"
    and mb: "h mb = Some b" "mb \<noteq> 0" "pri_of mb b \<noteq> 0" "h (pri_of mb b) = Some c"
    and r: "0 \<le> m_refcnt c" "m_refcnt c + int (length es) < 255"
    and st1: "st1 = st\<lparr>kst := s1, mbs := (mbs st)(t \<mapsto> zero_mbuf)\<rparr>"
    and f: "f = (if qs = [] then first_copy mb b offset len else copy_of mb b 0 len)"
  shows "\<exists>st'. m_copym_one t mb (if qs = [] then 0 else hd qs) (if qs = [] then 0 else last qs) offset len st1 = Some (hd (qs @ [t]), st') \<and>
     copies_made h (qs @ [t]) (es @ [f]) st' \<and> kst st' = s1 \<and> bytes st' = bytes st"
proof -
  let ?P = "pri_of mb b" and ?n = "int (count_list (map m_pri es) (pri_of mb b))"
  note old = copies_made_old [OF c mb(1)] copies_made_old [OF c mb(4)]
  have ne: "mb \<noteq> t" "?P \<noteq> t" using mb(1,4) t(3) by auto
  have n: "to_bits 8 (m_refcnt c + ?n + 1) = m_refcnt c + ?n + 1"
    using r count_le_length [of "map m_pri es" ?P] by (intro to_bits_id) simp_all
  define h1 where "h1 = (if qs = [] then mbs st else (mbs st)(last qs \<mapsto> (last es)\<lparr>m_next := t\<rparr>))"
  define h2 where "h2 = h1(?P \<mapsto> c\<lparr>m_refcnt := m_refcnt c + ?n + 1\<rparr>, t \<mapsto> f)"
  define st' where "st' = st\<lparr>kst := s1, mbs := h2\<rparr>"
  have l: "last qs \<noteq> t" "last qs \<noteq> 0" "last qs \<noteq> mb" "last qs \<noteq> ?P" "hd qs \<noteq> 0" "mbs st (last qs) = Some ((last es)\<lparr>m_next := 0\<rparr>)" if "qs \<noteq> []"
  proof -
    have "last qs \<in> set qs" using that by simp
    then show "last qs \<noteq> t" "last qs \<noteq> 0" "last qs \<noteq> mb" "last qs \<noteq> ?P" using t(2) old(2,4) c by (auto simp: copies_made_def)
    show "hd qs \<noteq> 0" using c that by (metis copies_made_def hd_in_set)
    show "mbs st (last qs) = Some ((last es)\<lparr>m_next := 0\<rparr>)" using c that linked_last [of es qs] by (simp add: copies_made_def map_add_def)
  qed
  have "m_copym_one t mb (if qs = [] then 0 else hd qs) (if qs = [] then 0 else last qs) offset len st1 = Some (hd (qs @ [t]), st')"
  proof (cases "qs = []")
    case True
    then show ?thesis using mb ne old(1,3) n t(1)
      by (simp add: m_copym_one_def st1 deref_def set_mbuf_def st'_def h2_def h1_def f first_copy_def copy_of_def zero_mbuf_def Let_def
          fun_upd_twist [of t] split del: if_split flip: pri_of_def) (auto simp: set_mbuf_def deref_def split: if_split)
  next
    case False
    then show ?thesis using mb ne old(1,3) n t(1) l [OF False]
      by (simp add: m_copym_one_def st1 deref_def set_mbuf_def st'_def h2_def h1_def f copy_of_def zero_mbuf_def Let_def
          fun_upd_twist [of t] split del: if_split flip: pri_of_def) (auto simp: set_mbuf_def deref_def split: if_split)
  qed
  moreover have "copies_made h (qs @ [t]) (es @ [f]) st'"
    by (rule copies_made_snoc [OF c t, of f c]) (use mb(4) in \<open>simp_all add: st'_def h2_def h1_def f first_copy_def copy_of_def zero_mbuf_def\<close>)
  ultimately show ?thesis by (simp add: st'_def)
qed

section \<open>The loop\<close>

lemma alloc_hdr_ok:
  assumes "task_ok (kst st)" "in_use H (kst st)" "open_pool (lobuf_mpool tnet) (kst st)" "free_blocks (kst st) (lobuf_mpool tnet) = t # ts"
    "well_placed tnet (lobuf_mpool tnet) t"
  shows "\<exists>s1. m_alloc_hdr tnet MB_NOWAIT st = Some (t, st\<lparr>kst := s1, mbs := (mbs st)(t \<mapsto> zero_mbuf)\<rparr>) \<and> task_ok s1 \<and> t \<noteq> 0 \<and>
    in_use ((lobuf_mpool tnet, t) # H) s1 \<and> (\<lambda>q. open_pool q s1) = (\<lambda>q. open_pool q (kst st)) \<and>
    free_map s1 = (free_map (kst st))(lobuf_mpool tnet := ts)"
  using task_pools.take_holds [OF assms(1,3,4,2)] assms(5)
  by (auto simp: task_buffers.alloc_hdr on_kernel_def clear_descr_def well_placed_def)

text \<open>Descriptors whose primaries can take \<open>n\<close> more references, and copies of such.\<close>

definition sharable :: "mheap \<Rightarrow> nat \<Rightarrow> addr list \<Rightarrow> bool" where
  "sharable h n ps \<longleftrightarrow> list_all (\<lambda>p. \<exists>b c. h p = Some b \<and> pri_of p b \<noteq> 0 \<and> h (pri_of p b) = Some c \<and>
     1 \<le> m_refcnt c \<and> m_refcnt c + int n < 256) ps"

definition is_copy :: "mheap \<Rightarrow> mbuf \<Rightarrow> bool" where
  "is_copy h f \<longleftrightarrow> m_flags f AND M_DBHDR = 0 \<and> m_flags f AND M_ETHHDR = 0 \<and> m_pri f \<noteq> 0 \<and>
     (\<exists>c. h (m_pri f) = Some c \<and> 1 \<le> m_refcnt c)"

text \<open>Free blocks for descriptors.\<close>

definition hdrs_free :: "tn_net \<Rightarrow> mheap \<Rightarrow> kstate \<Rightarrow> bool" where
  "hdrs_free tnet h s \<longleftrightarrow> open_pool (lobuf_mpool tnet) s \<and>
     (\<forall>a \<in> set (free_blocks s (lobuf_mpool tnet)). well_placed tnet (lobuf_mpool tnet) a \<and> h a = None)"

definition copied :: "tn_net \<Rightarrow> mheap \<Rightarrow> (fid \<times> addr) list \<Rightarrow> addr list \<Rightarrow> addr list \<Rightarrow> mbuf list \<Rightarrow> mbuf list \<Rightarrow> nstate \<Rightarrow> nstate \<Rightarrow> bool" where
  "copied tnet h H qs ts es fs st st' \<longleftrightarrow> copies_made h (qs @ ts) (es @ fs) st' \<and> bytes st' = bytes st \<and> task_ok (kst st') \<and>
     in_use (map (Pair (lobuf_mpool tnet)) (rev (qs @ ts)) @ H) (kst st') \<and>
     (\<lambda>q. open_pool q (kst st')) = (\<lambda>q. open_pool q (kst st)) \<and>
     free_map (kst st) = (free_map (kst st'))(lobuf_mpool tnet := ts @ free_blocks (kst st') (lobuf_mpool tnet)) \<and>
     ts \<noteq> [] \<and> length fs = length ts \<and> list_all (is_copy h) fs"

lemma m_copym_step:
  assumes c: "copies_made h qs es st" and u: "task_ok (kst st)" "in_use (map (Pair (lobuf_mpool tnet)) (rev qs) @ H) (kst st)"
      "hdrs_free tnet h (kst st)" "free_blocks (kst st) (lobuf_mpool tnet) = t # ts"
    and mb: "h mb = Some b" "mb \<noteq> 0" "sharable h (Suc (length es)) [mb]"
    and f: "f = (if qs = [] then first_copy mb b offset len else copy_of mb b 0 len)"
  shows "\<exists>st1 st'. m_alloc_hdr tnet MB_NOWAIT st = Some (t, st1) \<and> t \<noteq> 0 \<and>
     m_copym_one t mb (if qs = [] then 0 else hd qs) (if qs = [] then 0 else last qs) offset len st1 = Some (hd (qs @ [t]), st') \<and>
     copied tnet h H qs [t] es [f] st st' \<and> deref t st' = Some (f\<lparr>m_next := 0\<rparr>)"
proof -
  let ?lo = "lobuf_mpool tnet"
  have w: "open_pool ?lo (kst st)" "well_placed tnet ?lo t" "h t = None" using u(3,4) by (auto simp: hdrs_free_def)
  obtain s1 where s1: "m_alloc_hdr tnet MB_NOWAIT st = Some (t, st\<lparr>kst := s1, mbs := (mbs st)(t \<mapsto> zero_mbuf)\<rparr>)" "task_ok s1" "t \<noteq> 0"
    "in_use ((?lo, t) # map (Pair ?lo) (rev qs) @ H) s1" "(\<lambda>q. open_pool q s1) = (\<lambda>q. open_pool q (kst st))"
    "free_map s1 = (free_map (kst st))(?lo := ts)"
    using alloc_hdr_ok [OF u(1,2) w(1) u(4) w(2)] by blast
  have "t \<notin> set qs" using s1(4) by (auto simp: holds_Cons image_Un image_image)
  obtain c where c': "pri_of mb b \<noteq> 0" "h (pri_of mb b) = Some c" "1 \<le> m_refcnt c" "m_refcnt c + int (length es) < 255"
    using mb(1,3) by (auto simp: sharable_def)
  then have "0 \<le> m_refcnt c" by simp
  from m_copym_one_ok [OF c s1(3) \<open>t \<notin> set qs\<close> w(3) mb(1,2) c'(1,2) this c'(4) refl f] obtain st' where st':
    "m_copym_one t mb (if qs = [] then 0 else hd qs) (if qs = [] then 0 else last qs) offset len
       (st\<lparr>kst := s1, mbs := (mbs st)(t \<mapsto> zero_mbuf)\<rparr>) = Some (hd (qs @ [t]), st')"
    "copies_made h (qs @ [t]) (es @ [f]) st'" "kst st' = s1" "bytes st' = bytes st" by blast
  have "is_copy h f" using c' by (simp add: is_copy_def f)
  moreover have "free_map (kst st) = (free_map s1)(?lo := [t] @ free_blocks s1 ?lo)"
    using fun_upd_back [OF s1(6) u(4)] by (simp only: append_Cons append_Nil)
  ultimately have "copied tnet h H qs [t] es [f] st st'" using st'(2-4) s1(2,4,5) by (simp add: copied_def fun_eq_iff)
  moreover have "mbs st' t = Some (f\<lparr>m_next := 0\<rparr>)"
    using st'(2) linked_last [of "es @ [f]" "qs @ [t]"] by (simp add: copies_made_def map_add_def)
  ultimately show ?thesis using s1(1,3) st'(1) by (auto simp: deref_def)
qed

text \<open>One more copy in front of the copies of the rest.\<close>

lemma copied_trans:
  assumes "copied tnet h H qs [t] es [f] st st1" "copied tnet h H (qs @ [t]) ts (es @ [f]) fs st1 st2"
  shows "copied tnet h H qs (t # ts) es (f # fs) st st2"
proof -
  let ?lo = "lobuf_mpool tnet"
  have e: "free_map (kst st1) = (free_map (kst st2))(?lo := ts @ free_blocks (kst st2) ?lo)"
    "free_map (kst st) = (free_map (kst st1))(?lo := [t] @ free_blocks (kst st1) ?lo)" using assms by (auto simp: copied_def)
  have "free_blocks (kst st1) ?lo = ts @ free_blocks (kst st2) ?lo" using fun_cong [OF e(1), of ?lo] by simp
  then have "free_map (kst st) = (free_map (kst st2))(?lo := (t # ts) @ free_blocks (kst st2) ?lo)"
    unfolding e(2) unfolding e(1) by (simp add: fun_eq_iff)
  moreover have "(\<lambda>q. open_pool q (kst st2)) = (\<lambda>q. open_pool q (kst st))" using assms unfolding copied_def by metis
  ultimately show ?thesis using assms unfolding copied_def by simp
qed

lemma sharable_Cons: "sharable h n (p # ps) \<longleftrightarrow> sharable h n [p] \<and> sharable h n ps"
  by (simp add: sharable_def)

lemma sharable_mono: "sharable h n ps \<Longrightarrow> m \<le> n \<Longrightarrow> sharable h m ps"
  unfolding sharable_def by (erule list.pred_mono_strong) force

lemma m_copym_loop_ok:
  assumes "mchain h mb ps" "lens_ok h ps" "sharable h (length es + length ps) ps"
    and "copies_made h qs es st" "task_ok (kst st)" "in_use (map (Pair (lobuf_mpool tnet)) (rev qs) @ H) (kst st)"
    and "hdrs_free tnet h (kst st)" "length ps \<le> length (free_blocks (kst st) (lobuf_mpool tnet))"
    and "off = (if qs = [] then offset else 0)" "0 \<le> off" "off < m_len (the (h mb)) \<or> off = 0"
    and "0 < len" "nat len \<le> length (drop (nat off) (chain_data h (bytes st) ps))" "tot + len = org_len"
  shows "\<exists>ts fs st'. m_copym_loop tnet MB_NOWAIT org_len mb (if qs = [] then 0 else hd qs) (if qs = [] then 0 else last qs) offset len tot st
        = Some (hd (qs @ ts), st') \<and> copied tnet h H qs ts es fs st st' \<and>
     concat (map (mbuf_data (bytes st)) fs) = take (nat len) (drop (nat off) (chain_data h (bytes st) ps)) \<and>
     (qs = [] \<longrightarrow> m_tlen (hd fs) = to_bits 20 len)"
  using assms
proof (induction ps arbitrary: mb qs es st off len tot)
  case Nil
  then show ?case by simp
next
  case (Cons p ps)
  let ?lo = "lobuf_mpool tnet"
  from Cons.prems(1) obtain b where b: "mb = p" "p \<noteq> 0" "h p = Some b" "mchain h (m_next b) ps" "p \<notin> set ps" by (rule mchain_ConsE)
  have l: "0 \<le> m_len b" "m_len b < 2 ^ 15" "lens_ok h ps" using Cons.prems(2) b(3) by auto
  have off: "0 \<le> off" "off \<le> m_len b" using Cons.prems(10,11) b l by auto
  obtain t ts where t: "free_blocks (kst st) ?lo = t # ts" "length ps \<le> length ts"
    using Cons.prems(8) by (cases "free_blocks (kst st) ?lo") auto
  define f where "f = (if qs = [] then first_copy mb b offset len else copy_of mb b 0 len)"
  have fl: "m_len f = min len (m_len b - off)" "m_data f = m_data b + word_of_int off"
    using off l Cons.prems(9,12) by (auto simp: f_def)
  have sh: "sharable h (Suc (length es)) [mb]" using Cons.prems(3) b(1) sharable_Cons sharable_mono by (metis add_Suc_right le_add1 length_Cons plus_1_eq_Suc Suc_le_mono)
  obtain st1 st2 where s2: "m_alloc_hdr tnet MB_NOWAIT st = Some (t, st1)" "t \<noteq> 0"
    "m_copym_one t mb (if qs = [] then 0 else hd qs) (if qs = [] then 0 else last qs) offset len st1 = Some (hd (qs @ [t]), st2)"
    "copied tnet h H qs [t] es [f] st st2" "deref t st2 = Some (f\<lparr>m_next := 0\<rparr>)"
    using m_copym_step [OF Cons.prems(4,5,6,7) t(1) _ _ sh f_def] b by auto
  have fd: "mbuf_data (bytes st) f = take (nat len) (drop (nat off) (mbuf_data (bytes st) b))"
  proof -
    have "(word_of_int off :: addr) = of_nat (nat off)" using off by simp
    moreover have "nat (min len (m_len b - off)) = min (nat len) (nat (m_len b) - nat off)" using off by (simp add: min_def nat_diff_distrib)
    ultimately show ?thesis by (simp add: mbuf_data_def fl)
  qed
  note unf = m_copym_loop.simps [of tnet MB_NOWAIT org_len mb]
  show ?case
  proof (cases "len \<le> m_len b - off")
    case True
    have "m_copym_loop tnet MB_NOWAIT org_len mb (if qs = [] then 0 else hd qs) (if qs = [] then 0 else last qs) offset len tot st
        = Some (hd (qs @ [t]), st2)"
      using s2 True fl Cons.prems(14) by (subst unf) (simp add: min_def)
    moreover have "take (nat len) (drop (nat off) (chain_data h (bytes st) (p # ps))) = mbuf_data (bytes st) f"
      using fd True b off by (simp add: nat_diff_distrib)
    moreover have "qs = [] \<longrightarrow> m_tlen f = to_bits 20 len" by (simp add: f_def)
    ultimately show ?thesis using s2(4) by (intro exI [of _ "[t]"] exI [of _ "[f]"] exI [of _ st2]) simp
  next
    case False
    let ?l = "m_len b - off"
    have "ps \<noteq> []" using Cons.prems(13) False b l off by auto
    then have nx: "m_next b \<noteq> 0" using mchain_next_0 [OF b(4)] by simp
    have cm: "copies_made h (qs @ [t]) (es @ [f]) st2" "bytes st2 = bytes st" "task_ok (kst st2)"
      "in_use (map (Pair ?lo) (rev (qs @ [t])) @ H) (kst st2)" "(\<lambda>q. open_pool q (kst st2)) = (\<lambda>q. open_pool q (kst st))"
      "free_map (kst st) = (free_map (kst st2))(?lo := [t] @ free_blocks (kst st2) ?lo)"
      using s2(4) by (auto simp: copied_def)
    have fb: "free_blocks (kst st2) ?lo = ts" using fun_cong [OF cm(6), of ?lo] t(1) by simp
    have hf: "hdrs_free tnet h (kst st2)" using Cons.prems(7) fun_cong [OF cm(5), of ?lo] fb t(1) by (simp add: hdrs_free_def)
    have sh2: "sharable h (length (es @ [f]) + length ps) ps" using Cons.prems(3) sharable_Cons [of h _ p ps] by simp
    have D: "nat (len - ?l) \<le> length (drop (nat 0) (chain_data h (bytes st2) ps))"
      using Cons.prems(13) b False off by (simp add: cm(2) nat_diff_distrib)
    have rest: "qs @ [t] \<noteq> []" by simp
    obtain ts' fs st' where st': "m_copym_loop tnet MB_NOWAIT org_len (m_next b) (hd (qs @ [t])) t offset (len - ?l) (tot + ?l) st2
        = Some (hd ((qs @ [t]) @ ts'), st')" "copied tnet h H (qs @ [t]) ts' (es @ [f]) fs st2 st'"
      "concat (map (mbuf_data (bytes st2)) fs) = take (nat (len - ?l)) (chain_data h (bytes st2) ps)"
      using Cons.IH [where off = 0 and tot = "tot + ?l", OF b(4) l(3) sh2 cm(1,3,4) hf _ _ _ _ _ D] fb t(2) False Cons.prems(14)
      by auto
    have "deref mb st2 = Some (b\<lparr>m_refcnt := m_refcnt b + int (count_list (map m_pri (es @ [f])) mb)\<rparr>)"
      using copies_made_old(1) [OF cm(1) b(3)] b by (simp add: deref_def)
    then have "m_copym_loop tnet MB_NOWAIT org_len mb (if qs = [] then 0 else hd qs) (if qs = [] then 0 else last qs) offset len tot st
        = Some (hd (qs @ (t # ts')), st')"
      using s2 False fl nx st'(1) by (subst unf) (simp add: min_def)
    moreover have "copied tnet h H qs (t # ts') es (f # fs) st st'" by (rule copied_trans [OF s2(4) st'(2)])
    moreover have "concat (map (mbuf_data (bytes st)) (f # fs)) = take (nat len) (drop (nat off) (chain_data h (bytes st) (p # ps)))"
      using st'(3) fd False b off by (simp add: cm(2) nat_diff_distrib)
    moreover have "qs = [] \<longrightarrow> m_tlen f = to_bits 20 len" by (simp add: f_def)
    ultimately show ?thesis by (intro exI [of _ "t # ts'"] exI [of _ "f # fs"] exI [of _ st']) simp
  qed
qed

section \<open>The whole function\<close>

lemma m_copym_skip_ok:
  assumes "mchain (mbs st) mb ps" "lens_ok (mbs st) ps" "0 \<le> off" "off < chain_len (mbs st) ps"
  shows "\<exists>xs p ys off'. ps = xs @ p # ys \<and> m_copym_skip mb off st = Some (p, off') \<and> 0 \<le> off' \<and> off' < m_len (the (mbs st p)) \<and>
    drop (nat off) (chain_data (mbs st) m ps) = drop (nat off') (chain_data (mbs st) m (p # ys))"
  using assms
proof (induction ps arbitrary: mb off)
  case (Cons q qs)
  from Cons.prems(1) obtain b where b: "mb = q" "q \<noteq> 0" "mbs st q = Some b" "mchain (mbs st) (m_next b) qs" by (rule mchain_ConsE)
  have l: "0 \<le> m_len b" "lens_ok (mbs st) qs" using Cons.prems(2) b(3) by auto
  show ?case
  proof (cases "m_len b \<le> off")
    case True
    have "0 \<le> off - m_len b" "off - m_len b < chain_len (mbs st) qs" using True Cons.prems(4) b by auto
    from Cons.IH [OF b(4) l(2) this] obtain xs p ys off' where r: "qs = xs @ p # ys" "m_copym_skip (m_next b) (off - m_len b) st = Some (p, off')"
      "0 \<le> off'" "off' < m_len (the (mbs st p))"
      "drop (nat (off - m_len b)) (chain_data (mbs st) m qs) = drop (nat off') (chain_data (mbs st) m (p # ys))" by blast
    have "m_copym_skip mb off st = Some (p, off')" using True b r(2) by (subst m_copym_skip.simps) (simp add: deref_def)
    moreover have "drop (nat off) (chain_data (mbs st) m (q # qs)) = drop (nat off') (chain_data (mbs st) m (p # ys))"
      using r(5) True b l by (simp add: nat_diff_distrib)
    moreover have "q # qs = (q # xs) @ p # ys" using r(1) by simp
    ultimately show ?thesis using r(3,4) by blast
  next
    case False
    then have "m_copym_skip mb off st = Some (q, off)" using b by (subst m_copym_skip.simps) (simp add: deref_def)
    moreover have "q # qs = [] @ q # qs" by simp
    ultimately show ?thesis using False Cons.prems(3) b(3) by (metis leI option.sel)
  qed
qed simp

lemma m_copym_ok:
  assumes c: "mchain (mbs st) mb ps" "lens_ok (mbs st) ps" "sharable (mbs st) (length ps) ps"
    and u: "task_ok (kst st)" "hdrs_free tnet (mbs st) (kst st)" "length ps \<le> length (free_blocks (kst st) (lobuf_mpool tnet))"
    and r: "0 \<le> off" "0 < len" "off + len \<le> chain_len (mbs st) ps"
  shows "\<exists>qs es st'. m_copym tnet mb off len MB_NOWAIT st = Some (hd qs, st') \<and> copied tnet (mbs st) [] [] qs [] es st st' \<and>
    concat (map (mbuf_data (bytes st)) es) = take (nat len) (drop (nat off) (chain_data (mbs st) (bytes st) ps)) \<and>
    m_tlen (hd es) = to_bits 20 len"
proof -
  from r have "off < chain_len (mbs st) ps" by simp
  from m_copym_skip_ok [OF c(1,2) r(1) this, of "bytes st"] obtain xs p ys off' where s: "ps = xs @ p # ys"
    "m_copym_skip mb off st = Some (p, off')" "0 \<le> off'" "off' < m_len (the (mbs st p))"
    "drop (nat off) (chain_data (mbs st) (bytes st) ps) = drop (nat off') (chain_data (mbs st) (bytes st) (p # ys))" by blast
  have p: "mchain (mbs st) p (p # ys)" using c(1) unfolding s(1) by (rule mchain_append)
  have lo: "lens_ok (mbs st) (p # ys)" using c(2) unfolding s(1) by simp
  have sh: "sharable (mbs st) (length [] + length (p # ys)) (p # ys)"
    using c(3) unfolding s(1) by (simp add: sharable_def list_all_append) (auto elim!: list.pred_mono_strong; force)
  have cm: "copies_made (mbs st) [] [] st" by (simp add: copies_made_def)
  have iu: "in_use (map (Pair (lobuf_mpool tnet)) (rev []) @ []) (kst st)" by (simp add: holds_def)
  have fb: "length (p # ys) \<le> length (free_blocks (kst st) (lobuf_mpool tnet))" using u(3) unfolding s(1) by simp
  have "nat len \<le> length (drop (nat off) (chain_data (mbs st) (bytes st) ps))"
    using r chain_len_data [OF c(2), of "bytes st"] by simp
  then have D: "nat len \<le> length (drop (nat off') (chain_data (mbs st) (bytes st) (p # ys)))" unfolding s(5) .
  have p0: "p \<noteq> 0" using p by simp
  obtain qs es st' where st': "m_copym_loop tnet MB_NOWAIT len p 0 0 off' len 0 st = Some (hd qs, st')"
    "copied tnet (mbs st) [] [] qs [] es st st'"
    "concat (map (mbuf_data (bytes st)) es) = take (nat len) (drop (nat off') (chain_data (mbs st) (bytes st) (p # ys)))"
    "m_tlen (hd es) = to_bits 20 len"
    using m_copym_loop_ok [where offset = off' and tot = 0 and org_len = len and len = len, OF p lo sh cm u(1) iu u(2) fb refl _ _ r(2) _ ]
      D s(3,4) by auto
  have "m_copym tnet mb off len MB_NOWAIT st = Some (hd qs, st')" using r s(2) p0 st'(1) by (simp add: m_copym_def)
  with st' show ?thesis unfolding s(5) by blast
qed

section \<open>Freeing the copies\<close>

lemma copies_made_tl:
  assumes c: "copies_made h (q # qs) (e # es) st" and e: "h (m_pri e) = Some p"
  shows "copies_made h qs es (st\<lparr>kst := s', mbs := (mbs st)
    (m_pri e \<mapsto> p\<lparr>m_refcnt := m_refcnt p + int (count_list (map m_pri es) (m_pri e))\<rparr>, q := None)\<rparr>)"
proof -
  have k: "length es = length qs" "q \<notin> set qs" "h q = None" "m_pri e \<notin> set (q # qs)" using c e by (auto simp: copies_made_def)
  have st: "mbs st = refs_added h (m_pri e # map m_pri es) ++ linked (q # qs) (e # es)" using c by (simp add: copies_made_def)
  have "((mbs st)(m_pri e \<mapsto> p\<lparr>m_refcnt := m_refcnt p + int (count_list (map m_pri es) (m_pri e))\<rparr>, q := None)) r
      = (refs_added h (map m_pri es) ++ linked qs es) r" for r
  proof -
    consider "r = q" | "r \<noteq> q" "r = m_pri e" | "r \<noteq> q" "r \<noteq> m_pri e" by blast
    then show ?thesis
    proof cases
      case 1
      then show ?thesis using k linked_None [OF k(1,2)] by (simp add: map_add_def refs_added_def)
    next
      case 2
      then show ?thesis using k e linked_None [OF k(1), of r] by (simp add: map_add_def refs_added_Some)
    next
      case 3
      then show ?thesis by (simp add: st map_add_def refs_added_def)
    qed
  qed
  then show ?thesis using c by (auto simp: copies_made_def fun_eq_iff)
qed

lemma m_freem_copies:
  assumes "copies_made h qs es st" "list_all (is_copy h) es" "task_ok (kst st)"
    "in_use (map (Pair (lobuf_mpool tnet)) (rev qs) @ H) (kst st)" "list_all (well_placed tnet (lobuf_mpool tnet)) qs"
  shows "\<exists>st'. m_freem tnet (case qs of [] \<Rightarrow> 0 | q # _ \<Rightarrow> q) st = Some (0, st') \<and> mbs st' = h \<and> bytes st' = bytes st \<and>
    task_ok (kst st') \<and> in_use H (kst st') \<and>
    free_map (kst st') = (free_map (kst st))(lobuf_mpool tnet := rev qs @ free_blocks (kst st) (lobuf_mpool tnet))"
  using assms
proof (induction qs arbitrary: es st)
  case Nil
  then show ?case using m_freem.simps [of tnet 0 st] by (simp add: copies_made_def)
next
  case (Cons q qs)
  let ?lo = "lobuf_mpool tnet"
  obtain e es' where es: "es = e # es'" using Cons.prems(1) by (cases es) (auto simp: copies_made_def)
  have e: "m_flags e AND M_DBHDR = 0" "m_flags e AND M_ETHHDR = 0" "m_pri e \<noteq> 0" using Cons.prems(2) by (simp_all add: es is_copy_def)
  obtain p where p: "h (m_pri e) = Some p" "1 \<le> m_refcnt p" using Cons.prems(2) by (auto simp: es is_copy_def)
  let ?nx = "case qs of [] \<Rightarrow> 0 | q' # _ \<Rightarrow> q'"
  have c: "copies_made h (q # qs) (e # es') st" using Cons.prems(1) es by simp
  have q: "mbs st q = Some (e\<lparr>m_next := ?nx\<rparr>)" "q \<noteq> 0" "m_pri e \<noteq> q"
    using c p(1) by (auto simp: copies_made_def map_add_def)
  have pr: "mbs st (m_pri e) = Some (p\<lparr>m_refcnt := m_refcnt p + int (count_list (map m_pri es') (m_pri e)) + 1\<rparr>)" (is "_ = Some ?p")
    using copies_made_old(1) [OF c p(1)] by (simp add: add.commute add.left_commute)
  have hm: "min_home tnet q = ?lo" using Cons.prems(5) by (simp add: lobuf_home)
  have iu: "in_use ((min_home tnet q, q) # map (Pair ?lo) (rev qs) @ H) (kst st)"
    by (rule holds_perm [OF Cons.prems(4)]) (simp add: hm)
  obtain s' where s': "m_free tnet q st = Some (?nx, st\<lparr>kst := s', mbs := (mbs st)(m_pri e \<mapsto> ?p\<lparr>m_refcnt := m_refcnt ?p - 1\<rparr>, q := None)\<rparr>)"
    "task_ok s'" "in_use (map (Pair ?lo) (rev qs) @ H) s'" "free_map s' = (free_map (kst st))(?lo := q # free_blocks (kst st) ?lo)"
    using task_buffers.m_free_copy [OF q(1,2) _ _ _ e(3) q(3) pr _ Cons.prems(3) iu] e p(2) unfolding m_free_def hm by auto
  let ?st = "st\<lparr>kst := s', mbs := (mbs st)(m_pri e \<mapsto> ?p\<lparr>m_refcnt := m_refcnt ?p - 1\<rparr>, q := None)\<rparr>"
  have "copies_made h qs es' ?st" using copies_made_tl [OF c p(1), of s'] by simp
  moreover have "list_all (is_copy h) es'" "list_all (well_placed tnet ?lo) qs" using Cons.prems(2,5) by (simp_all add: es)
  ultimately obtain st' where st': "m_freem tnet ?nx ?st = Some (0, st')" "mbs st' = h" "bytes st' = bytes ?st" "task_ok (kst st')"
    "in_use H (kst st')" "free_map (kst st') = (free_map s')(?lo := rev qs @ free_blocks s' ?lo)"
    using Cons.IH [of es' ?st] s'(2,3) by (auto simp: fun_eq_iff)
  have "?nx \<noteq> INV_MEM" using Cons.prems(5) by (auto simp: well_placed_def split: list.split)
  then have "m_freem tnet q st = Some (0, st')" using q(2) s'(1) st'(1) by (subst m_freem.simps) simp
  moreover have "free_map (kst st') = (free_map (kst st))(?lo := rev (q # qs) @ free_blocks (kst st) ?lo)"
    using fun_cong [OF s'(4), of ?lo] unfolding st'(6) s'(4) by (simp add: fun_eq_iff)
  ultimately show ?case using st'(2-5) by (simp add: fun_eq_iff)
qed

text \<open>A copy and its release leave the store as it was and give all descriptors back.\<close>

lemma copy_free:
  assumes c: "copied tnet (mbs st) [] [] qs [] es st st'" and h: "hdrs_free tnet (mbs st) (kst st)"
  shows "\<exists>st2. m_freem tnet (hd qs) st' = Some (0, st2) \<and> mbs st2 = mbs st \<and> bytes st2 = bytes st \<and> task_ok (kst st2) \<and>
    (\<forall>k. mset (free_blocks (kst st2) k) = mset (free_blocks (kst st) k))"
proof -
  let ?lo = "lobuf_mpool tnet"
  have k: "copies_made (mbs st) qs es st'" "bytes st' = bytes st" "task_ok (kst st')" "in_use (map (Pair ?lo) (rev qs) @ []) (kst st')"
    "free_map (kst st) = (free_map (kst st'))(?lo := qs @ free_blocks (kst st') ?lo)" "qs \<noteq> []" "list_all (is_copy (mbs st)) es"
    using c unfolding copied_def append_Nil append_Nil2 by blast+
  have fb: "free_blocks (kst st) k = (if k = ?lo then qs @ free_blocks (kst st') ?lo else free_blocks (kst st') k)" for k
    using fun_cong [OF k(5), of k] by simp
  have "list_all (well_placed tnet ?lo) qs" using h fb [of ?lo] by (simp add: hdrs_free_def list_all_iff)
  from m_freem_copies [OF k(1,7,3,4) this] obtain st2 where st2: "m_freem tnet (hd qs) st' = Some (0, st2)" "mbs st2 = mbs st"
    "bytes st2 = bytes st'" "task_ok (kst st2)" "free_map (kst st2) = (free_map (kst st'))(?lo := rev qs @ free_blocks (kst st') ?lo)"
    using k(6) by (cases qs) auto
  have "mset (free_blocks (kst st2) k) = mset (free_blocks (kst st) k)" for k
    using fun_cong [OF st2(5), of k] fb [of k] by simp
  with st2 k(2) show ?thesis by auto
qed

text \<open>The chain that \<open>m_copym\<close> returns.\<close>

lemma copied_chain:
  assumes "copied tnet h H [] qs [] es st st'"
  shows "mchain (mbs st') (hd qs) qs" "chain_data (mbs st') m qs = concat (map (mbuf_data m) es)"
    "m_tlen (the (mbs st' (hd qs))) = m_tlen (hd es)"
proof -
  have k: "length es = length qs" "distinct qs" "0 \<notin> set qs" "mbs st' = refs_added h (map m_pri es) ++ linked qs es" "qs \<noteq> []"
    using assms unfolding copied_def copies_made_def by simp_all
  have "mbs st' q = linked qs es q" if "q \<in> set qs" for q
  proof -
    from that have "q \<in> dom (linked qs es)" using k(1) by simp
    then show ?thesis by (auto simp: k(4) map_add_def)
  qed
  note l = linked_chain [where h = "mbs st'", OF k(1,2,3,5) this]
  show "mchain (mbs st') (hd qs) qs" "chain_data (mbs st') m qs = concat (map (mbuf_data m) es)" by (rule l, assumption)+
  show "m_tlen (the (mbs st' (hd qs))) = m_tlen (hd es)"
    using \<open>\<And>q. q \<in> set qs \<Longrightarrow> mbs st' q = linked qs es q\<close> [of "hd qs"] k(1,5) by (cases qs; cases es) auto
qed

end
