(* ===== verification/Mbuf_Fill.thy ===== *)
theory Mbuf_Fill
  imports Mbuf_Copy
begin

text \<open>
  \<open>buf_to_mbuf\<close> fills a chain of new buffers with a block of memory, as the TCP code does before it sends. The lemmas
  show that the chain holds the bytes of the block, or that \<open>NULL\<close> is returned and all memory is back in
  the pools when they could not supply enough. For \<open>m_read\<close> they show that it cannot read more than one buffer.
\<close>

section \<open>Chains of buffers with one owner\<close>

definition own_buffer :: "tn_net \<Rightarrow> fid \<Rightarrow> addr \<Rightarrow> mbuf \<Rightarrow> bool" where
  "own_buffer tnet k q e \<longleftrightarrow> m_flags e AND M_DBHDR \<noteq> 0 \<and> m_flags e AND M_ETHHDR = 0 \<and> m_flags e AND M_NOALLOC = 0 \<and>
     m_refcnt e = 1 \<and> home_pool tnet (m_dbtype e) (m_dbuf e) = Some k \<and>
     well_placed tnet (lobuf_mpool tnet) q"

fun own_blocks :: "tn_net \<Rightarrow> fid \<Rightarrow> addr list \<Rightarrow> mbuf list \<Rightarrow> (fid \<times> addr) list" where
  "own_blocks tnet k (q # qs) (e # es) = (k, m_dbuf e) # (lobuf_mpool tnet, q) # own_blocks tnet k qs es"
| "own_blocks tnet k _ _ = []"

text \<open>The blocks of a list that belong to one pool.\<close>

definition of_pool :: "(fid \<times> addr) list \<Rightarrow> fid \<Rightarrow> addr multiset" where
  "of_pool B k = mset (map snd (filter (\<lambda>x. fst x = k) B))"

lemma of_pool_simps [simp]:
  "of_pool [] k = {#}" "of_pool (x # B) k = (if fst x = k then add_mset (snd x) (of_pool B k) else of_pool B k)"
  "of_pool (B @ C) k = of_pool B k + of_pool C k"
  by (simp_all add: of_pool_def)

lemma own_blocks_snoc:
  "length es = length qs \<Longrightarrow> own_blocks tnet k (qs @ [q]) (es @ [e]) = own_blocks tnet k qs es @ [(k, m_dbuf e), (lobuf_mpool tnet, q)]"
  by (induction qs es rule: list_induct2') auto

definition chain_made :: "mheap \<Rightarrow> addr list \<Rightarrow> mbuf list \<Rightarrow> nstate \<Rightarrow> bool" where
  "chain_made h qs es st \<longleftrightarrow> length es = length qs \<and> distinct qs \<and> 0 \<notin> set qs \<and> dom h \<inter> set qs = {} \<and> mbs st = h ++ linked qs es"

lemma chain_made_head:
  assumes "chain_made h (q # qs) (e # es) st"
  shows "mbs st q = Some (e\<lparr>m_next := (case qs of [] \<Rightarrow> 0 | q' # _ \<Rightarrow> q')\<rparr>)" "q \<noteq> 0" "q \<notin> set qs"
    "chain_made h qs es (st\<lparr>kst := s', mbs := (mbs st)(q := None)\<rparr>)"
proof -
  show "mbs st q = Some (e\<lparr>m_next := (case qs of [] \<Rightarrow> 0 | q' # _ \<Rightarrow> q')\<rparr>)" "q \<noteq> 0" "q \<notin> set qs"
    using assms by (auto simp: chain_made_def map_add_def)
  have k: "length es = length qs" "q \<notin> set qs" "h q = None" "mbs st = h ++ linked (q # qs) (e # es)"
    using assms by (auto simp: chain_made_def)
  have "((mbs st)(q := None)) r = (h ++ linked qs es) r" for r
    using k linked_None [OF k(1,2)] by (cases "r = q") (simp_all add: map_add_def)
  then show "chain_made h qs es (st\<lparr>kst := s', mbs := (mbs st)(q := None)\<rparr>)"
    using assms by (auto simp: chain_made_def fun_eq_iff)
qed

lemma chain_made_bytes [simp]: "chain_made h qs es (st\<lparr>bytes := m\<rparr>) = chain_made h qs es st"
  by (simp add: chain_made_def)

lemma m_free_own:
  assumes b: "mbs st q = Some b" "q \<noteq> 0" "own_buffer tnet k q b"
    and u: "task_ok (kst st)" "in_use ((k, m_dbuf b) # (lobuf_mpool tnet, q) # H) (kst st)"
  shows "\<exists>s'. m_free tnet q st = Some (m_next b, st\<lparr>kst := s', mbs := (mbs st)(q := None)\<rparr>) \<and> task_ok s' \<and> in_use H s' \<and>
    (\<forall>r. mset (free_blocks s' r) = of_pool [(k, m_dbuf b), (lobuf_mpool tnet, q)] r + mset (free_blocks (kst st) r))"
proof -
  let ?lo = "lobuf_mpool tnet"
  have o: "m_flags b AND M_DBHDR \<noteq> 0" "m_flags b AND M_ETHHDR = 0" "m_flags b AND M_NOALLOC = 0" "m_refcnt b = 1" "home_pool tnet (m_dbtype b) (m_dbuf b) = Some k" "well_placed tnet ?lo q"
    using b(3) by (simp_all add: own_buffer_def)
  have hm: "min_home tnet q = ?lo" by (rule lobuf_home [OF o(6)])
  have "m_dbuf b \<noteq> 0" using u(2) by (simp add: holds_Cons)
  then obtain s' where s': "m_free tnet q st = Some (m_next b, st\<lparr>kst := s', mbs := (mbs st)(q := None)\<rparr>)" "task_ok s'" "in_use H s'"
    "free_map s' = (let A = (free_map (kst st))(k := m_dbuf b # free_blocks (kst st) k) in A(?lo := q # A ?lo))"
    using task_buffers.m_free_primary [OF b(1,2), of tnet k H] o u unfolding m_free_def hm by auto
  moreover have "mset (free_blocks s' r) = of_pool [(k, m_dbuf b), (?lo, q)] r + mset (free_blocks (kst st) r)" for r
    using fun_cong [OF s'(4), of r] by (simp add: Let_def)
  ultimately show ?thesis by blast
qed

lemma own_not_INV: "own_buffer tnet k q e \<Longrightarrow> q \<noteq> INV_MEM"
  by (auto simp: own_buffer_def well_placed_def)

lemma m_freem_own:
  assumes "chain_made h qs es st" "list_all2 (own_buffer tnet k) qs es" "task_ok (kst st)" "in_use (own_blocks tnet k qs es @ H) (kst st)"
  shows "\<exists>st'. m_freem tnet (case qs of [] \<Rightarrow> 0 | q # _ \<Rightarrow> q) st = Some (0, st') \<and> mbs st' = h \<and> bytes st' = bytes st \<and>
    task_ok (kst st') \<and> in_use H (kst st') \<and>
    (\<forall>r. mset (free_blocks (kst st') r) = of_pool (own_blocks tnet k qs es) r + mset (free_blocks (kst st) r))"
  using assms
proof (induction qs arbitrary: es st)
  case Nil
  then show ?case using m_freem.simps [of tnet 0 st] by (simp add: chain_made_def)
next
  case (Cons q qs)
  obtain e es' where es: "es = e # es'" using Cons.prems(1) by (cases es) (auto simp: chain_made_def)
  let ?nx = "case qs of [] \<Rightarrow> 0 | q' # _ \<Rightarrow> q'"
  note h = chain_made_head [OF Cons.prems(1) [unfolded es]]
  have "own_buffer tnet k q (e\<lparr>m_next := ?nx\<rparr>)" using Cons.prems(2) by (simp add: es own_buffer_def)
  from m_free_own [OF h(1,2) this Cons.prems(3), of "own_blocks tnet k qs es' @ H"] Cons.prems(4) obtain s' where s':
    "m_free tnet q st = Some (?nx, st\<lparr>kst := s', mbs := (mbs st)(q := None)\<rparr>)" "task_ok s'" "in_use (own_blocks tnet k qs es' @ H) s'"
    "\<forall>r. mset (free_blocks s' r) = of_pool [(k, m_dbuf e), (lobuf_mpool tnet, q)] r + mset (free_blocks (kst st) r)"
    by (auto simp: es)
  let ?st = "st\<lparr>kst := s', mbs := (mbs st)(q := None)\<rparr>"
  have "list_all2 (own_buffer tnet k) qs es'" using Cons.prems(2) es by simp
  then obtain st' where st': "m_freem tnet ?nx ?st = Some (0, st')" "mbs st' = h" "bytes st' = bytes st" "task_ok (kst st')"
    "in_use H (kst st')" "\<forall>r. mset (free_blocks (kst st') r) = of_pool (own_blocks tnet k qs es') r + mset (free_blocks s' r)"
    using Cons.IH [of es' ?st] h(4) s'(2,3) by auto
  have "?nx \<noteq> INV_MEM" using Cons.prems(2) by (auto simp: es list_all2_Cons1 dest: own_not_INV split: list.split)
  then have "m_freem tnet q st = Some (0, st')" using h(2) s'(1) st'(1) by (subst m_freem.simps) simp
  then show ?case using st' s'(4) by (simp add: es)
qed

section \<open>Reading a chain\<close>

text \<open>\<open>m_read\<close> sets \<open>m_next\<close> of the second buffer to itself, frees it and uses it again.\<close>

lemma m_read_two:
  assumes "chain_made h (p # q # qs) (b # c # es) st" "list_all2 (own_buffer tnet k) (p # q # qs) (b # c # es)" "task_ok (kst st)"
    "in_use (own_blocks tnet k (p # q # qs) (b # c # es) @ H) (kst st)" "dst \<noteq> 0"
  shows "m_read tnet p dst st = None"
proof -
  note h1 = chain_made_head [OF assms(1)]
  have own: "own_buffer tnet k p (b\<lparr>m_next := q\<rparr>)" "own_buffer tnet k q (c\<lparr>m_next := q\<rparr>)" "q \<noteq> INV_MEM"
    using assms(2) own_not_INV by (auto simp: own_buffer_def)
  have q0: "q \<noteq> 0" using assms(1) by (auto simp: chain_made_def)
  have loop: "m_read_loop tnet q d n s = None"
    if s: "mbs s q = Some (c\<lparr>m_next := q\<rparr>)" "task_ok (kst s)" "in_use (own_blocks tnet k (q # qs) (c # es) @ H) (kst s)" for d n s
  proof (cases "copy_bytes (m_data c) d (m_len c) s")
    case (Some s1)
    then have "mbs s1 = mbs s" "kst s1 = kst s" by (auto simp: copy_bytes_def bind_eq_Some)
    with s obtain k' where "m_free tnet q s1 = Some (q, s1\<lparr>kst := k', mbs := (mbs s1)(q := None)\<rparr>)"
      using m_free_own [of s1 q "c\<lparr>m_next := q\<rparr>" tnet k "own_blocks tnet k qs es @ H"] own(2) q0 by auto
    then show ?thesis using s(1) q0 own(3) Some by (subst m_read_loop.simps) (simp add: deref_def free_or_panic_def set_mbuf_def)
  qed (use s(1) q0 in \<open>subst m_read_loop.simps; simp add: deref_def\<close>)
  have "m_read_loop tnet p dst 0 st = None"
  proof (cases "copy_bytes (m_data b) dst (m_len b) st")
    case (Some s1)
    then obtain m where s1: "s1 = st\<lparr>bytes := m\<rparr>" by (auto simp: copy_bytes_def bind_eq_Some)
    have "mbs s1 p = Some (b\<lparr>m_next := q\<rparr>)" using h1(1) by (simp add: s1)
    from m_free_own [OF this h1(2) own(1), of "own_blocks tnet k (q # qs) (c # es) @ H"] assms(3,4) obtain k' where
      k': "m_free tnet p s1 = Some (q, s1\<lparr>kst := k', mbs := (mbs s1)(p := None)\<rparr>)" "task_ok k'"
        "in_use (own_blocks tnet k (q # qs) (c # es) @ H) k'" by (auto simp: s1)
    have "\<exists>x. mbs (s1\<lparr>kst := k', mbs := (mbs s1)(p := None)\<rparr>) q = Some (c\<lparr>m_next := x\<rparr>)"
      using chain_made_head(1) [OF h1(4) [of k']] by (auto simp: s1)
    then obtain x where x: "((mbs s1)(p := None)) q = Some (c\<lparr>m_next := x\<rparr>)" by auto
    define s2 where "s2 = s1\<lparr>kst := k', mbs := (mbs s1)(p := None, q \<mapsto> c\<lparr>m_next := q\<rparr>)\<rparr>"
    have "m_read_loop tnet q (dst + word_of_int (m_len b)) (m_len b) s2 = None"
      using k' by (intro loop) (simp_all add: s2_def)
    then show ?thesis using h1(1,2) Some k'(1) own(3) q0 x
      by (subst m_read_loop.simps) (simp add: deref_def free_or_panic_def set_mbuf_def s2_def)
  qed (use h1(1,2) in \<open>subst m_read_loop.simps; simp add: deref_def\<close>)
  then show ?thesis using assms(5) by (simp add: m_read_def)
qed

section \<open>Filling a chain\<close>

lemma bytes_at_cong: "(\<And>i. i < n \<Longrightarrow> m (a + of_nat i) = m' (a + of_nat i)) \<Longrightarrow> bytes_at m a n = bytes_at m' a n"
  by (simp add: bytes_at_def)

lemma memmove_dst: "n \<le> 2 ^ 32 \<Longrightarrow> bytes_at (memmove m d s n) d n = bytes_at m s n"
  using unat_of_nat_u32 by (auto simp: bytes_at_def memmove_def)

lemma chain_made_snoc:
  assumes c: "chain_made h qs es st" and t: "t \<noteq> 0" "t \<notin> set qs" "h t = None" and f: "m_next f = 0"
    and st': "mbs st' = (if qs = [] then mbs st else (mbs st)(last qs \<mapsto> (last es)\<lparr>m_next := t\<rparr>))(t \<mapsto> f)"
  shows "chain_made h (qs @ [t]) (es @ [f]) st'"
proof -
  have k: "length es = length qs" "distinct qs" "mbs st = h ++ linked qs es" using c by (auto simp: chain_made_def)
  have "f\<lparr>m_next := 0\<rparr> = f" using f by (cases f) simp
  then have "mbs st' = h ++ linked (qs @ [t]) (es @ [f])"
    using linked_snoc [OF k(1,2) t(2), of f] by (simp add: st' k(3) split: if_splits)
  then show ?thesis using c t by (auto simp: chain_made_def)
qed

lemma chain_made_last:
  assumes "chain_made h qs es st" "qs \<noteq> []"
  shows "mbs st (last qs) = Some ((last es)\<lparr>m_next := 0\<rparr>)" "last qs \<noteq> 0" "last qs \<in> set qs"
proof -
  show "mbs st (last qs) = Some ((last es)\<lparr>m_next := 0\<rparr>)" using assms linked_last [of es qs] by (simp add: chain_made_def map_add_def)
  show "last qs \<in> set qs" using assms(2) by simp
  then show "last qs \<noteq> 0" using assms(1) by (auto simp: chain_made_def)
qed

text \<open>The 128 bytes at \<open>a\<close>, memory that no data buffer of a pool overlaps, and pools of disjoint data buffers.\<close>

definition in_area :: "addr \<Rightarrow> addr \<Rightarrow> bool" where
  "in_area x a \<longleftrightarrow> unat (x - a) < 128"

definition areas_ok :: "addr set \<Rightarrow> bool" where
  "areas_ok F \<longleftrightarrow> (\<forall>a \<in> F. unat a + 128 \<le> 2 ^ 32) \<and> (\<forall>a \<in> F. \<forall>b \<in> F. \<forall>x. in_area x a \<longrightarrow> in_area x b \<longrightarrow> a = b)"

definition outside :: "addr set \<Rightarrow> addr \<Rightarrow> nat \<Rightarrow> bool" where
  "outside F p n \<longleftrightarrow> unat p + n \<le> 2 ^ 32 \<and> (\<forall>i < n. \<forall>a \<in> F. \<not> in_area (p + of_nat i) a)"

lemma outside_add:
  assumes "outside F p (i + n)"
  shows "outside F p i" "outside F (p + of_nat i) n"
proof -
  show "outside F p i" using assms by (auto simp: outside_def)
  show "outside F (p + of_nat i) n"
  proof (cases "n = 0")
    case False
    then have "unat p + i < 2 ^ 32" using assms by (auto simp: outside_def)
    then have "unat (p + of_nat i) = unat p + i"
      using unat_add_small [of p "of_nat i"] unat_of_nat_u32 [of i] by simp
    moreover have "\<not> in_area (p + of_nat i + of_nat j) a" if "j < n" "a \<in> F" for j a
      using assms that unfolding outside_def by (metis add.assoc nat_add_left_cancel_less of_nat_add)
    ultimately show ?thesis using assms by (auto simp: outside_def)
  qed (use unat_u32_less [of "p + of_nat i"] in \<open>simp add: outside_def\<close>)
qed

lemma outside_mono: "outside F p n \<Longrightarrow> G \<subseteq> F \<Longrightarrow> outside G p n"
  by (auto simp: outside_def)

lemma areas_ok_mono: "areas_ok F \<Longrightarrow> G \<subseteq> F \<Longrightarrow> areas_ok G"
  unfolding areas_ok_def by (meson subsetD)

lemma memmove_outside:
  assumes "outside F p k" "d \<in> F" "n \<le> 128"
  shows "bytes_at (memmove m d s n) p k = bytes_at m p k"
proof (rule bytes_at_cong)
  fix i assume "i < k"
  then have "\<not> in_area (p + of_nat i) d" using assms(1,2) by (simp add: outside_def)
  then show "memmove m d s n (p + of_nat i) = m (p + of_nat i)" using assms(3) by (simp add: in_area_def memmove_def)
qed

lemma fill_copy:
  assumes "outside F p n" "d \<in> F" "areas_ok F" "n \<le> 128" "int n = l"
  shows "copy_bytes p d l st = Some (st\<lparr>bytes := memmove (bytes st) d p n\<rparr>)"
proof -
  have "unat (word_of_int l :: u32) = n" using assms(4,5) unat_of_nat_u32 [of n] by auto
  moreover have "unat p + n \<le> 2 ^ 32" "unat d + n \<le> 2 ^ 32" using assms by (auto simp: outside_def areas_ok_def)
  ultimately show ?thesis by (simp add: copy_bytes_def bcopy_memmove)
qed

subsection \<open>One more buffer\<close>

definition pools_wf :: "tn_net \<Rightarrow> mheap \<Rightarrow> kstate \<Rightarrow> bool" where
  "pools_wf tnet h s \<longleftrightarrow> (\<forall>k \<in> net_pools tnet. open_pool k s) \<and>
     (\<forall>k. \<forall>a \<in> set (free_blocks s k). well_placed tnet k a \<and> h a = None)"

lemma pools_wf_net: "net_wf tnet st \<longleftrightarrow> pools_wf tnet (mbs st) (kst st)"
  by (simp add: net_wf_def pools_wf_def)

lemma own_blocks_mem: "length es = length qs \<Longrightarrow> q \<in> set qs \<Longrightarrow> (lobuf_mpool tnet, q) \<in> set (own_blocks tnet k qs es)"
  by (induction qs es rule: list_induct2') auto

text \<open>What is there when no buffer can be had: too few descriptors, or too few data buffers.\<close>

definition short_of :: "tn_net \<Rightarrow> fid \<Rightarrow> nat \<Rightarrow> kstate \<Rightarrow> bool" where
  "short_of tnet kd n s \<longleftrightarrow> lobuf_mpool tnet = kd \<or> 128 * length (free_blocks s (lobuf_mpool tnet)) < n \<or>
     128 * length (free_blocks s kd) < n"

lemma short_of_cong: "(\<And>k. free_blocks s k = free_blocks s' k) \<Longrightarrow> short_of tnet kd n s = short_of tnet kd n s'"
  by (simp add: short_of_def)

lemma short_of_step:
  assumes "short_of tnet kd (n - min 128 n) s'" "n \<noteq> 0"
    "\<forall>r. mset (free_blocks s r) = of_pool [(kd, d), (lobuf_mpool tnet, p)] r + mset (free_blocks s' r)"
  shows "short_of tnet kd n s"
proof (cases "lobuf_mpool tnet = kd")
  case False
  have "size (mset (free_blocks s (lobuf_mpool tnet))) = Suc (length (free_blocks s' (lobuf_mpool tnet)))"
    "size (mset (free_blocks s kd)) = Suc (length (free_blocks s' kd))" using False assms(3) by simp_all
  then show ?thesis using assms(1,2) False by (auto simp: short_of_def)
qed (simp add: short_of_def)

lemma mb_get_chain:
  assumes c: "chain_made h qs es st" "task_ok (kst st)" "in_use (own_blocks tnet kd qs es) (kst st)" "pools_wf tnet h (kst st)"
    and kd: "kd = data_pool tnet MB_MID1 tx"
  shows "(\<exists>st'. mb_get tnet MB_MID1 MB_NOWAIT tx st = Some (0, st') \<and> chain_made h qs es st' \<and> task_ok (kst st') \<and>
      in_use (own_blocks tnet kd qs es) (kst st') \<and> free_map (kst st') = free_map (kst st) \<and> (0 < n \<longrightarrow> short_of tnet kd n (kst st))) \<or>
    (\<exists>p d s'. mb_get tnet MB_MID1 MB_NOWAIT tx st = Some (p, st\<lparr>kst := s', mbs := (mbs st)(p \<mapsto> new_mbuf p d 1)\<rparr>) \<and>
      p \<noteq> 0 \<and> p \<notin> set qs \<and> h p = None \<and> own_buffer tnet kd p (new_mbuf p d 1) \<and> task_ok s' \<and>
      in_use (own_blocks tnet kd qs es @ [(kd, d), (lobuf_mpool tnet, p)]) s' \<and> pools_wf tnet h s' \<and>
      (\<forall>r. mset (free_blocks (kst st) r) = of_pool [(kd, d), (lobuf_mpool tnet, p)] r + mset (free_blocks s' r)))"
proof -
  let ?lo = "lobuf_mpool tnet"
  have l: "length es = length qs" and m: "mbs st = h ++ linked qs es" using c(1) by (auto simp: chain_made_def)
  have nq: "a \<notin> set qs" if "a \<in> set (free_blocks (kst st) k)" for a k
    using c(3) own_blocks_mem [OF l, of a tnet kd] that unfolding holds_def by (metis snd_conv)
  have nw: "net_wf tnet st" unfolding pools_wf_net pools_wf_def
  proof (intro conjI ballI allI)
    fix k a assume a: "a \<in> set (free_blocks (kst st) k)"
    then show "well_placed tnet k a" "mbs st a = None"
      using c(4) linked_None [OF l nq [OF a]] by (auto simp: pools_wf_def m map_add_def)
  qed (use c(4) in \<open>simp add: pools_wf_def\<close>)
  note g = task_buffers.mb_get_ok [OF c(2,3) nw, of MB_MID1 tx, folded mb_get_def kd]
  have "(1 :: int) \<in> {0, 1, 2}" by simp
  from g [OF this] show ?thesis
  proof (rule disjE; elim exE conjE)
    fix st' assume "mb_get tnet MB_MID1 MB_NOWAIT tx st = Some (0, st')" "task_ok (kst st')" "in_use (own_blocks tnet kd qs es) (kst st')"
      "free_map (kst st') = free_map (kst st)" "mbs st' = mbs st"
      and e: "free_blocks (kst st) ?lo = [] \<or> ((free_map (kst st))(?lo := tl (free_blocks (kst st) ?lo))) kd = []"
    moreover have "0 < n \<longrightarrow> short_of tnet kd n (kst st)" using e by (auto simp: short_of_def split: if_splits)
    ultimately show ?thesis using c(1) by (intro disjI1 exI [of _ st']) (simp add: chain_made_def)
  next
    fix p d s' A
    assume g: "mb_get tnet MB_MID1 MB_NOWAIT tx st = Some (p, st\<lparr>kst := s', mbs := (mbs st)(p \<mapsto> new_mbuf p d 1)\<rparr>)" "p \<noteq> 0" "task_ok s'"
      "in_use ((kd, d) # (?lo, p) # own_blocks tnet kd qs es) s'" "(\<lambda>q. open_pool q s') = (\<lambda>q. open_pool q (kst st))"
      and A: "free_map (kst st) = A(?lo := p # A ?lo)" "A = (free_map s')(kd := d # free_map s' kd)"
    have fm: "mset (free_blocks (kst st) r) = of_pool [(kd, d), (?lo, p)] r + mset (free_blocks s' r)" for r
      using fun_cong [OF A(1), of r] unfolding A(2) by simp
    then have sub: "set (free_blocks s' r) \<subseteq> set (free_blocks (kst st) r)" for r by (metis set_mset_mset set_mset_union Un_upper2)
    have "pools_wf tnet h s'" using c(4) sub fun_cong [OF g(5)] unfolding pools_wf_def by blast
    moreover have pd: "p \<in> set (free_blocks (kst st) ?lo)" "d \<in> set (free_blocks (kst st) kd)"
      using fm [of ?lo] fm [of kd] by (auto simp flip: set_mset_mset split: if_splits)
    moreover have "own_buffer tnet kd p (new_mbuf p d 1)"
      using c(4) pd home_of_data_pool [of 1 tnet tx d] unfolding own_buffer_def pools_wf_def kd by auto
    moreover have "in_use (own_blocks tnet kd qs es @ [(kd, d), (?lo, p)]) s'" by (rule holds_perm [OF g(4)]) simp
    moreover have "h p = None" "p \<notin> set qs" using c(4) pd(1) nq by (auto simp: pools_wf_def)
    ultimately show ?thesis using g(1-3) fm by blast
  qed
qed

subsection \<open>The loop\<close>

definition filled :: "tn_net \<Rightarrow> fid \<Rightarrow> mheap \<Rightarrow> addr list \<Rightarrow> mbuf list \<Rightarrow> nstate \<Rightarrow> bool" where
  "filled tnet kd h qs es st \<longleftrightarrow> chain_made h qs es st \<and> list_all2 (own_buffer tnet kd) qs es \<and> task_ok (kst st) \<and>
     in_use (own_blocks tnet kd qs es) (kst st)"

lemma fill_step:
  assumes c: "filled tnet kd h qs es st" "pools_wf tnet h (kst st)" and kd: "kd = data_pool tnet MB_MID1 tx"
    and F: "areas_ok (set (free_blocks (kst st) kd))" "outside (set (free_blocks (kst st) kd)) ptr n" "n \<le> 128"
    and g: "mb_get tnet MB_MID1 MB_NOWAIT tx st = Some (p, st\<lparr>kst := s', mbs := (mbs st)(p \<mapsto> new_mbuf p d 1)\<rparr>)"
      "p \<noteq> 0" "p \<notin> set qs" "h p = None" "own_buffer tnet kd p (new_mbuf p d 1)" "task_ok s'"
      "in_use (own_blocks tnet kd qs es @ [(kd, d), (lobuf_mpool tnet, p)]) s'"
      "\<forall>r. mset (free_blocks (kst st) r) = of_pool [(kd, d), (lobuf_mpool tnet, p)] r + mset (free_blocks s' r)"
    and f: "f = (new_mbuf p d 1)\<lparr>m_len := int n\<rparr>"
  shows "\<exists>st2. filled tnet kd h (qs @ [p]) (es @ [f]) st2 \<and> kst st2 = s' \<and> bytes st2 = memmove (bytes st) d ptr n \<and>
    do { b \<leftarrow> deref p (st\<lparr>kst := s', mbs := (mbs st)(p \<mapsto> new_mbuf p d 1)\<rparr>);
         st \<leftarrow> copy_bytes ptr (m_data b) (int n) (st\<lparr>kst := s', mbs := (mbs st)(p \<mapsto> new_mbuf p d 1)\<rparr>);
         st \<leftarrow> set_mbuf p (\<lambda>b. b\<lparr>m_len := to_short (int n)\<rparr>) st;
         if qs = [] then Some st else set_mbuf (last qs) (\<lambda>b. b\<lparr>m_next := p\<rparr>) st } = Some st2"
proof -
  let ?F = "set (free_blocks (kst st) kd)"
  have cm: "chain_made h qs es st" "list_all2 (own_buffer tnet kd) qs es" using c(1) by (auto simp: filled_def)
  have d: "d \<in> ?F" using g(8) by (auto simp flip: set_mset_mset)
  let ?st = "st\<lparr>kst := s', mbs := (mbs st)(p \<mapsto> new_mbuf p d 1)\<rparr>"
  have cp: "copy_bytes ptr d (int n) ?st = Some (?st\<lparr>bytes := memmove (bytes st) d ptr n\<rparr>)"
    using fill_copy [OF F(2) d F(1,3) refl, of ?st] by simp
  define st2 where "st2 = st\<lparr>kst := s', bytes := memmove (bytes st) d ptr n,
    mbs := (if qs = [] then mbs st else (mbs st)(last qs \<mapsto> (last es)\<lparr>m_next := p\<rparr>))(p \<mapsto> f)\<rparr>"
  have "chain_made h (qs @ [p]) (es @ [f]) st2"
    by (rule chain_made_snoc [OF cm(1) g(2,3,4)]) (simp_all add: f st2_def)
  moreover have "list_all2 (own_buffer tnet kd) (qs @ [p]) (es @ [f])"
    using cm(2) g(5) by (simp add: list_all2_appendI own_buffer_def f)
  moreover have "in_use (own_blocks tnet kd (qs @ [p]) (es @ [f])) s'"
    using g(7) cm(1) own_blocks_snoc [of es qs tnet kd p f] by (simp add: chain_made_def f)
  ultimately have fl: "filled tnet kd h (qs @ [p]) (es @ [f]) st2" using g(6) by (simp add: filled_def st2_def)
  have "n < 32768" using F(3) by simp
  then have "do { b \<leftarrow> deref p ?st; st \<leftarrow> copy_bytes ptr (m_data b) (int n) ?st; st \<leftarrow> set_mbuf p (\<lambda>b. b\<lparr>m_len := to_short (int n)\<rparr>) st;
         if qs = [] then Some st else set_mbuf (last qs) (\<lambda>b. b\<lparr>m_next := p\<rparr>) st } = Some st2"
    using cp g(2,3) chain_made_last [OF cm(1)]
    by (auto simp: deref_def set_mbuf_def st2_def f fun_upd_twist)
  with fl show ?thesis by (intro exI [of _ st2]) (simp add: st2_def)
qed

abbreviation first_of :: "addr list \<Rightarrow> addr" where
  "first_of qs \<equiv> (case qs of [] \<Rightarrow> 0 | q # _ \<Rightarrow> q)"

abbreviation last_of :: "addr list \<Rightarrow> addr" where
  "last_of qs \<equiv> (if qs = [] then 0 else last qs)"

lemma fill_loop:
  assumes "filled tnet kd h qs es st" "pools_wf tnet h (kst st)" "kd = data_pool tnet MB_MID1 tx"
    "areas_ok (set (free_blocks (kst st) kd))" "outside (set (free_blocks (kst st) kd)) ptr n"
  shows "(\<exists>st'. buf_to_mbuf_loop tnet tx (first_of qs) (last_of qs) ptr (int n) st = Some (None, st') \<and> mbs st' = h \<and> task_ok (kst st') \<and>
      short_of tnet kd n (kst st) \<and> (\<forall>r. mset (free_blocks (kst st') r) = of_pool (own_blocks tnet kd qs es) r + mset (free_blocks (kst st) r))) \<or>
    (\<exists>ts fs st'. buf_to_mbuf_loop tnet tx (first_of qs) (last_of qs) ptr (int n) st = Some (Some (first_of (qs @ ts)), st') \<and>
      filled tnet kd h (qs @ ts) (es @ fs) st' \<and> (128 * length ts < n + 128 \<and> n \<le> 128 * length ts) \<and>
      (\<forall>r. of_pool (own_blocks tnet kd qs es) r + mset (free_blocks (kst st) r) =
         of_pool (own_blocks tnet kd (qs @ ts) (es @ fs)) r + mset (free_blocks (kst st') r)) \<and>
      (\<forall>x. (\<forall>a \<in> set (free_blocks (kst st) kd). \<not> in_area x a) \<longrightarrow> bytes st' x = bytes st x) \<and>
      concat (map (mbuf_data (bytes st')) fs) = bytes_at (bytes st) ptr n)"
  using assms
proof (induction n arbitrary: qs es st ptr rule: less_induct)
  case (less n)
  let ?F = "set (free_blocks (kst st) kd)" and ?lo = "lobuf_mpool tnet"
  note unf = buf_to_mbuf_loop.simps [of tnet tx "first_of qs" "last_of qs" ptr "int n" st]
  have c: "chain_made h qs es st" "list_all2 (own_buffer tnet kd) qs es" "task_ok (kst st)" "in_use (own_blocks tnet kd qs es) (kst st)"
    using less.prems(1) by (auto simp: filled_def)
  show ?case
  proof (cases "n = 0")
    case True
    then have "buf_to_mbuf_loop tnet tx (first_of qs) (last_of qs) ptr (int n) st = Some (Some (first_of (qs @ [])), st)"
      by (subst unf) simp
    moreover have "filled tnet kd h (qs @ []) (es @ []) st" "concat (map (mbuf_data (bytes st)) []) = bytes_at (bytes st) ptr n"
      using less.prems(1) True by simp_all
    ultimately show ?thesis using True
      by (intro disjI2 exI [of _ "[]"] exI [of _ "[]"] exI [of _ st]) simp
  next
    case n0: False
    consider (none) st' where "mb_get tnet MB_MID1 MB_NOWAIT tx st = Some (0, st')" "chain_made h qs es st'" "task_ok (kst st')"
        "in_use (own_blocks tnet kd qs es) (kst st')" "free_map (kst st') = free_map (kst st)" "short_of tnet kd n (kst st)"
      | (some) p d s' where "mb_get tnet MB_MID1 MB_NOWAIT tx st = Some (p, st\<lparr>kst := s', mbs := (mbs st)(p \<mapsto> new_mbuf p d 1)\<rparr>)"
        "p \<noteq> 0" "p \<notin> set qs" "h p = None" "own_buffer tnet kd p (new_mbuf p d 1)" "task_ok s'"
        "in_use (own_blocks tnet kd qs es @ [(kd, d), (?lo, p)]) s'"
        "\<forall>r. mset (free_blocks (kst st) r) = of_pool [(kd, d), (?lo, p)] r + mset (free_blocks s' r)" "pools_wf tnet h s'"
      using mb_get_chain [OF c(1,3,4) less.prems(2,3), of n] n0 by blast
    then show ?thesis
    proof cases
      case none
      obtain st2 where st2: "m_freem tnet (first_of qs) st' = Some (0, st2)" "mbs st2 = h" "task_ok (kst st2)"
        "\<forall>r. mset (free_blocks (kst st2) r) = of_pool (own_blocks tnet kd qs es) r + mset (free_blocks (kst st') r)"
        using m_freem_own [OF none(2) c(2) none(3), of "[]"] none(4) by auto
      have "(if first_of qs \<noteq> 0 then freem_or_panic tnet (first_of qs) st' else Some st') = Some st2"
        using st2(1) m_freem.simps [of tnet 0 st'] by (auto simp: freem_or_panic_def)
      then have "buf_to_mbuf_loop tnet tx (first_of qs) (last_of qs) ptr (int n) st = Some (None, st2)"
        using n0 none(1) by (subst unf) (simp add: Let_def del: if_split)
      moreover have "free_blocks (kst st') r = free_blocks (kst st) r" for r using fun_cong [OF none(5), of r] .
      ultimately show ?thesis using st2 none(6) by auto
    next
      case some
      define k where "k = min 128 n"
      have k: "k \<le> 128" "k \<le> n" "n - k < n" "min TNNET_MID1_BUF_SIZE (int n) = int k" "int n - int k = int (n - k)"
        using n0 by (auto simp: k_def)
      have nk: "n = k + (n - k)" using k(2) by simp
      have os: "outside ?F ptr k" "outside ?F (ptr + of_nat k) (n - k)"
        using outside_add [of ?F ptr k "n - k"] less.prems(5) nk by simp_all
      define f where "f = (new_mbuf p d 1)\<lparr>m_len := int k\<rparr>"
      let ?st = "st\<lparr>kst := s', mbs := (mbs st)(p \<mapsto> new_mbuf p d 1)\<rparr>"
      obtain st2 b sa sb where st2: "filled tnet kd h (qs @ [p]) (es @ [f]) st2" "kst st2 = s'" "bytes st2 = memmove (bytes st) d ptr k"
        "deref p ?st = Some b" "copy_bytes ptr (m_data b) (int k) ?st = Some sa"
        "set_mbuf p (\<lambda>b. b\<lparr>m_len := to_short (int k)\<rparr>) sa = Some sb"
        "(if qs = [] then Some sb else set_mbuf (last qs) (\<lambda>b. b\<lparr>m_next := p\<rparr>) sb) = Some st2"
        using fill_step [OF less.prems(1-4) os(1) k(1) some(1-8) f_def] unfolding bind_eq_Some by blast
      have lz: "last_of qs = 0 \<longleftrightarrow> qs = []" using chain_made_last(2) [OF c(1)] by auto
      have fo: "(if last_of qs = 0 then p else first_of qs) = first_of (qs @ [p])" using lz by (cases qs) auto
      have li: "(if last_of qs = 0 then Some sb else set_mbuf (last_of qs) (\<lambda>b. b\<lparr>m_next := p\<rparr>) sb) = Some st2"
        using st2(7) lz by (simp split: if_splits)
      have loop: "buf_to_mbuf_loop tnet tx (first_of qs) (last_of qs) ptr (int n) st
          = buf_to_mbuf_loop tnet tx (first_of (qs @ [p])) (last_of (qs @ [p])) (ptr + of_nat k) (int (n - k)) st2"
        using n0 some(1,2) st2(4,5,6) li fo unfolding unf by (simp add: Let_def k(4,5) del: if_split)
      have F': "set (free_blocks s' kd) \<subseteq> ?F" "d \<in> ?F" using some(8) by (auto simp flip: set_mset_mset)
      have dF: "d \<notin> set (free_blocks s' kd)" using some(7) by (auto simp: holds_def)
      have ao: "areas_ok (set (free_blocks (kst st2) kd))" using areas_ok_mono [OF less.prems(4) F'(1)] by (simp add: st2(2))
      have oo: "outside (set (free_blocks (kst st2) kd)) (ptr + of_nat k) (n - k)"
        using outside_mono [OF os(2) F'(1)] by (simp add: st2(2))
      have pw: "pools_wf tnet h (kst st2)" using some(9) st2(2) by simp
      note IH = less.IH [OF k(3) st2(1) pw less.prems(3) ao oo]
      show ?thesis
      proof (rule disjE [OF IH]; elim exE conjE)
        fix st' assume "buf_to_mbuf_loop tnet tx (first_of (qs @ [p])) (last_of (qs @ [p])) (ptr + of_nat k) (int (n - k)) st2 = Some (None, st')"
          "mbs st' = h" "task_ok (kst st')" and sh: "short_of tnet kd (n - k) (kst st2)" and
          "\<forall>r. mset (free_blocks (kst st') r) = of_pool (own_blocks tnet kd (qs @ [p]) (es @ [f])) r + mset (free_blocks (kst st2) r)"
        moreover have "short_of tnet kd n (kst st)" using short_of_step [OF _ n0 some(8)] sh by (simp add: st2(2) k_def)
        ultimately show ?thesis using some(8) c(1) own_blocks_snoc [of es qs tnet kd p f]
          by (intro disjI1 exI [of _ st']) (auto simp: loop st2(2) chain_made_def f_def)
      next
        fix ts fs st'
        assume r: "buf_to_mbuf_loop tnet tx (first_of (qs @ [p])) (last_of (qs @ [p])) (ptr + of_nat k) (int (n - k)) st2
            = Some (Some (first_of ((qs @ [p]) @ ts)), st')" "filled tnet kd h ((qs @ [p]) @ ts) ((es @ [f]) @ fs) st'"
          and len: "128 * length ts < n - k + 128" "n - k \<le> 128 * length ts"
          and acc: "\<forall>r. of_pool (own_blocks tnet kd (qs @ [p]) (es @ [f])) r + mset (free_blocks (kst st2) r) =
            of_pool (own_blocks tnet kd ((qs @ [p]) @ ts) ((es @ [f]) @ fs)) r + mset (free_blocks (kst st') r)"
          and pres: "\<forall>x. (\<forall>a \<in> set (free_blocks (kst st2) kd). \<not> in_area x a) \<longrightarrow> bytes st' x = bytes st2 x"
          and data: "concat (map (mbuf_data (bytes st')) fs) = bytes_at (bytes st2) (ptr + of_nat k) (n - k)"
        have keep: "bytes st' x = bytes st x" if "\<forall>a \<in> ?F. \<not> in_area x a" for x
        proof -
          have "\<not> in_area x d" "\<forall>a \<in> set (free_blocks (kst st2) kd). \<not> in_area x a" using that F' by (auto simp: st2(2))
          with pres show ?thesis using k(1) by (simp add: st2(3) memmove_def in_area_def)
        qed
        have "bytes st' (d + of_nat i) = bytes st2 (d + of_nat i)" if "i < k" for i
        proof -
          have "in_area (d + of_nat i) d" using that k(1) unat_of_nat_u32 [of i] by (simp add: in_area_def)
          then have "\<not> in_area (d + of_nat i) a" if "a \<in> set (free_blocks s' kd)" for a
            using less.prems(4) F' dF that unfolding areas_ok_def by (metis subsetD)
          with pres show ?thesis by (simp add: st2(2))
        qed
        then have "bytes_at (bytes st') d k = bytes_at (bytes st2) d k" by (rule bytes_at_cong)
        then have "mbuf_data (bytes st') f = bytes_at (bytes st2) d k" by (simp add: mbuf_data_def f_def)
        also have "\<dots> = bytes_at (bytes st) ptr k" using k(1) memmove_dst [of k "bytes st" d ptr] by (simp add: st2(3))
        finally have "concat (map (mbuf_data (bytes st')) (f # fs)) = bytes_at (bytes st) ptr k @ bytes_at (bytes st) (ptr + of_nat k) (n - k)"
          using data memmove_outside [OF os(2) F'(2) k(1), of "bytes st" ptr] by (simp add: st2(3))
        then have "concat (map (mbuf_data (bytes st')) (f # fs)) = bytes_at (bytes st) ptr n"
          using bytes_at_add [of "bytes st" ptr k "n - k"] nk by simp
        moreover have "of_pool (own_blocks tnet kd qs es) r + mset (free_blocks (kst st) r) =
            of_pool (own_blocks tnet kd (qs @ p # ts) (es @ f # fs)) r + mset (free_blocks (kst st') r)" for r
          using acc some(8) c(1) own_blocks_snoc [of es qs tnet kd p f] by (simp add: st2(2) chain_made_def f_def add.assoc)
        moreover have "128 * length (p # ts) < n + 128 \<and> n \<le> 128 * length (p # ts)" using len n0 by (cases "n \<le> 128") (auto simp: k_def)
        ultimately show ?thesis using r keep
          by (intro disjI2 exI [of _ "p # ts"] exI [of _ "f # fs"] exI [of _ st']) (simp add: loop)
      qed
    qed
  qed
qed

text \<open>The first descriptor gets the packet header.\<close>

lemma filled_head:
  assumes f: "filled tnet kd h (q # qs) (e # es) st" and e: "e' = e\<lparr>m_flags := m_flags e OR M_PKTHDR, m_tlen := t\<rparr>"
  shows "\<exists>b. mbs st q = Some b \<and> q \<noteq> 0 \<and> b\<lparr>m_flags := m_flags b OR M_PKTHDR, m_tlen := t\<rparr> = e'\<lparr>m_next := m_next b\<rparr> \<and>
    filled tnet kd h (q # qs) (e' # es) (st\<lparr>mbs := (mbs st)(q \<mapsto> b\<lparr>m_flags := m_flags b OR M_PKTHDR, m_tlen := t\<rparr>)\<rparr>)"
proof -
  let ?nx = "case qs of [] \<Rightarrow> 0 | q' # _ \<Rightarrow> q'"
  have c: "chain_made h (q # qs) (e # es) st" using f by (simp add: filled_def)
  note hd = chain_made_head [OF c]
  let ?b = "e\<lparr>m_next := ?nx\<rparr>"
  have b': "?b\<lparr>m_flags := m_flags ?b OR M_PKTHDR, m_tlen := t\<rparr> = e'\<lparr>m_next := ?nx\<rparr>" by (simp add: e)
  have "((mbs st)(q \<mapsto> e'\<lparr>m_next := ?nx\<rparr>)) = h ++ linked (q # qs) (e' # es)"
    using c by (auto simp: chain_made_def map_add_def fun_eq_iff)
  then have "chain_made h (q # qs) (e' # es) (st\<lparr>mbs := (mbs st)(q \<mapsto> e'\<lparr>m_next := ?nx\<rparr>)\<rparr>)"
    using c by (simp add: chain_made_def)
  moreover have "own_buffer tnet kd q e'" using f by (simp add: filled_def own_buffer_def e bit.conj_disj_distrib2)
  moreover have "own_blocks tnet kd (q # qs) (e' # es) = own_blocks tnet kd (q # qs) (e # es)" by (simp add: e)
  ultimately have "filled tnet kd h (q # qs) (e' # es) (st\<lparr>mbs := (mbs st)(q \<mapsto> e'\<lparr>m_next := ?nx\<rparr>)\<rparr>)" using f by (simp add: filled_def)
  then show ?thesis using hd(1,2) b' by (intro exI [of _ ?b]) simp
qed

lemma filled_chain:
  assumes f: "filled tnet kd h qs es st" "qs \<noteq> []"
  shows "mchain (mbs st) (hd qs) qs" "chain_data (mbs st) m qs = concat (map (mbuf_data m) es)" "\<And>r. r \<notin> set qs \<Longrightarrow> mbs st r = h r"
proof -
  have c: "length es = length qs" "distinct qs" "0 \<notin> set qs" "mbs st = h ++ linked qs es"
    using f by (auto simp: filled_def chain_made_def)
  have "mbs st x = linked qs es x" if "x \<in> set qs" for x
  proof -
    from that have "x \<in> dom (linked qs es)" using c(1) by simp
    then show ?thesis by (auto simp: c(4) map_add_def)
  qed
  note lc = linked_chain [where h = "mbs st", OF c(1,2,3) f(2) this]
  show "mchain (mbs st) (hd qs) qs" "chain_data (mbs st) m qs = concat (map (mbuf_data m) es)" by (rule lc, assumption)+
  show "mbs st r = h r" if "r \<notin> set qs" for r using linked_None [OF c(1) that] by (simp add: c(4) map_add_def)
qed

text \<open>The whole function: it fails and has changed nothing, or returns a chain of its own.\<close>

lemma buf_to_mbuf_ok:
  assumes u: "task_ok (kst st)" "net_wf tnet st" "kd = data_pool tnet MB_MID1 tx"
    "areas_ok (set (free_blocks (kst st) kd))" "outside (set (free_blocks (kst st) kd)) buf n" "n \<noteq> 0"
  shows "(\<exists>st'. buf_to_mbuf tnet buf (int n) tx st = Some (0, st') \<and> mbs st' = mbs st \<and> task_ok (kst st') \<and>
      short_of tnet kd n (kst st) \<and> (\<forall>r. mset (free_blocks (kst st') r) = mset (free_blocks (kst st) r))) \<or>
    (\<exists>qs es st'. buf_to_mbuf tnet buf (int n) tx st = Some (hd qs, st') \<and> filled tnet kd (mbs st) qs es st' \<and>
      128 * length qs < n + 128 \<and> n \<le> 128 * length qs \<and> concat (map (mbuf_data (bytes st')) es) = bytes_at (bytes st) buf n \<and>
      m_flags (the (mbs st' (hd qs))) AND M_PKTHDR \<noteq> 0 \<and> m_tlen (the (mbs st' (hd qs))) = to_bits 20 (int n) \<and>
      (\<forall>r. mset (free_blocks (kst st) r) = of_pool (own_blocks tnet kd qs es) r + mset (free_blocks (kst st') r)))"
proof -
  have "filled tnet kd (mbs st) [] [] st" using u(1) by (simp add: filled_def chain_made_def holds_def)
  note L = fill_loop [OF this _ u(3,4,5)]
  have "pools_wf tnet (mbs st) (kst st)" using u(2) by (simp add: pools_wf_net)
  from L [OF this] show ?thesis
  proof (rule disjE; elim exE conjE)
    fix st' assume "buf_to_mbuf_loop tnet tx (first_of []) (last_of []) buf (int n) st = Some (None, st')" "mbs st' = mbs st" "task_ok (kst st')" "short_of tnet kd n (kst st)"
      "\<forall>r. mset (free_blocks (kst st') r) = of_pool (own_blocks tnet kd [] []) r + mset (free_blocks (kst st) r)"
    then show ?thesis by (intro disjI1 exI [of _ st']) (simp add: buf_to_mbuf_def)
  next
    fix qs es st1 assume r: "buf_to_mbuf_loop tnet tx (first_of []) (last_of []) buf (int n) st = Some (Some (first_of ([] @ qs)), st1)"
      "filled tnet kd (mbs st) ([] @ qs) ([] @ es) st1" "128 * length qs < n + 128" "n \<le> 128 * length qs"
      "concat (map (mbuf_data (bytes st1)) es) = bytes_at (bytes st) buf n"
      and acc: "\<forall>r. of_pool (own_blocks tnet kd [] []) r + mset (free_blocks (kst st) r) =
         of_pool (own_blocks tnet kd ([] @ qs) ([] @ es)) r + mset (free_blocks (kst st1) r)"
    obtain q qs' where qs: "qs = q # qs'" using r(4) u(6) by (cases qs) auto
    obtain e es' where es: "es = e # es'" using r(2) qs by (cases es) (auto simp: filled_def chain_made_def)
    define e' where "e' = e\<lparr>m_flags := m_flags e OR M_PKTHDR, m_tlen := to_bits 20 (int n)\<rparr>"
    obtain b where b: "mbs st1 q = Some b" "q \<noteq> 0" "b\<lparr>m_flags := m_flags b OR M_PKTHDR, m_tlen := to_bits 20 (int n)\<rparr> = e'\<lparr>m_next := m_next b\<rparr>"
      "filled tnet kd (mbs st) (q # qs') (e' # es') (st1\<lparr>mbs := (mbs st1)(q \<mapsto> b\<lparr>m_flags := m_flags b OR M_PKTHDR, m_tlen := to_bits 20 (int n)\<rparr>)\<rparr>)"
      using filled_head [of tnet kd "mbs st" q qs' e es' st1 e' "to_bits 20 (int n)", OF _ e'_def] r(2) by (auto simp: qs es)
    let ?st = "st1\<lparr>mbs := (mbs st1)(q \<mapsto> b\<lparr>m_flags := m_flags b OR M_PKTHDR, m_tlen := to_bits 20 (int n)\<rparr>)\<rparr>"
    have "buf_to_mbuf tnet buf (int n) tx st = Some (hd qs, ?st)" using r(1) b(1,2) qs by (simp add: buf_to_mbuf_def set_mbuf_def deref_def)
    moreover have "concat (map (mbuf_data (bytes ?st)) (e' # es')) = bytes_at (bytes st) buf n"
      using r(5) by (simp add: es e'_def mbuf_data_def)
    moreover have "mset (free_blocks (kst st) r) = of_pool (own_blocks tnet kd qs (e' # es')) r + mset (free_blocks (kst ?st) r)" for r
      using acc by (simp add: qs es e'_def)
    moreover have "m_flags (the (mbs ?st (hd qs))) AND M_PKTHDR \<noteq> 0" "m_tlen (the (mbs ?st (hd qs))) = to_bits 20 (int n)"
      by (simp_all add: qs bit.conj_disj_distrib2)
    moreover have "filled tnet kd (mbs st) qs (e' # es') ?st" using b(4) qs by simp
    ultimately show ?thesis using r(3,4) by blast
  qed
qed

text \<open>Freeing the chain brings everything back.\<close>

lemma filled_free:
  assumes "filled tnet kd h qs es st" "qs \<noteq> []"
  shows "\<exists>st'. m_freem tnet (hd qs) st = Some (0, st') \<and> mbs st' = h \<and>
    (\<forall>r. mset (free_blocks (kst st') r) = of_pool (own_blocks tnet kd qs es) r + mset (free_blocks (kst st) r))"
proof -
  have f: "chain_made h qs es st" "list_all2 (own_buffer tnet kd) qs es" "task_ok (kst st)" "in_use (own_blocks tnet kd qs es @ []) (kst st)"
    using assms(1) by (auto simp: filled_def)
  show ?thesis using m_freem_own [OF f] assms(2) by (cases qs) auto
qed

lemma filled_read:
  assumes f: "filled tnet kd h qs es st" and l: "2 \<le> length qs" and d: "dst \<noteq> 0"
  shows "m_read tnet (hd qs) dst st = None"
proof -
  obtain p q qs' where qs: "qs = p # q # qs'" using l by (cases qs; cases "tl qs") auto
  obtain b c es' where es: "es = b # c # es'" using f qs by (cases es; cases "tl es") (auto simp: filled_def chain_made_def)
  show ?thesis using m_read_two [of h p q qs' b c es' st tnet kd "[]" dst] f d by (simp add: qs es filled_def)
qed

end
