(* ===== verification/Net_Sample.thy ===== *)
theory Net_Sample
  imports Sample In_Cksum Net_Pools Mbuf_Fill
begin

text \<open>
  Concrete buffers of the network stack and a system in which its memory pools have just been created, for
  the instances of the properties.
\<close>

definition sample_mbuf :: "addr \<Rightarrow> int \<Rightarrow> addr \<Rightarrow> mbuf" where
  "sample_mbuf d len n = \<lparr>m_flags = M_DBHDR, m_len = len, m_next = n, m_data = d, m_dbuf = d, m_nextpkt = 0,
     m_pri = 0, m_tlen = len, m_dbtype = 1, m_refcnt = 1\<rparr>"

definition sample_chain :: mheap where
  "sample_chain = [0x100 \<mapsto> sample_mbuf 0x1001 3 0x200, 0x200 \<mapsto> sample_mbuf 0x2000 4 0]"

text \<open>The five pools, in the order of \<open>tn_net_init_mem_pools\<close>; those of the driver lie in the Ethernet RAM.\<close>

definition sample_net :: tn_net where
  "sample_net = \<lparr>lobuf_mpool = 0, m1buf_mpool = 1, hibuf_mpool = 2, drv_lobuf_mpool = 3, drv_m1buf_mpool = 4,
     mem_lobuf_mpool = 0x40001000, mem_m1buf_mpool = 0x40002000, mem_hibuf_mpool = 0x7FE00200,
     mem_drv_lobuf_mpool = 0x7FE02600, mem_drv_m1buf_mpool = 0x7FE02700\<rparr>"

lemma sample_specs:
  "pool_specs sample_net = [(0, 0x40001000, 32, 64), (1, 0x40002000, 128, 48), (2, 0x7FE00200, 1536, 6),
     (3, 0x7FE02600, 32, 8), (4, 0x7FE02700, 128, 48)]"
  by (simp add: pool_specs_def sample_net_def)

lemma sample_specs_ok: "list_all spec_ok (pool_specs sample_net)" "specs_apart (pool_specs sample_net)"
proof -
  have a: "align_up 0x40001000 = 0x40001000" "align_up 0x40002000 = 0x40002000" "align_up 0x7FE00200 = 0x7FE00200"
    "align_up 0x7FE02600 = 0x7FE02600" "align_up 0x7FE02700 = 0x7FE02700" "align_up 32 = 32" "align_up 128 = 128" "align_up 1536 = 1536"
    by code_simp+
  show "list_all spec_ok (pool_specs sample_net)" by (simp add: sample_specs spec_ok_def a)
  show "specs_apart (pool_specs sample_net)" by (auto simp: sample_specs spec_area_def pool_area_def)
qed

text \<open>After the start of the stack.\<close>

lemma sample_pools:
  "\<exists>s0 s. task_ok s0 \<and> fmps s0 = fmps zero_memory \<and> tn_net_init_mem_pools sample_net s0 = Some (TERR_NO_ERR, s) \<and> task_ok s \<and>
     (\<forall>p \<in> set (pool_specs sample_net). open_pool (fst p) s \<and> free_blocks s (fst p) = spec_blocks p) \<and>
     (\<forall>j. j \<notin> fst ` set (pool_specs sample_net) \<longrightarrow> free_blocks s j = [])"
proof -
  obtain s0 where s0: "system_inv s0" "tn_int_counter s0 = 0" "\<not> irq_disabled s0" "fmps s0 = fmps zero_memory"
    using sample_objects by blast
  have ok: "task_ok s0" using s0 by (simp add: task_ok_def bad_non_int_context_def)
  have e: "free_blocks s0 j = []" "id_fmp (fmps s0 j) \<noteq> TN_ID_FSMEMORYPOOL" for j
    using s0(4) by (simp_all add: free_blocks_def zero_memory_def)
  from init_pools_ok [OF ok sample_specs_ok e(2)] e(1) obtain s where "init_pools (pool_specs sample_net) s0 = Some (TERR_NO_ERR, s)" "task_ok s"
    "\<forall>p \<in> set (pool_specs sample_net). open_pool (fst p) s \<and> free_blocks s (fst p) = spec_blocks p"
    "\<forall>j. j \<notin> fst ` set (pool_specs sample_net) \<longrightarrow> free_blocks s j = free_blocks s0 j" by auto
  then show ?thesis using ok s0(4) e(1) by (auto simp: init_mem_pools_list)
qed

text \<open>The blocks of a pool of data buffers do not overlap, and do not reach below the pool.\<close>

lemma blocks_unat:
  assumes "unat a + unat bs * n < 2 ^ 32" "x \<in> set (blocks bs n a)"
  shows "\<exists>i < n. unat x = unat a + unat bs * i"
  using assms
proof (induction n arbitrary: a)
  case (Suc n)
  show ?case
  proof (cases "x = a")
    case False
    have "unat a + unat bs < 2 ^ 32" using Suc.prems(1) by simp
    then have u: "unat (a + bs) = unat a + unat bs" by (rule unat_add_small)
    have "x \<in> set (blocks bs n (a + bs))" "unat (a + bs) + unat bs * n < 2 ^ 32" using Suc.prems False u by simp_all
    from Suc.IH [OF this(2,1)] obtain i where "i < n" "unat x = unat a + unat bs * Suc i" using u by auto
    then show ?thesis by (intro exI [of _ "Suc i"]) simp
  qed (auto intro!: exI [of _ 0])
qed simp

lemma same_slot: "a + 128 * j \<le> z \<Longrightarrow> z < a + 128 * j + 128 \<Longrightarrow> a + 128 * k \<le> z \<Longrightarrow> z < a + 128 * k + 128 \<Longrightarrow> j = (k :: nat)"
  by (cases j k rule: linorder_cases) linarith+

lemma in_area_unat: "in_area x a \<Longrightarrow> unat a + 128 \<le> 2 ^ 32 \<Longrightarrow> unat a \<le> unat x \<and> unat x < unat a + 128"
  using unat_minus_u32 [of x a] unat_u32_less [of x] by (auto simp: in_area_def split: if_splits)

lemma areas_ok_blocks:
  assumes "unat a + 128 * n < 2 ^ 32"
  shows "areas_ok (set (blocks 128 n a))"
proof -
  have i: "\<exists>i < n. unat x = unat a + 128 * i" if "x \<in> set (blocks 128 n a)" for x
    using blocks_unat [of a 128 n x] assms that by simp
  have l: "unat x + 128 \<le> 2 ^ 32" if "x \<in> set (blocks 128 n a)" for x
  proof -
    from i [OF that] obtain i where "i < n" "unat x = unat a + 128 * i" by blast
    then show ?thesis using assms by simp
  qed
  have "x = y" if x: "x \<in> set (blocks 128 n a)" and y: "y \<in> set (blocks 128 n a)" and z: "in_area z x" "in_area z y" for x y z
  proof -
    from i [OF x] i [OF y] obtain j k where jk: "unat x = unat a + 128 * j" "unat y = unat a + 128 * k" by blast
    have "j = k" using in_area_unat [OF z(1) l [OF x]] in_area_unat [OF z(2) l [OF y]] unfolding jk by (blast intro: same_slot)
    then show ?thesis using jk by (simp add: word_unat_eq_iff)
  qed
  with l show ?thesis unfolding areas_ok_def by blast
qed

lemma outside_below:
  assumes "\<And>a. a \<in> F \<Longrightarrow> unat p + n \<le> unat a \<and> unat a + 128 \<le> 2 ^ 32"
    and "unat p + n \<le> 2 ^ 32"
  shows "outside F p n"
proof -
  have "\<not> in_area (p + of_nat i) a" if "i < n" "a \<in> F" for i a
  proof
    assume "in_area (p + of_nat i) a"
    then have "unat a \<le> unat (p + of_nat i)" using in_area_unat assms(1) [OF that(2)] by blast
    moreover have "unat (p + of_nat i) = unat p + i"
      using unat_add_small [of p "of_nat i"] unat_of_nat_u32 [of i] that(1) assms(2) by simp
    ultimately show False using assms(1) [OF that(2)] that(1) by simp
  qed
  with assms(2) show ?thesis by (simp add: outside_def)
qed

text \<open>All blocks lie where their pools belong.\<close>

lemma sample_placed:
  "list_all (\<lambda>a. a < MEM_DRV_START_ADDR \<and> a AND 3 = 0) (blocks 32 64 0x40001000)"
  "list_all (\<lambda>a. a < MEM_DRV_START_ADDR) (blocks 128 48 0x40002000)"
  "list_all (\<lambda>a. \<not> a < MEM_DRV_START_ADDR) (blocks 32 8 0x7FE02600)" "list_all (\<lambda>a. \<not> a < MEM_DRV_START_ADDR) (blocks 128 48 0x7FE02700)"
  by code_simp+

lemma sample_net_state:
  "\<exists>s. task_ok s \<and> free_blocks s 0 = blocks 32 64 0x40001000 \<and> free_blocks s 4 = blocks 128 48 0x7FE02700 \<and>
     free_blocks s 1 = blocks 128 48 0x40002000 \<and>
     (\<forall>h m. (\<forall>k. \<forall>a \<in> set (free_blocks s k). h a = None) \<longrightarrow> net_wf sample_net \<lparr>kst = s, mbs = h, bytes = m\<rparr>) \<and>
     (\<forall>k. \<forall>a \<in> set (free_blocks s k). 0x40001000 \<le> a)"
proof -
  obtain s where s: "task_ok s" "\<forall>p \<in> set (pool_specs sample_net). open_pool (fst p) s \<and> free_blocks s (fst p) = spec_blocks p"
    "\<forall>j. j \<notin> fst ` set (pool_specs sample_net) \<longrightarrow> free_blocks s j = []" using sample_pools by blast
  have f: "free_blocks s 0 = blocks 32 64 0x40001000" "free_blocks s 1 = blocks 128 48 0x40002000" "free_blocks s 2 = blocks 1536 6 0x7FE00200"
    "free_blocks s 3 = blocks 32 8 0x7FE02600" "free_blocks s 4 = blocks 128 48 0x7FE02700" "\<And>j. j \<notin> {0, 1, 2, 3, 4} \<Longrightarrow> free_blocks s j = []"
    using s(2,3) by (simp_all add: sample_specs spec_blocks_def)
  have o: "\<forall>k \<in> net_pools sample_net. open_pool k s" using s(2) unfolding sample_specs by (simp add: net_pools_def sample_net_def)
  have w: "well_placed sample_net k a" if "a \<in> set (free_blocks s k)" for k a
  proof -
    have "k \<in> {0, 1, 2, 3, 4}" using f(6) [of k] that by fastforce
    then show ?thesis using that sample_placed f by (auto simp: well_placed_def sample_net_def list_all_iff)
  qed
  have "0x40001000 \<le> a" if "a \<in> set (free_blocks s k)" for k a
  proof -
    have "k \<in> {0, 1, 2, 3, 4}" using f(6) [of k] that by fastforce
    then obtain p where "p \<in> set (pool_specs sample_net)" "k = fst p" by (auto simp: sample_specs)
    then have "spec_ok p" "a \<in> set (spec_blocks p)" "p \<in> set (pool_specs sample_net)"
      using s(2) that sample_specs_ok(1) by (auto simp: list_all_iff)
    then have "spec_area p a" "p \<in> set (pool_specs sample_net)" using spec_blocks_area by auto
    then show ?thesis by (auto simp: sample_specs spec_area_def pool_area_def word_le_nat_alt)
  qed
  then show ?thesis using s(1) f o w by (intro exI [of _ s]) (auto simp: net_wf_def)
qed

text \<open>Low memory is no part of the driver's pool.\<close>

lemma sample_tx_areas: "areas_ok (set (blocks 128 48 0x7FE02700))" "outside (set (blocks 128 48 0x7FE02700)) 0x1000 200"
proof -
  show a: "areas_ok (set (blocks 128 48 0x7FE02700))" by (rule areas_ok_blocks) simp
  have "unat (0x7FE02700 :: u32) \<le> unat x" if "x \<in> set (blocks 128 48 0x7FE02700)" for x :: u32
    using blocks_range(2) [of "0x7FE02700" 128 48 x] that by simp
  then show "outside (set (blocks 128 48 0x7FE02700)) 0x1000 200"
    using a by (intro outside_below) (fastforce simp: areas_ok_def)+
qed

lemma sample_tx_state:
  "\<exists>s. task_ok s \<and> length (free_blocks s 0) = 64 \<and> length (free_blocks s 4) = 48 \<and> areas_ok (set (free_blocks s 4)) \<and>
     outside (set (free_blocks s 4)) 0x1000 200 \<and> net_wf sample_net \<lparr>kst = s, mbs = Map.empty, bytes = m\<rparr>"
proof -
  obtain s where s: "task_ok s" "free_blocks s 0 = blocks 32 64 0x40001000" "free_blocks s 4 = blocks 128 48 0x7FE02700"
    "\<And>h m. \<forall>k. \<forall>a \<in> set (free_blocks s k). h a = None \<Longrightarrow> net_wf sample_net \<lparr>kst = s, mbs = h, bytes = m\<rparr>"
    using sample_net_state by blast
  have "net_wf sample_net \<lparr>kst = s, mbs = Map.empty, bytes = m\<rparr>" by (rule s(4)) simp
  then show ?thesis using s(1,2,3) sample_tx_areas by (intro exI [of _ s]) simp
qed

end
