(* ===== verification/Sprintf.thy ===== *)
theory Sprintf
  imports Mbuf_State
begin

text \<open>
  The formatted output of the stack, \<open>tn_snprintf\<close> of \<open>tn_sprintf.c\<close> (the copies of the demonstration programs are the
  same code). A C string is the list of its characters without the terminating zero; the arguments of a call are a list
  of words and strings, and a conversion that finds no argument of its kind has no result, as in C.

  The text that was written is kept in the parameters beside the space that is left. A call that writes no character
  at all does not store the terminating zero either; the buffer then keeps its old contents.
\<close>

section \<open>Model\<close>

datatype va_val = VInt u32 | VPtr string

type_synonym va_list = "va_val list"

definition va_int :: "va_list \<Rightarrow> (u32 \<times> va_list) option" where
  "va_int args = (case args of VInt x # rest \<Rightarrow> Some (x, rest) | _ \<Rightarrow> None)"

definition va_ptr :: "va_list \<Rightarrow> (string \<times> va_list) option" where
  "va_ptr args = (case args of VPtr s # rest \<Rightarrow> Some (s, rest) | _ \<Rightarrow> None)"

abbreviation (input) MINUS_SIGN :: u32 where "MINUS_SIGN \<equiv> 1"
abbreviation (input) RIGHT_JUSTIFY :: u32 where "RIGHT_JUSTIFY \<equiv> 2"
abbreviation (input) ZERO_PAD :: u32 where "ZERO_PAD \<equiv> 4"
abbreviation (input) CAPITAL_HEX :: u32 where "CAPITAL_HEX \<equiv> 8"
abbreviation (input) NUL :: char where "NUL \<equiv> CHR 0x00"

record parameters =
  numOutputChars :: int
  options :: u32
  minFieldWidth :: int
  editedStringLen :: int
  leadingZeros :: int
  out_str :: string
  maxLen :: int

definition IsOptionSet :: "parameters \<Rightarrow> u32 \<Rightarrow> bool" where
  "IsOptionSet p x \<longleftrightarrow> options p AND x \<noteq> 0"

definition StrPrintfFunc :: "char \<Rightarrow> parameters \<Rightarrow> int \<times> parameters" where
  "StrPrintfFunc ch p =
     (if maxLen p > 0 then (1, p\<lparr>out_str := out_str p @ [ch], maxLen := maxLen p - 1\<rparr>) else (-1, p))"

definition OutputChar :: "char \<Rightarrow> parameters \<Rightarrow> parameters" where
  "OutputChar c p =
     (if numOutputChars p \<ge> 0 then
        let (n, p) = StrPrintfFunc c p in
        if n \<ge> 0 then p\<lparr>numOutputChars := numOutputChars p + 1\<rparr> else p\<lparr>numOutputChars := n\<rparr>
      else p)"

text \<open>\<open>while(--n >= 0) OutputChar(p, c);\<close>\<close>

fun output_times :: "nat \<Rightarrow> char \<Rightarrow> parameters \<Rightarrow> parameters" where
  "output_times 0 c p = p"
| "output_times (Suc n) c p = output_times n c (OutputChar c p)"

definition OutputField :: "string \<Rightarrow> parameters \<Rightarrow> parameters" where
  "OutputField s p =
     (let padLen = minFieldWidth p - leadingZeros p - editedStringLen p;
          minus = IsOptionSet p MINUS_SIGN;
          zero = IsOptionSet p ZERO_PAD;
          p = (if minus \<and> zero then OutputChar CHR ''-'' p else p);
          padLen = (if minus then padLen - 1 else padLen);
          right = IsOptionSet p RIGHT_JUSTIFY;
          p = (if right then output_times (nat padLen) (if zero then CHR ''0'' else CHR '' '') p else p);
          padLen = (if right then min padLen 0 - 1 else padLen);
          p = (if minus \<and> \<not> zero then OutputChar CHR ''-'' p else p);
          p = (output_times (nat (leadingZeros p)) CHR ''0'' p)\<lparr>leadingZeros := min (leadingZeros p) 0 - 1\<rparr>;
          p = (fold OutputChar (take (nat (editedStringLen p)) s) p)\<lparr>editedStringLen := min (editedStringLen p) 0 - 1\<rparr>
      in output_times (nat padLen) CHR '' '' p)"

text \<open>\<open>controlChar = *fmt++\<close>\<close>

fun fetch :: "string \<Rightarrow> char \<times> string" where
  "fetch [] = (NUL, [])"
| "fetch (c # cs) = (c, cs)"

definition is_digit :: "char \<Rightarrow> bool" where
  "is_digit c \<longleftrightarrow> (48 :: nat) \<le> of_char c \<and> of_char c \<le> (57 :: nat)"

text \<open>The decimal numbers in a format; \<open>cast\<close> is the conversion to the type of the variable.\<close>

fun take_number :: "(int \<Rightarrow> int) \<Rightarrow> char \<Rightarrow> string \<Rightarrow> int \<Rightarrow> int \<times> char \<times> string" where
  "take_number cast c fmt n =
     (if is_digit c then
        let n = cast (n * 10 + of_char c - 48) in
        (case fmt of [] \<Rightarrow> (n, NUL, []) | c' # fmt' \<Rightarrow> take_number cast c' fmt' n)
      else (n, c, fmt))"

declare take_number.simps [simp del]

definition take_width :: "char \<Rightarrow> string \<Rightarrow> va_list \<Rightarrow> (int \<times> char \<times> string \<times> va_list) option" where
  "take_width c fmt args =
     (if c = CHR ''*'' then
        do { (x, args) \<leftarrow> va_int args; let (c, fmt) = fetch fmt in Some (to_short (sint x), c, fmt, args) }
      else let (n, c, fmt) = take_number id c fmt 0 in Some (n, c, fmt, args))"

definition take_precision :: "char \<Rightarrow> string \<Rightarrow> va_list \<Rightarrow> (int \<times> char \<times> string \<times> va_list) option" where
  "take_precision c fmt args =
     (if c = CHR ''.'' then
        let (c, fmt) = fetch fmt in
        if c = CHR ''*'' then
          do { (x, args) \<leftarrow> va_int args; let (c, fmt) = fetch fmt in Some (to_short (sint x), c, fmt, args) }
        else let (n, c, fmt) = take_number to_short c fmt 0 in Some (n, c, fmt, args)
      else Some (-1, c, fmt, args))"

text \<open>The base of a conversion, with -1 and -2 for characters and strings and 0 for an unknown conversion.\<close>

definition base_of :: "char \<Rightarrow> int" where
  "base_of c =
     (if c = CHR ''d'' then 10 else if c = CHR ''x'' then 16 else if c = CHR ''X'' then 16 else if c = CHR ''u'' then 10
      else if c = CHR ''o'' then 8 else if c = CHR ''b'' then 2 else if c = CHR ''c'' then -1
      else if c = CHR ''s'' then -2 else 0)"

definition digit_char :: "bool \<Rightarrow> nat \<Rightarrow> char" where
  "digit_char capital d =
     (let c = d + 48 in char_of (if c > 57 then (if capital then c + 7 else c + 39) else c))"

text \<open>The loop that converts a number; it fills a buffer of 36 bytes from its end, and a base of 1 or 0 would run past its
  start or divide by zero.\<close>

function convert :: "bool \<Rightarrow> u32 \<Rightarrow> u32 \<Rightarrow> string \<Rightarrow> string option" where
  "convert capital base x buffer =
     (if length buffer \<ge> 36 \<or> base = 0 then None
      else let buffer = digit_char capital (unat (x mod base)) # buffer in
        if x div base \<noteq> 0 then convert capital base (x div base) buffer else Some buffer)"
  by pat_completeness auto
termination by (relation "measure (\<lambda>(_, _, _, buffer). 36 - length buffer)") auto

declare convert.simps [simp del]

text \<open>The length of a string argument under a precision.\<close>

definition edited_len :: "int \<Rightarrow> string \<Rightarrow> int" where
  "edited_len precision s = (if precision \<ge> 0 then min (int (length s)) precision else int (length s))"

definition output_number :: "char \<Rightarrow> u32 \<Rightarrow> int \<Rightarrow> u32 \<Rightarrow> parameters \<Rightarrow> parameters option" where
  "output_number c base precision x p =
     (let minus = (c = CHR ''d'' \<and> x <s 0);
          p = (if minus then p\<lparr>options := options p OR MINUS_SIGN\<rparr> else p);
          x = (if minus then - x else x) in
      do { buffer \<leftarrow> convert (IsOptionSet p CAPITAL_HEX) base x [];
           let p = p\<lparr>editedStringLen := int (length buffer)\<rparr>;
               p = (if precision \<ge> 0 \<and> precision > editedStringLen p
                    then p\<lparr>leadingZeros := precision - editedStringLen p\<rparr> else p) in
           Some (OutputField buffer p) })"

definition conversion :: "char \<Rightarrow> int \<Rightarrow> va_list \<Rightarrow> parameters \<Rightarrow> (va_list \<times> parameters) option" where
  "conversion c precision args p =
     (if base_of c = -1 then
        do { (x, args) \<leftarrow> va_int args; Some (args, OutputField [char_of (unat x)] (p\<lparr>editedStringLen := 1\<rparr>)) }
      else if base_of c = -2 then
        do { (s, args) \<leftarrow> va_ptr args; Some (args, OutputField s (p\<lparr>editedStringLen := edited_len precision s\<rparr>)) }
      else
        do { (x, args) \<leftarrow> va_int args; p \<leftarrow> output_number c (word_of_int (base_of c)) precision x p; Some (args, p) })"

text \<open>One conversion; \<open>fmt\<close> starts behind the percent sign, and the result is the rest of the format.\<close>

definition directive :: "string \<Rightarrow> va_list \<Rightarrow> parameters \<Rightarrow> (string \<times> va_list \<times> parameters) option" where
  "directive fmt args p =
     (let (c, fmt) = fetch fmt;
          options = RIGHT_JUSTIFY;
          (options, c, fmt) = (if c = CHR ''-'' then (options AND NOT RIGHT_JUSTIFY, fetch fmt) else (options, c, fmt));
          (options, c, fmt) = (if c = CHR ''0'' then (options OR ZERO_PAD, fetch fmt) else (options, c, fmt)) in
      do { (width, c, fmt, args) \<leftarrow> take_width c fmt args;
           (precision, c, fmt, args) \<leftarrow> take_precision c fmt args;
           let (c, fmt) = (if c = CHR ''l'' then fetch fmt else (c, fmt));
               options = (if c = CHR ''X'' then options OR CAPITAL_HEX else options);
               options = (if c = CHR ''c'' \<or> c = CHR ''s'' then options AND NOT ZERO_PAD else options);
               p = p\<lparr>minFieldWidth := width, leadingZeros := 0, options := options\<rparr> in
           if base_of c = 0 then
             (if c \<noteq> NUL then Some (fmt, args, OutputChar c p) else Some ([], args, p))
           else do { (args, p) \<leftarrow> conversion c precision args p; Some (fmt, args, p) } })"

lemma take_number_len: "take_number cast c fmt n = (n', c', fmt') \<Longrightarrow> length fmt' \<le> length fmt"
proof (induction fmt arbitrary: c n)
  case (Cons d ds)
  then show ?case by (fastforce simp: take_number.simps [of cast c] Let_def split: if_splits dest: le_SucI)
qed (auto simp: take_number.simps [of cast] split: if_splits)

lemma fetch_len: "fetch fmt = (c, fmt') \<Longrightarrow> length fmt' \<le> length fmt"
  by (cases fmt) auto

lemma take_width_len: "take_width c fmt args = Some (n, c', fmt', args') \<Longrightarrow> length fmt' \<le> length fmt"
  by (cases "fetch fmt") (auto simp: take_width_def bind_eq_Some split: if_splits prod.splits dest: take_number_len fetch_len)

lemma take_precision_len:
  assumes "take_precision c fmt args = Some (n, c', fmt', args')"
  shows "length fmt' \<le> length fmt"
proof -
  obtain c1 f1 c2 f2 where f: "fetch fmt = (c1, f1)" "fetch f1 = (c2, f2)" by (metis prod.collapse)
  have "length fmt' \<le> length f2 \<or> length fmt' \<le> length f1 \<or> fmt' = fmt"
    using assms by (auto simp: take_precision_def bind_eq_Some Let_def f split: if_splits prod.splits dest: take_number_len)
  then show ?thesis using fetch_len [OF f(1)] fetch_len [OF f(2)] by auto
qed

lemma skip_len: "(if b then (f, fetch fmt) else (g, c, fmt)) = (o', c', fmt') \<Longrightarrow> length fmt' \<le> length fmt"
  by (auto split: if_splits dest: fetch_len)

lemma directive_len:
  assumes "directive fmt args p = Some (fmt', args', p')"
  shows "length fmt' \<le> length fmt"
proof -
  obtain c1 f1 where 1: "fetch fmt = (c1, f1)" by fastforce
  obtain o2 c2 f2 where 2: "(if c1 = CHR ''-'' then (RIGHT_JUSTIFY AND NOT RIGHT_JUSTIFY, fetch f1) else (RIGHT_JUSTIFY, c1, f1)) = (o2, c2, f2)"
    by (metis prod.collapse)
  obtain o3 c3 f3 where 3: "(if c2 = CHR ''0'' then (o2 OR ZERO_PAD, fetch f2) else (o2, c2, f2)) = (o3, c3, f3)"
    by (metis prod.collapse)
  note d = assms [unfolded directive_def 1 Let_def prod.case 2 3]
  then obtain w c4 f4 a4 n c5 f5 a5 where 4: "take_width c3 f3 args = Some (w, c4, f4, a4)" "take_precision c4 f4 a4 = Some (n, c5, f5, a5)"
    by (auto simp: bind_eq_Some)
  obtain c6 f6 where 6: "(if c5 = CHR ''l'' then fetch f5 else (c5, f5)) = (c6, f6)" by (metis prod.collapse)
  have "length fmt' \<le> length f6" using d by (auto simp: bind_eq_Some 4 6 Let_def split: if_splits)
  moreover have "length f6 \<le> length f5" using 6 by (auto split: if_splits dest: fetch_len)
  ultimately show ?thesis
    using fetch_len [OF 1] skip_len [OF 2] skip_len [OF 3] take_width_len [OF 4(1)] take_precision_len [OF 4(2)] by linarith
qed

function vStrXPrintf_loop :: "string \<Rightarrow> va_list \<Rightarrow> parameters \<Rightarrow> parameters option" where
  "vStrXPrintf_loop fmt args p =
     (let (c, fmt) = fetch fmt in
      if c = NUL then Some p
      else if c = CHR ''%'' then
        do { (fmt, args, p) \<leftarrow> directive fmt args p; vStrXPrintf_loop fmt args p }
      else vStrXPrintf_loop fmt args (OutputChar c p))"
  by pat_completeness auto
termination
proof (relation "measure (\<lambda>(fmt, _, _). length fmt)", goal_cases)
  case (2 fmt args p q c fmt' x fmt'' y args' p')
  then show ?case using directive_len [of fmt' args p fmt'' args' p'] by (cases fmt) auto
next
  case (3 fmt args p q c fmt')
  then show ?case by (cases fmt) auto
qed simp

declare vStrXPrintf_loop.simps [simp del]

definition vStrXPrintf :: "string \<Rightarrow> va_list \<Rightarrow> parameters \<Rightarrow> (int \<times> string) option" where
  "vStrXPrintf fmt args p =
     do { p \<leftarrow> vStrXPrintf_loop fmt args (p\<lparr>numOutputChars := 0\<rparr>); Some (numOutputChars p, out_str p) }"

definition vStrPrintf :: "int \<Rightarrow> string \<Rightarrow> va_list \<Rightarrow> (int \<times> string) option" where
  "vStrPrintf max_len fmt args =
     vStrXPrintf fmt args \<lparr>numOutputChars = 0, options = 0, minFieldWidth = 0, editedStringLen = 0, leadingZeros = 0,
       out_str = [], maxLen = max_len - 1\<rparr>"

definition tn_snprintf :: "int \<Rightarrow> string \<Rightarrow> va_list \<Rightarrow> (int \<times> string) option" where
  "tn_snprintf max_len fmt args = vStrPrintf max_len fmt args"

section \<open>The text of a call\<close>

text \<open>All output goes through \<^const>\<open>OutputChar\<close>. The relation says that the text \<open>t\<close> was output so far with room for \<open>m\<close>
  characters: the buffer holds the part that fits, and the count is -1 once something was lost.\<close>

definition printed :: "nat \<Rightarrow> string \<Rightarrow> parameters \<Rightarrow> bool" where
  "printed m t p \<longleftrightarrow> out_str p = take m t \<and> nat (maxLen p) = m - length t \<and>
     numOutputChars p = (if length t \<le> m then int (length t) else -1)"

named_theorems printed_rules \<open>text that is output\<close>

lemma printed_char [printed_rules]: "printed m t p \<Longrightarrow> printed m (t @ [c]) (OutputChar c p)"
  by (auto simp: printed_def OutputChar_def StrPrintfFunc_def nat_diff_distrib split: if_splits)

lemma printed_times [printed_rules]: "printed m t p \<Longrightarrow> printed m (t @ replicate n c) (output_times n c p)"
proof (induction n arbitrary: t p)
  case (Suc n)
  from Suc.IH [OF printed_char [OF Suc.prems, of c]] show ?case by simp
qed simp

lemma printed_fold [printed_rules]: "printed m t p \<Longrightarrow> printed m (t @ s) (fold OutputChar s p)"
proof (induction s arbitrary: t p)
  case (Cons c s)
  from Cons.IH [OF printed_char [OF Cons.prems]] show ?case by simp
qed simp

lemma printed_cong [simp]:
  "printed m t (p\<lparr>leadingZeros := a\<rparr>) = printed m t p" "printed m t (p\<lparr>editedStringLen := b\<rparr>) = printed m t p"
  "printed m t (p\<lparr>options := e\<rparr>) = printed m t p" "printed m t (p\<lparr>minFieldWidth := w\<rparr>) = printed m t p"
  by (simp_all add: printed_def)

text \<open>The fields that control a conversion.\<close>

definition same_ctl :: "parameters \<Rightarrow> parameters \<Rightarrow> bool" where
  "same_ctl p q \<longleftrightarrow> options p = options q \<and> minFieldWidth p = minFieldWidth q \<and> editedStringLen p = editedStringLen q \<and>
     leadingZeros p = leadingZeros q"

lemma OutputChar_ctl [simp]:
  "options (OutputChar c p) = options p" "minFieldWidth (OutputChar c p) = minFieldWidth p"
  "editedStringLen (OutputChar c p) = editedStringLen p" "leadingZeros (OutputChar c p) = leadingZeros p"
  by (simp_all add: OutputChar_def StrPrintfFunc_def)

lemma output_times_ctl [simp]:
  "options (output_times n c p) = options p" "minFieldWidth (output_times n c p) = minFieldWidth p"
  "editedStringLen (output_times n c p) = editedStringLen p" "leadingZeros (output_times n c p) = leadingZeros p"
  by (induction n arbitrary: p) simp_all

text \<open>The characters of a field: the padding on one side, the sign, the leading zeros and the text.\<close>

definition field_text :: "string \<Rightarrow> parameters \<Rightarrow> string" where
  "field_text s p =
     (let minus = IsOptionSet p MINUS_SIGN; zero = IsOptionSet p ZERO_PAD; right = IsOptionSet p RIGHT_JUSTIFY;
          pad = nat (minFieldWidth p - leadingZeros p - editedStringLen p - (if minus then 1 else 0));
          sign = (if minus then ''-'' else []) in
      (if zero then sign else []) @ (if right then replicate pad (if zero then CHR ''0'' else CHR '' '') else []) @
      (if zero then [] else sign) @ replicate (nat (leadingZeros p)) CHR ''0'' @ take (nat (editedStringLen p)) s @
      (if right then [] else replicate pad CHR '' ''))"

lemma printed_if: "(b \<Longrightarrow> printed m (t @ s) p) \<Longrightarrow> (\<not> b \<Longrightarrow> printed m t q) \<Longrightarrow> printed m (t @ (if b then s else [])) (if b then p else q)"
  by simp

lemma printed_field [printed_rules]:
  assumes "printed m t p"
  shows "printed m (t @ field_text s p) (OutputField s p)"
proof -
  let ?minus = "IsOptionSet p MINUS_SIGN" and ?zero = "IsOptionSet p ZERO_PAD" and ?right = "IsOptionSet p RIGHT_JUSTIFY"
  let ?pad = "minFieldWidth p - leadingZeros p - editedStringLen p - (if ?minus then 1 else 0)"
  define p1 where "p1 = (if ?minus \<and> ?zero then OutputChar CHR ''-'' p else p)"
  define p2 where "p2 = (if ?right then output_times (nat ?pad) (if ?zero then CHR ''0'' else CHR '' '') p1 else p1)"
  define p3 where "p3 = (if ?minus \<and> \<not> ?zero then OutputChar CHR ''-'' p2 else p2)"
  define p4 where "p4 = output_times (nat (leadingZeros p)) CHR ''0'' p3"
  define p5 where "p5 = fold OutputChar (take (nat (editedStringLen p)) s) (p4\<lparr>leadingZeros := min (leadingZeros p) 0 - 1\<rparr>)"
  have "printed m (t @ (if ?minus \<and> ?zero then ''-'' else [])) p1" (is "printed m ?t1 _") unfolding p1_def using assms by (intro printed_if printed_char)
  then have "printed m (?t1 @ (if ?right then replicate (nat ?pad) (if ?zero then CHR ''0'' else CHR '' '') else [])) p2" (is "printed m ?t2 _")
    unfolding p2_def by (intro printed_if printed_times)
  then have "printed m (?t2 @ (if ?minus \<and> \<not> ?zero then ''-'' else [])) p3" (is "printed m ?t3 _") unfolding p3_def by (intro printed_if printed_char)
  then have "printed m (?t3 @ replicate (nat (leadingZeros p)) CHR ''0'') p4" (is "printed m ?t4 _") unfolding p4_def by (intro printed_times)
  then have 5: "printed m (?t4 @ take (nat (editedStringLen p)) s) p5" (is "printed m ?t5 _") unfolding p5_def by (intro printed_fold) simp
  have "OutputField s p = output_times (nat (if ?right then min ?pad 0 - 1 else ?pad)) CHR '' ''
      (p5\<lparr>editedStringLen := min (editedStringLen p) 0 - 1\<rparr>)"
    by (simp add: OutputField_def Let_def p1_def p2_def p3_def p4_def p5_def IsOptionSet_def)
  moreover have "field_text s p = drop (length t) ?t5 @ replicate (nat (if ?right then min ?pad 0 - 1 else ?pad)) CHR '' ''"
    by (auto simp: field_text_def Let_def)
  ultimately show ?thesis using printed_times [of m ?t5 "p5\<lparr>editedStringLen := min (editedStringLen p) 0 - 1\<rparr>"
     "nat (if ?right then min ?pad 0 - 1 else ?pad)" "CHR '' ''"] 5 by simp
qed

text \<open>What a conversion outputs is determined by the format and the arguments, whatever the space in the buffer.\<close>

definition blank :: parameters where
  "blank = \<lparr>numOutputChars = 0, options = 0, minFieldWidth = 0, editedStringLen = 0, leadingZeros = 0, out_str = [], maxLen = 0\<rparr>"

definition prints :: "('a \<times> string) option \<Rightarrow> parameters \<Rightarrow> ('a \<times> parameters) option \<Rightarrow> bool" where
  "prints r p res \<longleftrightarrow> (\<forall>m t. printed m t p \<longrightarrow>
     (case r of None \<Rightarrow> res = None | Some (a, s) \<Rightarrow> \<exists>p'. res = Some (a, p') \<and> printed m (t @ s) p'))"

lemma prints_None [simp]: "prints None p None"
  by (simp add: prints_def)

lemma prints_map: "prints r p res \<Longrightarrow> prints (map_option (\<lambda>(a, s). (g a, s)) r) p (map_option (\<lambda>(a, p). (g a, p)) res)"
  by (cases r) (force simp: prints_def)+

lemma prints_field:
  assumes "options p = options q" "minFieldWidth p = minFieldWidth q" "editedStringLen p = editedStringLen q" "leadingZeros p = leadingZeros q"
    "\<And>m t. printed m t p0 \<Longrightarrow> printed m t p"
  shows "prints (Some (a, field_text s q)) p0 (Some (a, OutputField s p))"
proof -
  have "field_text s p = field_text s q" using assms(1-4) by (simp add: field_text_def IsOptionSet_def)
  then show ?thesis using printed_field [OF assms(5), of _ _ s] by (simp add: prints_def)
qed

text \<open>The parameters with which the field of a number is output.\<close>

definition number_ctl :: "char \<Rightarrow> u32 \<Rightarrow> int \<Rightarrow> string \<Rightarrow> parameters \<Rightarrow> parameters" where
  "number_ctl c x precision buffer p =
     (let p = (if c = CHR ''d'' \<and> x <s 0 then p\<lparr>options := options p OR MINUS_SIGN\<rparr> else p) in
      p\<lparr>editedStringLen := int (length buffer),
        leadingZeros := (if precision > int (length buffer) then precision - int (length buffer) else leadingZeros p)\<rparr>)"

lemma output_number_alt:
  "output_number c base precision x p =
     (case convert (IsOptionSet p CAPITAL_HEX) base (if c = CHR ''d'' \<and> x <s 0 then - x else x) [] of
        None \<Rightarrow> None
      | Some buffer \<Rightarrow> Some (OutputField buffer (number_ctl c x precision buffer p)))"
proof -
  have o: "(options p OR MINUS_SIGN) AND CAPITAL_HEX = options p AND CAPITAL_HEX" by (simp add: bit.conj_disj_distrib2)
  have l: "n \<ge> 0 \<and> n > int k \<longleftrightarrow> n > int k" for n k by auto
  show ?thesis
    by (cases "c = CHR ''d'' \<and> x <s 0")
      (auto simp: output_number_def number_ctl_def Let_def IsOptionSet_def o l simp del: not_less split: option.split)
qed

lemma conversion_prints: "\<exists>r. \<forall>p. options p = f \<longrightarrow> minFieldWidth p = w \<longrightarrow> leadingZeros p = 0 \<longrightarrow> prints r p (conversion c precision args p)"
proof -
  let ?q = "blank\<lparr>options := f, minFieldWidth := w\<rparr>"
  consider (char) x args' where "base_of c = -1" "va_int args = Some (x, args')"
    | (string) s args' where "base_of c = -2" "va_ptr args = Some (s, args')"
    | (number) x args' where "base_of c \<noteq> -1" "base_of c \<noteq> -2" "va_int args = Some (x, args')"
    | (none) "\<And>p. conversion c precision args p = None"
    by (cases "va_int args"; cases "va_ptr args"; cases "base_of c = -1"; cases "base_of c = -2") (auto simp: conversion_def)
  then show ?thesis
  proof cases
    case char
    show ?thesis
      by (intro exI [of _ "Some (args', field_text [char_of (unat x)] (?q\<lparr>editedStringLen := 1\<rparr>))"])
        (auto simp: conversion_def char blank_def intro!: prints_field)
  next
    case string
    show ?thesis
      by (intro exI [of _ "Some (args', field_text s (?q\<lparr>editedStringLen := edited_len precision s\<rparr>))"])
        (auto simp: conversion_def string blank_def intro!: prints_field)
  next
    case number
    let ?b = "convert (f AND CAPITAL_HEX \<noteq> 0) (word_of_int (base_of c)) (if c = CHR ''d'' \<and> x <s 0 then - x else x) []"
    show ?thesis
    proof (cases ?b)
      case None
      then show ?thesis by (intro exI [of _ None]) (auto simp: conversion_def number output_number_alt IsOptionSet_def)
    next
      case (Some buffer)
      then show ?thesis
        by (intro exI [of _ "Some (args', field_text buffer (number_ctl c x precision buffer ?q))"])
          (auto simp: conversion_def number output_number_alt IsOptionSet_def number_ctl_def Let_def blank_def intro!: prints_field)
    qed
  next
    case none
    then show ?thesis by (intro exI [of _ None]) simp
  qed
qed

lemma directive_prints: "\<exists>r. \<forall>p. prints r p (map_option (\<lambda>(fmt, args, p). ((fmt, args), p)) (directive fmt args p))"
proof -
  obtain c1 f1 where 1: "fetch fmt = (c1, f1)" by fastforce
  obtain o2 c2 f2 where 2: "(if c1 = CHR ''-'' then (RIGHT_JUSTIFY AND NOT RIGHT_JUSTIFY, fetch f1) else (RIGHT_JUSTIFY, c1, f1)) = (o2, c2, f2)"
    by (metis prod.collapse)
  obtain o3 c3 f3 where 3: "(if c2 = CHR ''0'' then (o2 OR ZERO_PAD, fetch f2) else (o2, c2, f2)) = (o3, c3, f3)"
    by (metis prod.collapse)
  note d = directive_def [of fmt args, unfolded 1 Let_def prod.case 2 3]
  show ?thesis
  proof (cases "\<exists>w c4 f4 a4 n c5 f5 a5. take_width c3 f3 args = Some (w, c4, f4, a4) \<and> take_precision c4 f4 a4 = Some (n, c5, f5, a5)")
    case False
    then have "take_width c3 f3 args \<bind> (\<lambda>(w, c, fmt, args). take_precision c fmt args \<bind> h w) = None" for h
      by (cases "take_width c3 f3 args"; cases "take_precision (fst (snd (the (take_width c3 f3 args)))) (fst (snd (snd (the (take_width c3 f3 args))))) (snd (snd (snd (the (take_width c3 f3 args)))))")
        auto
    then have "directive fmt args p = None" for p unfolding d by (simp add: case_prod_unfold)
    then show ?thesis by (intro exI [of _ None]) simp
  next
    case True
    then obtain w c4 f4 a4 n c5 f5 a5 where 4: "take_width c3 f3 args = Some (w, c4, f4, a4)" "take_precision c4 f4 a4 = Some (n, c5, f5, a5)"
      by blast
    obtain c6 f6 where 6: "(if c5 = CHR ''l'' then fetch f5 else (c5, f5)) = (c6, f6)" by (metis prod.collapse)
    define o7 where "o7 = (let f = (if c6 = CHR ''X'' then o3 OR CAPITAL_HEX else o3) in
      if c6 = CHR ''c'' \<or> c6 = CHR ''s'' then f AND NOT ZERO_PAD else f)"
    let ?p = "\<lambda>p. p\<lparr>minFieldWidth := w, leadingZeros := 0, options := o7\<rparr>"
    have dp: "directive fmt args p =
      (if base_of c6 = 0 then (if c6 \<noteq> NUL then Some (f6, a5, OutputChar c6 (?p p)) else Some ([], a5, ?p p))
       else do { (args, p) \<leftarrow> conversion c6 n a5 (?p p); Some (f6, args, p) })" for p
      unfolding d 4 6 Option.bind.simps prod.case o7_def Let_def ..
    obtain r where r: "\<forall>p. options p = o7 \<longrightarrow> minFieldWidth p = w \<longrightarrow> leadingZeros p = 0 \<longrightarrow> prints r p (conversion c6 n a5 p)"
      using conversion_prints by blast
    have r': "prints r p (conversion c6 n a5 (?p p))" for p using r [rule_format, of "?p p"] by (simp add: prints_def)
    show ?thesis
    proof (cases "base_of c6 = 0")
      case True
      then show ?thesis using printed_char
        by (intro exI [of _ "Some (if c6 \<noteq> NUL then ((f6, a5), [c6]) else (([], a5), []))"]) (simp add: dp prints_def)
    next
      case False
      then have "map_option (\<lambda>(fmt, args, p). ((fmt, args), p)) (directive fmt args p) =
          map_option (\<lambda>(a, p). ((f6, a), p)) (conversion c6 n a5 (?p p))" for p
        by (cases "conversion c6 n a5 (?p p)") (auto simp: dp)
      then show ?thesis using prints_map [OF r'] by metis
    qed
  qed
qed

lemma loop_prints: "\<exists>r. \<forall>p. prints r p (map_option (Pair ()) (vStrXPrintf_loop fmt args p))"
proof (induction "length fmt" arbitrary: fmt args rule: less_induct)
  case less
  obtain c f where f: "fetch fmt = (c, f)" by fastforce
  note L = vStrXPrintf_loop.simps [of fmt args, unfolded f Let_def prod.case]
  have len: "length f < length fmt" if "c \<noteq> NUL" using f that by (cases fmt) auto
  consider (nul) "c = NUL" | (pc) "c = CHR ''%''" | (other) "c \<noteq> NUL" "c \<noteq> CHR ''%''" by blast
  then show ?case
  proof cases
    case nul
    then show ?thesis by (intro exI [of _ "Some ((), [])"]) (simp add: L prints_def)
  next
    case other
    obtain r where r: "\<forall>p. prints r p (map_option (Pair ()) (vStrXPrintf_loop f args p))" using less [OF len [OF other(1)]] by blast
    have "prints (map_option (\<lambda>(u, s). (u, c # s)) r) p (map_option (Pair ()) (vStrXPrintf_loop f args (OutputChar c p)))" for p
      using r [rule_format, of "OutputChar c p"] printed_char [of _ _ p c]
      by (fastforce simp: prints_def split: option.splits)
    then show ?thesis using other by (intro exI) (auto simp: L)
  next
    case pc
    obtain r where r: "\<And>p. prints r p (map_option (\<lambda>(fmt, args, p). ((fmt, args), p)) (directive f args p))"
      using directive_prints [of f args] by blast
    show ?thesis
    proof (cases "\<exists>m t p. printed m t p \<and> directive f args p \<noteq> None")
      case False
      then have "prints None p (map_option (Pair ()) (vStrXPrintf_loop fmt args p))" for p using pc by (cases "directive f args p") (auto simp: prints_def L)
      then show ?thesis by blast
    next
      case True
      then obtain f' a' s where r': "r = Some ((f', a'), s)" using r by (fastforce simp: prints_def split: option.splits)
      from True obtain m t p0 p1 where d0: "directive f args p0 = Some (f', a', p1)" using r by (fastforce simp: prints_def r')
      have "length f' < length fmt" using directive_len [OF d0] len pc by simp
      from less [OF this] obtain r2 where r2: "\<And>p. prints r2 p (map_option (Pair ()) (vStrXPrintf_loop f' a' p))" by blast
      have "prints (map_option (\<lambda>(u, s'). (u, s @ s')) r2) p (map_option (Pair ()) (vStrXPrintf_loop fmt args p))" for p
        unfolding prints_def
      proof (intro allI impI)
        fix m t assume p: "printed m t p"
        then obtain p' where p': "directive f args p = Some (f', a', p')" "printed m (t @ s) p'" using r [of p] by (fastforce simp: prints_def r')
        have l: "vStrXPrintf_loop fmt args p = vStrXPrintf_loop f' a' p'" using pc p'(1) by (simp add: L)
        show "case map_option (\<lambda>(u, s'). (u, s @ s')) r2 of None \<Rightarrow> map_option (Pair ()) (vStrXPrintf_loop fmt args p) = None
          | Some (a, s) \<Rightarrow> \<exists>p'. map_option (Pair ()) (vStrXPrintf_loop fmt args p) = Some (a, p') \<and> printed m (t @ s) p'"
          using r2 [of p'] p'(2) unfolding l prints_def by (fastforce split: option.splits)
      qed
      then show ?thesis by blast
    qed
  qed
qed

lemma snprintf_text:
  "\<exists>r. \<forall>n. tn_snprintf n fmt args =
     map_option (\<lambda>t. (if length t \<le> nat (n - 1) then int (length t) else -1, take (nat (n - 1)) t)) r"
proof -
  obtain r where r: "\<And>p. prints r p (map_option (Pair ()) (vStrXPrintf_loop fmt args p))" using loop_prints [of fmt args] by blast
  have "tn_snprintf n fmt args =
     map_option (\<lambda>t. (if length t \<le> nat (n - 1) then int (length t) else -1, take (nat (n - 1)) t)) (map_option snd r)" for n
  proof -
    define p where "p = blank\<lparr>maxLen := n - 1\<rparr>"
    have "printed (nat (n - 1)) [] p" by (simp add: printed_def p_def blank_def)
    moreover have "tn_snprintf n fmt args = map_option (\<lambda>p. (numOutputChars p, out_str p)) (vStrXPrintf_loop fmt args p)"
      by (simp add: tn_snprintf_def vStrPrintf_def vStrXPrintf_def p_def blank_def map_conv_bind_option comp_def)
    ultimately show ?thesis using r [of p] unfolding prints_def
      by (cases r; cases "vStrXPrintf_loop fmt args p") (force simp: printed_def)+
  qed
  then show ?thesis by blast
qed

section \<open>Numbers\<close>

text \<open>The digits of a number, as one would define them.\<close>

function numeral_text :: "bool \<Rightarrow> nat \<Rightarrow> nat \<Rightarrow> string" where
  "numeral_text capital b n =
     (if b < 2 \<or> n < b then [digit_char capital n] else numeral_text capital b (n div b) @ [digit_char capital (n mod b)])"
  by pat_completeness auto
termination by (relation "measure (\<lambda>(_, _, n). n)") auto

declare numeral_text.simps [simp del]

lemma numeral_text_len: "2 \<le> b \<Longrightarrow> n < b ^ Suc k \<Longrightarrow> length (numeral_text capital b n) \<le> Suc k"
proof (induction k arbitrary: n)
  case (Suc k)
  have "n div b < b ^ Suc k" using Suc.prems by (simp add: less_mult_imp_div_less mult.commute)
  from Suc.IH [OF Suc.prems(1) this] show ?case by (subst numeral_text.simps) auto
qed (simp add: numeral_text.simps)

lemma convert_text:
  assumes "2 \<le> unat base" "length (numeral_text capital (unat base) (unat x)) + length buffer \<le> 36"
  shows "convert capital base x buffer = Some (numeral_text capital (unat base) (unat x) @ buffer)"
  using assms
proof (induction capital base x buffer rule: convert.induct)
  case (1 capital base x buffer)
  note T = numeral_text.simps [of capital "unat base" "unat x"]
  have ne: "numeral_text capital (unat base) n \<noteq> []" for n by (subst numeral_text.simps) simp
  have l: "length buffer < 36" "base \<noteq> 0" using 1(2,3) ne [of "unat x"] by (auto simp: Suc_le_eq neq_Nil_conv)
  have z: "x div base = 0 \<longleftrightarrow> unat x < unat base"
    using 1(2) by (simp add: unat_eq_zero [symmetric] unat_div div_eq_0_iff)
  show ?case
  proof (cases "unat x < unat base")
    case True
    then show ?thesis using l z T by (subst convert.simps) (simp add: Let_def unat_mod)
  next
    case False
    let ?b = "digit_char capital (unat (x mod base)) # buffer"
    have T': "numeral_text capital (unat base) (unat x) = numeral_text capital (unat base) (unat (x div base)) @ [digit_char capital (unat (x mod base))]"
      using False 1(2) by (subst T) (simp add: unat_mod unat_div)
    have "convert capital base (x div base) ?b = Some (numeral_text capital (unat base) (unat (x div base)) @ ?b)"
      using 1(1) [OF _ refl _ 1(2)] l z False 1(3) unfolding T' by simp
    then show ?thesis using l z False unfolding T' by (subst convert.simps) (simp add: Let_def)
  qed
qed

lemma convert_total: "2 \<le> unat base \<Longrightarrow> convert capital base x [] = Some (numeral_text capital (unat base) (unat x))"
proof -
  assume b: "2 \<le> unat base"
  have "unat x < 2 ^ Suc 31" using unsigned_less [of x, where ?'a = nat] by simp
  also have "\<dots> \<le> unat base ^ Suc 31" using b by (rule power_mono) simp
  finally show ?thesis using convert_text [OF b, of capital x "[]"] numeral_text_len [OF b, of "unat x" 31 capital] by simp
qed

lemma directive_d:
  assumes "\<not> x <s 0" "printed m t p"
  shows "\<exists>p'. directive (CHR ''d'' # rest) (VInt x # args) p = Some (rest, args, p') \<and> printed m (t @ numeral_text False 10 (unat x)) p'"
proof -
  let ?s = "numeral_text False 10 (unat x)"
  let ?p = "p\<lparr>minFieldWidth := 0, leadingZeros := 0, options := RIGHT_JUSTIFY\<rparr>"
  have n: "take_number id CHR ''d'' rest 0 = (0, CHR ''d'', rest)" by (simp add: take_number.simps is_digit_def)
  have c: "convert False 10 x [] = Some ?s" using convert_total [of 10 False x] by simp
  have "directive (CHR ''d'' # rest) (VInt x # args) p = Some (rest, args, OutputField ?s (number_ctl CHR ''d'' x (-1) ?s ?p))"
    using assms(1) c by (simp add: directive_def take_width_def take_precision_def n base_of_def conversion_def va_int_def
        output_number_alt IsOptionSet_def)
  moreover have "printed m t (number_ctl CHR ''d'' x (-1) ?s ?p)" using assms by (simp add: number_ctl_def)
  note printed_field [OF this, of ?s]
  moreover have "field_text ?s (number_ctl CHR ''d'' x (-1) ?s ?p) = ?s"
    using assms(1) by (simp add: field_text_def number_ctl_def IsOptionSet_def)
  ultimately show ?thesis by simp
qed

lemma digit_char_digit: "d < 10 \<Longrightarrow> is_digit (digit_char cap d) \<and> of_char (digit_char cap d) = 48 + d"
  by (simp add: digit_char_def is_digit_def Let_def)

lemma loop_char: "c \<noteq> NUL \<Longrightarrow> c \<noteq> CHR ''%'' \<Longrightarrow> vStrXPrintf_loop (c # fmt) args p = vStrXPrintf_loop fmt args (OutputChar c p)"
  by (simp add: vStrXPrintf_loop.simps [of "c # fmt"])

lemma loop_d:
  assumes "\<not> x <s 0" "printed m t p"
  shows "\<exists>p'. vStrXPrintf_loop (CHR ''%'' # CHR ''d'' # fmt) (VInt x # args) p = vStrXPrintf_loop fmt args p' \<and>
    printed m (t @ numeral_text False 10 (unat x)) p'"
  using directive_d [OF assms, of fmt args] by (auto simp: vStrXPrintf_loop.simps [of "CHR ''%'' # CHR ''d'' # fmt"])

end
