(* ===== verification/Net_Text.thy ===== *)
theory Net_Text
  imports Sprintf Net_Mem Sem
begin

text \<open>
  More of \<open>src/tn_net/tn_net_utils.c\<close>: IP addresses from and to text, the random numbers, and the waits on
  semaphores, which have no result here when the caller leaves the processor. The main result is that reading the text of an address gives back the address.
\<close>

section \<open>Addresses as text\<close>

text \<open>The library function, for the strings of digits it is applied to.\<close>

definition atoi :: "string \<Rightarrow> u32" where
  "atoi s = foldl (\<lambda>v c. v * 10 + (of_nat (of_char c) - 48)) 0 s"

text \<open>The loop of \<open>ip4_str_to_num\<close>; \<open>dig_arr\<close> are the \<open>digit_cnt\<close> digits collected, at most three. The result \<^const>\<open>None\<close> is the
  return value \<open>FALSE\<close>.\<close>

fun ip4_scan :: "string \<Rightarrow> string \<Rightarrow> nat \<Rightarrow> nat \<Rightarrow> u32 \<Rightarrow> u32 option" where
  "ip4_scan str dig_arr dot_cnt state res =
     (case str of
        ch # ptr \<Rightarrow>
          if ch = CHR '' '' \<or> ch = CHR 0x09 then ip4_scan ptr dig_arr dot_cnt state res
          else if is_digit ch then
            (if length (dig_arr @ [ch]) > 3 then None else ip4_scan ptr (dig_arr @ [ch]) 0 state res)
          else if ch = CHR ''.'' then
            (if dot_cnt + 1 > 1 then None
             else if atoi dig_arr > 255 then None
             else if state = 0 then ip4_scan ptr [] (dot_cnt + 1) (state + 1) (res OR push_bit 24 (atoi dig_arr))
             else if state = 1 then ip4_scan ptr [] (dot_cnt + 1) (state + 1) (res OR push_bit 16 (atoi dig_arr))
             else if state = 2 then ip4_scan ptr [] (dot_cnt + 1) (state + 1) (res OR push_bit 8 (atoi dig_arr))
             else None)
          else if ch = NUL \<and> length dig_arr > 0 \<and> state = 3 \<and> \<not> atoi dig_arr > 255 then Some (res OR atoi dig_arr)
          else None
      | [] \<Rightarrow>
          if length dig_arr > 0 \<and> state = 3 \<and> \<not> atoi dig_arr > 255 then Some (res OR atoi dig_arr) else None)"

declare ip4_scan.simps [simp del]

definition ip4_str_to_num :: "string \<Rightarrow> u32 option" where
  "ip4_str_to_num str = ip4_scan str [] 0 0 0"

definition ip4_num_to_str :: "u32 \<Rightarrow> string option" where
  "ip4_num_to_str ip4_addr =
     map_option snd (tn_snprintf 18 ''%d.%d.%d.%d''
       [VInt (drop_bit 24 ip4_addr AND 0xFF), VInt (drop_bit 16 ip4_addr AND 0xFF), VInt (drop_bit 8 ip4_addr AND 0xFF),
        VInt (ip4_addr AND 0xFF)])"

abbreviation decimal :: "nat \<Rightarrow> string" where
  "decimal \<equiv> numeral_text False 10"

lemma decimal_digits: "list_all is_digit (decimal n)"
proof (induction n rule: less_induct)
  case (less n)
  then show ?case using digit_char_digit by (subst numeral_text.simps) auto
qed

lemma decimal_value: "foldl (\<lambda>v c. v * 10 + (of_nat (of_char c) - 48)) (0 :: u32) (decimal n) = of_nat n"
proof (induction n rule: less_induct)
  case (less n)
  show ?case
  proof (cases "n < 10")
    case False
    have "of_nat (n div 10) * 10 + of_nat (n mod 10) = (of_nat (n div 10 * 10 + n mod 10) :: u32)" by (simp only: of_nat_add of_nat_mult of_nat_numeral)
    then show ?thesis using less [of "n div 10"] False digit_char_digit [of "n mod 10" False] by (subst numeral_text.simps) simp
  qed (use digit_char_digit [of n False] in \<open>simp add: numeral_text.simps\<close>)
qed

lemma atoi_decimal: "atoi (decimal n) = of_nat n"
  by (simp add: atoi_def decimal_value)

lemma decimal_len: "n < 256 \<Longrightarrow> length (decimal n) \<le> 3 \<and> decimal n \<noteq> []"
  using numeral_text_len [of 10 n 2 False] by (subst (2) numeral_text.simps) auto

lemma scan_digits:
  assumes "list_all is_digit ds" "length (acc @ ds) \<le> 3" "ds \<noteq> []"
  shows "ip4_scan (ds @ str) acc d st res = ip4_scan str (acc @ ds) 0 st res"
  using assms
proof (induction ds arbitrary: acc d)
  case (Cons c ds)
  have c: "is_digit c" "c \<noteq> CHR '' ''" "c \<noteq> CHR 0x09" using Cons.prems by (auto simp: is_digit_def)
  have "ip4_scan ((c # ds) @ str) acc d st res = ip4_scan (ds @ str) (acc @ [c]) 0 st res"
    using c Cons.prems(2) by (subst ip4_scan.simps) simp
  then show ?case using Cons.IH [of "acc @ [c]" 0] Cons.prems by (cases "ds = []") auto
qed simp

lemma scan_number:
  "n < 256 \<Longrightarrow> ip4_scan (decimal n @ str) [] d st res = ip4_scan str (decimal n) 0 st res"
  using scan_digits [of "decimal n" "[]"] decimal_digits decimal_len by simp

lemma scan_dot:
  assumes "n < 256" "st < 3"
  shows "ip4_scan (CHR ''.'' # str) (decimal n) 0 st res = ip4_scan str [] 1 (Suc st) (res OR push_bit (24 - 8 * st) (of_nat n))"
proof -
  have "\<not> (of_nat n :: u32) > 255" using assms(1) by (simp add: word_less_nat_alt unat_of_nat)
  moreover have "st = 0 \<or> st = 1 \<or> st = 2" using assms(2) by auto
  ultimately show ?thesis by (subst ip4_scan.simps) (auto simp: atoi_decimal is_digit_def)
qed

lemma scan_end: "n < 256 \<Longrightarrow> ip4_scan [] (decimal n) 0 3 res = Some (res OR of_nat n)"
  using decimal_len [of n] by (subst ip4_scan.simps) (simp add: atoi_decimal word_less_nat_alt unat_of_nat)

lemma scan_address:
  assumes "a < 256" "b < 256" "c < 256" "d < 256"
  shows "ip4_str_to_num (decimal a @ ''.'' @ decimal b @ ''.'' @ decimal c @ ''.'' @ decimal d) =
    Some (push_bit 24 (of_nat a) OR push_bit 16 (of_nat b) OR push_bit 8 (of_nat c) OR of_nat d)"
proof -
  have l: "ip4_scan (decimal d) [] (Suc 0) (Suc (Suc (Suc 0))) res = Some (res OR of_nat d)" for res
    using scan_number [OF assms(4), of "[]" 1 3 res] scan_end [OF assms(4)] by (simp add: numeral_3_eq_3)
  show ?thesis using assms by (simp add: ip4_str_to_num_def scan_number scan_dot l or.assoc)
qed

lemma snprintf_address:
  assumes "\<not> a <s 0" "\<not> b <s 0" "\<not> c <s 0" "\<not> d <s 0"
    and "t = decimal (unat a) @ ''.'' @ decimal (unat b) @ ''.'' @ decimal (unat c) @ ''.'' @ decimal (unat d)"
  shows "tn_snprintf n ''%d.%d.%d.%d'' [VInt a, VInt b, VInt c, VInt d] =
    Some (if length t \<le> nat (n - 1) then int (length t) else -1, take (nat (n - 1)) t)"
proof -
  let ?m = "nat (n - 1)"
  define p where "p = blank\<lparr>maxLen := n - 1\<rparr>"
  have p: "printed ?m [] p" by (simp add: printed_def p_def blank_def)
  from loop_d [OF assms(1) p] obtain p1 where 1: "vStrXPrintf_loop ''%d.%d.%d.%d'' [VInt a, VInt b, VInt c, VInt d] p =
    vStrXPrintf_loop ''.%d.%d.%d'' [VInt b, VInt c, VInt d] p1" "printed ?m (decimal (unat a)) p1" by fastforce
  from loop_d [OF assms(2) printed_char [OF 1(2)]] obtain p2 where 2: "vStrXPrintf_loop ''%d.%d.%d'' [VInt b, VInt c, VInt d] (OutputChar CHR ''.'' p1) =
    vStrXPrintf_loop ''.%d.%d'' [VInt c, VInt d] p2" "printed ?m (decimal (unat a) @ ''.'' @ decimal (unat b)) p2" by fastforce
  from loop_d [OF assms(3) printed_char [OF 2(2)]] obtain p3 where 3: "vStrXPrintf_loop ''%d.%d'' [VInt c, VInt d] (OutputChar CHR ''.'' p2) =
    vStrXPrintf_loop ''.%d'' [VInt d] p3" "printed ?m (decimal (unat a) @ ''.'' @ decimal (unat b) @ ''.'' @ decimal (unat c)) p3" by fastforce
  from loop_d [OF assms(4) printed_char [OF 3(2)]] obtain p4 where 4: "vStrXPrintf_loop ''%d'' [VInt d] (OutputChar CHR ''.'' p3) =
    vStrXPrintf_loop [] [] p4" "printed ?m t p4" unfolding assms(5) by fastforce
  have "vStrXPrintf_loop ''%d.%d.%d.%d'' [VInt a, VInt b, VInt c, VInt d] p = Some p4"
    by (simp add: 1(1) loop_char 2(1) 3(1) 4(1)) (simp add: vStrXPrintf_loop.simps)
  then show ?thesis using 4(2)
    by (simp add: tn_snprintf_def vStrPrintf_def vStrXPrintf_def p_def blank_def printed_def)
qed

text \<open>The four bytes of an address.\<close>

lemma address_bytes:
  "push_bit 24 (drop_bit 24 a AND 0xFF) OR push_bit 16 (drop_bit 16 a AND 0xFF) OR push_bit 8 (drop_bit 8 a AND 0xFF) OR (a AND 0xFF) = (a :: u32)"
proof -
  have m: "(0xFF :: u32) = mask 8" by (simp add: mask_eq_exp_minus_1)
  show ?thesis unfolding m
  proof (rule bit_word_eqI)
    fix n assume n: "n < LENGTH(32)"
    consider "n < 8" | "8 \<le> n" "n < 16" | "16 \<le> n" "n < 24" | "24 \<le> n" by linarith
    then show "bit (push_bit 24 (drop_bit 24 a AND mask 8) OR push_bit 16 (drop_bit 16 a AND mask 8) OR push_bit 8 (drop_bit 8 a AND mask 8) OR
      (a AND mask 8)) n \<longleftrightarrow> bit a n"
      using n by cases (auto simp: bit_simps)
  qed
qed

lemma byte_range: "unat (x AND 0xFF :: u32) < 256" "\<not> (x AND 0xFF :: u32) <s 0"
proof -
  have m: "(0xFF :: u32) = mask 8" by (simp add: mask_eq_exp_minus_1)
  show "unat (x AND 0xFF) < 256" unfolding m by (simp flip: take_bit_eq_mask add: unsigned_take_bit_eq) (simp add: take_bit_eq_mod)
  have "\<not> bit (x AND 0xFF) 31" unfolding m by (simp add: bit_simps)
  then show "\<not> (x AND 0xFF :: u32) <s 0" using bit_last_iff [of "x AND 0xFF"] by (simp add: word_sless_alt)
qed

lemma ip4_round_trip: "Option.bind (ip4_num_to_str a) ip4_str_to_num = Some a"
proof -
  let ?d = "\<lambda>x :: u32. decimal (unat (x AND 0xFF))"
  let ?t = "?d (drop_bit 24 a) @ ''.'' @ ?d (drop_bit 16 a) @ ''.'' @ ?d (drop_bit 8 a) @ ''.'' @ ?d a"
  have l: "length (?d x) \<le> 3" for x using decimal_len [OF byte_range(1)] by simp
  have "length ?t \<le> 17" using l [of "drop_bit 24 a"] l [of "drop_bit 16 a"] l [of "drop_bit 8 a"] l [of a] by simp
  then have "ip4_num_to_str a = Some ?t"
    by (simp add: ip4_num_to_str_def snprintf_address [OF byte_range(2) byte_range(2) byte_range(2) byte_range(2) refl])
  then show ?thesis using scan_address [OF byte_range(1) byte_range(1) byte_range(1) byte_range(1)] address_bytes [of a] by simp
qed

section \<open>Random numbers\<close>

record rndmwc =
  rnd_a :: u32
  rnd_x :: u32
  rnd_c :: u32
  rnd_ah :: u32
  rnd_al :: u32

text \<open>A word from four bytes in memory order, on the little-endian processor.\<close>

definition le_word :: "u8 list \<Rightarrow> u32" where
  "le_word bs = foldr (\<lambda>b w. ucast b + 256 * w) bs 0"

definition tn_srand :: "u8 list \<Rightarrow> rndmwc" where
  "tn_srand hw_addr =
     (let xi = le_word [hw_addr ! 2, hw_addr ! 3, hw_addr ! 4, hw_addr ! 5];
          ci = le_word [hw_addr ! 0, hw_addr ! 1, hw_addr ! 0, hw_addr ! 1];
          a = 1791398085 in
      \<lparr>rnd_a = a, rnd_x = (if xi \<noteq> 0 then xi else 30903), rnd_c = ci, rnd_ah = drop_bit 16 a, rnd_al = a AND 0xFFFF\<rparr>)"

definition tn_rand :: "rndmwc \<Rightarrow> u32 \<times> rndmwc" where
  "tn_rand mwc =
     (let xh = drop_bit 16 (rnd_x mwc);
          xl = rnd_x mwc AND 0xFFFF;
          x = rnd_x mwc * rnd_a mwc + rnd_c mwc;
          c = xh * rnd_ah mwc + drop_bit 16 (xh * rnd_al mwc) + drop_bit 16 (xl * rnd_ah mwc);
          c = (if xl * rnd_al mwc \<ge> NOT c + 1 then c + 1 else c) in
      (x, mwc\<lparr>rnd_x := x, rnd_c := c\<rparr>))"

text \<open>The multiplier keeps its two halves, and the number is that of a multiply-with-carry generator.\<close>

lemma tn_rand_value:
  "uint (fst (tn_rand mwc)) = (uint (rnd_a mwc) * uint (rnd_x mwc) + uint (rnd_c mwc)) mod 2 ^ 32"
  "rnd_a (snd (tn_rand mwc)) = rnd_a mwc" "rnd_x (snd (tn_rand mwc)) = fst (tn_rand mwc)"
  by (simp_all add: tn_rand_def Let_def uint_word_ariths mult.commute mod_add_left_eq)

text \<open>But the carry of the code is not that of the product: the second step from the default seed already loses one.\<close>

lemma tn_rand_carry_short:
  "\<exists>mwc. rnd_a mwc = 1791398085 \<and> rnd_ah mwc = drop_bit 16 (rnd_a mwc) \<and> rnd_al mwc = rnd_a mwc AND 0xFFFF \<and>
     uint (rnd_c (snd (tn_rand mwc))) \<noteq> (uint (rnd_a mwc) * uint (rnd_x mwc) + uint (rnd_c mwc)) div 2 ^ 32"
  by (intro exI [of _ "\<lparr>rnd_a = 1791398085, rnd_x = 1741542611, rnd_c = 12889, rnd_ah = drop_bit 16 1791398085,
        rnd_al = 1791398085 AND 0xFFFF\<rparr>"])
    (simp add: tn_rand_def Let_def drop_bit_eq_div)

section \<open>Waiting\<close>

definition tn_net_wait :: "sid option \<Rightarrow> kstate \<Rightarrow> kstate option" where
  "tn_net_wait sem s = do { (r, s') \<leftarrow> tn_sem_acquire sem TN_WAIT_INFINITE s; rc \<leftarrow> came_back r; Some s' }"

definition tn_socket_wait :: "sid option \<Rightarrow> kstate \<Rightarrow> (int \<times> kstate) option" where
  "tn_socket_wait t_sem s = do { (r, s') \<leftarrow> tn_sem_acquire t_sem TN_WAIT_INFINITE s; rc \<leftarrow> came_back r; Some (0, s') }"

definition tn_net_wakeup :: "sid option \<Rightarrow> kstate \<Rightarrow> kstate option" where
  "tn_net_wakeup sem s = do { (r, s') \<leftarrow> tn_sem_signal sem s; rc \<leftarrow> came_back r; Some s' }"

text \<open>A wait succeeds at once where the semaphore has a unit; a wakeup then gives it back.\<close>

lemma wait_wakeup:
  assumes "\<not> bad_non_int_context s" "id_sem (sems s i) = TN_ID_SEMAPHORE" "is_queue_empty (mem s) (SemWaitQ i)"
    and "1 \<le> sem_count (sems s i)" "sem_count (sems s i) \<le> sem_max_count (sems s i)"
  shows "\<exists>s'. tn_net_wait (Some i) s = Some s' \<and> sem_count (sems s' i) = sem_count (sems s i) - 1 \<and> tn_net_wakeup (Some i) s' = Some s"
proof -
  define k where "k = upd_sem i (\<lambda>x. x\<lparr>sem_count := sem_count x - 1\<rparr>) s"
  have "tn_sem_acquire (Some i) TN_WAIT_INFINITE s = Some (RC TERR_NO_ERR, k)"
    using assms by (simp add: tn_sem_acquire_def tn_disable_interrupt_def tn_enable_interrupt_def k_def upd_sem_def)
  moreover have "tn_sem_signal (Some i) k = Some (RC TERR_NO_ERR, s)"
    using assms by (simp add: tn_sem_signal_def tn_disable_interrupt_def tn_enable_interrupt_def k_def upd_sem_def bad_non_int_context_def)
  ultimately show ?thesis by (intro exI [of _ k]) (simp add: tn_net_wait_def tn_net_wakeup_def came_back_def k_def upd_sem_def)
qed

end
