(* ===== verification/In_Pcb.thy ===== *)
theory In_Pcb
  imports Mbuf
begin

text \<open>
  Protocol control blocks, \<open>src/tn_net/tn_in_pcb.c\<close>: the ring of control blocks of a protocol, binding to local addresses and
  ports, connecting, and the search for the control block of a packet.

  Control blocks, sockets and interfaces are in typed stores, as the buffer descriptors are; a control block enters its
  store when \<open>in_pcballoc\<close> clears its block. Addresses and ports have the byte order of the network, as in the code. A
  socket address is read from and written to the bytes of a buffer; its structure is packed, so the compiler makes no
  aligned accesses. The function \<open>sofree\<close> a socket may have is a parameter. \<^const>\<open>None\<close> is a fault or an endless loop.
\<close>

section \<open>State\<close>

abbreviation (input) EINVAL :: int where "EINVAL \<equiv> 22"
abbreviation (input) EAFNOSUPPORT :: int where "EAFNOSUPPORT \<equiv> 47"
abbreviation (input) EADDRINUSE :: int where "EADDRINUSE \<equiv> 48"
abbreviation (input) EADDRNOTAVAIL :: int where "EADDRNOTAVAIL \<equiv> 49"
abbreviation (input) ENOBUFS :: int where "ENOBUFS \<equiv> 55"
abbreviation (input) AF_INET :: u8 where "AF_INET \<equiv> 2"
abbreviation (input) SO_REUSEPORT :: u16 where "SO_REUSEPORT \<equiv> 0x0200"
abbreviation (input) SS_NOFDREF :: u16 where "SS_NOFDREF \<equiv> 1"
abbreviation (input) IFF_UP :: u32 where "IFF_UP \<equiv> 1"
abbreviation (input) IFF_BROADCAST :: u32 where "IFF_BROADCAST \<equiv> 2"
abbreviation (input) INADDR_ANY :: u32 where "INADDR_ANY \<equiv> 0"
abbreviation (input) INADDR_BROADCAST :: u32 where "INADDR_BROADCAST \<equiv> 0xFFFFFFFF"
abbreviation (input) INPLOOKUP_WILDCARD :: u32 where "INPLOOKUP_WILDCARD \<equiv> 1"
abbreviation (input) IPPORT_RESERVED :: u16 where "IPPORT_RESERVED \<equiv> 1024"
abbreviation (input) IPPORT_USERRESERVED :: u16 where "IPPORT_USERRESERVED \<equiv> 5000"

record inpcb =
  inp_next :: addr
  inp_prev :: addr
  inp_head :: addr
  inp_faddr :: u32
  inp_laddr :: u32
  inp_fport :: u16
  inp_lport :: u16
  inp_socket :: addr
  inp_ppcb :: addr

record socket =
  so_options :: u16
  so_state :: u16
  so_pcb :: addr
  so_has_free :: bool

record netif =
  ni_next :: addr
  ip_addr :: u32
  netmask :: u32
  if_broadaddr :: u32
  if_flags :: u32

record pstate =
  nst :: nstate
  pcbs :: "addr \<rightharpoonup> inpcb"
  socks :: "addr \<rightharpoonup> socket"
  netifs :: "addr \<rightharpoonup> netif"
  netif_default :: addr
  netif_list :: addr

definition get_pcb :: "addr \<Rightarrow> pstate \<Rightarrow> inpcb option" where
  "get_pcb p st = (if p = 0 then None else pcbs st p)"

definition set_pcb :: "addr \<Rightarrow> (inpcb \<Rightarrow> inpcb) \<Rightarrow> pstate \<Rightarrow> pstate option" where
  "set_pcb p f st = (case get_pcb p st of None \<Rightarrow> None | Some b \<Rightarrow> Some (st\<lparr>pcbs := (pcbs st)(p \<mapsto> f b)\<rparr>))"

definition get_so :: "addr \<Rightarrow> pstate \<Rightarrow> socket option" where
  "get_so p st = (if p = 0 then None else socks st p)"

definition set_so :: "addr \<Rightarrow> (socket \<Rightarrow> socket) \<Rightarrow> pstate \<Rightarrow> pstate option" where
  "set_so p f st = (case get_so p st of None \<Rightarrow> None | Some b \<Rightarrow> Some (st\<lparr>socks := (socks st)(p \<mapsto> f b)\<rparr>))"

definition get_ni :: "addr \<Rightarrow> pstate \<Rightarrow> netif option" where
  "get_ni p st = (if p = 0 then None else netifs st p)"

text \<open>\<open>insque\<close> and \<open>remque\<close>\<close>

definition tn_np_que_insert_entry :: "addr \<Rightarrow> addr \<Rightarrow> pstate \<Rightarrow> pstate option" where
  "tn_np_que_insert_entry entry ins_after_entry st =
     do { a \<leftarrow> get_pcb ins_after_entry st;
          let next_entry = inp_next a in do {
          st \<leftarrow> set_pcb ins_after_entry (\<lambda>b. b\<lparr>inp_next := entry\<rparr>) st;
          st \<leftarrow> set_pcb next_entry (\<lambda>b. b\<lparr>inp_prev := entry\<rparr>) st;
          st \<leftarrow> set_pcb entry (\<lambda>b. b\<lparr>inp_next := next_entry\<rparr>) st;
          set_pcb entry (\<lambda>b. b\<lparr>inp_prev := ins_after_entry\<rparr>) st } }"

definition tn_np_que_remove_entry :: "addr \<Rightarrow> pstate \<Rightarrow> pstate option" where
  "tn_np_que_remove_entry entry st =
     do { e \<leftarrow> get_pcb entry st;
          st \<leftarrow> set_pcb (inp_prev e) (\<lambda>b. b\<lparr>inp_next := inp_next e\<rparr>) st;
          e \<leftarrow> get_pcb entry st;
          set_pcb (inp_next e) (\<lambda>b. b\<lparr>inp_prev := inp_prev e\<rparr>) st }"

section \<open>Socket addresses in memory\<close>

definition htons :: "u16 \<Rightarrow> u16" where
  "htons val = push_bit 8 (val AND 0xFF) OR drop_bit 8 (val AND 0xFF00)"

definition ntohl :: "u32 \<Rightarrow> u32" where
  "ntohl val = push_bit 24 (val AND 0xFF) OR push_bit 8 (val AND 0xFF00) OR drop_bit 8 (val AND 0xFF0000) OR
     drop_bit 24 (val AND 0xFF000000)"

definition IN_MULTICAST :: "u32 \<Rightarrow> bool" where
  "IN_MULTICAST i \<longleftrightarrow> i AND 0xF0000000 = 0xE0000000"

definition rd16 :: "bmem \<Rightarrow> addr \<Rightarrow> u16" where
  "rd16 m a = ucast (m a) OR push_bit 8 (ucast (m (a + 1)))"

definition rd32 :: "bmem \<Rightarrow> addr \<Rightarrow> u32" where
  "rd32 m a = ucast (m a) OR push_bit 8 (ucast (m (a + 1))) OR push_bit 16 (ucast (m (a + 2))) OR push_bit 24 (ucast (m (a + 3)))"

definition wr16 :: "addr \<Rightarrow> u16 \<Rightarrow> bmem \<Rightarrow> bmem" where
  "wr16 a v m = m(a := ucast v, a + 1 := ucast (drop_bit 8 v))"

definition wr32 :: "addr \<Rightarrow> u32 \<Rightarrow> bmem \<Rightarrow> bmem" where
  "wr32 a v m = m(a := ucast v, a + 1 := ucast (drop_bit 8 v), a + 2 := ucast (drop_bit 16 v), a + 3 := ucast (drop_bit 24 v))"

abbreviation sizeof_sin :: int where "sizeof_sin \<equiv> 16"

definition sin_family :: "addr \<Rightarrow> pstate \<Rightarrow> u8" where
  "sin_family sin st = bytes (nst st) (sin + 1)"

definition sin_port :: "addr \<Rightarrow> pstate \<Rightarrow> u16" where
  "sin_port sin st = rd16 (bytes (nst st)) (sin + 2)"

definition sin_addr :: "addr \<Rightarrow> pstate \<Rightarrow> u32" where
  "sin_addr sin st = rd32 (bytes (nst st)) (sin + 4)"

definition on_bytes :: "(bmem \<Rightarrow> bmem) \<Rightarrow> pstate \<Rightarrow> pstate" where
  "on_bytes f st = st\<lparr>nst := (nst st)\<lparr>bytes := f (bytes (nst st))\<rparr>\<rparr>"

section \<open>Search\<close>

text \<open>The test of one control block: \<^const>\<open>None\<close> is \<open>continue\<close>, otherwise the number of wildcards.\<close>

definition pcb_wildcard :: "inpcb \<Rightarrow> u32 \<Rightarrow> u16 \<Rightarrow> u32 \<Rightarrow> u16 \<Rightarrow> u32 \<Rightarrow> nat option" where
  "pcb_wildcard inp faddr fport laddr lport flags =
     (if inp_lport inp \<noteq> lport then None
      else if inp_laddr inp \<noteq> INADDR_ANY \<and> laddr \<noteq> INADDR_ANY \<and> inp_laddr inp \<noteq> laddr then None
      else if inp_faddr inp \<noteq> INADDR_ANY \<and> faddr \<noteq> INADDR_ANY \<and> (inp_faddr inp \<noteq> faddr \<or> inp_fport inp \<noteq> fport) then None
      else
        let wildcard = (if inp_laddr inp \<noteq> INADDR_ANY then (if laddr = INADDR_ANY then 1 else 0)
                        else (if laddr \<noteq> INADDR_ANY then 1 else 0)) +
                       (if inp_faddr inp \<noteq> INADDR_ANY then (if faddr = INADDR_ANY then 1 else 0)
                        else (if faddr \<noteq> INADDR_ANY then 1 else 0)) in
        if wildcard \<noteq> 0 \<and> flags AND INPLOOKUP_WILDCARD = 0 then None else Some wildcard)"

partial_function (option) in_pcblookup_loop ::
    "addr \<Rightarrow> (inpcb \<Rightarrow> nat option) \<Rightarrow> addr \<Rightarrow> addr \<Rightarrow> nat \<Rightarrow> pstate \<Rightarrow> addr option" where
  "in_pcblookup_loop head test inp match matchwild st =
     (if inp = head then Some match
      else do {
        b \<leftarrow> get_pcb inp st;
        case test b of
          None \<Rightarrow> in_pcblookup_loop head test (inp_next b) match matchwild st
        | Some wildcard \<Rightarrow>
            if wildcard < matchwild then
              (if wildcard = 0 then Some inp else in_pcblookup_loop head test (inp_next b) inp wildcard st)
            else in_pcblookup_loop head test (inp_next b) match matchwild st })"

definition in_pcblookup :: "addr \<Rightarrow> u32 \<Rightarrow> u16 \<Rightarrow> u32 \<Rightarrow> u16 \<Rightarrow> u32 \<Rightarrow> pstate \<Rightarrow> addr option" where
  "in_pcblookup head faddr fport laddr lport flags st =
     do { h \<leftarrow> get_pcb head st;
          in_pcblookup_loop head (\<lambda>inp. pcb_wildcard inp faddr fport laddr lport flags) (inp_next h) 0 3 st }"

section \<open>Interfaces\<close>

partial_function (option) ip_route_loop :: "u32 \<Rightarrow> addr \<Rightarrow> pstate \<Rightarrow> addr option" where
  "ip_route_loop dst ni st =
     (if ni = 0 then Some 0
      else do {
        n \<leftarrow> get_ni ni st;
        if if_flags n AND IFF_UP \<noteq> 0 \<and> dst AND netmask n = ip_addr n AND netmask n then Some ni
        else ip_route_loop dst (ni_next n) st })"

definition tn_ip_route :: "u32 \<Rightarrow> pstate \<Rightarrow> addr option" where
  "tn_ip_route dst st =
     do { ni \<leftarrow> ip_route_loop dst (netif_list st) st;
          if ni \<noteq> 0 then Some ni
          else if netif_default st = 0 then Some 0
          else do {
            n \<leftarrow> get_ni (netif_default st) st;
            if if_flags n AND IFF_UP = 0 then Some 0 else Some (netif_default st) } }"

partial_function (option) ifwithaddr_loop :: "u32 \<Rightarrow> addr \<Rightarrow> pstate \<Rightarrow> addr option" where
  "ifwithaddr_loop dst_addr ni st =
     (if ni = 0 then Some 0
      else do {
        n \<leftarrow> get_ni ni st;
        if dst_addr = ip_addr n then Some ni
        else if if_flags n AND IFF_BROADCAST \<noteq> 0 \<and> if_broadaddr n \<noteq> 0 \<and> if_broadaddr n = dst_addr then Some ni
        else ifwithaddr_loop dst_addr (ni_next n) st })"

definition tn_ifwithaddr :: "u32 \<Rightarrow> pstate \<Rightarrow> addr option" where
  "tn_ifwithaddr dst_addr st = ifwithaddr_loop dst_addr (netif_list st) st"

definition in_broadcast :: "u32 \<Rightarrow> addr \<Rightarrow> pstate \<Rightarrow> int option" where
  "in_broadcast i ni st =
     (if i = INADDR_BROADCAST \<or> i = INADDR_ANY then Some 1
      else do { n \<leftarrow> get_ni ni st; if if_flags n AND IFF_BROADCAST = 0 then Some 0 else Some 0 })"

section \<open>Operations\<close>

definition zero_pcb :: inpcb where
  "zero_pcb = \<lparr>inp_next = 0, inp_prev = 0, inp_head = 0, inp_faddr = 0, inp_laddr = 0, inp_fport = 0, inp_lport = 0,
     inp_socket = 0, inp_ppcb = 0\<rparr>"

definition on_net :: "(kstate \<Rightarrow> ('a \<times> kstate) option) \<Rightarrow> pstate \<Rightarrow> ('a \<times> pstate) option" where
  "on_net f st = do { (x, n) \<leftarrow> on_kernel f (nst st); Some (x, st\<lparr>nst := n\<rparr>) }"

definition in_pcballoc :: "tn_net \<Rightarrow> addr \<Rightarrow> addr \<Rightarrow> pstate \<Rightarrow> (int \<times> pstate) option" where
  "in_pcballoc tnet so head st =
     do { (inp, st) \<leftarrow> on_net (tn_net_alloc_min tnet MB_NOWAIT) st;
          if inp = 0 then Some (ENOBUFS, st)
          else
            let st = st\<lparr>pcbs := (pcbs st)(inp \<mapsto> zero_pcb\<lparr>inp_head := head, inp_socket := so\<rparr>)\<rparr> in
            do { st \<leftarrow> tn_np_que_insert_entry inp head st;
                 st \<leftarrow> set_so so (\<lambda>s. s\<lparr>so_pcb := inp\<rparr>) st;
                 Some (0, st) } }"

text \<open>The choice of a free port, the \<open>do while\<close> loop of \<open>in_pcbbind\<close>. The counter is kept in the head of the ring.\<close>

definition next_port :: "u16 \<Rightarrow> u16" where
  "next_port p = (if p < IPPORT_RESERVED \<or> p + 1 > IPPORT_USERRESERVED then IPPORT_RESERVED else p + 1)"

partial_function (option) free_port_loop :: "addr \<Rightarrow> addr \<Rightarrow> pstate \<Rightarrow> (u16 \<times> pstate) option" where
  "free_port_loop head inp st =
     do { st \<leftarrow> set_pcb head (\<lambda>h. h\<lparr>inp_lport := next_port (inp_lport h)\<rparr>) st;
          h \<leftarrow> get_pcb head st;
          b \<leftarrow> get_pcb inp st;
          let lport = htons (inp_lport h) in do {
          t \<leftarrow> in_pcblookup head 0 0 (inp_laddr b) lport 0 st;
          if t \<noteq> 0 then free_port_loop head inp st else Some (lport, st) } }"

definition bind_port :: "addr \<Rightarrow> addr \<Rightarrow> u16 \<Rightarrow> pstate \<Rightarrow> (int \<times> pstate) option" where
  "bind_port head inp lport st =
     do { (lport, st) \<leftarrow> (if lport = 0 then free_port_loop head inp st else Some (lport, st));
          st \<leftarrow> set_pcb inp (\<lambda>b. b\<lparr>inp_lport := lport\<rparr>) st;
          Some (0, st) }"

text \<open>The checks of \<open>in_pcbbind\<close>: the address belongs to an interface (the port in the buffer is cleared on the way), and the
  address and the port are not in use.\<close>

definition bind_addr_ok :: "addr \<Rightarrow> pstate \<Rightarrow> (bool \<times> pstate) option" where
  "bind_addr_ok sin st =
     (if IN_MULTICAST (ntohl (sin_addr sin st)) then Some (True, st)
      else if sin_addr sin st \<noteq> INADDR_ANY then
        let st = on_bytes (wr16 (sin + 2) 0) st in
        do { ni \<leftarrow> tn_ifwithaddr (sin_addr sin st) st; Some (ni \<noteq> 0, st) }
      else Some (True, st))"

definition bind_in_use :: "addr \<Rightarrow> u32 \<Rightarrow> u16 \<Rightarrow> u16 \<Rightarrow> pstate \<Rightarrow> bool option" where
  "bind_in_use head laddr lport reuseport st =
     (if lport \<noteq> 0 then
        do { t \<leftarrow> in_pcblookup head 0 0 laddr lport 0 st;
             if t = 0 then Some False
             else do { tb \<leftarrow> get_pcb t st; ts \<leftarrow> get_so (inp_socket tb) st; Some (reuseport AND so_options ts = 0) } }
      else Some False)"

definition in_pcbbind :: "addr \<Rightarrow> addr \<Rightarrow> pstate \<Rightarrow> (int \<times> pstate) option" where
  "in_pcbbind inp nam st =
     (if inp = 0 then Some (EINVAL, st)
      else do {
        b \<leftarrow> get_pcb inp st;
        s \<leftarrow> get_so (inp_socket b) st;
        let head = inp_head b; reuseport = so_options s AND SO_REUSEPORT in
        if inp_lport b \<noteq> 0 \<or> inp_laddr b \<noteq> INADDR_ANY then Some (EINVAL, st)
        else if nam = 0 then bind_port head inp 0 st
        else do {
          n \<leftarrow> deref nam (nst st);
          let sin = m_data n; lport = sin_port sin st in
          if m_len n \<noteq> sizeof_sin then Some (EINVAL, st)
          else do {
            (avail, st) \<leftarrow> bind_addr_ok sin st;
            if \<not> avail then Some (EADDRNOTAVAIL, st)
            else do {
              used \<leftarrow> bind_in_use head (sin_addr sin st) lport reuseport st;
              if used then Some (EADDRINUSE, st)
              else do {
                st \<leftarrow> set_pcb inp (\<lambda>b. b\<lparr>inp_laddr := sin_addr sin st\<rparr>) st;
                bind_port head inp lport st } } } } })"

definition in_pcbconnect :: "addr \<Rightarrow> addr \<Rightarrow> pstate \<Rightarrow> (int \<times> pstate) option" where
  "in_pcbconnect inp nam st =
     do { n \<leftarrow> deref nam (nst st);
          let sin = m_data n in
          if inp = 0 then Some (EINVAL, st)
          else if m_len n \<noteq> sizeof_sin then Some (EINVAL, st)
          else if sin_family sin st \<noteq> AF_INET then Some (EAFNOSUPPORT, st)
          else if sin_port sin st = 0 then Some (EADDRNOTAVAIL, st)
          else do {
            st \<leftarrow> (if netif_default st \<noteq> 0 then
                     do { d \<leftarrow> get_ni (netif_default st) st;
                          Some (if if_flags d AND IFF_UP = 0 then st
                                else if sin_addr sin st = INADDR_ANY then on_bytes (wr32 (sin + 4) (ip_addr d)) st
                                else if sin_addr sin st = INADDR_BROADCAST \<and> if_flags d AND IFF_BROADCAST \<noteq> 0
                                then on_bytes (wr32 (sin + 4) (if_broadaddr d)) st
                                else st) }
                   else Some st);
            b \<leftarrow> get_pcb inp st;
            if_addr \<leftarrow> (if inp_laddr b = INADDR_ANY then
                         do { ni \<leftarrow> tn_ip_route (sin_addr sin st) st;
                              if ni = 0 then Some None else do { r \<leftarrow> get_ni ni st; Some (Some (ip_addr r)) } }
                       else Some (Some 0));
            case if_addr of
              None \<Rightarrow> Some (EADDRNOTAVAIL, st)
            | Some if_addr \<Rightarrow>
                do { t \<leftarrow> in_pcblookup (inp_head b) (sin_addr sin st) (sin_port sin st)
                           (if inp_laddr b \<noteq> 0 then inp_laddr b else if_addr) (inp_lport b) 0 st;
                     if t \<noteq> 0 then Some (EADDRINUSE, st)
                     else do {
                       st \<leftarrow> (if inp_laddr b = INADDR_ANY then
                                do { st \<leftarrow> (if inp_lport b = 0 then do { (rc, st) \<leftarrow> in_pcbbind inp 0 st; Some st } else Some st);
                                     set_pcb inp (\<lambda>b. b\<lparr>inp_laddr := if_addr\<rparr>) st }
                              else Some st);
                       st \<leftarrow> set_pcb inp (\<lambda>b. b\<lparr>inp_faddr := sin_addr sin st, inp_fport := sin_port sin st\<rparr>) st;
                       Some (0, st) } } } }"

definition in_pcbdetach :: "(addr \<Rightarrow> pstate \<Rightarrow> pstate option) \<Rightarrow> tn_net \<Rightarrow> addr \<Rightarrow> pstate \<Rightarrow> pstate option" where
  "in_pcbdetach sofree tnet inp st =
     (if inp = 0 then Some st
      else do {
        b \<leftarrow> get_pcb inp st;
        st \<leftarrow> set_so (inp_socket b) (\<lambda>s. s\<lparr>so_pcb := 0\<rparr>) st;
        s \<leftarrow> get_so (inp_socket b) st;
        st \<leftarrow> (if so_has_free s then sofree (inp_socket b) st else Some st);
        st \<leftarrow> tn_np_que_remove_entry inp st;
        (rc, st) \<leftarrow> on_net (tn_net_free_min tnet inp) st;
        Some (if rc = 0 then st\<lparr>pcbs := (pcbs st)(inp := None)\<rparr> else st) })"

definition in_pcbdisconnect :: "(addr \<Rightarrow> pstate \<Rightarrow> pstate option) \<Rightarrow> tn_net \<Rightarrow> addr \<Rightarrow> pstate \<Rightarrow> pstate option" where
  "in_pcbdisconnect sofree tnet inp st =
     (if inp = 0 then Some st
      else do {
        st \<leftarrow> set_pcb inp (\<lambda>b. b\<lparr>inp_faddr := INADDR_ANY, inp_fport := 0\<rparr>) st;
        b \<leftarrow> get_pcb inp st;
        s \<leftarrow> get_so (inp_socket b) st;
        if so_state s AND SS_NOFDREF \<noteq> 0 then in_pcbdetach sofree tnet inp st else Some st })"

text \<open>\<open>in_setsockaddr\<close> and \<open>in_setpeeraddr\<close> store an address and a port in a cleared socket address.\<close>

definition store_sin :: "addr \<Rightarrow> u16 \<Rightarrow> u32 \<Rightarrow> pstate \<Rightarrow> pstate option" where
  "store_sin nam port a st =
     do { n \<leftarrow> set_mbuf nam (\<lambda>b. b\<lparr>m_len := sizeof_sin\<rparr>) (nst st);
          b \<leftarrow> deref nam n;
          let sin = m_data b in
          Some (on_bytes (\<lambda>m. wr32 (sin + 4) a (wr16 (sin + 2) port
                  ((bzero sin (word_of_int sizeof_sin) m)(sin + 1 := AF_INET, sin := word_of_int sizeof_sin)))) (st\<lparr>nst := n\<rparr>)) }"

definition in_setsockaddr :: "addr \<Rightarrow> addr \<Rightarrow> pstate \<Rightarrow> pstate option" where
  "in_setsockaddr inp nam st =
     (if inp = 0 \<or> nam = 0 then Some st
      else do { b \<leftarrow> get_pcb inp st; store_sin nam (inp_lport b) (inp_laddr b) st })"

definition in_setpeeraddr :: "addr \<Rightarrow> addr \<Rightarrow> pstate \<Rightarrow> pstate option" where
  "in_setpeeraddr inp nam st =
     (if inp = 0 \<or> nam = 0 then Some st
      else do { b \<leftarrow> get_pcb inp st; store_sin nam (inp_fport b) (inp_faddr b) st })"

end
