(* ===== verification/In_Pcb_Ring.thy ===== *)
theory In_Pcb_Ring
  imports In_Pcb
begin

text \<open>
  The ring of control blocks as a list: inserting and removing entries, the search for the best match, and the
  choice of a local port, which ends when the ring has fewer control blocks than there are ports to choose from.
\<close>

section \<open>The ring\<close>

definition links :: "pstate \<Rightarrow> addr qmem" where
  "links st = \<lparr>prv = (\<lambda>p. inp_prev (the (pcbs st p))), nxt = (\<lambda>p. inp_next (the (pcbs st p)))\<rparr>"

definition pcb_ring :: "pstate \<Rightarrow> addr \<Rightarrow> addr list \<Rightarrow> bool" where
  "pcb_ring st head ps \<longleftrightarrow> ring (links st) head ps \<and> (\<forall>p \<in> set (head # ps). p \<noteq> 0 \<and> pcbs st p \<noteq> None)"

text \<open>Everything but the links of a control block.\<close>

definition unlinked :: "inpcb \<Rightarrow> inpcb" where
  "unlinked b = b\<lparr>inp_next := 0, inp_prev := 0\<rparr>"

definition same_pcbs :: "pstate \<Rightarrow> pstate \<Rightarrow> bool" where
  "same_pcbs st st' \<longleftrightarrow> (\<forall>p. map_option unlinked (pcbs st' p) = map_option unlinked (pcbs st p))"

lemma get_pcb_ring: "pcb_ring st head ps \<Longrightarrow> p \<in> set (head # ps) \<Longrightarrow> get_pcb p st = Some (the (pcbs st p))"
  by (auto simp: pcb_ring_def get_pcb_def)

lemma links_simps [simp]:
  "prv (links st) p = inp_prev (the (pcbs st p))" "nxt (links st) p = inp_next (the (pcbs st p))"
  by (simp_all add: links_def)

lemma insert_ring:
  assumes r: "pcb_ring st head ps" and e: "e \<notin> set (head # ps)" "e \<noteq> 0" "pcbs st e = Some b"
  shows "\<exists>st'. tn_np_que_insert_entry e head st = Some st' \<and> pcb_ring st' head (e # ps) \<and> same_pcbs st st' \<and>
    (\<forall>x. st'\<lparr>pcbs := x\<rparr> = st\<lparr>pcbs := x\<rparr>)"
proof -
  let ?n = "nxt (links st) head"
  have n: "?n \<in> set (head # ps)" using r by (cases ps) (auto simp: pcb_ring_def ring_def)
  then have ne: "?n \<noteq> e" "?n \<noteq> 0" using e r by (auto simp: pcb_ring_def)
  obtain h d where h: "pcbs st head = Some h" "pcbs st ?n = Some d" using r n by (fastforce simp: pcb_ring_def)
  have he: "head \<noteq> 0" "head \<noteq> e" using r e by (auto simp: pcb_ring_def)
  define st' where "st' = st\<lparr>pcbs := (let f = (pcbs st)(head \<mapsto> h\<lparr>inp_next := e\<rparr>) in
    f(?n \<mapsto> (the (f ?n))\<lparr>inp_prev := e\<rparr>, e \<mapsto> b\<lparr>inp_next := ?n, inp_prev := head\<rparr>))\<rparr>"
  have "tn_np_que_insert_entry e head st = Some st'"
    using h he ne e by (auto simp: tn_np_que_insert_entry_def get_pcb_def set_pcb_def st'_def Let_def)
  moreover have "ring (links st') head (e # ps)"
  proof (subst ring_cong [where m = "queue_add_head head e (links st)"])
    show "ring (queue_add_head head e (links st)) head (e # ps)" using r e by (intro ring_add_head) (auto simp: pcb_ring_def)
  qed (use h he ne e in \<open>auto simp: st'_def queue_add_head_def Let_def\<close>)
  moreover have "same_pcbs st st'" using h he ne e by (auto simp: same_pcbs_def st'_def unlinked_def Let_def)
  ultimately show ?thesis using r e he
    by (intro exI [of _ st']) (auto simp: pcb_ring_def st'_def Let_def)
qed

lemma remove_ring:
  assumes r: "pcb_ring st head ps" and e: "e \<in> set ps"
  shows "\<exists>st'. tn_np_que_remove_entry e st = Some st' \<and> pcb_ring st' head (remove1 e ps) \<and> same_pcbs st st' \<and>
    (\<forall>x. st'\<lparr>pcbs := x\<rparr> = st\<lparr>pcbs := x\<rparr>)"
proof -
  obtain b where b: "pcbs st e = Some b" "e \<noteq> 0" using r e by (auto simp: pcb_ring_def)
  let ?p = "inp_prev b" and ?n = "inp_next b"
  obtain ys zs where ps: "ps = ys @ e # zs" using e by (auto simp: in_set_conv_decomp)
  have c: "chain (links st) head (ys @ e # zs) head" "distinct (head # ys @ e # zs)" using r by (auto simp: pcb_ring_def ring_def ps)
  have p: "?p = last (head # ys)" using c(1) b chain_prv [of "links st" head ys e] by (auto simp: chain_append)
  have n: "?n = hd (zs @ [head])" using ring_nxt [of "links st" head ys e zs] r b by (auto simp: pcb_ring_def ps)
  have mem: "?p \<in> set (head # ps)" "?n \<in> set (head # ps)" unfolding p n ps by (cases ys rule: rev_cases; cases zs; simp)+
  have ne: "?p \<noteq> e" "?n \<noteq> e" unfolding p n using c(2) by (cases ys rule: rev_cases; cases zs; auto)+
  obtain x y where xy: "pcbs st ?p = Some x" "pcbs st ?n = Some y" "?p \<noteq> 0" "?n \<noteq> 0" using r mem by (fastforce simp: pcb_ring_def)
  define st' where "st' = st\<lparr>pcbs := (let f = (pcbs st)(?p \<mapsto> x\<lparr>inp_next := ?n\<rparr>) in f(?n \<mapsto> (the (f ?n))\<lparr>inp_prev := ?p\<rparr>))\<rparr>"
  have "tn_np_que_remove_entry e st = Some st'"
    using b xy ne by (auto simp: tn_np_que_remove_entry_def get_pcb_def set_pcb_def st'_def Let_def)
  moreover have "ring (links st') head (remove1 e ps)"
  proof (subst ring_cong [where m = "queue_remove_entry e (links st)"])
    show "ring (queue_remove_entry e (links st)) head (remove1 e ps)" using r e by (intro ring_remove_entry) (auto simp: pcb_ring_def)
  qed (use b xy ne in \<open>auto simp: st'_def queue_remove_entry_def Let_def\<close>)
  moreover have "same_pcbs st st'" using xy by (auto simp: same_pcbs_def st'_def unlinked_def Let_def)
  ultimately show ?thesis using r
    by (intro exI [of _ st']) (auto simp: pcb_ring_def st'_def Let_def dest: notin_set_remove1)
qed

section \<open>The search\<close>

text \<open>\<open>best\<close>: the entry is the first of those with the fewest wildcards.\<close>

definition best :: "(addr \<Rightarrow> nat option) \<Rightarrow> addr list \<Rightarrow> addr \<Rightarrow> bool" where
  "best score ps t \<longleftrightarrow> (\<exists>xs ys w. ps = xs @ t # ys \<and> score t = Some w \<and> (\<forall>p \<in> set xs. \<forall>v. score p = Some v \<longrightarrow> w < v) \<and>
     (\<forall>p \<in> set ys. \<forall>v. score p = Some v \<longrightarrow> w \<le> v))"

lemma best_bound: "pcb_wildcard b faddr fport laddr lport flags = Some w \<Longrightarrow> w < 3"
  by (auto simp: pcb_wildcard_def Let_def split: if_splits)

text \<open>The loop over the rest \<open>ps\<close> of the ring, with the best match of the part \<open>done\<close> before.\<close>

lemma lookup_loop:
  assumes "chain (links st) q ps head" "\<forall>p \<in> set ps. p \<noteq> head \<and> p \<noteq> 0 \<and> pcbs st p \<noteq> None"
    and "score = (\<lambda>p. test (the (pcbs st p)))" "\<And>b w. test b = Some w \<Longrightarrow> w < 3"
    and "if match = 0 then matchwild = 3 \<and> (\<forall>p \<in> set xs. score p = None)
      else best score xs match \<and> score match = Some matchwild \<and> match \<noteq> 0"
  shows "\<exists>t. in_pcblookup_loop head test (nxt (links st) q) match matchwild st = Some t \<and>
    (if t = 0 then \<forall>p \<in> set (xs @ ps). score p = None else best score (xs @ ps) t)"
  using assms(1,2,5)
proof (induction ps arbitrary: q xs match matchwild)
  case Nil
  then show ?case by (subst in_pcblookup_loop.simps) auto
next
  case (Cons p ps)
  let ?b = "the (pcbs st p)"
  have p: "nxt (links st) q = p" "p \<noteq> head" "p \<noteq> 0" "get_pcb p st = Some ?b" "chain (links st) p ps head"
    "\<forall>p \<in> set ps. p \<noteq> head \<and> p \<noteq> 0 \<and> pcbs st p \<noteq> None" using Cons.prems by (auto simp: get_pcb_def)
  note U = in_pcblookup_loop.simps [of head test p match matchwild st]
  have nx: "inp_next ?b = nxt (links st) p" by simp
  have low: "matchwild \<le> v" if "x \<in> set xs" "score x = Some v" for x v
  proof (cases "match = 0")
    case False
    then obtain as bs w where "xs = as @ match # bs" "score match = Some w" "\<forall>p \<in> set as. \<forall>v. score p = Some v \<longrightarrow> w < v"
      "\<forall>p \<in> set bs. \<forall>v. score p = Some v \<longrightarrow> w \<le> v" "w = matchwild" using Cons.prems(3) by (auto simp: best_def)
    then show ?thesis using that by (auto dest: less_imp_le)
  qed (use that Cons.prems(3) in auto)
  show ?case
  proof (cases "\<exists>w. score p = Some w \<and> w < matchwild")
    case True
    then obtain w where w: "score p = Some w" "w < matchwild" "test ?b = Some w" using assms(3) by auto
    have bs: "best score (xs @ [p]) p"
      unfolding best_def using w low by (intro exI [of _ xs] exI [of _ "[]"] exI [of _ w]) (auto dest: less_le_trans)
    show ?thesis
    proof (cases "w = 0")
      case True
      have "best score (xs @ p # ps) p" unfolding best_def using w low True
        by (intro exI [of _ xs] exI [of _ ps] exI [of _ 0]) (auto dest: less_le_trans)
      then show ?thesis using p w True by (subst p(1), subst U) simp
    next
      case False
      have "if p = 0 then w = 3 \<and> (\<forall>p \<in> set (xs @ [p]). score p = None) else best score (xs @ [p]) p \<and> score p = Some w \<and> p \<noteq> 0"
        using bs w p by simp
      from Cons.IH [OF p(5,6) this] obtain t where t: "in_pcblookup_loop head test (nxt (links st) p) p w st = Some t"
        "if t = 0 then \<forall>p \<in> set ((xs @ [p]) @ ps). score p = None else best score ((xs @ [p]) @ ps) t" by blast
      have "in_pcblookup_loop head test p match matchwild st = Some t" using t(1) p w False by (subst U) simp
      then show ?thesis using t(2) p(1) by (intro exI [of _ t]) (auto split: if_splits)
    qed
  next
    case False
    have keep: "if match = 0 then matchwild = 3 \<and> (\<forall>p \<in> set (xs @ [p]). score p = None)
      else best score (xs @ [p]) match \<and> score match = Some matchwild \<and> match \<noteq> 0"
    proof (cases "match = 0")
      case True
      then have "score p = None" using False Cons.prems(3) assms(3,4) by (cases "score p") auto
      then show ?thesis using True Cons.prems(3) by simp
    next
      case m: False
      then obtain as bs w where s: "xs = as @ match # bs" "score match = Some w" "\<forall>p \<in> set as. \<forall>v. score p = Some v \<longrightarrow> w < v"
        "\<forall>p \<in> set bs. \<forall>v. score p = Some v \<longrightarrow> w \<le> v" "w = matchwild" using Cons.prems(3) by (auto simp: best_def)
      have "best score (xs @ [p]) match"
        unfolding best_def using s False by (intro exI [of _ as] exI [of _ "bs @ [p]"] exI [of _ w]) auto
      then show ?thesis using m Cons.prems(3) by simp
    qed
    have "in_pcblookup_loop head test p match matchwild st = in_pcblookup_loop head test (nxt (links st) p) match matchwild st"
      using False p assms(3) by (subst U) (auto split: option.splits)
    moreover have "xs @ p # ps = (xs @ [p]) @ ps" by simp
    ultimately show ?thesis using Cons.IH [OF p(5,6) keep] p(1) by (simp only:)
  qed
qed

lemma in_pcblookup_best:
  assumes "pcb_ring st head ps"
  shows "\<exists>t. in_pcblookup head faddr fport laddr lport flags st = Some t \<and>
    (let score = (\<lambda>p. pcb_wildcard (the (pcbs st p)) faddr fport laddr lport flags) in
     if t = 0 then \<forall>p \<in> set ps. score p = None else best score ps t)"
proof -
  let ?test = "\<lambda>inp. pcb_wildcard inp faddr fport laddr lport flags"
  have c: "chain (links st) head ps head" "\<forall>p \<in> set ps. p \<noteq> head \<and> p \<noteq> 0 \<and> pcbs st p \<noteq> None"
    using assms by (auto simp: pcb_ring_def ring_def)
  have h: "get_pcb head st = Some (the (pcbs st head))" using get_pcb_ring [OF assms] by simp
  show ?thesis using lookup_loop [OF c refl, of ?test 0 3 "[]"] best_bound
    by (auto simp: in_pcblookup_def h Let_def)
qed

section \<open>The choice of a port\<close>

lemma htons_bits: "bit (htons x) n \<longleftrightarrow> n < 16 \<and> bit x (if n < 8 then n + 8 else n - 8)"
proof -
  have m: "(0xFF :: u16) = mask 8" "(0xFF00 :: u16) = push_bit 8 (mask 8)" by (simp_all add: mask_eq_exp_minus_1 push_bit_eq_mult)
  show ?thesis unfolding htons_def m by (auto simp: bit_simps add.commute)
qed

lemma htons_htons [simp]: "htons (htons x) = x"
  by (rule bit_word_eqI) (auto simp: htons_bits)

lemma htons_eq_iff: "htons x = y \<longleftrightarrow> x = htons y"
  by auto

text \<open>The ports that are tried are those from 1024 to 5000, in turn. \<open>steps_to\<close> counts how many are tried before \<open>q\<close>.\<close>

definition steps_to :: "nat \<Rightarrow> nat \<Rightarrow> nat" where
  "steps_to q p = (if p < 1024 \<or> 5000 \<le> p then q - 1024 else if p < q then q - p - 1 else (5000 - p) + (q - 1024))"

lemma unat_next_port:
  "p \<le> 5000 \<Longrightarrow> unat (next_port p) = (if unat p < 1024 \<or> unat p + 1 > 5000 then 1024 else unat p + 1)"
  by (auto simp: next_port_def word_less_nat_alt word_le_nat_alt unat_word_ariths)

lemma next_port_range: "p \<le> 5000 \<Longrightarrow> 1024 \<le> unat (next_port p) \<and> unat (next_port p) \<le> 5000"
  using unat_next_port [of p] by auto

lemma steps_to_next:
  assumes "p \<le> 5000" "1024 \<le> q" "q \<le> 5000" "unat (next_port p) \<noteq> q"
  shows "steps_to q (unat (next_port p)) < steps_to q (unat p)"
  using assms(2-) unat_next_port [OF assms(1)] by (auto simp: steps_to_def split: if_splits)

text \<open>A port is taken when an unconnected control block has it, with the same local address.\<close>

definition taken :: "pstate \<Rightarrow> addr list \<Rightarrow> u32 \<Rightarrow> u16 \<Rightarrow> bool" where
  "taken st ps laddr lport \<longleftrightarrow> (\<exists>p \<in> set ps. inp_laddr (the (pcbs st p)) = laddr \<and> inp_lport (the (pcbs st p)) = lport \<and>
     inp_faddr (the (pcbs st p)) = 0)"

lemma exact_match: "pcb_wildcard b 0 0 laddr lport 0 = (if inp_laddr b = laddr \<and> inp_lport b = lport \<and> inp_faddr b = 0 then Some 0 else None)"
  by (auto simp: pcb_wildcard_def Let_def)

lemma lookup_taken:
  assumes "pcb_ring st head ps"
  shows "\<exists>t. in_pcblookup head 0 0 laddr lport 0 st = Some t \<and> (t \<noteq> 0 \<longleftrightarrow> taken st ps laddr lport) \<and> (t \<noteq> 0 \<longrightarrow> t \<in> set ps)"
proof -
  obtain t where t: "in_pcblookup head 0 0 laddr lport 0 st = Some t"
    "if t = 0 then \<forall>p \<in> set ps. pcb_wildcard (the (pcbs st p)) 0 0 laddr lport 0 = None
     else best (\<lambda>p. pcb_wildcard (the (pcbs st p)) 0 0 laddr lport 0) ps t"
    using in_pcblookup_best [OF assms, of 0 0 laddr lport 0] by (auto simp: Let_def)
  show ?thesis
  proof (cases "t = 0")
    case True
    then show ?thesis using t by (auto simp: taken_def exact_match split: if_splits)
  next
    case False
    then obtain xs ys w where "ps = xs @ t # ys" "pcb_wildcard (the (pcbs st t)) 0 0 laddr lport 0 = Some w" using t(2) by (auto simp: best_def)
    then show ?thesis using False t(1) by (auto simp: taken_def exact_match split: if_splits)
  qed
qed

text \<open>With fewer control blocks than ports one port is free.\<close>

lemma free_port_exists:
  assumes "length ps < 3977"
  shows "\<exists>q. 1024 \<le> q \<and> q \<le> 5000 \<and> \<not> taken st ps laddr (htons (of_nat q))"
proof (rule ccontr)
  assume n: "\<not> ?thesis"
  let ?f = "\<lambda>p. unat (htons (inp_lport (the (pcbs st p))))"
  have "{1024..5000} \<subseteq> ?f ` set ps"
  proof
    fix q :: nat assume q: "q \<in> {1024..5000}"
    then have "taken st ps laddr (htons (of_nat q))" using n by auto
    then obtain p where "p \<in> set ps" "inp_lport (the (pcbs st p)) = htons (of_nat q)" by (auto simp: taken_def)
    moreover have "unat (of_nat q :: u16) = q" using q by (simp add: unat_of_nat)
    ultimately show "q \<in> ?f ` set ps" by (intro image_eqI [of _ _ p]) auto
  qed
  then have "card {1024..5000::nat} \<le> card (?f ` set ps)" by (rule card_mono [rotated]) simp
  also have "\<dots> \<le> length ps" using card_image_le [of "set ps" ?f] card_length [of ps] by simp
  finally show False using assms by simp
qed

text \<open>The state after the loop: only the counter in the head has moved on.\<close>

definition with_port :: "addr \<Rightarrow> u16 \<Rightarrow> pstate \<Rightarrow> pstate" where
  "with_port head p st = st\<lparr>pcbs := (pcbs st)(head \<mapsto> (the (pcbs st head))\<lparr>inp_lport := p\<rparr>)\<rparr>"

lemma with_port_ring:
  assumes "pcb_ring st head ps"
  shows "pcb_ring (with_port head p st) head ps" "taken (with_port head p st) ps laddr lport = taken st ps laddr lport"
proof -
  have "ring (links (with_port head p st)) head ps = ring (links st) head ps" by (rule ring_cong) (auto simp: with_port_def)
  then show "pcb_ring (with_port head p st) head ps" using assms by (auto simp: pcb_ring_def with_port_def)
  have "head \<notin> set ps" using assms by (auto simp: pcb_ring_def ring_def)
  then show "taken (with_port head p st) ps laddr lport = taken st ps laddr lport"
    unfolding taken_def with_port_def by (intro bex_cong) auto
qed

lemma free_port_ends:
  assumes "pcb_ring st head ps" "inp \<in> set ps" "inp_lport (the (pcbs st head)) \<le> 5000" "inp_laddr (the (pcbs st inp)) = laddr"
    and q: "1024 \<le> q" "q \<le> 5000" "\<not> taken st ps laddr (htons (of_nat q))"
  shows "\<exists>p. free_port_loop head inp st = Some (htons p, with_port head p st) \<and> 1024 \<le> p \<and> p \<le> 5000 \<and>
    \<not> taken st ps laddr (htons p)"
  using assms(1-4) q(3)
proof (induction "steps_to q (unat (inp_lport (the (pcbs st head))))" arbitrary: st rule: less_induct)
  case less
  let ?h = "the (pcbs st head)"
  let ?p = "next_port (inp_lport ?h)"
  let ?st = "with_port head ?p st"
  have ne: "inp \<noteq> head" "head \<noteq> 0" "inp \<noteq> 0" using less.prems(1,2) by (auto simp: pcb_ring_def ring_def)
  have g: "get_pcb head st = Some ?h" "get_pcb inp st = Some (the (pcbs st inp))" using get_pcb_ring [OF less.prems(1)] less.prems(2) by auto
  have s: "set_pcb head (\<lambda>h. h\<lparr>inp_lport := next_port (inp_lport h)\<rparr>) st = Some ?st" using g by (simp add: set_pcb_def with_port_def)
  have g': "get_pcb head ?st = Some (?h\<lparr>inp_lport := ?p\<rparr>)" "get_pcb inp ?st = Some (the (pcbs st inp))"
    using g ne by (auto simp: get_pcb_def with_port_def)
  obtain t where t: "in_pcblookup head 0 0 laddr (htons ?p) 0 ?st = Some t" "t \<noteq> 0 \<longleftrightarrow> taken st ps laddr (htons ?p)"
    using lookup_taken [OF with_port_ring(1) [OF less.prems(1)], of laddr "htons ?p" ?p] with_port_ring(2) [OF less.prems(1)] by auto
  have U: "free_port_loop head inp st = (if t \<noteq> 0 then free_port_loop head inp ?st else Some (htons ?p, ?st))"
    using s g' t(1) less.prems(4) by (subst free_port_loop.simps) simp
  have rg: "1024 \<le> ?p" "?p \<le> 5000" using next_port_range [OF less.prems(3)] by (auto simp: word_le_nat_alt)
  show ?case
  proof (cases "t = 0")
    case True
    then show ?thesis using U t(2) rg by auto
  next
    case False
    then have "?p \<noteq> of_nat q" using t(2) less.prems(5) by auto
    then have "unat ?p \<noteq> q" by auto
    then have d: "steps_to q (unat (inp_lport (the (pcbs ?st head)))) < steps_to q (unat (inp_lport ?h))"
      using steps_to_next [OF less.prems(3) q(1,2)] by (simp add: with_port_def)
    have "\<exists>p. free_port_loop head inp ?st = Some (htons p, with_port head p ?st) \<and> 1024 \<le> p \<and> p \<le> 5000 \<and> \<not> taken ?st ps laddr (htons p)"
      by (rule less.hyps [OF d with_port_ring(1) [OF less.prems(1)] less.prems(2)])
        (use less.prems ne rg with_port_ring(2) [OF less.prems(1)] in \<open>auto simp: with_port_def\<close>)
    then show ?thesis using U False with_port_ring(2) [OF less.prems(1)] by (auto simp: with_port_def)
  qed
qed

end
