(* ===== verification/In_Pcb_Bind.thy ===== *)
theory In_Pcb_Bind
  imports In_Pcb_Ring
begin

text \<open>
  Binding: \<open>in_pcbbind\<close> always returns, reports an error without touching any control block, or gives the control block
  an address and a port that no other unconnected control block has. Connecting checks the pair of addresses against
  the ring only before it chooses a port, which the last lemma shows to be too early.
\<close>

section \<open>Interfaces\<close>

fun ni_chain :: "(addr \<rightharpoonup> netif) \<Rightarrow> addr \<Rightarrow> addr list \<Rightarrow> bool" where
  "ni_chain m p [] \<longleftrightarrow> p = 0"
| "ni_chain m p (n # ns) \<longleftrightarrow> p = n \<and> n \<noteq> 0 \<and> (\<exists>v. m n = Some v \<and> ni_chain m (ni_next v) ns)"

text \<open>The tests of the two searches.\<close>

definition has_addr :: "u32 \<Rightarrow> netif \<Rightarrow> bool" where
  "has_addr a n \<longleftrightarrow> a = ip_addr n \<or> if_flags n AND IFF_BROADCAST \<noteq> 0 \<and> if_broadaddr n \<noteq> 0 \<and> if_broadaddr n = a"

definition on_net_of :: "u32 \<Rightarrow> netif \<Rightarrow> bool" where
  "on_net_of a n \<longleftrightarrow> if_flags n AND IFF_UP \<noteq> 0 \<and> a AND netmask n = ip_addr n AND netmask n"

definition first_ni :: "(netif \<Rightarrow> bool) \<Rightarrow> pstate \<Rightarrow> addr list \<Rightarrow> addr" where
  "first_ni test st ns = (case filter (\<lambda>n. test (the (netifs st n))) ns of [] \<Rightarrow> 0 | n # _ \<Rightarrow> n)"

lemma ifwithaddr_first: "ni_chain (netifs st) p ns \<Longrightarrow> ifwithaddr_loop a p st = Some (first_ni (has_addr a) st ns)"
proof (induction ns arbitrary: p)
  case (Cons n ns)
  then show ?case by (subst ifwithaddr_loop.simps) (auto simp: get_ni_def first_ni_def has_addr_def)
qed (simp add: ifwithaddr_loop.simps first_ni_def)

lemma ip_route_first: "ni_chain (netifs st) p ns \<Longrightarrow> ip_route_loop a p st = Some (first_ni (on_net_of a) st ns)"
proof (induction ns arbitrary: p)
  case (Cons n ns)
  then show ?case by (subst ip_route_loop.simps) (auto simp: get_ni_def first_ni_def on_net_of_def)
qed (simp add: ip_route_loop.simps first_ni_def)

section \<open>Binding\<close>

definition pcb_sys :: "pstate \<Rightarrow> addr \<Rightarrow> addr list \<Rightarrow> bool" where
  "pcb_sys st head ps \<longleftrightarrow> pcb_ring st head ps \<and> inp_lport (the (pcbs st head)) \<le> 5000 \<and> length ps < 3977 \<and>
     (\<forall>p \<in> set ps. inp_head (the (pcbs st p)) = head \<and> get_so (inp_socket (the (pcbs st p))) st \<noteq> None)"

definition update_pcb :: "addr \<Rightarrow> (inpcb \<Rightarrow> inpcb) \<Rightarrow> pstate \<Rightarrow> pstate" where
  "update_pcb inp f st = st\<lparr>pcbs := (pcbs st)(inp \<mapsto> f (the (pcbs st inp)))\<rparr>"

lemma set_pcb_ring: "pcb_ring st head ps \<Longrightarrow> inp \<in> set (head # ps) \<Longrightarrow> set_pcb inp f st = Some (update_pcb inp f st)"
  using get_pcb_ring [of st head ps inp] by (simp add: set_pcb_def update_pcb_def)

lemma update_ring:
  assumes "pcb_ring st head ps" "\<And>b. inp_next (f b) = inp_next b" "\<And>b. inp_prev (f b) = inp_prev b"
  shows "pcb_ring (update_pcb inp f st) head ps"
proof -
  have "ring (links (update_pcb inp f st)) head ps = ring (links st) head ps" by (rule ring_cong) (auto simp: update_pcb_def assms(2,3))
  then show ?thesis using assms(1) by (auto simp: pcb_ring_def update_pcb_def)
qed

lemma with_port_update: "with_port head p st = update_pcb head (\<lambda>h. h\<lparr>inp_lport := p\<rparr>) st"
  by (simp add: with_port_def update_pcb_def)

text \<open>What a bound control block is: the rest of the ring is as before.\<close>

definition bound :: "pstate \<Rightarrow> addr list \<Rightarrow> addr \<Rightarrow> u32 \<Rightarrow> u16 \<Rightarrow> pstate \<Rightarrow> bool" where
  "bound st ps inp laddr lport st' \<longleftrightarrow>
     pcbs st' inp = Some ((the (pcbs st inp))\<lparr>inp_laddr := laddr, inp_lport := lport\<rparr>) \<and>
     (\<forall>p \<in> set ps - {inp}. pcbs st' p = pcbs st p) \<and> socks st' = socks st \<and> netifs st' = netifs st \<and> kst (nst st') = kst (nst st) \<and>
     mbs (nst st') = mbs (nst st)"

lemma bind_port_ok:
  assumes s: "pcb_ring st head ps" "inp_lport (the (pcbs st head)) \<le> 5000" "length ps < 3977" "inp \<in> set ps"
    and l: "inp_laddr (the (pcbs st inp)) = laddr"
  shows "\<exists>p st'. bind_port head inp lport st = Some (0, st') \<and> pcb_ring st' head ps \<and> bound st ps inp laddr p st' \<and>
    inp_lport (the (pcbs st' head)) \<le> 5000 \<and>
    (if lport = 0 then 1024 \<le> htons p \<and> htons p \<le> 5000 \<and> \<not> taken st ps laddr p else p = lport)"
proof -
  have ne: "inp \<noteq> head" "head \<notin> set ps" using s(1,4) by (auto simp: pcb_ring_def ring_def)
  have b: "the (pcbs st inp)\<lparr>inp_laddr := laddr\<rparr> = the (pcbs st inp)" using l by auto
  show ?thesis
  proof (cases "lport = 0")
    case False
    let ?st = "update_pcb inp (\<lambda>b. b\<lparr>inp_lport := lport\<rparr>) st"
    have "bind_port head inp lport st = Some (0, ?st)" using False set_pcb_ring [OF s(1)] s(4) by (simp add: bind_port_def)
    moreover have "bound st ps inp laddr lport ?st" using b by (auto simp: bound_def update_pcb_def)
    moreover have "pcb_ring ?st head ps" by (rule update_ring [OF s(1)]) simp_all
    moreover have "inp_lport (the (pcbs ?st head)) \<le> 5000" using s(2) ne by (simp add: update_pcb_def)
    ultimately show ?thesis using False by (intro exI [of _ lport] exI [of _ ?st]) simp
  next
    case True
    obtain q where "1024 \<le> q" "q \<le> 5000" "\<not> taken st ps laddr (htons (of_nat q))" using free_port_exists [OF s(3)] by blast
    from free_port_ends [OF s(1,4,2) l this] obtain p where p: "free_port_loop head inp st = Some (htons p, with_port head p st)"
      "1024 \<le> p" "p \<le> 5000" "\<not> taken st ps laddr (htons p)" by blast
    let ?st = "update_pcb inp (\<lambda>b. b\<lparr>inp_lport := htons p\<rparr>) (with_port head p st)"
    have r: "pcb_ring (with_port head p st) head ps" by (rule with_port_ring [OF s(1)])
    have "bind_port head inp lport st = Some (0, ?st)" using True p(1) set_pcb_ring [OF r] s(4) by (simp add: bind_port_def)
    moreover have "bound st ps inp laddr (htons p) ?st" using b ne s(4) by (auto simp: bound_def update_pcb_def with_port_def)
    moreover have "pcb_ring ?st head ps" by (rule update_ring [OF r]) simp_all
    moreover have "inp_lport (the (pcbs ?st head)) \<le> 5000" using p(3) ne by (simp add: update_pcb_def with_port_def)
    ultimately show ?thesis using True p by (intro exI [of _ "htons p"] exI [of _ ?st]) simp
  qed
qed

lemma on_bytes_frame [simp]:
  "pcbs (on_bytes f st) = pcbs st" "socks (on_bytes f st) = socks st" "netifs (on_bytes f st) = netifs st"
  "netif_list (on_bytes f st) = netif_list st" "netif_default (on_bytes f st) = netif_default st"
  "kst (nst (on_bytes f st)) = kst (nst st)" "mbs (nst (on_bytes f st)) = mbs (nst st)"
  "get_so p (on_bytes f st) = get_so p st" "get_pcb p (on_bytes f st) = get_pcb p st" "pcb_ring (on_bytes f st) head ps = pcb_ring st head ps"
  "taken (on_bytes f st) ps = taken st ps"
  by (auto simp: on_bytes_def get_so_def get_pcb_def pcb_ring_def links_def taken_def fun_eq_iff)

lemma sin_addr_port_write [simp]: "sin_addr sin (on_bytes (wr16 (sin + 2) v) st) = sin_addr sin st"
  by (simp add: sin_addr_def on_bytes_def wr16_def rd32_def add.assoc)

text \<open>The outcomes of \<open>in_pcbbind\<close> for a control block in the ring.\<close>

definition bind_result :: "pstate \<Rightarrow> addr list \<Rightarrow> addr \<Rightarrow> addr \<Rightarrow> int \<Rightarrow> pstate \<Rightarrow> bool" where
  "bind_result st ps inp nam rc st' \<longleftrightarrow>
     (if rc = 0 then
        \<exists>p. let laddr = (if nam = 0 then 0 else sin_addr (m_data (the (mbs (nst st) nam))) st);
                wanted = (if nam = 0 then 0 else sin_port (m_data (the (mbs (nst st) nam))) st) in
          bound st ps inp laddr p st' \<and> (wanted \<noteq> 0 \<longrightarrow> p = wanted) \<and>
          (wanted = 0 \<longrightarrow> 1024 \<le> htons p \<and> htons p \<le> 5000) \<and>
          (so_options (the (get_so (inp_socket (the (pcbs st inp))) st)) AND SO_REUSEPORT = 0 \<or> wanted = 0 \<longrightarrow>
           \<not> taken st (remove1 inp ps) laddr p)
      else rc \<in> {EINVAL, EADDRINUSE, EADDRNOTAVAIL} \<and> pcbs st' = pcbs st)"

lemma taken_others:
  assumes "distinct ps" "\<not> taken st' ps laddr p" "\<forall>q \<in> set ps - {inp}. pcbs st' q = pcbs st q"
  shows "\<not> taken st (remove1 inp ps) laddr p"
proof
  assume "taken st (remove1 inp ps) laddr p"
  then obtain q where q: "q \<in> set ps - {inp}" "inp_laddr (the (pcbs st q)) = laddr" "inp_lport (the (pcbs st q)) = p"
    "inp_faddr (the (pcbs st q)) = 0" using assms(1) by (auto simp: taken_def)
  then have "pcbs st' q = pcbs st q" using assms(3) by blast
  with q have "taken st' ps laddr p" by (auto simp: taken_def intro!: bexI [of _ q])
  with assms(2) show False ..
qed

text \<open>The address of \<open>nam\<close> is that of an interface, or needs no interface; the port in the buffer may be cleared.\<close>

lemma bind_avail:
  assumes "ni_chain (netifs st) (netif_list st) ns"
  shows "\<exists>av st1. bind_addr_ok sin st = Some (av, st1) \<and> (st1 = st \<or> st1 = on_bytes (wr16 (sin + 2) 0) st)"
proof -
  have "tn_ifwithaddr a (on_bytes f st) = Some (first_ni (has_addr a) (on_bytes f st) ns)" for a f
    using ifwithaddr_first [of "on_bytes f st"] assms by (simp add: tn_ifwithaddr_def)
  then show ?thesis by (auto simp: bind_addr_ok_def Let_def)
qed

lemma bind_used:
  assumes "pcb_ring st head ps" "\<forall>p \<in> set ps. get_so (inp_socket (the (pcbs st p))) st \<noteq> None"
  shows "\<exists>u. bind_in_use head a lport reuseport st = Some u \<and> (lport \<noteq> 0 \<and> \<not> u \<and> reuseport = 0 \<longrightarrow> \<not> taken st ps a lport)"
proof -
  obtain t where t: "in_pcblookup head 0 0 a lport 0 st = Some t" "t \<noteq> 0 \<longleftrightarrow> taken st ps a lport" "t \<noteq> 0 \<longrightarrow> t \<in> set ps"
    using lookup_taken [OF assms(1)] by blast
  show ?thesis
  proof (cases "lport = 0 \<or> t = 0")
    case True
    then show ?thesis using t by (auto simp: bind_in_use_def)
  next
    case False
    then have m: "t \<in> set ps" using t(3) by simp
    then obtain ts where "get_so (inp_socket (the (pcbs st t))) st = Some ts" using assms(2) by blast
    then show ?thesis using False t(1) get_pcb_ring [OF assms(1), of t] m by (auto simp: bind_in_use_def)
  qed
qed

lemma in_pcbbind_ok:
  assumes sys: "pcb_sys st head ps" and m: "inp \<in> set ps" and ns: "ni_chain (netifs st) (netif_list st) ns"
    and nam: "nam = 0 \<or> mbs (nst st) nam \<noteq> None"
  shows "\<exists>rc st'. in_pcbbind inp nam st = Some (rc, st') \<and> pcb_ring st' head ps \<and> bind_result st ps inp nam rc st' \<and>
    (inp_lport (the (pcbs st inp)) \<noteq> 0 \<or> inp_laddr (the (pcbs st inp)) \<noteq> 0 \<longrightarrow> rc = EINVAL) \<and>
    (inp_lport (the (pcbs st inp)) = 0 \<and> inp_laddr (the (pcbs st inp)) = 0 \<and> nam = 0 \<longrightarrow> rc = 0)"
proof -
  let ?b = "the (pcbs st inp)"
  have r: "pcb_ring st head ps" "inp_lport (the (pcbs st head)) \<le> 5000" "length ps < 3977"
    "\<forall>p \<in> set ps. get_so (inp_socket (the (pcbs st p))) st \<noteq> None" "inp_head ?b = head" using sys m by (auto simp: pcb_sys_def)
  have d: "distinct ps" "inp \<noteq> 0" "inp \<noteq> head" using r(1) m by (auto simp: pcb_ring_def ring_def)
  have gb: "get_pcb inp st = Some ?b" using get_pcb_ring [OF r(1)] m by simp
  obtain s where s: "get_so (inp_socket ?b) st = Some s" using r(4) m by blast
  note U = in_pcbbind_def [of inp nam st]
  consider (bnd) "inp_lport ?b \<noteq> 0 \<or> inp_laddr ?b \<noteq> 0" | (any) "inp_lport ?b = 0" "inp_laddr ?b = 0" "nam = 0"
    | (named) n where "inp_lport ?b = 0" "inp_laddr ?b = 0" "nam \<noteq> 0" "mbs (nst st) nam = Some n" using nam by auto
  then show ?thesis
  proof cases
    case bnd
    then have "in_pcbbind inp nam st = Some (EINVAL, st)" using gb s d by (simp add: U)
    then show ?thesis using r(1) bnd by (intro exI [of _ EINVAL] exI [of _ st]) (auto simp: bind_result_def)
  next
    case any
    obtain p st' where p: "bind_port head inp 0 st = Some (0, st')" "pcb_ring st' head ps" "bound st ps inp 0 p st'"
      "1024 \<le> htons p" "htons p \<le> 5000" "\<not> taken st ps 0 p" using bind_port_ok [OF r(1,2,3) m any(2), of 0] by auto
    have "\<not> taken st (remove1 inp ps) 0 p" using taken_others [OF d(1) p(6)] by simp
    moreover have "in_pcbbind inp nam st = Some (0, st')" using any p(1) gb s d r(5) by (simp add: in_pcbbind_def)
    ultimately show ?thesis using any p by (intro exI [of _ 0] exI [of _ st']) (auto simp: bind_result_def)
  next
    case named
    let ?sin = "m_data n" and ?re = "so_options s AND SO_REUSEPORT"
    let ?a = "sin_addr ?sin st" and ?l = "sin_port ?sin st"
    have gn: "deref nam (nst st) = Some n" using named by (simp add: deref_def)
    obtain av st1 where av: "bind_addr_ok ?sin st = Some (av, st1)" "st1 = st \<or> st1 = on_bytes (wr16 (?sin + 2) 0) st"
      using bind_avail [OF ns] by blast
    have f: "sin_addr ?sin st1 = ?a" "pcbs st1 = pcbs st" "socks st1 = socks st" "netifs st1 = netifs st" "kst (nst st1) = kst (nst st)"
      "mbs (nst st1) = mbs (nst st)" "get_so p st1 = get_so p st" "pcb_ring st1 head ps" "taken st1 ps = taken st ps" for p
      using av(2) r(1) by auto
    have r4: "\<forall>p \<in> set ps. get_so (inp_socket (the (pcbs st1 p))) st1 \<noteq> None" using r(4) by (simp add: f)
    obtain u where u: "bind_in_use head ?a ?l ?re st1 = Some u" "?l \<noteq> 0 \<and> \<not> u \<and> ?re = 0 \<longrightarrow> \<not> taken st1 ps ?a ?l"
      using bind_used [OF f(8) r4] by blast
    let ?st2 = "update_pcb inp (\<lambda>b. b\<lparr>inp_laddr := ?a\<rparr>) st1"
    have r2: "pcb_ring ?st2 head ps" by (rule update_ring [OF f(8)]) simp_all
    have e: "in_pcbbind inp nam st = (if m_len n \<noteq> sizeof_sin then Some (EINVAL, st) else if \<not> av then Some (EADDRNOTAVAIL, st1)
      else if u then Some (EADDRINUSE, st1) else bind_port head inp ?l ?st2)"
      using named(1-3) gb s d r(5) gn av(1) u(1) set_pcb_ring [OF f(8)] m
      unfolding U by (simp add: f(1) Let_def del: if_split cong: if_cong)
    show ?thesis
    proof (cases "m_len n \<noteq> sizeof_sin \<or> \<not> av \<or> u")
      case True
      then show ?thesis using r(1) f(2,8) named unfolding e by (auto simp: bind_result_def)
    next
      case False
      have "inp_lport (the (pcbs ?st2 head)) \<le> 5000" "inp_laddr (the (pcbs ?st2 inp)) = ?a" using r(2) d by (auto simp: update_pcb_def f(2))
      from bind_port_ok [OF r2 this(1) r(3) m this(2), of ?l] obtain p st' where p: "bind_port head inp ?l ?st2 = Some (0, st')"
        "pcb_ring st' head ps" "bound ?st2 ps inp ?a p st'"
        "if ?l = 0 then 1024 \<le> htons p \<and> htons p \<le> 5000 \<and> \<not> taken ?st2 ps ?a p else p = ?l" by blast
      have bd: "bound st ps inp ?a p st'" using p(3) f by (simp add: bound_def update_pcb_def)
      have "\<not> taken st (remove1 inp ps) ?a p" if "?re = 0 \<or> ?l = 0"
      proof (cases "?l = 0")
        case True
        then show ?thesis using taken_others [OF d(1), of ?st2] p(4) by (auto simp: update_pcb_def f(2))
      next
        case l: False
        then show ?thesis using taken_others [OF d(1), of st] u(2) False that p(4) by (auto simp: f(9))
      qed
      then show ?thesis using False p(1,2,4) bd named s unfolding e
        by (intro exI [of _ 0] exI [of _ st']) (auto simp: bind_result_def Let_def split: if_splits)
    qed
  qed
qed

section \<open>Connecting\<close>

text \<open>The first port that is tried is taken when it is free.\<close>

lemma free_port_first:
  assumes "pcb_ring st head ps" "inp \<in> set ps" "p = next_port (inp_lport (the (pcbs st head)))"
    "\<not> taken st ps (inp_laddr (the (pcbs st inp))) (htons p)"
  shows "free_port_loop head inp st = Some (htons p, with_port head p st)"
proof -
  let ?h = "the (pcbs st head)" and ?st = "with_port head p st"
  have ne: "inp \<noteq> head" using assms(1,2) by (auto simp: pcb_ring_def ring_def)
  have g: "get_pcb head st = Some ?h" "get_pcb inp st = Some (the (pcbs st inp))" using get_pcb_ring [OF assms(1)] assms(2) by auto
  have s: "set_pcb head (\<lambda>h. h\<lparr>inp_lport := next_port (inp_lport h)\<rparr>) st = Some ?st" using g assms(3) by (simp add: set_pcb_def with_port_def)
  have g': "get_pcb head ?st = Some (?h\<lparr>inp_lport := p\<rparr>)" "get_pcb inp ?st = Some (the (pcbs st inp))"
    using g ne by (auto simp: get_pcb_def with_port_def)
  have "in_pcblookup head 0 0 (inp_laddr (the (pcbs st inp))) (htons p) 0 ?st = Some 0"
    using lookup_taken [OF with_port_ring(1) [OF assms(1)], of "inp_laddr (the (pcbs st inp))" "htons p" p] with_port_ring(2) [OF assms(1)] assms(4)
    by auto
  then show ?thesis using s g' by (subst free_port_loop.simps) simp
qed

text \<open>\<open>in_pcbconnect\<close> chooses a port when the control block has none, but compares the pair of addresses with the ring
  before that, with port 0. The port it chooses may be one of a connection to the same peer: two control blocks then
  have the same addresses and ports, and the search finds only one of them.\<close>

lemma connect_duplicates:
  assumes r: "pcb_ring st head ps" and m: "inp \<in> set ps" "t \<in> set ps"
    and b: "inp_head (the (pcbs st inp)) = head" "inp_lport (the (pcbs st inp)) = 0" "inp_laddr (the (pcbs st inp)) = 0"
      "get_so (inp_socket (the (pcbs st inp))) st \<noteq> None"
    and n: "deref nam (nst st) = Some n" "m_len n = sizeof_sin" "sin_family (m_data n) st = AF_INET" "sin_port (m_data n) st \<noteq> 0"
    and ni: "netif_default st = 0" "ni_chain (netifs st) (netif_list st) ns" "first_ni (on_net_of (sin_addr (m_data n) st)) st ns = i" "i \<noteq> 0"
      "netifs st i = Some v" "ip_addr v \<noteq> 0"
    and t: "inp_laddr (the (pcbs st t)) = ip_addr v" "inp_lport (the (pcbs st t)) = htons (next_port (inp_lport (the (pcbs st head))))"
      "inp_faddr (the (pcbs st t)) = sin_addr (m_data n) st" "inp_fport (the (pcbs st t)) = sin_port (m_data n) st" "sin_addr (m_data n) st \<noteq> 0"
    and u: "\<forall>p \<in> set ps. inp_lport (the (pcbs st p)) = 0 \<longrightarrow> inp_laddr (the (pcbs st p)) = 0"
      "\<not> taken st ps 0 (inp_lport (the (pcbs st t)))"
  shows "\<exists>st'. in_pcbconnect inp nam st = Some (0, st') \<and>
    (let a = the (pcbs st' inp); c = the (pcbs st' t) in
     inp_laddr a = inp_laddr c \<and> inp_lport a = inp_lport c \<and> inp_faddr a = inp_faddr c \<and> inp_fport a = inp_fport c)"
proof -
  let ?b = "the (pcbs st inp)" and ?a = "sin_addr (m_data n) st" and ?p = "next_port (inp_lport (the (pcbs st head)))"
  have ne: "inp \<noteq> 0" "inp \<noteq> head" "t \<noteq> head" using r m by (auto simp: pcb_ring_def ring_def)
  have gb: "get_pcb inp st = Some ?b" using get_pcb_ring [OF r] m by simp
  obtain s where s: "get_so (inp_socket ?b) st = Some s" using b(4) by blast
  have rt: "tn_ip_route ?a st = Some i" using ip_route_first [OF ni(2)] ni(3,4) by (simp add: tn_ip_route_def)
  have gi: "get_ni i st = Some v" using ni(4,5) by (simp add: get_ni_def)
  have "pcb_wildcard (the (pcbs st p)) ?a (sin_port (m_data n) st) (ip_addr v) 0 0 = None" if "p \<in> set ps" for p
    using u(1) that ni(6) by (auto simp: pcb_wildcard_def Let_def)
  then have lk: "in_pcblookup head ?a (sin_port (m_data n) st) (ip_addr v) 0 0 st = Some 0"
    using in_pcblookup_best [OF r, of ?a "sin_port (m_data n) st" "ip_addr v" 0 0] by (auto simp: best_def Let_def split: if_splits)
  define st1 where "st1 = update_pcb inp (\<lambda>b. b\<lparr>inp_lport := htons ?p\<rparr>) (with_port head ?p st)"
  have "free_port_loop head inp st = Some (htons ?p, with_port head ?p st)"
    by (rule free_port_first [OF r m(1) refl]) (use u(2) b(3) t(2) in simp)
  then have "in_pcbbind inp 0 st = Some (0, st1)"
    using gb s b ne set_pcb_ring [OF with_port_ring(1) [OF r]] m by (simp add: in_pcbbind_def bind_port_def st1_def)
  moreover have r1: "pcb_ring st1 head ps" unfolding st1_def by (rule update_ring [OF with_port_ring(1) [OF r]]) simp_all
  moreover have r2: "pcb_ring (update_pcb inp f st1) head ps" if "\<And>b. inp_next (f b) = inp_next b" "\<And>b. inp_prev (f b) = inp_prev b" for f
    by (rule update_ring [OF r1 that])
  moreover have "sin_addr (m_data n) (update_pcb inp f st1) = ?a" "sin_port (m_data n) (update_pcb inp f st1) = sin_port (m_data n) st" for f
    by (simp_all add: st1_def update_pcb_def with_port_def sin_addr_def sin_port_def)
  ultimately have "in_pcbconnect inp nam st = Some (0, update_pcb inp (\<lambda>b. b\<lparr>inp_faddr := ?a, inp_fport := sin_port (m_data n) st\<rparr>)
      (update_pcb inp (\<lambda>b. b\<lparr>inp_laddr := ip_addr v\<rparr>) st1))"
    using n ni(1,4) gb b rt gi lk ne m(1) set_pcb_ring [OF r1] set_pcb_ring [OF r2] by (simp add: in_pcbconnect_def Let_def)
  then show ?thesis using t ne m by (auto simp: st1_def update_pcb_def with_port_def)
qed

end
