(* ===== verification/In_Pcb_Life.thy ===== *)
theory In_Pcb_Life
  imports In_Pcb_Bind Mbuf_Alloc
begin

text \<open>
  The life of a control block: \<open>in_pcballoc\<close> takes a block from the pool of small buffers and enters it at the head of the
  ring, \<open>in_pcbdetach\<close> takes it out and gives the block back.
\<close>

text \<open>The blocks of the pool are no control blocks, and go back to where they came from.\<close>

definition pcb_pool_wf :: "tn_net \<Rightarrow> pstate \<Rightarrow> bool" where
  "pcb_pool_wf tnet st \<longleftrightarrow> task_ok (kst (nst st)) \<and> open_pool (lobuf_mpool tnet) (kst (nst st)) \<and>
     (\<forall>a \<in> set (free_blocks (kst (nst st)) (lobuf_mpool tnet)). min_home tnet a = lobuf_mpool tnet \<and> pcbs st a = None)"

definition new_pcb :: "addr \<Rightarrow> addr \<Rightarrow> inpcb" where
  "new_pcb head so = zero_pcb\<lparr>inp_head := head, inp_socket := so\<rparr>"

lemma alloc_empty:
  assumes "pcb_pool_wf tnet st" "free_blocks (kst (nst st)) (lobuf_mpool tnet) = []"
  shows "in_pcballoc tnet so head st = Some (ENOBUFS, st)"
proof -
  have "do_alloc (lobuf_mpool tnet) MB_NOWAIT (kst (nst st)) = Some (0, kst (nst st))"
    using task_pools.take_empty assms by (simp add: pcb_pool_wf_def)
  then show ?thesis by (simp add: in_pcballoc_def on_net_def on_kernel_def tn_net_alloc_min_def)
qed

lemma alloc_enters:
  assumes w: "pcb_pool_wf tnet st" and f: "free_blocks (kst (nst st)) (lobuf_mpool tnet) = inp # as"
    and r: "pcb_ring st head ps" and so: "get_so so st = Some s"
  shows "\<exists>st' k. in_pcballoc tnet so head st = Some (0, st') \<and> pcb_ring st' head (inp # ps) \<and>
    map_option unlinked (pcbs st' inp) = Some (new_pcb head so) \<and> (\<forall>p. p \<noteq> inp \<longrightarrow> map_option unlinked (pcbs st' p) = map_option unlinked (pcbs st p)) \<and>
    socks st' = (socks st)(so \<mapsto> s\<lparr>so_pcb := inp\<rparr>) \<and> nst st' = (nst st)\<lparr>kst := k\<rparr> \<and> task_ok k \<and>
    free_map k = (free_map (kst (nst st)))(lobuf_mpool tnet := as) \<and> holds avail_blocks pool_room open_pool [(lobuf_mpool tnet, inp)] k"
proof -
  have so': "so \<noteq> 0" "socks st so = Some s" using so by (auto simp: get_so_def split: if_splits)
  have a: "pcbs st inp = None" using w f by (simp add: pcb_pool_wf_def)
  obtain k where k: "do_alloc (lobuf_mpool tnet) MB_NOWAIT (kst (nst st)) = Some (inp, k)" "task_ok k" "inp \<noteq> 0"
    "free_map k = (free_map (kst (nst st)))(lobuf_mpool tnet := as)" "holds avail_blocks pool_room open_pool [(lobuf_mpool tnet, inp)] k"
    using task_pools.take_holds [of "kst (nst st)" "lobuf_mpool tnet" inp as "[]"] w f by (auto simp: pcb_pool_wf_def holds_def)
  define st1 where "st1 = st\<lparr>nst := (nst st)\<lparr>kst := k\<rparr>, pcbs := (pcbs st)(inp \<mapsto> new_pcb head so)\<rparr>"
  have ni: "inp \<notin> set (head # ps)" using r a by (auto simp: pcb_ring_def)
  have "ring (links st1) head ps = ring (links st) head ps" by (rule ring_cong) (use ni in \<open>auto simp: st1_def\<close>)
  then have r1: "pcb_ring st1 head ps" using r ni by (auto simp: pcb_ring_def st1_def)
  have "pcbs st1 inp = Some (new_pcb head so)" by (simp add: st1_def)
  from insert_ring [OF r1 ni k(3) this] obtain st2 where st2: "tn_np_que_insert_entry inp head st1 = Some st2" "pcb_ring st2 head (inp # ps)"
    "same_pcbs st1 st2" "\<And>x. st2\<lparr>pcbs := x\<rparr> = st1\<lparr>pcbs := x\<rparr>" by blast
  have fr: "socks st2 = socks st" "nst st2 = (nst st)\<lparr>kst := k\<rparr>"
    using arg_cong [OF st2(4) [of Map.empty], of socks] arg_cong [OF st2(4) [of Map.empty], of nst] by (simp_all add: st1_def)
  let ?st = "st2\<lparr>socks := (socks st2)(so \<mapsto> s\<lparr>so_pcb := inp\<rparr>)\<rparr>"
  have "in_pcballoc tnet so head st = Some (0, ?st)"
    using k(1,3) st2(1) so' fr
    by (simp add: in_pcballoc_def on_net_def on_kernel_def tn_net_alloc_min_def st1_def [symmetric] new_pcb_def [symmetric] set_so_def get_so_def Let_def)
  moreover have "pcb_ring ?st head (inp # ps)" using st2(2) by (simp add: pcb_ring_def links_def)
  moreover have "map_option unlinked (pcbs ?st inp) = Some (new_pcb head so)" "p \<noteq> inp \<Longrightarrow> map_option unlinked (pcbs ?st p) = map_option unlinked (pcbs st p)" for p
    using st2(3) by (auto simp: same_pcbs_def st1_def new_pcb_def unlinked_def zero_pcb_def)
  ultimately show ?thesis using fr k by (intro exI [of _ ?st] exI [of _ k]) auto
qed

lemma detach_leaves:
  assumes r: "pcb_ring st head ps" and m: "inp \<in> set ps" and so: "get_so (inp_socket (the (pcbs st inp))) st = Some s" "\<not> so_has_free s"
    and h: "min_home tnet inp = lobuf_mpool tnet" "task_ok (kst (nst st))" "holds avail_blocks pool_room open_pool [(lobuf_mpool tnet, inp)] (kst (nst st))"
  shows "\<exists>st'. in_pcbdetach sofree tnet inp st = Some st' \<and> pcb_ring st' head (remove1 inp ps) \<and> pcbs st' inp = None \<and>
    (\<forall>p. p \<noteq> inp \<longrightarrow> map_option unlinked (pcbs st' p) = map_option unlinked (pcbs st p)) \<and>
    free_map (kst (nst st')) = (free_map (kst (nst st)))(lobuf_mpool tnet := inp # free_blocks (kst (nst st)) (lobuf_mpool tnet))"
proof -
  let ?so = "inp_socket (the (pcbs st inp))"
  have d: "inp \<noteq> 0" "distinct ps" "inp \<noteq> head" using r m by (auto simp: pcb_ring_def ring_def)
  have gb: "get_pcb inp st = Some (the (pcbs st inp))" using get_pcb_ring [OF r] m by simp
  define st1 where "st1 = st\<lparr>socks := (socks st)(?so \<mapsto> s\<lparr>so_pcb := 0\<rparr>)\<rparr>"
  have s1: "set_so ?so (\<lambda>s. s\<lparr>so_pcb := 0\<rparr>) st = Some st1" "get_so ?so st1 = Some (s\<lparr>so_pcb := 0\<rparr>)"
    using so(1) by (auto simp: set_so_def st1_def get_so_def split: if_splits)
  have "pcb_ring st1 head ps" using r by (simp add: pcb_ring_def links_def st1_def)
  from remove_ring [OF this m] obtain st2 where st2: "tn_np_que_remove_entry inp st1 = Some st2" "pcb_ring st2 head (remove1 inp ps)"
    "same_pcbs st1 st2" "\<And>x. st2\<lparr>pcbs := x\<rparr> = st1\<lparr>pcbs := x\<rparr>" by blast
  have n: "nst st2 = nst st" using arg_cong [OF st2(4) [of Map.empty], of nst] by (simp add: st1_def)
  obtain k where k: "do_free (lobuf_mpool tnet) inp (kst (nst st)) = Some (0, k)"
    "free_map k = (free_map (kst (nst st)))(lobuf_mpool tnet := inp # free_blocks (kst (nst st)) (lobuf_mpool tnet))"
    using task_pools.give_holds [OF h(2,3)] by blast
  then have "tn_net_free_min tnet inp (kst (nst st2)) = Some (0, k)" using h(1) n by (auto simp: tn_net_free_min_def min_home_def split: if_splits)
  then have "in_pcbdetach sofree tnet inp st = Some (st2\<lparr>nst := (nst st)\<lparr>kst := k\<rparr>, pcbs := (pcbs st2)(inp := None)\<rparr>)"
    using gb s1 so st2(1) d n by (simp add: in_pcbdetach_def on_net_def on_kernel_def)
  moreover have "ring (links (st2\<lparr>nst := (nst st)\<lparr>kst := k\<rparr>, pcbs := (pcbs st2)(inp := None)\<rparr>)) head (remove1 inp ps) = ring (links st2) head (remove1 inp ps)"
    by (rule ring_cong) (use d in auto)
  ultimately show ?thesis using st2(2,3) k(2) d by (auto simp: pcb_ring_def same_pcbs_def st1_def)
qed

end
