(* ===== verification/Arp.thy ===== *)
theory Arp
  imports In_Pcb Sem
begin

text \<open>
  The address resolution protocol, \<open>src/tn_net/tn_arp.c\<close>. The state is that of the buffers with the ARP table of an
  interface and the addresses of the interface. An entry of the table is referred to by its index. The lock is a
  kernel semaphore; as elsewhere the functions are modelled as running without leaving the processor, so that a wait
  for the lock has no result. The time \<open>tn_time_sec()\<close> of the application is the argument \<open>now\<close>, the same for one call;
  the driver's write function \<open>drv_wr\<close>, a pointer in the interface, is a parameter.

  Packets are read and written in the bytes of their buffers. The copies between a packet and the table or the
  interface are block copies of \<open>bcopy\<close>, written as the transfer of the bytes. \<open>add_eth_header\<close> stores the Ethernet header in the
  descriptor itself, over fields that are not used when \<open>M_ETHHDR\<close> is set; the header is found in the bytes at \<open>m_data\<close>,
  and the fields under it keep the values of the store.
\<close>

section \<open>State\<close>

abbreviation (input) ARP_FREE :: u8 where "ARP_FREE \<equiv> 0"
abbreviation (input) ARP_PENDING :: u8 where "ARP_PENDING \<equiv> 1"
abbreviation (input) ARP_SOLVED :: u8 where "ARP_SOLVED \<equiv> 2"
abbreviation (input) ARP_STATE_MASK :: u8 where "ARP_STATE_MASK \<equiv> 3"
abbreviation (input) ARP_PERMANENT :: u8 where "ARP_PERMANENT \<equiv> 8"
abbreviation (input) ARP_MAX_TRIES :: u8 where "ARP_MAX_TRIES \<equiv> 5"
abbreviation (input) ARP_TIME_DOWN :: u32 where "ARP_TIME_DOWN \<equiv> 20"
abbreviation (input) ARP_TIME_KEEP :: u32 where "ARP_TIME_KEEP \<equiv> 1200"
abbreviation (input) ETHERTYPE_IP :: u16 where "ETHERTYPE_IP \<equiv> 0x0800"
abbreviation (input) ETHERTYPE_ARP :: u16 where "ETHERTYPE_ARP \<equiv> 0x0806"
abbreviation (input) ARPHRD_ETHER :: u16 where "ARPHRD_ETHER \<equiv> 1"
abbreviation (input) ARPOP_REQUEST :: u16 where "ARPOP_REQUEST \<equiv> 1"
abbreviation (input) ARPOP_REPLY :: u16 where "ARPOP_REPLY \<equiv> 2"
abbreviation (input) sizeof_ether_header :: addr where "sizeof_ether_header \<equiv> 14"

record arpentry =
  rt_expire :: u32
  la_hold :: addr
  itaddr :: u32
  mac_addr :: "u8 list"
  ae_flags :: u8
  la_asked :: u8

record astate =
  anet :: nstate
  arp_arr :: "arpentry list"
  arp_sem :: "sid option"
  dup_own_ip_addr :: bool
  my_ip :: u32
  hw_addr :: "u8 list"

definition free_entry :: arpentry where
  "free_entry = \<lparr>rt_expire = 0, la_hold = 0, itaddr = 0, mac_addr = replicate 6 0, ae_flags = 0, la_asked = 0\<rparr>"

definition etherbroadcastaddr :: "u8 list" where
  "etherbroadcastaddr = replicate 6 0xFF"

text \<open>\<open>ARP_LOCK\<close> and \<open>ARP_UNLOCK\<close>\<close>

definition on_sem :: "(kstate \<Rightarrow> (kret \<times> kstate) option) \<Rightarrow> astate \<Rightarrow> astate option" where
  "on_sem f a = do { (r, k) \<leftarrow> f (kst (anet a)); rc \<leftarrow> came_back r; Some (a\<lparr>anet := (anet a)\<lparr>kst := k\<rparr>\<rparr>) }"

definition ARP_LOCK :: "astate \<Rightarrow> astate option" where
  "ARP_LOCK a = on_sem (tn_sem_acquire (arp_sem a) TN_WAIT_INFINITE) a"

definition ARP_UNLOCK :: "astate \<Rightarrow> astate option" where
  "ARP_UNLOCK a = on_sem (tn_sem_signal (arp_sem a)) a"

text \<open>\<open>m_freem\<close> where its result is ignored, and bytes written to memory.\<close>

definition freem :: "tn_net \<Rightarrow> addr \<Rightarrow> nstate \<Rightarrow> nstate option" where
  "freem tnet mb st = do { (_, st) \<leftarrow> m_freem tnet mb st; Some st }"

fun wr_bytes :: "addr \<Rightarrow> u8 list \<Rightarrow> bmem \<Rightarrow> bmem" where
  "wr_bytes a [] m = m"
| "wr_bytes a (b # bs) m = wr_bytes (a + 1) bs (m(a := b))"

definition wr_mem :: "(bmem \<Rightarrow> bmem) \<Rightarrow> nstate \<Rightarrow> nstate" where
  "wr_mem f st = st\<lparr>bytes := f (bytes st)\<rparr>"

text \<open>The four bytes of an address in memory.\<close>

definition addr_bytes :: "u32 \<Rightarrow> u8 list" where
  "addr_bytes a = [ucast a, ucast (drop_bit 8 a), ucast (drop_bit 16 a), ucast (drop_bit 24 a)]"

section \<open>Operations\<close>

definition add_eth_header :: "tn_net \<Rightarrow> addr \<Rightarrow> u8 list \<Rightarrow> u8 list \<Rightarrow> u16 \<Rightarrow> nstate \<Rightarrow> (addr \<times> nstate) option" where
  "add_eth_header tnet mb eth_dst eth_src eth_type st =
     do { (mb0, st) \<leftarrow> on_kernel (tn_net_alloc_tx_min tnet MB_NOWAIT) st;
          if mb0 = 0 then do { st \<leftarrow> freem tnet mb st; Some (0, st) }
          else do {
            st \<leftarrow> clear_descr mb0 st;
            st \<leftarrow> set_mbuf mb0 (\<lambda>b. b\<lparr>m_data := mb0 + 12\<rparr>) st;
            let eh = mb0 + 12;
                st = wr_mem (wr_bytes (eh + 6) eth_src \<circ> wr_bytes eh eth_dst \<circ> wr16 (eh + 12) (htons eth_type)) st in
            do { st \<leftarrow> set_mbuf mb (\<lambda>b. b\<lparr>m_flags := m_flags b AND NOT M_PKTHDR\<rparr>) st;
                 st \<leftarrow> set_mbuf mb0 (\<lambda>b. b\<lparr>m_next := mb, m_len := 14, m_flags := M_ETHHDR OR M_PKTHDR\<rparr>) st;
                 Some (mb0, st) } } }"

text \<open>\<open>arp_null\<close> says that \<open>arp_arr\<close> or \<open>p_arp_sem\<close> is \<open>NULL\<close>; the table of an interface without ARP is empty. With \<open>ni\<close> itself
  \<open>NULL\<close> the code would fault.\<close>

definition arp_init :: "bool \<Rightarrow> int \<Rightarrow> sid option \<Rightarrow> astate \<Rightarrow> astate option" where
  "arp_init arp_null nelem p_arp_sem a =
     (case p_arp_sem of
        None \<Rightarrow> Some (a\<lparr>arp_arr := [], arp_sem := None\<rparr>)
      | Some i \<Rightarrow>
          if arp_null \<or> nelem < 2 then Some (a\<lparr>arp_arr := [], arp_sem := None\<rparr>)
          else
            let a = a\<lparr>arp_arr := replicate (nat nelem) free_entry, dup_own_ip_addr := False,
                  anet := (anet a)\<lparr>kst := upd_sem i (\<lambda>x. x\<lparr>id_sem := 0\<rparr>) (kst (anet a))\<rparr>\<rparr> in
            do { a \<leftarrow> on_sem (tn_sem_create (Some i) 1 1) a; Some (a\<lparr>arp_sem := Some i\<rparr>) })"

text \<open>The search of \<open>arp_lookup\<close>, with the candidates for a new entry.\<close>

record arp_cand =
  first_free_ind :: "nat option"
  oldest_solved_ind :: "nat option"
  oldest_expire_solved :: u32
  oldest_pending_ind :: "nat option"
  oldest_expire_pending :: u32

definition no_cand :: arp_cand where
  "no_cand = \<lparr>first_free_ind = None, oldest_solved_ind = None, oldest_expire_solved = 0xFFFFFFFF, oldest_pending_ind = None,
     oldest_expire_pending = 0xFFFFFFFF\<rparr>"

definition arp_note :: "nat \<Rightarrow> arpentry \<Rightarrow> arp_cand \<Rightarrow> arp_cand" where
  "arp_note idx e c =
     (let flags = ae_flags e AND ARP_STATE_MASK in
      if flags = ARP_FREE then (if first_free_ind c = None then c\<lparr>first_free_ind := Some idx\<rparr> else c)
      else if flags = ARP_SOLVED then
        (if ae_flags e AND ARP_PERMANENT = 0 \<and> rt_expire e < oldest_expire_solved c
         then c\<lparr>oldest_expire_solved := rt_expire e, oldest_solved_ind := Some idx\<rparr> else c)
      else if flags = ARP_PENDING then
        (if ae_flags e AND ARP_PERMANENT = 0 \<and> rt_expire e < oldest_expire_pending c
         then c\<lparr>oldest_expire_pending := rt_expire e, oldest_pending_ind := Some idx\<rparr> else c)
      else c)"

fun arp_scan :: "u32 \<Rightarrow> bool \<Rightarrow> nat \<Rightarrow> arpentry list \<Rightarrow> arp_cand \<Rightarrow> nat + arp_cand" where
  "arp_scan ip create idx [] c = Inr c"
| "arp_scan ip create idx (e # es) c =
     (if itaddr e = ip then Inl idx
      else arp_scan ip create (Suc idx) es (if create then arp_note idx e c else c))"

definition arp_choose :: "arp_cand \<Rightarrow> nat option" where
  "arp_choose c =
     (case first_free_ind c of Some i \<Rightarrow> Some i
      | None \<Rightarrow> case oldest_solved_ind c of Some i \<Rightarrow> Some i | None \<Rightarrow> oldest_pending_ind c)"

text \<open>\<open>if(arpe->la_hold) m_freem(tnet, arpe->la_hold);\<close>\<close>

definition drop_held :: "tn_net \<Rightarrow> arpentry \<Rightarrow> nstate \<Rightarrow> nstate option" where
  "drop_held tnet e st = (if la_hold e \<noteq> 0 then freem tnet (la_hold e) st else Some st)"

definition arp_lookup :: "tn_net \<Rightarrow> u32 \<Rightarrow> u32 \<Rightarrow> bool \<Rightarrow> astate \<Rightarrow> (nat option \<times> astate) option" where
  "arp_lookup tnet now ip_to_find create_new_entry a =
     (case arp_scan ip_to_find create_new_entry 0 (arp_arr a) no_cand of
        Inl idx \<Rightarrow> Some (Some idx, a)
      | Inr c \<Rightarrow>
          case (if create_new_entry then arp_choose c else None) of
            None \<Rightarrow> Some (None, a)
          | Some idx \<Rightarrow>
              do { let e = arp_arr a ! idx in
                   do { st \<leftarrow> drop_held tnet e (anet a);
                        Some (Some idx, a\<lparr>anet := st, arp_arr := (arp_arr a)[idx :=
                          \<lparr>rt_expire = now, la_hold = 0, itaddr = ip_to_find, mac_addr = replicate 6 0,
                           ae_flags = ARP_PENDING, la_asked = 0\<rparr>]\<rparr>) } })"

abbreviation set_entry :: "nat \<Rightarrow> (arpentry \<Rightarrow> arpentry) \<Rightarrow> astate \<Rightarrow> astate" where
  "set_entry i f a \<equiv> a\<lparr>arp_arr := (arp_arr a)[i := f (arp_arr a ! i)]\<rparr>"

text \<open>The fields of an ARP message at \<open>ea\<close>.\<close>

abbreviation (input) off_pro :: addr where "off_pro \<equiv> 2"
abbreviation (input) off_op :: addr where "off_op \<equiv> 6"
abbreviation (input) off_sha :: addr where "off_sha \<equiv> 8"
abbreviation (input) off_spa :: addr where "off_spa \<equiv> 14"
abbreviation (input) off_tha :: addr where "off_tha \<equiv> 18"
abbreviation (input) off_tpa :: addr where "off_tpa \<equiv> 24"

text \<open>The part of \<open>arp_input\<close> under the lock: the entry of the sender learns its address and the packet that waits for it is
  sent.\<close>

definition arp_learn :: "(addr \<Rightarrow> nstate \<Rightarrow> nstate option) \<Rightarrow> tn_net \<Rightarrow> u32 \<Rightarrow> addr \<Rightarrow> nat \<Rightarrow> astate \<Rightarrow> astate option" where
  "arp_learn drv_wr tnet now ea i a =
     (let a = set_entry i (\<lambda>e. e\<lparr>mac_addr := bytes_at (bytes (anet a)) (ea + off_sha) 6,
                ae_flags := ae_flags e AND NOT ARP_STATE_MASK OR ARP_SOLVED, rt_expire := now + ARP_TIME_KEEP, la_asked := 0\<rparr>) a;
          e = arp_arr a ! i in
      if la_hold e \<noteq> 0 then
        do { (mb0, st) \<leftarrow> add_eth_header tnet (la_hold e) (mac_addr e) (hw_addr a) ETHERTYPE_IP (anet a);
             if mb0 \<noteq> 0 then
               do { st \<leftarrow> drv_wr mb0 st; Some (set_entry i (\<lambda>e. e\<lparr>la_hold := 0\<rparr>) (a\<lparr>anet := st\<rparr>)) }
             else Some (a\<lparr>anet := st\<rparr>) }
      else Some a)"

definition arp_update :: "(addr \<Rightarrow> nstate \<Rightarrow> nstate option) \<Rightarrow> tn_net \<Rightarrow> u32 \<Rightarrow> addr \<Rightarrow> u32 \<Rightarrow> bool \<Rightarrow> astate \<Rightarrow> astate option" where
  "arp_update drv_wr tnet now ea isaddr create a =
     do { a \<leftarrow> ARP_LOCK a;
          (arpe, a) \<leftarrow> arp_lookup tnet now isaddr create a;
          a \<leftarrow> (case arpe of Some i \<Rightarrow> arp_learn drv_wr tnet now ea i a | None \<Rightarrow> Some a);
          ARP_UNLOCK a }"

text \<open>The answer to a request, made in the buffer of the request.\<close>

definition arp_reply_packet :: "addr \<Rightarrow> addr \<Rightarrow> u8 list \<Rightarrow> u32 \<Rightarrow> bmem \<Rightarrow> bmem" where
  "arp_reply_packet eh ea hw it m =
     (let m = wr_bytes (ea + off_tha) (bytes_at m (ea + off_sha) 6) m;
          m = wr_bytes (ea + off_sha) hw m;
          m = wr_bytes (ea + off_tpa) (bytes_at m (ea + off_spa) 4) m;
          m = wr_bytes (ea + off_spa) (addr_bytes it) m;
          m = wr16 (ea + off_op) (htons ARPOP_REPLY) m;
          m = wr16 (ea + off_pro) (htons ETHERTYPE_IP) m;
          m = wr_bytes eh (bytes_at m (ea + off_tha) 6) m;
          m = wr_bytes (eh + 6) hw m
      in wr16 (eh + 12) (htons ETHERTYPE_ARP) m)"

definition arp_input :: "(addr \<Rightarrow> nstate \<Rightarrow> nstate option) \<Rightarrow> tn_net \<Rightarrow> u32 \<Rightarrow> addr \<Rightarrow> astate \<Rightarrow> astate option" where
  "arp_input drv_wr tnet now mb a =
     do { b \<leftarrow> deref mb (anet a);
          if m_tlen b < 28 then do { st \<leftarrow> freem tnet mb (anet a); Some (a\<lparr>anet := st\<rparr>) }
          else
            let eh = m_data b; ea = m_data b + sizeof_ether_header; m = bytes (anet a);
                op = htons (rd16 m (ea + off_op)); isaddr = rd32 m (ea + off_spa); it = rd32 m (ea + off_tpa) in
            if bytes_at m (ea + off_sha) 6 = etherbroadcastaddr then do { st \<leftarrow> freem tnet mb (anet a); Some (a\<lparr>anet := st\<rparr>) }
            else do {
              a \<leftarrow> (if isaddr = my_ip a then Some (a\<lparr>dup_own_ip_addr := True\<rparr>)
                    else arp_update drv_wr tnet now ea isaddr (it = my_ip a) a);
              let it = (if isaddr = my_ip a then my_ip a else it) in
              if op = ARPOP_REQUEST \<and> it = my_ip a then
                do { st \<leftarrow> drv_wr mb (wr_mem (arp_reply_packet eh ea (hw_addr a) it) (anet a)); Some (a\<lparr>anet := st\<rparr>) }
              else do { st \<leftarrow> freem tnet mb (anet a); Some (a\<lparr>anet := st\<rparr>) } } }"

text \<open>The question is sent from a buffer of its own; it leaves the source address of the Ethernet header as it is.\<close>

definition arp_request_packet :: "addr \<Rightarrow> u8 list \<Rightarrow> u32 \<Rightarrow> u32 \<Rightarrow> bmem \<Rightarrow> bmem" where
  "arp_request_packet eh hw ip tip m =
     (let ea = eh + sizeof_ether_header;
          m = bzero ea 28 m;
          m = wr_bytes eh etherbroadcastaddr m;
          m = wr16 (eh + 12) (htons ETHERTYPE_ARP) m;
          m = wr16 ea (htons ARPHRD_ETHER) m;
          m = wr16 (ea + off_pro) (htons ETHERTYPE_IP) m;
          m = m(ea + 4 := 6, ea + 5 := 4);
          m = wr16 (ea + off_op) (htons ARPOP_REQUEST) m;
          m = wr_bytes (ea + off_sha) hw m;
          m = wr_bytes (ea + off_spa) (addr_bytes ip) m
      in wr_bytes (ea + off_tpa) (addr_bytes tip) m)"

definition arp_request :: "(addr \<Rightarrow> nstate \<Rightarrow> nstate option) \<Rightarrow> tn_net \<Rightarrow> u32 \<Rightarrow> astate \<Rightarrow> astate option" where
  "arp_request drv_wr tnet tip a =
     do { (mb, st) \<leftarrow> mb_get tnet MB_MID1 MB_NOWAIT True (anet a);
          if mb = 0 then Some (a\<lparr>anet := st\<rparr>)
          else do {
            st \<leftarrow> set_mbuf mb (\<lambda>b. b\<lparr>m_len := 42, m_tlen := 42\<rparr>) st;
            b \<leftarrow> deref mb st;
            st \<leftarrow> drv_wr mb (wr_mem (arp_request_packet (m_data b) (hw_addr a) (my_ip a) tip) st);
            Some (a\<lparr>anet := st\<rparr>) } }"

text \<open>The result is the return value and what is stored at \<open>dst\<close>, if anything; \<open>dst\<close> is the address of an array.\<close>

definition arp_hold :: "tn_net \<Rightarrow> u32 \<Rightarrow> addr \<Rightarrow> nat \<Rightarrow> astate \<Rightarrow> (bool \<times> astate) option" where
  "arp_hold tnet now mb i a =
     do { let e = arp_arr a ! i in do {
          st \<leftarrow> drop_held tnet e (anet a);
          let a = set_entry i (\<lambda>e. e\<lparr>la_hold := mb\<rparr>) (a\<lparr>anet := st\<rparr>) in
          Some (if la_asked e = 0 \<or> rt_expire e \<noteq> now then
                  (if la_asked e < ARP_MAX_TRIES
                   then (True, set_entry i (\<lambda>e. e\<lparr>rt_expire := now, la_asked := la_asked e + 1\<rparr>) a)
                   else (False, set_entry i (\<lambda>e. e\<lparr>rt_expire := now + ARP_TIME_DOWN, la_asked := 0\<rparr>) a))
                else (False, a)) } }"

definition arp_resolve ::
    "(addr \<Rightarrow> nstate \<Rightarrow> nstate option) \<Rightarrow> tn_net \<Rightarrow> u32 \<Rightarrow> addr \<Rightarrow> u32 \<Rightarrow> astate \<Rightarrow> ((bool \<times> u8 list option) \<times> astate) option" where
  "arp_resolve drv_wr tnet now mb arp_ip_addr a =
     do { b \<leftarrow> deref mb (anet a);
          if m_flags b AND M_BCAST \<noteq> 0 then Some ((True, Some etherbroadcastaddr), a)
          else if m_flags b AND M_MCAST \<noteq> 0 then
            let ptr = addr_bytes arp_ip_addr in Some ((True, Some [0x01, 0x00, 0x5E, ptr ! 1 AND 0x7F, ptr ! 2, ptr ! 3]), a)
          else do {
            a \<leftarrow> ARP_LOCK a;
            (arpe, a) \<leftarrow> arp_lookup tnet now arp_ip_addr True a;
            case arpe of
              None \<Rightarrow>
                do { a \<leftarrow> ARP_UNLOCK a; st \<leftarrow> freem tnet mb (anet a); Some ((False, None), a\<lparr>anet := st\<rparr>) }
            | Some i \<Rightarrow>
                let e = arp_arr a ! i in
                if (ae_flags e AND ARP_PERMANENT \<noteq> 0 \<or> rt_expire e > now) \<and> ae_flags e AND ARP_STATE_MASK = ARP_SOLVED then
                  do { a \<leftarrow> ARP_UNLOCK a; Some ((True, Some (mac_addr e)), a) }
                else do {
                  (do_ARP_req, a) \<leftarrow> arp_hold tnet now mb i a;
                  a \<leftarrow> ARP_UNLOCK a;
                  a \<leftarrow> (if do_ARP_req then arp_request drv_wr tnet arp_ip_addr a else Some a);
                  Some ((False, None), a) } } }"

text \<open>The round over the table that the timer makes every five minutes.\<close>

fun arp_age :: "tn_net \<Rightarrow> u32 \<Rightarrow> nat \<Rightarrow> nat \<Rightarrow> astate \<Rightarrow> astate option" where
  "arp_age tnet now i 0 a = Some a"
| "arp_age tnet now i (Suc n) a =
     (let e = arp_arr a ! i in
      if rt_expire e \<noteq> 0 \<and> rt_expire e \<le> now then
        do { st \<leftarrow> drop_held tnet e (anet a);
             arp_age tnet now (Suc i) n (set_entry i (\<lambda>_. free_entry) (a\<lparr>anet := st\<rparr>)) }
      else arp_age tnet now (Suc i) n a)"

definition arp_timer_func :: "tn_net \<Rightarrow> u32 \<Rightarrow> int \<Rightarrow> astate \<Rightarrow> astate option" where
  "arp_timer_func tnet now cnt a =
     (if cnt mod 3000 = 0 \<and> arp_arr a \<noteq> [] then
        do { a \<leftarrow> ARP_LOCK a; a \<leftarrow> arp_age tnet now 0 (length (arp_arr a)) a; ARP_UNLOCK a }
      else Some a)"

end
