(* ===== verification/Arp_Table.thy ===== *)
theory Arp_Table
  imports Arp Mbuf_Fill
begin

text \<open>
  The ARP table: the search finds the entry of an address, a new entry replaces a free one, or else the one that expires
  first, resolved entries before unresolved ones, and never a permanent one. An address is entered only once. An answer
  that was received is used for the packets that follow.
\<close>

section \<open>The search\<close>

lemma arp_scan_found:
  assumes "arp_scan ip create k es c = Inl i"
  shows "k \<le> i \<and> i - k < length es \<and> itaddr (es ! (i - k)) = ip"
  using assms
proof (induction es arbitrary: k c)
  case (Cons e es)
  show ?case
  proof (cases "itaddr e = ip")
    case False
    with Cons.prems have "arp_scan ip create (Suc k) es (if create then arp_note k e c else c) = Inl i" by simp
    from Cons.IH [OF this] show ?thesis by (cases "i - k") (auto simp: Suc_diff_Suc diff_Suc split: nat.splits)
  qed (use Cons.prems in auto)
qed simp

lemma arp_scan_absent: "(\<exists>c'. arp_scan ip create k es c = Inr c') \<longleftrightarrow> ip \<notin> itaddr ` set es"
  by (induction es arbitrary: k c) auto

text \<open>Which entries are candidates, and the one that is chosen.\<close>

definition is_free :: "arpentry \<Rightarrow> bool" where
  "is_free e \<longleftrightarrow> ae_flags e AND ARP_STATE_MASK = ARP_FREE"

definition is_old :: "u8 \<Rightarrow> arpentry \<Rightarrow> bool" where
  "is_old state e \<longleftrightarrow> ae_flags e AND ARP_STATE_MASK = state \<and> ae_flags e AND ARP_PERMANENT = 0 \<and> rt_expire e \<noteq> 0xFFFFFFFF"

definition oldest :: "u8 \<Rightarrow> arpentry list \<Rightarrow> nat option \<Rightarrow> u32 \<Rightarrow> bool" where
  "oldest state es i exp \<longleftrightarrow>
     (case i of None \<Rightarrow> exp = 0xFFFFFFFF \<and> (\<forall>e \<in> set es. \<not> is_old state e)
      | Some i \<Rightarrow> i < length es \<and> is_old state (es ! i) \<and> rt_expire (es ! i) = exp \<and> (\<forall>e \<in> set es. is_old state e \<longrightarrow> exp \<le> rt_expire e))"

definition first_free :: "arpentry list \<Rightarrow> nat option \<Rightarrow> bool" where
  "first_free es i \<longleftrightarrow>
     (case i of None \<Rightarrow> (\<forall>e \<in> set es. \<not> is_free e)
      | Some i \<Rightarrow> i < length es \<and> is_free (es ! i) \<and> (\<forall>j < i. \<not> is_free (es ! j)))"

definition cand_ok :: "arpentry list \<Rightarrow> arp_cand \<Rightarrow> bool" where
  "cand_ok es c \<longleftrightarrow> first_free es (first_free_ind c) \<and> oldest ARP_SOLVED es (oldest_solved_ind c) (oldest_expire_solved c) \<and>
     oldest ARP_PENDING es (oldest_pending_ind c) (oldest_expire_pending c)"

lemma oldest_skip: "oldest state es i exp \<Longrightarrow> \<not> is_old state e \<or> exp \<le> rt_expire e \<Longrightarrow> i \<noteq> None \<or> \<not> is_old state e \<Longrightarrow> oldest state (es @ [e]) i exp"
  by (auto simp: oldest_def nth_append split: option.splits)

lemma oldest_take: "oldest state es i exp \<Longrightarrow> is_old state e \<Longrightarrow> rt_expire e < exp \<Longrightarrow> oldest state (es @ [e]) (Some (length es)) (rt_expire e)"
  by (auto simp: oldest_def nth_append split: option.splits dest: less_le_trans less_imp_le)

lemma first_free_skip: "first_free es i \<Longrightarrow> \<not> is_free e \<or> i \<noteq> None \<Longrightarrow> first_free (es @ [e]) i"
  by (auto simp: first_free_def nth_append split: option.splits)

lemma first_free_take: "first_free es None \<Longrightarrow> is_free e \<Longrightarrow> first_free (es @ [e]) (Some (length es))"
  by (auto simp: first_free_def nth_append)

lemma max_u32: "(0xFFFFFFFF :: u32) = - 1"
  by (simp add: word_uint_eq_iff uint_word_ariths)

lemma lt_max: "x \<noteq> 0xFFFFFFFF \<longleftrightarrow> x < (0xFFFFFFFF :: u32)"
  unfolding max_u32 by (rule word_order.not_eq_extremum)

lemma old_le: "is_old state e \<Longrightarrow> oldest state es i exp \<Longrightarrow> \<not> rt_expire e < exp \<Longrightarrow> i \<noteq> None"
  by (auto simp: oldest_def is_old_def lt_max split: option.splits)

lemma arp_note_ok:
  assumes c: "cand_ok es c"
  shows "cand_ok (es @ [e]) (arp_note (length es) e c)"
proof -
  let ?f = "ae_flags e AND ARP_STATE_MASK"
  note d = c [unfolded cand_ok_def]
  have old: "is_old state e \<longleftrightarrow> ?f = state \<and> ae_flags e AND ARP_PERMANENT = 0 \<and> rt_expire e < 0xFFFFFFFF" for state
    by (simp add: is_old_def lt_max)
  have top: "exp \<le> 0xFFFFFFFF" for exp :: u32 unfolding max_u32 by (rule word_order.extremum)
  have S: "oldest st (es @ [e]) i exp" if "oldest st es i exp" "?f \<noteq> st \<or> ae_flags e AND ARP_PERMANENT \<noteq> 0" for st i exp
    using oldest_skip [OF that(1)] that(2) by (auto simp: is_old_def)
  have K: "oldest st (es @ [e]) i exp" if "oldest st es i exp" "\<not> rt_expire e < exp" for st i exp
    by (rule oldest_skip [OF that(1)]) (use that(2) old_le [OF _ that] in auto)
  have T: "oldest st (es @ [e]) (Some (length es)) (rt_expire e)"
    if "oldest st es i exp" "rt_expire e < exp" "?f = st" "ae_flags e AND ARP_PERMANENT = 0" for st i exp
    using oldest_take [OF that(1) _ that(2)] that less_le_trans [OF that(2) top] by (simp add: old)
  have F: "first_free (es @ [e]) i" if "first_free es i" "?f \<noteq> ARP_FREE" for i
    using first_free_skip [OF that(1)] that(2) by (simp add: is_free_def)
  consider "?f = ARP_FREE" | "?f = ARP_SOLVED" | "?f = ARP_PENDING" | "?f \<noteq> ARP_FREE" "?f \<noteq> ARP_SOLVED" "?f \<noteq> ARP_PENDING" by blast
  then show ?thesis
  proof cases
    case 1
    have "first_free (es @ [e]) (first_free_ind (arp_note (length es) e c))"
      using d 1 first_free_take [of es e] first_free_skip [of es "first_free_ind c" e] by (auto simp: arp_note_def is_free_def)
    then show ?thesis using d 1 S by (simp add: cand_ok_def arp_note_def)
  next
    case 2
    have "oldest ARP_SOLVED (es @ [e]) (oldest_solved_ind (arp_note (length es) e c)) (oldest_expire_solved (arp_note (length es) e c))"
      using d 2 S [of ARP_SOLVED] K [of ARP_SOLVED] T [of ARP_SOLVED _ _] by (simp add: arp_note_def del: not_less) blast
    then show ?thesis using d 2 S [of ARP_PENDING] F by (simp add: cand_ok_def arp_note_def)
  next
    case 3
    have "oldest ARP_PENDING (es @ [e]) (oldest_pending_ind (arp_note (length es) e c)) (oldest_expire_pending (arp_note (length es) e c))"
      using d 3 S [of ARP_PENDING] K [of ARP_PENDING] T [of ARP_PENDING _ _] by (simp add: arp_note_def del: not_less) blast
    then show ?thesis using d 3 S [of ARP_SOLVED] F by (simp add: cand_ok_def arp_note_def)
  next
    case 4
    then show ?thesis using d S F by (simp add: cand_ok_def arp_note_def)
  qed
qed

lemma arp_scan_cand:
  assumes "arp_scan ip True (length es) fs c = Inr c'" "cand_ok es c"
  shows "cand_ok (es @ fs) c'"
  using assms
proof (induction fs arbitrary: es c)
  case (Cons f fs)
  then have "arp_scan ip True (length (es @ [f])) fs (arp_note (length es) f c) = Inr c'" by (simp split: if_splits)
  from Cons.IH [OF this arp_note_ok [OF Cons.prems(2)]] show ?case by simp
qed simp

text \<open>The entry that makes room for a new one.\<close>

definition victim :: "arpentry list \<Rightarrow> nat \<Rightarrow> bool" where
  "victim es i \<longleftrightarrow> i < length es \<and>
     (if \<exists>e \<in> set es. is_free e then is_free (es ! i)
      else if \<exists>e \<in> set es. is_old ARP_SOLVED e
      then is_old ARP_SOLVED (es ! i) \<and> (\<forall>e \<in> set es. is_old ARP_SOLVED e \<longrightarrow> rt_expire (es ! i) \<le> rt_expire e)
      else is_old ARP_PENDING (es ! i) \<and> (\<forall>e \<in> set es. is_old ARP_PENDING e \<longrightarrow> rt_expire (es ! i) \<le> rt_expire e))"

lemma arp_choose_victim:
  assumes "cand_ok es c"
  shows "case arp_choose c of Some i \<Rightarrow> victim es i
    | None \<Rightarrow> \<forall>e \<in> set es. \<not> is_free e \<and> \<not> is_old ARP_SOLVED e \<and> \<not> is_old ARP_PENDING e"
proof (cases "first_free_ind c")
  case (Some i)
  then have "i < length es" "is_free (es ! i)" using assms by (auto simp: cand_ok_def first_free_def)
  then show ?thesis using Some by (auto simp: arp_choose_def victim_def)
next
  case None
  then have nf: "\<forall>e \<in> set es. \<not> is_free e" using assms by (auto simp: cand_ok_def first_free_def)
  show ?thesis
  proof (cases "oldest_solved_ind c")
    case (Some i)
    then have "i < length es" "is_old ARP_SOLVED (es ! i)" "\<forall>e \<in> set es. is_old ARP_SOLVED e \<longrightarrow> rt_expire (es ! i) \<le> rt_expire e"
      using assms by (auto simp: cand_ok_def oldest_def)
    then show ?thesis using Some None nf by (auto simp: arp_choose_def victim_def)
  next
    case n2: None
    then have "\<forall>e \<in> set es. \<not> is_old ARP_SOLVED e" using assms by (auto simp: cand_ok_def oldest_def)
    then show ?thesis using assms None n2 nf by (cases "oldest_pending_ind c") (auto simp: arp_choose_def victim_def cand_ok_def oldest_def)
  qed
qed

definition new_entry :: "u32 \<Rightarrow> u32 \<Rightarrow> arpentry" where
  "new_entry now ip = \<lparr>rt_expire = now, la_hold = 0, itaddr = ip, mac_addr = replicate 6 0, ae_flags = ARP_PENDING, la_asked = 0\<rparr>"

lemma arp_lookup_cases:
  shows "(\<exists>i < length (arp_arr a). itaddr (arp_arr a ! i) = ip \<and> arp_lookup tnet now ip create a = Some (Some i, a)) \<or>
    ip \<notin> itaddr ` set (arp_arr a) \<and>
     ((\<not> create \<or> (\<forall>e \<in> set (arp_arr a). \<not> is_free e \<and> \<not> is_old ARP_SOLVED e \<and> \<not> is_old ARP_PENDING e)) \<and>
        arp_lookup tnet now ip create a = Some (None, a) \<or>
      create \<and> (\<exists>i. victim (arp_arr a) i \<and> arp_lookup tnet now ip create a =
        map_option (\<lambda>st. (Some i, a\<lparr>anet := st, arp_arr := (arp_arr a)[i := new_entry now ip]\<rparr>)) (drop_held tnet (arp_arr a ! i) (anet a))))"
proof (cases "arp_scan ip create 0 (arp_arr a) no_cand")
  case (Inl i)
  then show ?thesis using arp_scan_found [OF Inl] by (auto simp: arp_lookup_def)
next
  case (Inr c)
  then have n: "ip \<notin> itaddr ` set (arp_arr a)" using arp_scan_absent by blast
  have "cand_ok [] no_cand" by (simp add: cand_ok_def no_cand_def first_free_def oldest_def)
  then have k: "create \<Longrightarrow> cand_ok (arp_arr a) c" using arp_scan_cand [of ip "[]" "arp_arr a" no_cand c] Inr by simp
  show ?thesis
  proof (cases "if create then arp_choose c else None")
    case None
    then show ?thesis using Inr n arp_choose_victim [OF k] by (auto simp: arp_lookup_def split: if_splits)
  next
    case (Some i)
    then have cr: create "arp_choose c = Some i" by (auto split: if_splits)
    then have "victim (arp_arr a) i" using arp_choose_victim [OF k] by simp
    then show ?thesis using Inr n cr by (auto simp: arp_lookup_def new_entry_def Let_def map_conv_bind_option comp_def)
  qed
qed

section \<open>Addresses are entered once\<close>

definition arp_unique :: "arpentry list \<Rightarrow> bool" where
  "arp_unique es \<longleftrightarrow> (\<forall>i < length es. \<forall>j < length es. i \<noteq> j \<and> itaddr (es ! i) = itaddr (es ! j) \<longrightarrow> itaddr (es ! i) = 0)"

lemma unique_keep: "arp_unique es \<Longrightarrow> itaddr e = itaddr (es ! i) \<Longrightarrow> arp_unique (es[i := e])"
  unfolding arp_unique_def by (metis length_list_update nth_list_update nth_list_update_neq)

lemma unique_clear: "arp_unique es \<Longrightarrow> itaddr e = 0 \<Longrightarrow> arp_unique (es[i := e])"
  unfolding arp_unique_def by (metis length_list_update nth_list_update nth_list_update_neq)

lemma unique_new: "arp_unique es \<Longrightarrow> itaddr e \<notin> itaddr ` set es \<Longrightarrow> arp_unique (es[i := e])"
  unfolding arp_unique_def by (metis image_eqI length_list_update nth_list_update nth_list_update_neq nth_mem)

lemma itaddr_new [simp]: "itaddr (new_entry now ip) = ip"
  by (simp add: new_entry_def)

lemma Some_eq_map_option: "Some y = map_option f x \<longleftrightarrow> (\<exists>z. x = Some z \<and> y = f z)"
  by (cases x) auto

lemma arp_lookup_arr:
  assumes "arp_lookup tnet now ip create a = Some (r, a')"
  shows "arp_arr a' = arp_arr a \<or> ip \<notin> itaddr ` set (arp_arr a) \<and> (\<exists>i. arp_arr a' = (arp_arr a)[i := new_entry now ip])"
    "r = Some i \<Longrightarrow> i < length (arp_arr a') \<and> itaddr (arp_arr a' ! i) = ip"
  using arp_lookup_cases [of a ip tnet now create] assms
  by (auto simp: victim_def Some_eq_map_option simp del: if_split)

lemma arp_lookup_unique:
  "arp_lookup tnet now ip create a = Some (r, a') \<Longrightarrow> arp_unique (arp_arr a) \<Longrightarrow> arp_unique (arp_arr a')"
  using arp_lookup_arr(1) [of tnet now ip create a r a'] unique_new [of "arp_arr a" "new_entry now ip"] by auto

lemma on_sem_arr: "on_sem f a = Some a' \<Longrightarrow> arp_arr a' = arp_arr a"
  by (auto simp: on_sem_def bind_eq_Some)

lemma arp_learn_arr:
  assumes "arp_learn drv tnet now ea i a = Some a'" "i < length (arp_arr a)"
  shows "\<exists>e. arp_arr a' = (arp_arr a)[i := e] \<and> itaddr e = itaddr (arp_arr a ! i)"
  using assms by (auto simp: arp_learn_def bind_eq_Some Let_def split: if_splits)

lemma arp_age_unique: "arp_age tnet now i n a = Some a' \<Longrightarrow> arp_unique (arp_arr a) \<Longrightarrow> arp_unique (arp_arr a')"
proof (induction n arbitrary: i a)
  case (Suc n)
  show ?case
  proof (cases "rt_expire (arp_arr a ! i) \<noteq> 0 \<and> rt_expire (arp_arr a ! i) \<le> now")
    case True
    then obtain st where "arp_age tnet now (Suc i) n (set_entry i (\<lambda>_. free_entry) (a\<lparr>anet := st\<rparr>)) = Some a'"
      using Suc.prems(1) by (auto simp: bind_eq_Some Let_def simp del: if_split)
    from Suc.IH [OF this] show ?thesis using unique_clear [OF Suc.prems(2), of free_entry i] by (simp add: free_entry_def)
  next
    case False
    then have "arp_age tnet now (Suc i) n a = Some a'" using Suc.prems(1) by (auto simp: Let_def)
    from Suc.IH [OF this Suc.prems(2)] show ?thesis .
  qed
qed simp

lemma arp_hold_arr:
  assumes "arp_hold tnet now mb i a = Some (r, a')" "i < length (arp_arr a)"
  shows "\<exists>e. arp_arr a' = (arp_arr a)[i := e] \<and> itaddr e = itaddr (arp_arr a ! i)"
  using assms by (auto simp: arp_hold_def bind_eq_Some Let_def split: if_splits)

lemma arp_request_arr: "arp_request drv tnet tip a = Some a' \<Longrightarrow> arp_arr a' = arp_arr a"
  by (auto simp: arp_request_def bind_eq_Some split: if_splits)

lemma arp_update_unique:
  assumes "arp_update drv tnet now ea ip create a = Some a'" "arp_unique (arp_arr a)"
  shows "arp_unique (arp_arr a')"
proof -
  obtain a1 r a2 a3 where s: "ARP_LOCK a = Some a1" "arp_lookup tnet now ip create a1 = Some (r, a2)"
    "(case r of Some i \<Rightarrow> arp_learn drv tnet now ea i a2 | None \<Rightarrow> Some a2) = Some a3" "ARP_UNLOCK a3 = Some a'"
    using assms(1) by (auto simp: arp_update_def bind_eq_Some)
  have u2: "arp_unique (arp_arr a2)"
    using arp_lookup_unique [OF s(2)] on_sem_arr [OF s(1) [unfolded ARP_LOCK_def]] assms(2) by simp
  have "arp_unique (arp_arr a3)"
  proof (cases r)
    case (Some i)
    then obtain e where "arp_arr a3 = (arp_arr a2)[i := e]" "itaddr e = itaddr (arp_arr a2 ! i)"
      using s(3) arp_learn_arr [of drv tnet now ea i a2 a3] arp_lookup_arr(2) [OF s(2)] by auto
    then show ?thesis using unique_keep [OF u2] by simp
  qed (use s(3) u2 in simp)
  then show ?thesis using on_sem_arr [OF s(4) [unfolded ARP_UNLOCK_def]] by simp
qed

text \<open>No function of the module enters an address twice.\<close>

lemma arp_input_unique:
  assumes "arp_input drv tnet now mb a = Some a'" "arp_unique (arp_arr a)"
  shows "arp_unique (arp_arr a')"
proof -
  have "arp_arr a' = arp_arr a \<or> (\<exists>ea ip c a1. arp_update drv tnet now ea ip c a = Some a1 \<and> arp_arr a' = arp_arr a1)"
    using assms(1) by (auto simp: arp_input_def bind_eq_Some Let_def split: if_splits; blast)
  then show ?thesis using assms(2) arp_update_unique by metis
qed

lemma arp_resolve_unique:
  assumes "arp_resolve drv tnet now mb ip a = Some (r, a')" "arp_unique (arp_arr a)"
  shows "arp_unique (arp_arr a')"
proof -
  obtain b where b: "deref mb (anet a) = Some b" using assms(1) by (auto simp: arp_resolve_def bind_eq_Some)
  show ?thesis
  proof (cases "m_flags b AND M_BCAST \<noteq> 0 \<or> m_flags b AND M_MCAST \<noteq> 0")
    case True
    then show ?thesis using assms b by (auto simp: arp_resolve_def Let_def split: if_splits)
  next
    case False
    obtain a1 i a2 where s: "ARP_LOCK a = Some a1" "arp_lookup tnet now ip True a1 = Some (i, a2)"
      using assms(1) b False by (auto simp: arp_resolve_def bind_eq_Some)
    have u2: "arp_unique (arp_arr a2)"
      using arp_lookup_unique [OF s(2)] on_sem_arr [OF s(1) [unfolded ARP_LOCK_def]] assms(2) by simp
    have "arp_arr a' = arp_arr a2 \<or> (\<exists>j q a3. i = Some j \<and> arp_hold tnet now mb j a2 = Some (q, a3) \<and> arp_arr a' = arp_arr a3)"
      using assms(1) b False s
      by (auto simp: arp_resolve_def bind_eq_Some Let_def ARP_UNLOCK_def on_sem_arr arp_request_arr split: option.splits if_splits)
    then show ?thesis using u2 unique_keep [OF u2] arp_hold_arr arp_lookup_arr(2) [OF s(2)] by metis
  qed
qed

section \<open>The lock\<close>

text \<open>Nobody holds the lock, and the caller may take it.\<close>

definition lock_free :: "astate \<Rightarrow> bool" where
  "lock_free a \<longleftrightarrow> task_ok (kst (anet a)) \<and>
     (\<exists>i. arp_sem a = Some i \<and> id_sem (sems (kst (anet a)) i) = TN_ID_SEMAPHORE \<and> 1 \<le> sem_count (sems (kst (anet a)) i) \<and>
        sem_max_count (sems (kst (anet a)) i) \<noteq> 0)"

lemma sem_free_empty:
  assumes "system_inv s" "id_sem (sems s i) = TN_ID_SEMAPHORE" "1 \<le> sem_count (sems s i)" "sem_max_count (sems s i) \<noteq> 0"
  shows "is_queue_empty (mem s) (SemWaitQ i)" "sem_count (sems s i) \<le> sem_max_count (sems s i)"
proof -
  obtain L where L: "sinv s L" using assms(1) by (auto simp: system_inv_def)
  obtain q where q: "L (SemWaitQ i) = Some q" using sinvD(3) [OF L, of "SemWaitQ i"] assms(2) by (auto simp: sem_live)
  have "q = []"
  proof (cases q)
    case (Cons n ns)
    with sinv_waiter_cause [OF L, of "SemWaitQ i" n ns] q assms(3) show ?thesis by (auto simp: wait_cause_def)
  qed
  then show "is_queue_empty (mem s) (SemWaitQ i)" using sinv_empty [OF L q] by simp
  show "sem_count (sems s i) \<le> sem_max_count (sems s i)" using sem_of_inv [OF L, of i] assms(2,4) by (auto simp: sem_wf_def)
qed

lemma lock_unlock:
  assumes "lock_free a"
  shows "\<exists>k. ARP_LOCK a = Some (a\<lparr>anet := (anet a)\<lparr>kst := k\<rparr>\<rparr>) \<and>
    (\<forall>a2. arp_sem a2 = arp_sem a \<and> kst (anet a2) = k \<longrightarrow> ARP_UNLOCK a2 = Some (a2\<lparr>anet := (anet a2)\<lparr>kst := kst (anet a)\<rparr>\<rparr>))"
proof -
  let ?s = "kst (anet a)"
  obtain i where i: "arp_sem a = Some i" "id_sem (sems ?s i) = TN_ID_SEMAPHORE" "1 \<le> sem_count (sems ?s i)" "sem_max_count (sems ?s i) \<noteq> 0"
    and ok: "system_inv ?s" "\<not> bad_non_int_context ?s" using assms by (auto simp: lock_free_def task_ok_def)
  note e = sem_free_empty [OF ok(1) i(2,3,4)]
  define k where "k = upd_sem i (\<lambda>x. x\<lparr>sem_count := sem_count x - 1\<rparr>) ?s"
  have "tn_sem_acquire (Some i) TN_WAIT_INFINITE ?s = Some (RC TERR_NO_ERR, k)"
    using i e(2) ok(2) by (simp add: tn_sem_acquire_def tn_disable_interrupt_def tn_enable_interrupt_def k_def upd_sem_def)
  moreover have "tn_sem_signal (Some i) k = Some (RC TERR_NO_ERR, ?s)"
    using i e ok(2) by (simp add: tn_sem_signal_def tn_disable_interrupt_def tn_enable_interrupt_def k_def upd_sem_def bad_non_int_context_def)
  ultimately show ?thesis using i(1) by (intro exI [of _ k]) (simp add: ARP_LOCK_def ARP_UNLOCK_def on_sem_def came_back_def)
qed

section \<open>Learning an address\<close>

text \<open>The entry of a sender after its message.\<close>

definition knows :: "u32 \<Rightarrow> u8 list \<Rightarrow> u32 \<Rightarrow> arpentry list \<Rightarrow> bool" where
  "knows ip mac until es \<longleftrightarrow> (\<exists>i < length es. itaddr (es ! i) = ip \<and> mac_addr (es ! i) = mac \<and> rt_expire (es ! i) = until \<and>
     ae_flags (es ! i) AND ARP_STATE_MASK = ARP_SOLVED)"

lemma lookup_no_hold:
  assumes "\<forall>e \<in> set (arp_arr a). la_hold e = 0" "ip \<in> itaddr ` set (arp_arr a) \<or> create \<and> (\<exists>e \<in> set (arp_arr a). is_free e)"
  shows "\<exists>i es. arp_lookup tnet now ip create a = Some (Some i, a\<lparr>arp_arr := es\<rparr>) \<and> i < length es \<and> itaddr (es ! i) = ip \<and>
    (\<forall>e \<in> set es. la_hold e = 0)"
  using arp_lookup_cases [of a ip tnet now create]
proof (elim disjE exE conjE)
  fix i assume i: "i < length (arp_arr a)" "itaddr (arp_arr a ! i) = ip" "arp_lookup tnet now ip create a = Some (Some i, a)"
  then show ?thesis using assms(1) by (intro exI [of _ i] exI [of _ "arp_arr a"]) simp
next
  fix i assume i: "victim (arp_arr a) i" "arp_lookup tnet now ip create a =
    map_option (\<lambda>st. (Some i, a\<lparr>anet := st, arp_arr := (arp_arr a)[i := new_entry now ip]\<rparr>)) (drop_held tnet (arp_arr a ! i) (anet a))"
  have l: "i < length (arp_arr a)" using i(1) by (simp add: victim_def)
  then have "la_hold (arp_arr a ! i) = 0" using assms(1) by simp
  then show ?thesis using i(2) l assms(1) set_update_subset_insert [of "arp_arr a" i "new_entry now ip"]
    by (intro exI [of _ i] exI [of _ "(arp_arr a)[i := new_entry now ip]"]) (auto simp: drop_held_def new_entry_def)
qed (use assms(2) in auto)

lemma update_learns:
  assumes l: "lock_free a" and h: "\<forall>e \<in> set (arp_arr a). la_hold e = 0"
    "ip \<in> itaddr ` set (arp_arr a) \<or> create \<and> (\<exists>e \<in> set (arp_arr a). is_free e)"
  shows "\<exists>es. arp_update drv tnet now ea ip create a = Some (a\<lparr>arp_arr := es\<rparr>) \<and>
    knows ip (bytes_at (bytes (anet a)) (ea + 8) 6) (now + ARP_TIME_KEEP) es"
proof -
  obtain k where k: "ARP_LOCK a = Some (a\<lparr>anet := (anet a)\<lparr>kst := k\<rparr>\<rparr>)"
    "\<And>a2. arp_sem a2 = arp_sem a \<Longrightarrow> kst (anet a2) = k \<Longrightarrow> ARP_UNLOCK a2 = Some (a2\<lparr>anet := (anet a2)\<lparr>kst := kst (anet a)\<rparr>\<rparr>)"
    using lock_unlock [OF l] by blast
  let ?a = "a\<lparr>anet := (anet a)\<lparr>kst := k\<rparr>\<rparr>"
  obtain i es where i: "arp_lookup tnet now ip create ?a = Some (Some i, ?a\<lparr>arp_arr := es\<rparr>)" "i < length es" "itaddr (es ! i) = ip"
    "\<forall>e \<in> set es. la_hold e = 0" using lookup_no_hold [of ?a ip create tnet now] h by auto
  let ?e = "(es ! i)\<lparr>mac_addr := bytes_at (bytes (anet a)) (ea + 8) 6, ae_flags := ae_flags (es ! i) AND NOT ARP_STATE_MASK OR ARP_SOLVED,
    rt_expire := now + ARP_TIME_KEEP, la_asked := 0\<rparr>"
  have "la_hold (es ! i) = 0" using i(2,4) by simp
  then have "arp_learn drv tnet now ea i (?a\<lparr>arp_arr := es\<rparr>) = Some (?a\<lparr>arp_arr := es[i := ?e]\<rparr>)"
    using i(2) by (simp add: arp_learn_def)
  then have "arp_update drv tnet now ea ip create a = Some (a\<lparr>arp_arr := es[i := ?e]\<rparr>)"
    using k(1) i(1) k(2) [of "?a\<lparr>arp_arr := es[i := ?e]\<rparr>"] by (simp add: arp_update_def)
  moreover have "(f AND NOT ARP_STATE_MASK OR ARP_SOLVED) AND ARP_STATE_MASK = ARP_SOLVED" for f :: u8
    by (simp add: bit.conj_disj_distrib2 and.assoc)
  then have "knows ip (bytes_at (bytes (anet a)) (ea + 8) 6) (now + ARP_TIME_KEEP) (es[i := ?e])"
    using i(2,3) unfolding knows_def by (intro exI [of _ i]) simp
  ultimately show ?thesis by blast
qed

lemma resolve_knows:
  assumes l: "lock_free a" and k: "knows ip mac until (arp_arr a)" "arp_unique (arp_arr a)" "ip \<noteq> 0" "now < until"
    and b: "deref mb (anet a) = Some b" "m_flags b AND M_BCAST = 0" "m_flags b AND M_MCAST = 0"
  shows "arp_resolve drv tnet now mb ip a = Some ((True, Some mac), a)"
proof -
  obtain k where k': "ARP_LOCK a = Some (a\<lparr>anet := (anet a)\<lparr>kst := k\<rparr>\<rparr>)"
    "\<And>a2. arp_sem a2 = arp_sem a \<Longrightarrow> kst (anet a2) = k \<Longrightarrow> ARP_UNLOCK a2 = Some (a2\<lparr>anet := (anet a2)\<lparr>kst := kst (anet a)\<rparr>\<rparr>)"
    using lock_unlock [OF l] by blast
  let ?a = "a\<lparr>anet := (anet a)\<lparr>kst := k\<rparr>\<rparr>"
  obtain i where i: "i < length (arp_arr a)" "itaddr (arp_arr a ! i) = ip" "mac_addr (arp_arr a ! i) = mac" "rt_expire (arp_arr a ! i) = until"
    "ae_flags (arp_arr a ! i) AND ARP_STATE_MASK = ARP_SOLVED" using k(1) by (auto simp: knows_def)
  then have "ip \<in> itaddr ` set (arp_arr a)" by force
  then obtain j where j: "j < length (arp_arr a)" "itaddr (arp_arr a ! j) = ip" "arp_lookup tnet now ip True ?a = Some (Some j, ?a)"
    using arp_lookup_cases [of ?a ip tnet now True] by auto
  have "j = i" using k(2,3) i(1,2) j(1,2) unfolding arp_unique_def by metis
  then show ?thesis using k'(1) k'(2) [of ?a] j(3) i b k(4) by (simp add: arp_resolve_def)
qed

text \<open>A message ends with the buffer, which goes to the driver with the answer or back to the pool.\<close>

definition arp_done :: "(addr \<Rightarrow> nstate \<Rightarrow> nstate option) \<Rightarrow> tn_net \<Rightarrow> addr \<Rightarrow> mbuf \<Rightarrow> astate \<Rightarrow> nstate option" where
  "arp_done drv tnet mb b a =
     (let ea = m_data b + sizeof_ether_header; m = bytes (anet a) in
      if htons (rd16 m (ea + 6)) = ARPOP_REQUEST \<and> rd32 m (ea + 24) = my_ip a
      then drv mb (wr_mem (arp_reply_packet (m_data b) ea (hw_addr a) (my_ip a)) (anet a))
      else freem tnet mb (anet a))"

lemma input_learns:
  assumes l: "lock_free a" and u: "arp_unique (arp_arr a)" "\<forall>e \<in> set (arp_arr a). la_hold e = 0"
    and b: "deref mb (anet a) = Some b" "28 \<le> m_tlen b" and ea: "ea = m_data b + sizeof_ether_header" "mac = bytes_at (bytes (anet a)) (ea + 8) 6"
    and ip: "ip = rd32 (bytes (anet a)) (ea + 14)" "ip \<noteq> 0" "ip \<noteq> my_ip a" "mac \<noteq> etherbroadcastaddr"
    and k: "ip \<in> itaddr ` set (arp_arr a) \<or> rd32 (bytes (anet a)) (ea + 24) = my_ip a \<and> (\<exists>e \<in> set (arp_arr a). is_free e)"
    and d: "arp_done drv tnet mb b a = Some st"
  shows "\<exists>es. arp_input drv tnet now mb a = Some (a\<lparr>arp_arr := es, anet := st\<rparr>) \<and> knows ip mac (now + ARP_TIME_KEEP) es \<and> arp_unique es"
proof -
  obtain es where es: "arp_update drv tnet now ea ip (rd32 (bytes (anet a)) (ea + 24) = my_ip a) a = Some (a\<lparr>arp_arr := es\<rparr>)"
    "knows ip mac (now + ARP_TIME_KEEP) es" using update_learns [OF l u(2) k] ea(2) by blast
  have "arp_unique es" using arp_update_unique [OF es(1) u(1)] by simp
  moreover have "arp_input drv tnet now mb a = Some (a\<lparr>arp_arr := es, anet := st\<rparr>)"
    using b es(1) ip d unfolding ea(1) by (auto simp: arp_input_def arp_done_def Let_def ea split: if_splits)
  ultimately show ?thesis using es(2) by blast
qed

end
