(* ===== verification/Stack_Sample.thy ===== *)
theory Stack_Sample
  imports Net_Sample Net_Text In_Pcb_Life Arp_Table
begin

text \<open>
  Concrete states of the control blocks and of the ARP table: a ring with an unbound control block and one that is
  bound to port 80, and an interface with an empty ARP table that receives a request.
\<close>

definition sample_pcbs :: "addr \<rightharpoonup> inpcb" where
  "sample_pcbs = [0x100 \<mapsto> zero_pcb\<lparr>inp_next := 0x120, inp_prev := 0x140\<rparr>,
     0x120 \<mapsto> zero_pcb\<lparr>inp_next := 0x140, inp_prev := 0x100, inp_head := 0x100, inp_socket := 0x200\<rparr>,
     0x140 \<mapsto> zero_pcb\<lparr>inp_next := 0x100, inp_prev := 0x120, inp_head := 0x100, inp_socket := 0x220,
       inp_laddr := 0x0100A8C0, inp_lport := 0x5000\<rparr>]"

definition sample_pstate :: pstate where
  "sample_pstate = \<lparr>nst = \<lparr>kst = zero_memory, mbs = Map.empty, bytes = (\<lambda>_. 0)\<rparr>, pcbs = sample_pcbs,
     socks = [0x200 \<mapsto> \<lparr>so_options = 0, so_state = 0, so_pcb = 0x120, so_has_free = False\<rparr>,
       0x220 \<mapsto> \<lparr>so_options = 0, so_state = 0, so_pcb = 0x140, so_has_free = False\<rparr>],
     netifs = Map.empty, netif_default = 0, netif_list = 0\<rparr>"

lemma sample_ring: "pcb_ring sample_pstate 0x100 [0x120, 0x140]"
  by (simp add: pcb_ring_def ring_def sample_pstate_def sample_pcbs_def zero_pcb_def)

lemma sample_pcb_sys: "pcb_sys sample_pstate 0x100 [0x120, 0x140]"
  using sample_ring by (simp add: pcb_sys_def sample_pstate_def sample_pcbs_def zero_pcb_def get_so_def)

section \<open>An ARP request\<close>

definition sample_request :: "u8 list" where
  "sample_request = [0xFF, 0xFF, 0xFF, 0xFF, 0xFF, 0xFF, 2, 0, 0, 0, 0, 7, 8, 6, 0, 1, 8, 0, 6, 4, 0, 1, 2, 0, 0, 0, 0, 7, 0xC0, 0xA8, 0, 2,
     0, 0, 0, 0, 0, 0, 0xC0, 0xA8, 0, 1]"

definition sample_arp :: "kstate \<Rightarrow> astate" where
  "sample_arp s = \<lparr>anet = \<lparr>kst = s, mbs = [0x200 \<mapsto> (sample_mbuf 0x1000 42 0)\<lparr>m_tlen := 42\<rparr>], bytes = (\<lambda>a. sample_request ! unat (a - 0x1000))\<rparr>,
     arp_arr = replicate 2 free_entry, arp_sem = Some 0, dup_own_ip_addr = False, my_ip = 0x0100A8C0, hw_addr = [2, 0, 0, 0, 0, 1]\<rparr>"

lemma sample_arp_bytes:
  "rd32 (bytes (anet (sample_arp s))) 0x101C = 0x0200A8C0" "rd32 (bytes (anet (sample_arp s))) 0x1026 = 0x0100A8C0"
  "htons (rd16 (bytes (anet (sample_arp s))) 0x1014) = 1" "bytes_at (bytes (anet (sample_arp s))) 0x1016 6 = [2, 0, 0, 0, 0, 7]"
  by (simp_all add: sample_arp_def sample_request_def rd32_def rd16_def htons_def bytes_at_def upt_rec)

lemma sample_sender: "[2, 0, 0, 0, 0, 7] \<noteq> etherbroadcastaddr"
  by (auto simp: etherbroadcastaddr_def list_eq_iff_nth_eq intro!: exI [of _ 0])

lemma sample_arp_lock: "\<exists>s. lock_free (sample_arp s)"
proof -
  obtain s where "system_inv s" "tn_int_counter s = 0" "\<not> irq_disabled s" "sems s 0 = \<lparr>sem_count = 1, sem_max_count = 2, id_sem = TN_ID_SEMAPHORE\<rparr>"
    using sample_objects by blast
  then show ?thesis by (intro exI [of _ s]) (simp add: lock_free_def sample_arp_def task_ok_def bad_non_int_context_def)
qed

end
