(* ===== verification/Spec2Isabelle.thy ===== *)
theory Spec2Isabelle
  imports Stack_Sample
begin

text \<open>
  TN NET is a TCP/IP stack for small ARM7 processors (\<open>src/tn_net\<close>) on top of TNKernel, a preemptive real-time kernel
  with tasks, semaphores, event flags, data queues and pools of memory blocks (\<open>src/TNKernel\<close>). This development models
  the whole kernel in the configuration that is shipped (mutexes switched off), and of the stack its memory, buffers,
  checksum, utilities, formatted output, protocol control blocks and address resolution. The theories follow the files of
  the program; this one holds the properties of the whole, each with an instance on a concrete state.

  \<^bold>\<open>The parts of the kernel and how they interact.\<close> Every object of the kernel (a semaphore, an event, a data queue, a
  memory pool) has a control block and one or two queues of waiting tasks. A service checks its parameters and the context
  of the call, disables interrupts, changes the control block, moves tasks between the queues through a few scheduler
  routines, enables interrupts and, when another task has to run, switches to it. The timer interrupt wakes the timer task,
  which counts down the timeouts of all waiting tasks.

  \<^item> \<open>Prelude\<close>: machine types and shared lemmas.
  \<^item> \<open>Cdll\<close>: the circular doubly linked lists of \<open>tn_utils.c\<close>, as a memory of \<open>next\<close> and \<open>prev\<close> pointers. The lemmas
    show that each operation acts on a list and leaves the other queues alone.
  \<^item> \<open>Dque_Fifo\<close>: the ring buffer of \<open>tn_utils.c\<close> with the pointer arithmetic of the code; the locale \<open>bounded_fifo\<close> states
    the contract of a bounded queue, and the interpretation shows that the ring buffer implements it.
  \<^item> \<open>Kernel_State\<close>: the structures and global variables of \<open>tn.h\<close> and \<open>tn.c\<close>, one record \<open>kstate\<close>, and the processor port
    \<open>tn_port.c\<close>, \<open>tn_port_asm.s\<close>: context switches, entry and exit of interrupts, the initial stack, the lowest set bit.
  \<^item> \<open>Sched\<close>, \<open>Sched_Inv\<close>, \<open>Sched_Ops\<close>: the scheduler routines of \<open>tn_tasks.c\<close>, the invariant \<open>kinv\<close> of the queues, the task
    states, the bitmap of ready priorities and the chosen task, and what each routine does to it.
  \<^item> \<open>System_Inv\<close>: the invariant with the reasons tasks wait for; code that all objects repeat.
  \<^item> \<open>Service\<close>: the contract of a service as locales (\<open>kernel_service\<close>, \<open>init_service\<close>, \<open>isr_service\<close>). It is interpreted on
    every service in \<open>Sem\<close> (\<open>tn_sem.c\<close>), \<open>Tasks\<close> (\<open>tn_tasks.c\<close>), \<open>Event\<close> (\<open>tn_event.c\<close>), \<open>Dqueue\<close> (\<open>tn_dqueue.c\<close>) and
    \<open>Fmem\<close> (\<open>tn_mem.c\<close>): it ends without a fault, keeps the invariant and leaves the best task chosen.
  \<^item> \<open>Ticks\<close>: \<open>tn.c\<close>, that is start, timer task, idle task, the tick and the time slices.
  \<^item> \<open>System\<close>: the step relation \<open>kstep\<close> of the running system. Tasks call services, the processor switches, interrupts arrive,
    nest and call the services meant for them. Its reachable states satisfy the invariant. \<open>Sample\<close>: a concrete system.

  \<^bold>\<open>The parts of the stack.\<close> Packets are chains of descriptors (\<open>struct mbuf\<close>) that share counted data buffers. Descriptors
  and data come from five pools of the kernel. A received packet finds its socket through the ring of control blocks of its
  protocol; a packet that is sent finds the hardware address of the next host in the ARP table of the interface.

  \<^item> \<open>Net_Utils\<close>: \<open>bcopy\<close>, \<open>bzero\<close>, \<open>s_memset\<close>, \<open>s_memcmp\<close> of \<open>tn_net_utils.c\<close> on a memory of bytes.
  \<^item> \<open>Mbuf_State\<close>, \<open>In_Cksum\<close>: descriptors, chains and their contents; \<open>in4_cksum.c\<close>, for all lengths and alignments, is
    shown to compute the one's complement sum.
  \<^item> \<open>Net_Mem\<close>, \<open>Net_Pools\<close>: \<open>tn_net_mem.c\<close>. The locale \<open>block_pools\<close> states what a pool promises; it is interpreted on the
    services for tasks and on those for interrupt handlers.
  \<^item> \<open>Mbuf\<close>: all functions of \<open>tn_mbuf.c\<close>. \<open>Mbuf_Trim\<close>: \<open>m_adj\<close>. \<open>Mbuf_Alloc\<close>: allocation and release, in the locale
    \<open>net_buffers\<close>, which extends \<open>block_pools\<close>, again for tasks and for interrupts. \<open>Mbuf_Copy\<close>: \<open>m_copym\<close> and the reference
    counts. \<open>Mbuf_Fill\<close>: \<open>buf_to_mbuf\<close>. \<open>Net_Sample\<close>: concrete buffers and pools.
  \<^item> \<open>Sprintf\<close>: \<open>tn_sprintf.c\<close>. The output is a prefix of a text that does not depend on the size of the buffer.
  \<^item> \<open>Net_Text\<close>: addresses as text, random numbers, waits, of \<open>tn_net_utils.c\<close>.
  \<^item> \<open>In_Pcb\<close>: \<open>tn_in_pcb.c\<close>. \<open>In_Pcb_Ring\<close>: the ring as a list and the search; \<open>In_Pcb_Bind\<close>: \<open>in_pcbbind\<close> ends and gives out
    unused addresses; \<open>In_Pcb_Life\<close>: control blocks enter and leave the ring with their memory.
  \<^item> \<open>Arp\<close>: \<open>tn_arp.c\<close>. \<open>Arp_Table\<close>: lookup and replacement, every address has one entry, answers are used.
    \<open>Stack_Sample\<close>: a concrete ring and table.

  \<^bold>\<open>How the code is modelled.\<close> Integers are words of their width, or \<open>int\<close> where the code uses small signed numbers. A
  service of the kernel returns an option: \<open>None\<close> is a fault (a NULL or foreign pointer that is followed) or a loop that
  does not end. The result says whether the service returned a code or the caller left the processor; the part of a service
  after the wait is a definition of its own (the names end in \<open>_resumed\<close>). Loops over queues, free lists and rings are
  \<open>partial_function (option)\<close>, the others have termination proofs. No definition takes fuel: that the loops end is proved
  as the existence of a result.

  A call of a service is one step between two interrupts, because the services change the kernel with interrupts disabled.
  The creation services and the last test of a deletion run with interrupts enabled in the code; they are taken as one step
  too. \<open>kstep\<close> lets the timer task make the calls of \<open>tn_app_init\<close> at any time, a superset of what the code does. The
  obligations of the application are premises of the steps: the two system tasks are not created again, suspended,
  terminated or given another priority; a task does not get priority 0 and, when it starts at once, no better priority than
  its creator; the memory of a pool holds no free blocks of another and does not wrap around; a queue gets an array of its
  size; a block that is released is not free; a task that exits and is deleted has no pending activation.

  The code of the stack is modelled as it runs until it would leave the processor: \<open>None\<close> is a fault, a panic, an endless
  loop or a wait that has to block. Descriptors, control blocks, sockets and interfaces live in typed stores beside the
  bytes of the data buffers and the links of free blocks, so writes through wrong casts are out of reach. The time of day is
  constant during a call. The transmit function of the driver and the \<open>sofree\<close> function of a socket are parameters.

  \<^bold>\<open>What the properties show.\<close> C1 to C5: the invariant, scheduling by priority, absence of faults, start of the system,
  justified waits. C6 to C12: semaphores, event flags, data queues. C13, C14, C21: time. C16 to C20: bitmap, queues and
  memory pools. C22, C24, C27 to C29: errors, stack frame, deletion, suspension. C30 to C39: memory utilities, checksum,
  pools and buffers of the stack. C15 and C23: control blocks. C26: address resolution. C25 and C40: text. Four more
  theorems show the effect of flaws of the kernel: very long timeouts, time slices, repeated creation, queue capacity.

  \<^bold>\<open>What the code does not do as it should.\<close> A wake-up of a task that is awake is counted for the caller
  (\<open>wakeup_counts_for_caller\<close>); a rejected creation disables the semaphore (\<open>recreation_disables_semaphore\<close>); an error of
  \<open>tn_sys_tslice_ticks\<close> leaves interrupts disabled (\<open>tslice_error_disables_interrupts\<close>); timeouts of \<open>2^31\<close> ticks and more
  never end (\<open>long_timeout_never_expires\<close>); \<open>m_read\<close> of a chain of several buffers does not return
  (\<open>read_of_long_chain_fails\<close>); two sockets may connect with the same addresses and ports (\<open>connect_duplicates\<close>); the carry
  of \<open>tn_rand\<close> is not that of the product (\<open>tn_rand_carry_short\<close>).

  \<^bold>\<open>Not modelled.\<close> Mutexes (\<open>tn_mutex.c\<close>): \<open>USE_MUTEXES\<close> is undefined, and with it the half of the scheduler they rest on. The
  pools for debugging (\<open>tn_mem_dbg.c\<close>, \<open>tn_net_mem_dbg.c\<close>): a variant of the pools with traces. IP, ICMP, UDP, sockets, TCP
  and DHCP: their operations block between steps and are interleaved with interrupts and other tasks of the stack, and they
  rewrite headers in place; they need a concurrent model of the stack on top of the sequential one given here. The Ethernet
  driver and board support: registers and DMA of one processor. Demonstration programs and tools.
\<close>

section \<open>The system\<close>



text \<open>C2: whenever the processor executes the code of a task that is not on its way into a context
  switch, that task is runnable and no runnable task has a better (smaller) priority.\<close>

theorem highest_priority_runs:
  assumes "reachable c" "at_task t c" "\<not> pend c t" "task_state (tcbs (ks c) u) = TSK_STATE_RUNNABLE"
  shows "task_state (tcbs (ks c) t) = TSK_STATE_RUNNABLE \<and> priority (tcbs (ks c) t) \<le> priority (tcbs (ks c) u)"
proof -
  note d = cinvD [OF reachable_inv [OF assms(1)] assms(2,3)]
  from d(1) obtain L where i: "sinv (ks c) L" by (auto simp: system_inv_def)
  have n: "tn_next_task_to_run (ks c) = Some t" using d(3,4) by (simp add: scheduled_def)
  from sinv_best [OF i n assms(4)] d(2,4) show ?thesis by (simp add: running_def)
qed

theorem highest_priority_runs_witness:
  "\<exists>c t. reachable c \<and> at_task t c \<and> \<not> pend c t \<and> task_state (tcbs (ks c) tn_idle_task) = TSK_STATE_RUNNABLE \<and>
     priority (tcbs (ks c) t) \<le> priority (tcbs (ks c) tn_idle_task)"
proof -
  obtain c t where c: "reachable c" "at_task t c" "\<not> pend c t" using sample_user by blast
  then have "task_state (tcbs (ks c) tn_idle_task) = TSK_STATE_RUNNABLE"
    using reachable_inv [OF c(1)] by (auto simp: cinv_def system_inv_def sinv_def inv_objs_def system_tasks_def)
  with highest_priority_runs [OF c this] c show ?thesis by blast
qed



text \<open>C4: from zeroed static memory \<open>tn_start_system\<close> ends with the kernel running: the invariant
  holds, the timer task runs with interrupts enabled, and nothing else has been touched.\<close>

theorem start_system_starts:
  assumes "boot_memory s" "link_ok A"
  shows "\<exists>s'. tn_start_system A s = Some s' \<and> system_inv s' \<and> running s' \<and> scheduled s' \<and>
    tn_curr_run_task s' = Some tn_timer_task \<and> tn_system_state s' = TN_ST_STATE_RUNNING \<and> \<not> irq_disabled s' \<and>
    tn_int_counter s' = 0 \<and> (\<forall>t. t \<noteq> tn_timer_task \<longrightarrow> t \<noteq> tn_idle_task \<longrightarrow> tcbs s' t = tcbs s t)"
  using start_system_ok [OF assms(1)] assms(2) by (auto simp: link_ok_def)

theorem start_system_starts_witness:
  "\<exists>s'. tn_start_system sample_link zero_memory = Some s' \<and> system_inv s' \<and> tn_curr_run_task s' = Some tn_timer_task"
  using start_system_starts [OF zero_memory_boots] by blast



section \<open>Semaphores\<close>

text \<open>C6: the count of a semaphore stays between 0 and its maximum in every reachable state.\<close>

theorem semaphore_bounds:
  assumes "reachable c" "id_sem (sems (ks c) i) = TN_ID_SEMAPHORE" "sem_max_count (sems (ks c) i) \<noteq> 0"
  shows "0 \<le> sem_count (sems (ks c) i) \<and> sem_count (sems (ks c) i) \<le> sem_max_count (sems (ks c) i)"
proof -
  obtain L where "sinv (ks c) L" using reachable_inv [OF assms(1)] by (auto simp: cinv_def system_inv_def)
  from sem_of_inv [OF this, of i] assms(2,3) show ?thesis by (auto simp: sem_wf_def)
qed

theorem semaphore_bounds_witness:
  "\<exists>c. reachable c \<and> id_sem (sems (ks c) 1) = TN_ID_SEMAPHORE \<and> 0 \<le> sem_count (sems (ks c) 1) \<and>
     sem_count (sems (ks c) 1) \<le> sem_max_count (sems (ks c) 1)"
proof -
  obtain c where c: "reachable c" "sems (ks c) 1 = \<lparr>sem_count = 0, sem_max_count = 1, id_sem = TN_ID_SEMAPHORE\<rparr>"
    using sample_blocked by blast
  with semaphore_bounds [OF c(1), of 1] show ?thesis by auto
qed

text \<open>C7: a signal hands the unit to the task that has waited longest and leaves the count alone;
  when nobody waits it raises the count, and reports an overflow at the maximum.\<close>

theorem signal_wakes_first:
  assumes "sinv s L" "id_sem (sems s i) = TN_ID_SEMAPHORE" "sem_max_count (sems s i) \<noteq> 0" "\<not> bad_non_int_context s"
    "L (SemWaitQ i) = Some q"
  shows "case q of
      [] \<Rightarrow> tn_sem_signal (Some i) s =
        (if sem_count (sems s i) < sem_max_count (sems s i)
         then Some (RC TERR_NO_ERR, upd_sem i (\<lambda>x. x\<lparr>sem_count := sem_count x + 1\<rparr>) s)
         else Some (RC TERR_OVERFLOW, s))
    | n # ns \<Rightarrow> \<exists>t r s' L'. n = TaskQ t \<and> tn_sem_signal (Some i) s = Some (r, s') \<and>
        tcbs s' = (tcbs s)(t := wake_tcb (tcbs s t)) \<and> sems s' = sems s \<and> sinv s' L' \<and> L' (SemWaitQ i) = Some ns"
proof (cases q)
  case Nil
  then show ?thesis using sem_signal_eq(2) [OF assms(1,3,2,4)] assms(5) by simp
next
  case (Cons n ns)
  then obtain t where "n = TaskQ t" using sinv_waiter_cause [OF assms(1), of "SemWaitQ i" n ns] assms(5) by auto
  with Cons sem_signal_eq(1) [OF assms(1,3,2,4), of t ns] assms(5) show ?thesis by auto
qed

theorem signal_wakes_first_witness:
  "\<exists>s. system_inv s \<and> sem_count (sems s 0) = 1 \<and>
     tn_sem_signal (Some 0) s = Some (RC TERR_NO_ERR, upd_sem 0 (\<lambda>x. x\<lparr>sem_count := sem_count x + 1\<rparr>) s)"
proof -
  obtain s where s: "system_inv s" "tn_int_counter s = 0" "\<not> irq_disabled s"
    "sems s 0 = \<lparr>sem_count = 1, sem_max_count = 2, id_sem = TN_ID_SEMAPHORE\<rparr>" using sample_objects by blast
  then obtain L where L: "sinv s L" by (auto simp: system_inv_def)
  obtain q where q: "L (SemWaitQ 0) = Some q" using sinvD(3) [OF L, of "SemWaitQ 0"] s(4) by (auto simp: sem_live)
  have "q = []"
  proof (cases q)
    case (Cons n ns)
    with sinv_waiter_cause [OF L, of "SemWaitQ 0" n ns] q s(4) show ?thesis by (auto simp: wait_cause_def)
  qed
  with signal_wakes_first [OF L _ _ _ q] s show ?thesis by (auto simp: bad_non_int_context_def)
qed

text \<open>C8: a task that asks for a unit when there is none is taken off the processor and becomes
  the last of the waiting tasks, with the time it is ready to wait.\<close>

theorem acquire_blocks_last:
  assumes "sinv s L" "user_running s" "tn_curr_run_task s = Some t" "timeout \<noteq> 0" "id_sem (sems s i) = TN_ID_SEMAPHORE"
    "sem_max_count (sems s i) \<noteq> 0" "\<not> bad_non_int_context s" "sem_count (sems s i) = 0" "L (SemWaitQ i) = Some xs"
  shows "\<exists>s' L'. tn_sem_acquire (Some i) timeout s = Some (SWITCH_WAIT_RC, s') \<and> sinv s' L' \<and>
    tcbs s' = (tcbs s)(t := (tcbs s t)\<lparr>task_state := TSK_STATE_WAIT, task_wait_reason := TSK_WAIT_REASON_SEM,
      tick_count := timeout, pwait_queue := Some (SemWaitQ i)\<rparr>) \<and> L' (SemWaitQ i) = Some (xs @ [TaskQ t])"
proof -
  have "task_state (tcbs s t) = TSK_STATE_RUNNABLE" "t \<noteq> tn_idle_task" "t \<noteq> tn_timer_task"
    using assms(2,3) by (auto simp: user_running_def)
  from sem_acquire_blocks [OF assms(1,3) this assms(4,6,5,7,8,9)] show ?thesis unfolding wait_tcb_def by blast
qed

theorem acquire_blocks_last_witness:
  "\<exists>s s' t. tn_curr_run_task s = Some t \<and> tn_sem_acquire (Some 1) 10 s = Some (SWITCH_WAIT_RC, s') \<and>
     task_state (tcbs s' t) = TSK_STATE_WAIT \<and> tick_count (tcbs s' t) = 10"
proof -
  obtain s where s: "system_inv s" "user_running s" "tn_int_counter s = 0" "\<not> irq_disabled s"
    "sems s 1 = \<lparr>sem_count = 0, sem_max_count = 1, id_sem = TN_ID_SEMAPHORE\<rparr>" using sample_objects by blast
  then obtain L t where L: "sinv s L" "tn_curr_run_task s = Some t" by (auto simp: system_inv_def user_running_def)
  obtain q where q: "L (SemWaitQ 1) = Some q" using sinvD(3) [OF L(1), of "SemWaitQ 1"] s(5) by (auto simp: sem_live)
  have "\<not> bad_non_int_context s" using s by (simp add: bad_non_int_context_def)
  from acquire_blocks_last [OF L(1) s(2) L(2) _ _ _ this _ q, of 10] s(5) obtain s' where
    "tn_sem_acquire (Some 1) 10 s = Some (SWITCH_WAIT_RC, s')" "task_state (tcbs s' t) = TSK_STATE_WAIT"
    "tick_count (tcbs s' t) = 10" by auto
  with L(2) show ?thesis by blast
qed

section \<open>Event flags\<close>

text \<open>C9: setting flags releases exactly the tasks whose condition the new pattern satisfies, hands
  them the pattern, and clears the pattern of a \<open>CLR\<close> event when one of them became runnable.\<close>

theorem set_releases_satisfied:
  assumes "system_inv s" "id_event (events s i) = TN_ID_EVENT" "pattern \<noteq> 0" "\<not> bad_non_int_context s"
    "p = ev_pattern (events s i) OR pattern"
    "W = {t. waiting (tcbs s t) \<and> pwait_queue (tcbs s t) = Some (EventWaitQ i) \<and>
             event_cond p (ewait_mode (tcbs s t)) (ewait_pattern (tcbs s t))}"
    "runs = (\<exists>t \<in> W. task_state (tcbs s t) AND TSK_STATE_SUSPEND = 0)"
  shows "\<exists>s'. tn_event_set (Some i) pattern s = Some (if runs then SWITCH_RC TERR_NO_ERR else RC TERR_NO_ERR, s') \<and>
    (\<forall>t. tcbs s' t = (if t \<in> W then wake_tcb ((tcbs s t)\<lparr>ewait_pattern := p\<rparr>) else tcbs s t)) \<and>
    ev_pattern (events s' i) = (if runs \<and> ev_attr (events s i) AND TN_EVENT_ATTR_CLR \<noteq> 0 then 0 else p)"
proof -
  define s1 where "s1 = s\<lparr>irq_disabled := True\<rparr>"
  from assms(1) obtain L where i: "sinv s1 L" by (auto simp: system_inv_def s1_def)
  have eq: "events s1 = events s" "tcbs s1 = tcbs s" by (simp_all add: s1_def)
  from event_set_flags_ok [OF i _ assms(5) [folded eq(1)]] assms(2) obtain wc s' where r:
    "event_set_flags i pattern s1 = Some (wc, s')"
    "\<forall>t. tcbs s' t = (if t \<in> W then wake_tcb ((tcbs s t)\<lparr>ewait_pattern := p\<rparr>) else tcbs s t)"
    "wc = runs" "ev_pattern (events s' i) = (if wc \<and> ev_attr (events s i) AND TN_EVENT_ATTR_CLR \<noteq> 0 then 0 else p)"
    unfolding eq assms(6,7) by auto
  show ?thesis using assms(2-4) r(1) unfolding tn_event_set_def
    by (intro exI [of _ "tn_enable_interrupt (irq_disabled s) s'"])
       (use r in \<open>simp add: tn_disable_interrupt_def s1_def [symmetric] wake_ret_def tn_enable_interrupt_def\<close>)
qed

theorem set_releases_satisfied_witness:
  "\<exists>s r s'. system_inv s \<and> ev_pattern (events s 0) = 1 \<and> tn_event_set (Some 0) 6 s = Some (r, s') \<and>
     (\<forall>t. \<not> waiting (tcbs s t) \<longrightarrow> tcbs s' t = tcbs s t) \<and> ev_pattern (events s' 0) = 7"
proof -
  obtain s where s: "system_inv s" "tn_int_counter s = 0" "\<not> irq_disabled s"
    "events s 0 = \<lparr>ev_attr = TN_EVENT_ATTR_MULTI, ev_pattern = 1, id_event = TN_ID_EVENT\<rparr>" using sample_objects by blast
  have "(7 :: u32) = 1 OR 6" "(2 :: u32) AND 4 = 0" by code_simp+
  with set_releases_satisfied [OF s(1) _ _ _ refl refl refl, of 0 6] s show ?thesis
    by (fastforce simp: bad_non_int_context_def)
qed

section \<open>Data queues\<close>

text \<open>C10: receiving from a data queue takes the oldest item of the abstract queue, which is the
  buffer followed by the items of the senders that wait for room; the sender that has waited
  longest takes the place that became free. Only when there is no item at all is there
  nothing to receive.\<close>

theorem receive_takes_oldest:
  assumes "sinv s L" "id_dque (dques s i) = TN_ID_DATAQUEUE"
  shows "case queue_items s L i of
      [] \<Rightarrow> queue_take i s = Some (Inr s)
    | v # vs \<Rightarrow> \<exists>woken s' L'. queue_take i s = Some (Inl (Some v, woken, s')) \<and> sinv s' L' \<and> queue_items s' L' i = vs \<and>
        only_woken (tcbs s) (tcbs s')"
  using queue_take_ok [OF assms] by (auto split: list.split)

theorem receive_takes_oldest_witness:
  "\<exists>s. system_inv s \<and> id_dque (dques s 0) = TN_ID_DATAQUEUE \<and>
     (queue_take 0 s = Some (Inr s) \<or> (\<exists>v woken s'. queue_take 0 s = Some (Inl (Some v, woken, s')) \<and> system_inv s'))"
proof -
  obtain s where s: "system_inv s" "dques s 0 = \<lparr>data_fifo = Some [0, 0, 0, 0], num_entries = 4, tail_cnt = 0,
      header_cnt = 0, id_dque = TN_ID_DATAQUEUE\<rparr>" using sample_objects by blast
  then obtain L where "sinv s L" by (auto simp: system_inv_def)
  from receive_takes_oldest [OF this, of 0] s show ?thesis
    by (cases "queue_items s L 0") (auto simp: system_inv_def)
qed

text \<open>C11: sending gives the item to the receiver that has waited longest, else it appends the item to
  the buffer, and fails only when the buffer is full.\<close>

theorem send_gives_or_appends:
  assumes "sinv s L" "id_dque (dques s i) = TN_ID_DATAQUEUE" "L (DqRecvQ i) = Some rs"
  shows "case rs of
      n # ns \<Rightarrow> \<exists>t woken s' L'. n = TaskQ t \<and> queue_put i x s = Some (Inl (woken, s')) \<and> sinv s' L' \<and>
        tcbs s' = (tcbs s)(t := wake_tcb ((tcbs s t)\<lparr>data_elem := x\<rparr>)) \<and> dques s' = dques s
    | [] \<Rightarrow> if fifo_full (dques s i) then \<exists>rc. queue_put i x s = Some (Inr (rc, s)) \<and> rc \<noteq> TERR_NO_ERR
        else \<exists>s'. queue_put i x s = Some (Inr (TERR_NO_ERR, s')) \<and> sinv s' L \<and> tcbs s' = tcbs s \<and>
          fifo_contents (dques s' i) = fifo_contents (dques s i) @ [x]"
  using queue_put_ok [OF assms(1,2), of x] assms(3)
  by (auto simp: sched_only_iff same_objects_def split: list.split)

theorem send_gives_or_appends_witness:
  "\<exists>s r. system_inv s \<and> id_dque (dques s 0) = TN_ID_DATAQUEUE \<and> queue_put 0 5 s = Some r"
proof -
  obtain s where s: "system_inv s" "dques s 0 = \<lparr>data_fifo = Some [0, 0, 0, 0], num_entries = 4, tail_cnt = 0,
      header_cnt = 0, id_dque = TN_ID_DATAQUEUE\<rparr>" using sample_objects by blast
  then obtain L where L: "sinv s L" by (auto simp: system_inv_def)
  then obtain rs where rs: "L (DqRecvQ 0) = Some rs" using sinvD(3) [OF L, of "DqRecvQ 0"] s(2) by (auto simp: dque_live)
  from send_gives_or_appends [OF L _ rs, of 5] s show ?thesis by (cases rs) (auto split: if_splits)
qed

text \<open>C12: a data queue's storage is a bounded first-in first-out buffer: while there is room,
  writes succeed, and reading everything back gives the old contents followed by what was
  written, in order, and leaves the buffer empty.\<close>

theorem fifo_roundtrip:
  assumes "fifo_wf d" "length (fifo_contents d) + length xs \<le> fifo_capacity d"
  shows "\<exists>d1 d2. dq.put_all xs d = Some d1 \<and>
    dq.get_n (length (fifo_contents d) + length xs) d1 = Some (fifo_contents d @ xs, d2) \<and>
    fifo_contents d2 = []"
  using assms by (rule dq.fifo_order)

theorem fifo_roundtrip_witness:
  "\<exists>d1 d2. dq.put_all [7, 8] \<lparr>data_fifo = Some [0, 0, 0, 5], num_entries = 4, tail_cnt = 3,
       header_cnt = 0, id_dque = TN_ID_DATAQUEUE\<rparr> = Some d1 \<and>
     dq.get_n 3 d1 = Some ([5, 7, 8], d2) \<and> fifo_contents d2 = []"
proof -
  let ?d = "\<lparr>data_fifo = Some [0, 0, 0, 5], num_entries = 4, tail_cnt = 3, header_cnt = 0,
       id_dque = TN_ID_DATAQUEUE\<rparr>"
  have d: "fifo_wf ?d" "fifo_contents ?d = [5]" "fifo_capacity ?d = 3"
    by (simp_all add: fifo_wf_def fifo_contents_def fifo_count_def fifo_capacity_def)
  then show ?thesis using fifo_roundtrip [of ?d "[7, 8]"]
    by (simp add: numeral_3_eq_3 del: dq.put_all.simps dq.get_n.simps)
qed

section \<open>Time\<close>

text \<open>C13: a round of the timer task counts every running timeout down by one tick, ends exactly the
  waits whose time is up, with \<open>TERR_TIMEOUT\<close>, leaves all other tasks alone and goes to sleep.\<close>

theorem timer_round_counts:
  assumes "system_inv s" "tn_curr_run_task s = Some tn_timer_task" "task_state (tcbs s tn_timer_task) = TSK_STATE_RUNNABLE"
    "t \<noteq> tn_timer_task"
  shows "\<exists>s'. tn_timer_task_func s = Some (SWITCH_LOOP, s') \<and> system_inv s' \<and>
    task_state (tcbs s' tn_timer_task) = TSK_STATE_WAIT \<and>
    tcbs s' t =
      (if \<not> waiting (tcbs s t) \<or> tick_count (tcbs s t) = TN_WAIT_INFINITE \<or> sint (tick_count (tcbs s t)) \<le> 0 then tcbs s t
       else if tick_count (tcbs s t) = 1 then (wake_tcb (tcbs s t))\<lparr>task_wait_rc := TERR_TIMEOUT\<rparr>
       else (tcbs s t)\<lparr>tick_count := tick_count (tcbs s t) - 1\<rparr>)"
proof -
  from timer_task_func_ok [OF assms(1-3)] obtain s' where s': "tn_timer_task_func s = Some (SWITCH_LOOP, s')"
    "call_ok s (Some (SWITCH_LOOP, s'))" "\<forall>t. tcbs s' t = (if t = tn_timer_task
        then wait_tcb None TSK_WAIT_REASON_SLEEP TN_WAIT_INFINITE (tcbs s t) else tick_tcb (tcbs s t))" by fastforce
  then show ?thesis using assms(4) by (auto simp: call_ok_def tick_tcb_def wait_tcb_def)
qed

theorem timer_round_counts_witness:
  "\<exists>s s'. system_inv s \<and> tn_timer_task_func s = Some (SWITCH_LOOP, s') \<and> system_inv s' \<and>
     task_state (tcbs s' tn_timer_task) = TSK_STATE_WAIT"
proof -
  obtain s where s: "system_inv s" "running s" "tn_curr_run_task s = Some tn_timer_task" using sample_started by blast
  then have "task_state (tcbs s tn_timer_task) = TSK_STATE_RUNNABLE" by (simp add: running_def)
  from timer_round_counts [OF s(1,3) this, of tn_idle_task] s(1) show ?thesis by auto
qed



text \<open>A timeout of \<open>2^31\<close> or more is never counted down, although it is not \<open>TN_WAIT_INFINITE\<close>: the
  counter is compared as a signed number.\<close>

theorem long_timeout_never_expires:
  assumes "2 ^ 31 \<le> unat (tick_count (tcbs s t))"
  shows "(count_down t ^^ n) s = s"
  using large_timeout [OF assms] by (induction n) (simp_all add: count_down_def)

theorem long_timeout_never_expires_witness:
  "(count_down 2 ^^ 5) (zero_memory\<lparr>tcbs := (\<lambda>_. zero_tcb\<lparr>tick_count := 0x80000000\<rparr>)\<rparr>) =
     zero_memory\<lparr>tcbs := (\<lambda>_. zero_tcb\<lparr>tick_count := 0x80000000\<rparr>)\<rparr>"
  by (rule long_timeout_never_expires) simp

section \<open>Queues and the ready bitmap\<close>

text \<open>C16: the routine \<open>ffs_asm\<close>, with which the scheduler finds the best priority of the ready
  bitmap, returns one more than the index of the lowest set bit.\<close>

theorem ready_bitmap_lowest:
  assumes "bit w k" "\<forall>j < k. \<not> bit w j"
  shows "ffs_asm w = Suc k"
  using assms ffs_asm_lowest by blast

theorem ready_bitmap_lowest_witness: "ffs_asm 0x80000028 = 4"
proof -
  have "bit (0x80000028 :: u32) 3" "\<forall>j < 3. \<not> bit (0x80000028 :: u32) j" by code_simp+
  from ready_bitmap_lowest [OF this] show ?thesis by simp
qed

text \<open>C17: the queue operations do to their queue what the list operations do to a list, and leave
  every other queue of the memory alone.\<close>

theorem queues_are_lists:
  assumes "rings m L" "L q = Some xs"
  shows "rings (queue_reset q m) (L(q \<mapsto> [])) \<and>
    (is_queue_empty m q \<longleftrightarrow> xs = []) \<and>
    (\<forall>e. free L e \<longrightarrow> rings (queue_add_tail q e m) (L(q \<mapsto> xs @ [e])) \<and> rings (queue_add_head q e m) (L(q \<mapsto> e # xs))) \<and>
    (\<forall>e \<in> set xs. rings (queue_remove_entry e m) (L(q \<mapsto> remove1 e xs))) \<and>
    (\<forall>y ys. xs = y # ys \<longrightarrow> (\<exists>m'. queue_remove_head (Some q) m = (Some y, m') \<and> rings m' (L(q \<mapsto> ys)))) \<and>
    (\<forall>y ys. xs = ys @ [y] \<longrightarrow> (\<exists>m'. queue_remove_tail q m = (Some y, m') \<and> rings m' (L(q \<mapsto> ys)))) \<and>
    (xs = [] \<longrightarrow> queue_remove_head (Some q) m = (None, m) \<and> queue_remove_tail q m = (None, m))"
proof (intro conjI)
  have d: "distinct xs" using rings_distinct [OF assms] by simp
  show "rings (queue_reset q m) (L(q \<mapsto> []))" using rings_reset [OF assms(1) rings_head_not_linked [OF assms]] .
  show "is_queue_empty m q \<longleftrightarrow> xs = []" using rings_is_empty [OF assms] .
  show "\<forall>e. free L e \<longrightarrow> rings (queue_add_tail q e m) (L(q \<mapsto> xs @ [e])) \<and> rings (queue_add_head q e m) (L(q \<mapsto> e # xs))"
    using rings_add_tail [OF assms] rings_add_head [OF assms] by blast
  show "\<forall>e \<in> set xs. rings (queue_remove_entry e m) (L(q \<mapsto> remove1 e xs))" using rings_remove_entry [OF assms] by blast
  show "\<forall>y ys. xs = y # ys \<longrightarrow> (\<exists>m'. queue_remove_head (Some q) m = (Some y, m') \<and> rings m' (L(q \<mapsto> ys)))"
    using rings_remove_head [OF assms(1)] rings_remove_entry [OF assms] assms(2) by fastforce
  show "\<forall>y ys. xs = ys @ [y] \<longrightarrow> (\<exists>m'. queue_remove_tail q m = (Some y, m') \<and> rings m' (L(q \<mapsto> ys)))"
  proof (intro allI impI)
    fix y ys assume xs: "xs = ys @ [y]"
    then have "remove1 y xs = ys" "y \<in> set xs" using d by (simp_all add: remove1_append)
    with rings_remove_entry [OF assms, of y] ring_remove_tail_eq [of m q ys y] rings_ring [OF assms] xs
    show "\<exists>m'. queue_remove_tail q m = (Some y, m') \<and> rings m' (L(q \<mapsto> ys))" by simp
  qed
  show "xs = [] \<longrightarrow> queue_remove_head (Some q) m = (None, m) \<and> queue_remove_tail q m = (None, m)"
    using rings_ring [OF assms] by (auto simp: queue_remove_head_def queue_remove_tail_def)
qed

theorem queues_are_lists_witness:
  "rings (queue_add_tail (0 :: nat) 5 \<lparr>prv = id, nxt = id\<rparr>) [0 \<mapsto> [5]]"
proof -
  have "rings \<lparr>prv = id, nxt = id\<rparr> [0 :: nat \<mapsto> []]" by (auto simp: rings_def split: if_splits)
  moreover have "free [0 :: nat \<mapsto> []] 5" by (auto simp: free_def split: if_splits)
  ultimately show ?thesis using queues_are_lists [of "\<lparr>prv = id, nxt = id\<rparr>" "[0 :: nat \<mapsto> []]" 0 "[]"] by simp
qed

text \<open>C18: the search for an entry ends on every intact queue, with the right answer.\<close>

theorem contains_entry_correct:
  assumes "ring m q xs" "e \<noteq> q"
  shows "queue_contains_entry m q e = Some (e \<in> set xs)"
  using assms by (rule ring_contains_entry)

theorem contains_entry_correct_witness:
  "queue_contains_entry (queue_add_tail (0 :: nat) 7 (queue_add_tail 0 5 \<lparr>prv = id, nxt = id\<rparr>)) 0 7 = Some True"
proof -
  have "ring (queue_add_tail (0 :: nat) 7 (queue_add_tail 0 5 \<lparr>prv = id, nxt = id\<rparr>)) 0 [5, 7]"
    using ring_add_tail [OF ring_add_tail [of "\<lparr>prv = id, nxt = id\<rparr>" "0 :: nat" "[]" 5], of 7] by simp
  from contains_entry_correct [OF this, of 7] show ?thesis by simp
qed

section \<open>Memory pools\<close>

text \<open>C19: a block taken from a pool is not \<open>NULL\<close> and is in no pool's free list any more; giving it back
  when nobody waits restores the free list.\<close>

theorem block_round_trip:
  assumes "sinv s L" "id_fmp (fmps s k) = TN_ID_FSMEMORYPOOL" "0 < fblkcnt (fmps s k)" "fm_get k s = (a, s1)"
  shows "a \<noteq> 0 \<and> free_blocks s k = a # free_blocks s1 k \<and> (\<forall>j. a \<notin> set (free_blocks s1 j)) \<and> sinv s1 L \<and>
    (L (FmpWaitQ k) = Some [] \<longrightarrow> (\<exists>s2. fm_put k a s1 = (TERR_NO_ERR, s2) \<and> sinv s2 L \<and>
       (\<forall>j. free_blocks s2 j = free_blocks s j)))"
proof -
  note g = fm_get_ok [OF assms]
  note wf = fmp_of_inv [OF assms(1)]
  have nf: "a \<notin> set (free_blocks s1 j)" for j
  proof (cases "j = k")
    case True
    then show ?thesis using fmp_wfD(2) [OF wf, of k] unfolding g(2) by simp
  next
    case False
    then show ?thesis using fmp_wfD(4) [OF wf, of k j] g(4) [OF False] unfolding g(2) by simp
  qed
  have s1: "id_fmp (fmps s1 k) = TN_ID_FSMEMORYPOOL" "fblkcnt (fmps s1 k) < num_blocks (fmps s1 k)"
  proof -
    have "s1 = upd_fmp k (\<lambda>p. p\<lparr>free_list := mem32 s (free_list p), fblkcnt := fblkcnt p - 1\<rparr>) s"
      using assms(3,4) by (simp add: fm_get_def Let_def)
    then show "id_fmp (fmps s1 k) = TN_ID_FSMEMORYPOOL" "fblkcnt (fmps s1 k) < num_blocks (fmps s1 k)"
      using assms(2) fmp_wfD(1) [OF wf assms(2)] by simp_all
  qed
  have "\<exists>s2. fm_put k a s1 = (TERR_NO_ERR, s2) \<and> sinv s2 L \<and> (\<forall>j. free_blocks s2 j = free_blocks s j)"
    if q: "L (FmpWaitQ k) = Some []"
  proof -
    obtain rc s2 where r: "fm_put k a s1 = (rc, s2)" by fastforce
    have "not_free a s1" using nf by (simp add: not_free_def)
    note p = fm_put_ok [OF g(1) s1(1) q g(3) this s1(2) r]
    have "free_blocks s2 j = free_blocks s j" for j
      using p(2) p(4) [of j] g(2) g(4) [of j] by (cases "j = k") simp_all
    with p(1,3) r show ?thesis by auto
  qed
  with g nf show ?thesis by blast
qed

theorem block_round_trip_witness:
  "\<exists>s s1. fm_get 0 s = (0x40001000, s1) \<and> free_blocks s1 0 = [0x40001010, 0x40001020, 0x40001030]"
proof -
  obtain s L where s: "sinv s L" "id_fmp (fmps s 0) = TN_ID_FSMEMORYPOOL"
    "free_blocks s 0 = [0x40001000, 0x40001010, 0x40001020, 0x40001030]" using sample_pool by blast
  have "length (free_blocks s 0) = nat (fblkcnt (fmps s 0))" using s(2) by (simp add: free_blocks_def)
  then have "0 < fblkcnt (fmps s 0)" using s(3) by simp
  moreover obtain a s1 where r: "fm_get 0 s = (a, s1)" by fastforce
  ultimately show ?thesis using block_round_trip [OF s(1,2) _ r] s(3) by auto
qed



section \<open>Scheduling in time slices\<close>

text \<open>C21: when the current task has used up the time slice of its priority and is not alone there, the
  tick rotates the ready list: the last task becomes the first, so that another task of the same
  priority runs next.\<close>

theorem tick_rotates_ready_list:
  assumes "ring (mem s) (ReadyL (priority (tcbs s t))) (ys @ [y])" "ys \<noteq> []"
    "tn_tslice_ticks s (priority (tcbs s t)) \<noteq> NO_TIME_SLICE"
    "uint (tn_tslice_ticks s (priority (tcbs s t))) \<le> tslice_count (tcbs s t)"
  shows "\<exists>s'. round_robin t s = Some s' \<and> ring (mem s') (ReadyL (priority (tcbs s t))) (y # ys) \<and>
    tcbs s' = (tcbs s)(t := (tcbs s t)\<lparr>tslice_count := 0\<rparr>)"
proof -
  let ?q = "ReadyL (priority (tcbs s t))"
  obtain z zs where z: "ys = z # zs" using assms(2) by (cases ys) auto
  have d: "distinct (?q # ys @ [y])" using assms(1) by (simp add: ring_def)
  have "nxt (mem s) (nxt (mem s) ?q) = hd (zs @ [y])"
    using ring_nxt [of "mem s" ?q "[]" z "zs @ [y]"] ring_hd [of "mem s" ?q z "zs @ [y]"] assms(1) z by (cases zs) auto
  moreover have "hd (zs @ [y]) \<noteq> ?q" using d z by (cases zs) auto
  ultimately have rot: "\<not> is_queue_empty (mem s) ?q" "nxt (mem s) (nxt (mem s) ?q) \<noteq> ?q"
    using ring_is_empty [OF assms(1)] by simp_all
  have "ring (queue_remove_entry y (mem s)) ?q ys"
    using ring_remove_entry [OF assms(1), of y] d by (simp add: remove1_append)
  then have "ring (queue_add_head ?q y (queue_remove_entry y (mem s))) ?q (y # ys)"
    using d by (intro ring_add_head) auto
  then show ?thesis using assms(3,4) rot ring_remove_tail_eq [OF assms(1)] by (simp add: round_robin_def Let_def)
qed

theorem tick_rotates_ready_list_witness:
  "\<exists>s'. round_robin 2 (zero_memory\<lparr>mem := queue_add_tail (ReadyL 0) (TaskQ 3) (queue_add_tail (ReadyL 0) (TaskQ 2) \<lparr>prv = id, nxt = id\<rparr>),
       tn_tslice_ticks := (\<lambda>_. 1), tcbs := (\<lambda>_. zero_tcb\<lparr>tslice_count := 1\<rparr>)\<rparr>) = Some s' \<and>
     ring (mem s') (ReadyL 0) [TaskQ 3, TaskQ 2]"
proof -
  have "ring (queue_add_tail (ReadyL 0) (TaskQ 3) (queue_add_tail (ReadyL 0) (TaskQ 2) \<lparr>prv = id, nxt = id\<rparr>)) (ReadyL 0)
     ([TaskQ 2] @ [TaskQ 3])"
    using ring_add_tail [OF ring_add_tail [of "\<lparr>prv = id, nxt = id\<rparr>" "ReadyL 0" "[]" "TaskQ 2"], of "TaskQ 3"] by simp
  then show ?thesis
    using tick_rotates_ready_list [of "zero_memory\<lparr>mem := queue_add_tail (ReadyL 0) (TaskQ 3)
       (queue_add_tail (ReadyL 0) (TaskQ 2) \<lparr>prv = id, nxt = id\<rparr>), tn_tslice_ticks := (\<lambda>_. 1),
        tcbs := (\<lambda>_. zero_tcb\<lparr>tslice_count := 1\<rparr>)\<rparr>" 2 "[TaskQ 2]" "TaskQ 3"]
    by (auto simp: zero_tcb_def)
qed

section \<open>Errors\<close>



text \<open>\<open>tn_sys_tslice_ticks\<close> returns with interrupts still disabled when a parameter is wrong.\<close>

theorem tslice_error_disables_interrupts:
  assumes "\<not> bad_non_int_context s" "p \<le> 0 \<or> TN_NUM_PRIORITY - 1 \<le> p \<or> v < 0 \<or> MAX_TIME_SLICE < v"
  shows "tn_sys_tslice_ticks p v s = Some (RC TERR_WRONG_PARAM, s\<lparr>irq_disabled := True\<rparr>)"
  using assms by (auto simp: tn_sys_tslice_ticks_def tn_disable_interrupt_def)

theorem tslice_error_disables_interrupts_witness:
  "\<exists>s. \<not> irq_disabled s \<and> tn_sys_tslice_ticks 0 5 s = Some (RC TERR_WRONG_PARAM, s\<lparr>irq_disabled := True\<rparr>)"
proof -
  let ?s = "zero_memory\<lparr>irq_disabled := False\<rparr>"
  have "\<not> bad_non_int_context ?s" by (simp add: bad_non_int_context_def zero_memory_def)
  from tslice_error_disables_interrupts [OF this, of 0 5] show ?thesis by (intro exI [of _ ?s]) simp
qed



text \<open>An attempt to create a semaphore that exists is reported as an error, but it disables the
  semaphore: its maximum becomes 0, and every later signal or request is rejected.\<close>

theorem recreation_disables_semaphore:
  assumes "id_sem (sems s i) = TN_ID_SEMAPHORE"
  shows "\<exists>s'. tn_sem_create (Some i) v m s = Some (RC TERR_WRONG_PARAM, s') \<and> id_sem (sems s' i) = TN_ID_SEMAPHORE \<and>
    tn_sem_signal (Some i) s' = Some (RC TERR_WRONG_PARAM, s') \<and>
    tn_sem_acquire (Some i) timeout s' = Some (RC TERR_WRONG_PARAM, s')"
  using assms by (simp add: tn_sem_create_def tn_sem_signal_def tn_sem_acquire_def)

theorem recreation_disables_semaphore_witness:
  "\<exists>s s'. sem_count (sems s 0) = 1 \<and> tn_sem_create (Some 0) 1 2 s = Some (RC TERR_WRONG_PARAM, s') \<and>
     tn_sem_signal (Some 0) s' = Some (RC TERR_WRONG_PARAM, s')"
proof -
  obtain s :: kstate where s: "sems s 0 = \<lparr>sem_count = 1, sem_max_count = 2, id_sem = TN_ID_SEMAPHORE\<rparr>" using sample_objects by blast
  then obtain s' where "tn_sem_create (Some 0) 1 2 s = Some (RC TERR_WRONG_PARAM, s')"
    "tn_sem_signal (Some 0) s' = Some (RC TERR_WRONG_PARAM, s')"
    using recreation_disables_semaphore [of s 0 1 2 1] by auto
  moreover have "sem_count (sems s 0) = 1" using s by simp
  ultimately show ?thesis by blast
qed

text \<open>A data queue over an array of \<open>n\<close> entries holds at most \<open>n - 1\<close> items.\<close>

theorem queue_capacity:
  assumes "id_dque (dques s i) \<noteq> TN_ID_DATAQUEUE" "0 \<le> n"
  shows "\<exists>s'. tn_queue_create (Some i) (Some xs) n s = Some (RC TERR_NO_ERR, s') \<and>
    fifo_contents (dques s' i) = [] \<and> fifo_capacity (dques s' i) = nat n - 1"
  using assms by (auto simp: tn_queue_create_def fifo_contents_def fifo_count_def fifo_capacity_def nat_diff_distrib)

theorem queue_capacity_witness:
  "\<exists>s'. tn_queue_create (Some 0) (Some [0, 0]) 2 zero_memory = Some (RC TERR_NO_ERR, s') \<and> fifo_capacity (dques s' 0) = 1"
  using queue_capacity [of zero_memory 0 2 "[0, 0]"] by (auto simp: zero_memory_def)

section \<open>Task creation\<close>

text \<open>C27: \<open>tn_stack_init\<close> lays out the sixteen words that the first context switch into a task pops: status
  register, parameter, the registers, the return address and the entry point, and writes nothing else.\<close>

theorem stack_frame_layout:
  assumes "tn_stack_init exit_addr f start param m = (sp, m')"
  shows "sp = start - 60 \<and>
    map (\<lambda>k. m' (sp + 4 * of_nat k)) [0..<16] =
      [if f AND 1 \<noteq> 0 then 0x33 else 0x13, param] @ rev stack_fill @ [exit_addr, f AND NOT 1] \<and>
    (\<forall>a. (\<forall>k < 16. a \<noteq> start - 4 * of_nat k) \<longrightarrow> m' a = m a)"
proof (intro conjI allI impI)
  show "sp = start - 60" using assms by (auto simp: tn_stack_init_def Let_def stack_fill_def)
  show "map (\<lambda>k. m' (sp + 4 * of_nat k)) [0..<16] =
      [if f AND 1 \<noteq> 0 then 0x33 else 0x13, param] @ rev stack_fill @ [exit_addr, f AND NOT 1]"
  proof -
    have u: "[0..<16] = [0 :: nat, 1, 2, 3, 4, 5, 6, 7, 8, 9, 10, 11, 12, 13, 14, 15]" by code_simp
    show ?thesis unfolding u list.map using assms by (auto simp: tn_stack_init_def Let_def stack_fill_def)
  qed
  show "m' a = m a" if a: "\<forall>k < 16. a \<noteq> start - 4 * of_nat k" for a
  proof -
    let ?ws = "[f AND NOT 1, exit_addr] @ stack_fill @ [param]"
    obtain stk m1 where p: "push_words ?ws start m = (stk, m1)" by fastforce
    have l: "length ?ws = 15" by (simp add: stack_fill_def)
    have "m1 a = m a" "stk = start - 4 * of_nat 15" using push_words_frame(1) [OF p] push_words_frame(2) [OF p, of a] a unfolding l by auto
    moreover have "m' a = m1 a \<or> a = stk" using assms p by (auto simp: tn_stack_init_def)
    moreover have "a \<noteq> start - 4 * of_nat 15" using a [rule_format, of 15] by simp
    ultimately show ?thesis by metis
  qed
qed

theorem stack_frame_layout_witness:
  "\<exists>m'. tn_stack_init 0x8000 0x2001 0x40000400 7 (\<lambda>_. 0) = (0x400003C4, m') \<and> m' 0x400003C4 = 0x33 \<and> m' 0x40000404 = 0"
proof -
  obtain sp m' where r: "tn_stack_init 0x8000 0x2001 0x40000400 7 (\<lambda>_. 0) = (sp, m')" by fastforce
  note l = stack_frame_layout [OF r]
  have "hd (map (\<lambda>k. m' (sp + 4 * of_nat k)) [0..<16]) = 0x33" unfolding conjunct1 [OF conjunct2 [OF l]] by simp
  moreover have "hd (map (\<lambda>k. m' (sp + 4 * of_nat k)) [0..<16]) = m' sp" by (subst hd_map) simp_all
  ultimately have "m' sp = 0x33" by (rule subst [rotated])
  moreover have "\<forall>k < 16. (0x40000404 :: u32) \<noteq> 0x40000400 - 4 * of_nat k"
  proof -
    have "list_all (\<lambda>k. (0x40000404 :: u32) \<noteq> 0x40000400 - 4 * of_nat k) [0..<16]" by code_simp
    then show ?thesis by (auto simp: list_all_iff)
  qed
  moreover have "sp = 0x400003C4" using conjunct1 [OF l] by simp
  ultimately show ?thesis using conjunct2 [OF conjunct2 [OF l]] r by blast
qed

section \<open>Deleting objects, suspending tasks\<close>

text \<open>C28: the loop that releases the waiting tasks of an object that is deleted ends, with a context switch or
  with the wait queue empty.\<close>

theorem delete_loop_ends:
  assumes "sinv s L" "live s q"
  shows "\<exists>sw sr' s' L'. delete_waiters q sr s = Some (sw, sr', s') \<and> sinv s' L' \<and> only_woken (tcbs s) (tcbs s') \<and>
    (\<not> sw \<longrightarrow> L' q = Some [])"
proof -
  obtain xs where "L q = Some xs" using sinv_queue [OF assms] by blast
  from delete_waiters_ok [OF assms this, of sr] show ?thesis by blast
qed

theorem delete_loop_ends_witness:
  "\<exists>s sw sr' s'. id_sem (sems s 1) = TN_ID_SEMAPHORE \<and> delete_waiters (SemWaitQ 1) False s = Some (sw, sr', s') \<and> system_inv s'"
proof -
  obtain s L where s: "sinv s L" "sems s 1 = \<lparr>sem_count = 0, sem_max_count = 1, id_sem = TN_ID_SEMAPHORE\<rparr>"
    using sample_objects by (auto simp: system_inv_def)
  then have "live s (SemWaitQ 1)" by (simp add: sem_live)
  from delete_loop_ends [OF s(1) this, of False] obtain sw sr' s' where
    "delete_waiters (SemWaitQ 1) False s = Some (sw, sr', s')" "system_inv s'" by (auto simp: system_inv_def)
  moreover have "id_sem (sems s 1) = TN_ID_SEMAPHORE" using s(2) by simp
  ultimately show ?thesis by blast
qed

text \<open>C29: suspending a waiting task and resuming it gives back the state it was suspended in.\<close>

theorem suspend_resume_round_trip:
  assumes "id_task (tcbs s t) = TN_ID_TASK" "task_state (tcbs s t) = TSK_STATE_WAIT" "\<not> bad_non_int_context s"
    "tn_curr_run_task s \<noteq> Some t"
  shows "\<exists>s1. tn_task_suspend (Some t) s = Some (RC TERR_NO_ERR, s1) \<and>
    task_state (tcbs s1 t) = TSK_STATE_WAITSUSP \<and> tn_task_resume (Some t) s1 = Some (RC TERR_NO_ERR, s)"
proof -
  have ctx: "bad_non_int_context (s\<lparr>tcbs := T\<rparr>) = bad_non_int_context s" for T by (simp add: bad_non_int_context_def)
  let ?s = "upd_tcb t (\<lambda>c. c\<lparr>task_state := TSK_STATE_WAITSUSP\<rparr>) s"
  have "tn_task_suspend (Some t) s = Some (RC TERR_NO_ERR, ?s)"
    using assms by (simp add: tn_task_suspend_def tn_disable_interrupt_def tn_enable_interrupt_def upd_tcb_def)
  moreover have "tn_task_resume (Some t) ?s = Some (RC TERR_NO_ERR, s)"
    using assms by (simp add: tn_task_resume_def tn_disable_interrupt_def tn_enable_interrupt_def upd_tcb_def ctx fun_upd_idem)
  ultimately show ?thesis by simp
qed

theorem suspend_resume_round_trip_witness:
  "\<exists>s s1 t. waiting (tcbs s t) \<and> tn_task_suspend (Some t) s = Some (RC TERR_NO_ERR, s1) \<and>
     tn_task_resume (Some t) s1 = Some (RC TERR_NO_ERR, s)"
proof -
  let ?s = "zero_memory\<lparr>tcbs := (\<lambda>_. zero_tcb\<lparr>id_task := TN_ID_TASK, task_state := TSK_STATE_WAIT\<rparr>)\<rparr>"
  have "\<not> bad_non_int_context ?s" by (simp add: bad_non_int_context_def zero_memory_def)
  moreover have "waiting (tcbs ?s 2)" by (simp add: waiting_def)
  moreover have "tn_curr_run_task ?s \<noteq> Some 2" by (simp add: zero_memory_def)
  ultimately obtain s1 where "tn_task_suspend (Some 2) ?s = Some (RC TERR_NO_ERR, s1)"
    "tn_task_resume (Some 2) s1 = Some (RC TERR_NO_ERR, ?s)"
    using suspend_resume_round_trip [of ?s 2] by auto
  with \<open>waiting (tcbs ?s 2)\<close> show ?thesis by blast
qed

section \<open>Memory blocks and checksums\<close>

text \<open>C30: \<open>bcopy\<close>, which copies words where it can and bytes where it must, in the direction the overlap asks for,
  moves the block for every alignment and overlap, writes nothing else, and makes no unaligned
  access.\<close>

theorem bcopy_moves_block:
  assumes "unat src + unat len \<le> 2 ^ 32" "unat dst + unat len \<le> 2 ^ 32"
  shows "\<exists>m'. bcopy src dst len m = Some m' \<and>
    (\<forall>a. m' a = (if unat (a - dst) < unat len then m (src + (a - dst)) else m a))"
  using bcopy_memmove [OF assms, of m] by (simp add: memmove_def)

theorem bcopy_moves_block_witness:
  "\<exists>m'. bcopy 0x1001 0x1003 9 (\<lambda>a. ucast a) = Some m' \<and> m' 0x1003 = 1 \<and> m' 0x100B = 9 \<and> m' 0x100C = 12"
proof -
  obtain m' where m': "bcopy 0x1001 0x1003 9 (\<lambda>a. ucast a) = Some m'"
    "\<forall>a. m' a = (if unat (a - 0x1003) < unat (9 :: u32) then ucast (0x1001 + (a - 0x1003)) else ucast a)"
    using bcopy_moves_block [where src = "0x1001" and len = 9 and dst = "0x1003" and m = "\<lambda>a. ucast a"] by auto
  then show ?thesis by (intro exI [of _ m']) simp
qed

text \<open>C31: \<open>s_memcmp\<close> returns 0 exactly when the two blocks are equal, for every count but 0.\<close>

theorem memcmp_decides_equality:
  assumes "n \<noteq> 0"
  shows "s_memcmp a b n m = 0 \<longleftrightarrow> bytes_at m a (unat n) = bytes_at m b (unat n)"
proof
  assume "bytes_at m a (unat n) = bytes_at m b (unat n)"
  then have "m (a + of_nat i) = m (b + of_nat i)" if "i < unat n" for i
    using that by (auto simp: bytes_at_def list_eq_iff_nth_eq)
  with assms show "s_memcmp a b n m = 0" by (intro s_memcmp_equal)
next
  let ?D = "\<lambda>i. i < unat n \<and> m (a + of_nat i) \<noteq> m (b + of_nat i)"
  assume z: "s_memcmp a b n m = 0"
  have "\<not> ?D i" for i
  proof
    assume "?D i"
    then have l: "?D (LEAST i. ?D i)" by (rule LeastI)
    have "m (a + of_nat j) = m (b + of_nat j)" if "j < (LEAST i. ?D i)" for j
      using not_less_Least [OF that] that l by auto
    with l have "s_memcmp a b n m = uint (m (a + of_nat (LEAST i. ?D i))) - uint (m (b + of_nat (LEAST i. ?D i)))"
      by (intro s_memcmp_differ) auto
    with z l show False by (simp add: word_uint_eq_iff)
  qed
  then show "bytes_at m a (unat n) = bytes_at m b (unat n)"
    by (auto simp: bytes_at_def)
qed

theorem memcmp_decides_equality_witness:
  "s_memcmp 0x1000 0x2000 3 (\<lambda>a. ucast a) = 0 \<longleftrightarrow>
     bytes_at (\<lambda>a. ucast a) 0x1000 (unat (3 :: u32)) = bytes_at (\<lambda>a. ucast a) 0x2000 (unat (3 :: u32))"
  by (rule memcmp_decides_equality) simp

text \<open>C32: \<open>in4_cksum\<close>, whatever the lengths and alignments of the buffers of the chain, returns the complement of
  the one's complement sum of the half words of the pseudo header and of the \<open>len\<close> bytes from \<open>off\<close> on,
  and neither panics nor reads at an odd address.\<close>

theorem checksum_is_ones_complement_sum:
  assumes "mchain h p ps" "\<forall>q \<in> set ps. 0 \<le> m_len (the (h q))" "0 \<le> off" "0 \<le> len" "len \<le> 65535"
    "prot \<noteq> 0 \<longrightarrow> 20 \<le> off \<and> ps \<noteq> [] \<and> 20 \<le> m_len (the (h p))"
  shows "in4_cksum h m p prot off len = Some (65535 - int (ocv (wsum False (cksum_data h m ps prot off len))))"
  using in4_cksum_sum [OF assms(1-5)] assms(6) by blast

theorem checksum_is_ones_complement_sum_witness:
  "in4_cksum sample_chain (\<lambda>a. ucast a) 0x100 0 1 6 =
     Some (65535 - int (ocv (wsum False (cksum_data sample_chain (\<lambda>a. ucast a) [0x100, 0x200] 0 1 6)))) \<and>
   wsum False (cksum_data sample_chain (\<lambda>a. ucast a) [0x100, 0x200] 0 1 6) = 0x704"
  by (intro conjI checksum_is_ones_complement_sum)
     (simp_all add: sample_chain_def sample_mbuf_def cksum_data_def chain_data_def mbuf_data_def bytes_at_def upt_rec)

text \<open>C33: a checksum stored in the zeroed checksum field of a header makes the header verify: the receiver
  computes 0.\<close>

theorem stored_checksum_verifies:
  assumes "h p = Some b" "m_next b = 0" "p \<noteq> 0" "0 \<le> len" "len \<le> 65535" "len \<le> m_len b" "even k" "int k + 1 < len"
    "m (m_data b + of_nat k) = 0" "m (m_data b + of_nat k + 1) = 0" "in_cksum h m p len = Some c"
  shows "in_cksum h (store_half (m_data b + of_nat k) c m) p len = Some 0"
  by (rule cksum_round_trip) (fact assms)+

theorem stored_checksum_verifies_witness:
  "\<exists>c. in_cksum [0x100 \<mapsto> sample_mbuf 0x1000 20 0] (\<lambda>a. if a = 0x100A \<or> a = 0x100B then 0 else 7) 0x100 20 = Some c \<and>
     in_cksum [0x100 \<mapsto> sample_mbuf 0x1000 20 0] (store_half 0x100A c (\<lambda>a. if a = 0x100A \<or> a = 0x100B then 0 else 7))
       0x100 20 = Some 0"
proof -
  let ?h = "[0x100 \<mapsto> sample_mbuf 0x1000 20 0]" and ?m = "\<lambda>a :: addr. if a = 0x100A \<or> a = 0x100B then 0 else 7 :: u8"
  obtain c where c: "in_cksum ?h ?m 0x100 20 = Some c"
    using in4_cksum_sum [where h = ?h and p = "0x100" and ps = "[0x100]" and off = 0 and len = 20 and nxt = 0 and m = ?m] by (simp add: sample_mbuf_def)
  have "in_cksum ?h (store_half (m_data (sample_mbuf 0x1000 20 0) + of_nat 10) c ?m) 0x100 20 = Some 0"
    by (rule stored_checksum_verifies [OF _ _ _ _ _ _ _ _ _ _ c]) (simp_all add: sample_mbuf_def)
  with c show ?thesis by (intro exI [of _ c]) (simp add: sample_mbuf_def)
qed

section \<open>Network memory and buffers\<close>

text \<open>C34: \<open>tn_net_init_mem_pools\<close> creates the five pools of the stack from memory without overlaps; each holds all its
  blocks, 64 and 8 small ones, 48 and 48 of middle size and 6 large ones.\<close>

theorem net_pools_created:
  assumes "task_ok s" "list_all spec_ok (pool_specs tnet)" "specs_apart (pool_specs tnet)"
    "\<forall>p \<in> set (pool_specs tnet). id_fmp (fmps s (fst p)) \<noteq> TN_ID_FSMEMORYPOOL"
    "\<forall>p \<in> set (pool_specs tnet). \<forall>j. \<forall>x \<in> set (free_blocks s j). \<not> spec_area p x"
  shows "\<exists>s'. tn_net_init_mem_pools tnet s = Some (TERR_NO_ERR, s') \<and> task_ok s' \<and>
    (\<forall>p \<in> set (pool_specs tnet). open_pool (fst p) s' \<and> free_blocks s' (fst p) = spec_blocks p)"
  unfolding init_mem_pools_list using init_pools_ok [of s "pool_specs tnet"] assms by blast

theorem net_pools_created_witness:
  "\<exists>s0 s. tn_net_init_mem_pools sample_net s0 = Some (TERR_NO_ERR, s) \<and> task_ok s \<and> length (free_blocks s (lobuf_mpool sample_net)) = 64"
proof -
  obtain s0 where s0: "task_ok s0" "fmps s0 = fmps zero_memory" using sample_pools by blast
  have e: "free_blocks s0 j = []" "id_fmp (fmps s0 j) \<noteq> TN_ID_FSMEMORYPOOL" for j
    using s0(2) by (simp_all add: free_blocks_def zero_memory_def)
  obtain s where s: "tn_net_init_mem_pools sample_net s0 = Some (TERR_NO_ERR, s)" "task_ok s"
    "\<forall>p \<in> set (pool_specs sample_net). open_pool (fst p) s \<and> free_blocks s (fst p) = spec_blocks p"
    using net_pools_created [of s0 sample_net, OF s0(1) sample_specs_ok] e by auto
  have "free_blocks s 0 = blocks 32 64 0x40001000" using s(3) unfolding sample_specs by (simp add: spec_blocks_def)
  moreover have "lobuf_mpool sample_net = 0" by (simp add: sample_net_def)
  ultimately have "length (free_blocks s (lobuf_mpool sample_net)) = 64" by simp
  with s(1,2) show ?thesis by blast
qed

text \<open>C35: \<open>mb_get\<close> returns a buffer with a descriptor and a data buffer, and does so whenever the pools have
  enough blocks; \<open>m_freem\<close> of the buffer gives both back to the pools they came from. When \<open>mb_get\<close> returns \<open>NULL\<close> it
  has kept nothing.\<close>

theorem buffer_round_trip:
  assumes "task_ok (kst st)" "net_wf tnet st" "ty \<in> {0, 1, 2}"
  shows "\<exists>p st1. mb_get tnet ty MB_NOWAIT tx st = Some (p, st1) \<and>
    (2 \<le> length (free_blocks (kst st) (lobuf_mpool tnet)) \<and> free_blocks (kst st) (data_pool tnet ty tx) \<noteq> [] \<longrightarrow> p \<noteq> 0) \<and>
    (if p = 0 then mbs st1 = mbs st \<and> (\<forall>k. free_blocks (kst st1) k = free_blocks (kst st) k)
     else mbs st p = None \<and> (\<exists>d. mbs st1 p = Some (new_mbuf p d ty)) \<and>
       (\<exists>st2. m_freem tnet p st1 = Some (0, st2) \<and> mbs st2 = mbs st \<and> (\<forall>k. free_blocks (kst st2) k = free_blocks (kst st) k)))"
proof -
  have "in_use [] (kst st)" by (simp add: holds_def)
  note g = task_buffers.mb_get_ok [OF assms(1) this assms(2,3), of tx, folded mb_get_def]
  from g show ?thesis
  proof (rule disjE; elim exE conjE)
    fix st' assume a: "mb_get tnet ty MB_NOWAIT tx st = Some (0, st')" "free_map (kst st') = free_map (kst st)" "mbs st' = mbs st"
      and e: "free_blocks (kst st) (lobuf_mpool tnet) = [] \<or>
        ((free_map (kst st))(lobuf_mpool tnet := tl (free_blocks (kst st) (lobuf_mpool tnet)))) (data_pool tnet ty tx) = []"
    have "\<not> (2 \<le> length (free_blocks (kst st) (lobuf_mpool tnet)) \<and> free_blocks (kst st) (data_pool tnet ty tx) \<noteq> [])"
      using e by (auto simp: tl_Nil split: if_splits)
    with a fun_cong [OF a(2)] show ?thesis by auto
  next
    fix p d s' A assume a: "mb_get tnet ty MB_NOWAIT tx st = Some (p, st\<lparr>kst := s', mbs := (mbs st)(p \<mapsto> new_mbuf p d ty)\<rparr>)" "p \<noteq> 0"
      and A: "free_map (kst st) = A(lobuf_mpool tnet := p # A (lobuf_mpool tnet))"
    have "p \<in> set (free_blocks (kst st) (lobuf_mpool tnet))" using fun_cong [OF A, of "lobuf_mpool tnet"] by simp
    then have "mbs st p = None" using assms(2) by (simp add: net_wf_def)
    moreover obtain s2 where s2: "m_freem tnet p (st\<lparr>kst := s', mbs := (mbs st)(p \<mapsto> new_mbuf p d ty)\<rparr>) = Some (0, st\<lparr>kst := s2\<rparr>)"
      "free_map s2 = free_map (kst st)" using get_free [OF assms a] by blast
    ultimately show ?thesis using a fun_cong [OF s2(2)] by auto
  qed
qed

theorem buffer_round_trip_witness:
  "\<exists>st p st1 st2. mb_get sample_net 1 MB_NOWAIT True st = Some (p, st1) \<and> p \<noteq> 0 \<and> m_freem sample_net p st1 = Some (0, st2) \<and>
     mbs st2 = mbs st"
proof -
  obtain s where s: "task_ok s" "free_blocks s 0 = blocks 32 64 0x40001000" "free_blocks s 4 = blocks 128 48 0x7FE02700"
    "\<And>h m. \<forall>k. \<forall>a \<in> set (free_blocks s k). h a = None \<Longrightarrow> net_wf sample_net \<lparr>kst = s, mbs = h, bytes = m\<rparr>"
    using sample_net_state by blast
  let ?st = "\<lparr>kst = s, mbs = Map.empty, bytes = (\<lambda>_. 0)\<rparr>"
  have "net_wf sample_net ?st" by (rule s(4)) simp
  moreover have "data_pool sample_net 1 True = 4" "lobuf_mpool sample_net = 0" by (simp_all add: data_pool_def sample_net_def)
  moreover have "free_blocks s 4 \<noteq> []" "length (free_blocks s 0) = 64" using s(2,3) by (simp_all flip: length_0_conv)
  ultimately obtain p st1 st2 where "mb_get sample_net 1 MB_NOWAIT True ?st = Some (p, st1)" "p \<noteq> 0"
    "m_freem sample_net p st1 = Some (0, st2)" "mbs st2 = mbs ?st"
    using buffer_round_trip [of ?st sample_net 1 True] s(1) by auto
  then show ?thesis by blast
qed

text \<open>C36: \<open>m_adj\<close> drops bytes from the front of a chain, or from its end when the length is negative; the chain, the memory
  and all other buffers stay as they are, and a packet length that was right stays right.\<close>

theorem adj_trims_chain:
  assumes "mchain (mbs st) mp (mp # qs)" "lens_ok (mbs st) (mp # qs)"
  shows "\<exists>st'. m_adj mp n st = Some st' \<and> mchain (mbs st') mp (mp # qs) \<and>
    chain_data (mbs st') (bytes st') (mp # qs) =
      (let D = chain_data (mbs st) (bytes st) (mp # qs) in if 0 \<le> n then drop (nat n) D else take (length D - nat (- n)) D) \<and>
    kst st' = kst st \<and> bytes st' = bytes st \<and> (\<forall>q. q \<notin> set (mp # qs) \<longrightarrow> mbs st' q = mbs st q) \<and>
    (m_flags (the (mbs st mp)) AND M_PKTHDR \<noteq> 0 \<and> m_tlen (the (mbs st mp)) = int (length (chain_data (mbs st) (bytes st) (mp # qs))) \<and>
       m_tlen (the (mbs st mp)) < 2 ^ 20 \<longrightarrow>
     m_tlen (the (mbs st' mp)) = int (length (chain_data (mbs st') (bytes st') (mp # qs))))"
  using m_adj_ok [OF assms, of n] by (auto simp: adjusted_def tlen_ok_def simp del: chain_data_simps mchain.simps)

theorem adj_trims_chain_witness:
  "\<exists>st'. m_adj 0x100 5 \<lparr>kst = zero_memory, mbs = sample_chain, bytes = (\<lambda>a. ucast a)\<rparr> = Some st' \<and>
     chain_data (mbs st') (bytes st') [0x100, 0x200] = [2, 3]"
proof -
  let ?st = "\<lparr>kst = zero_memory, mbs = sample_chain, bytes = (\<lambda>a. ucast a)\<rparr>"
  have "mchain (mbs ?st) 0x100 [0x100, 0x200]" "lens_ok (mbs ?st) [0x100, 0x200]" by (simp_all add: sample_chain_def sample_mbuf_def)
  from adj_trims_chain [OF this, of 5] obtain st' where st': "m_adj 0x100 5 ?st = Some st'"
    "chain_data (mbs st') (bytes st') [0x100, 0x200] = drop 5 (chain_data (mbs ?st) (bytes ?st) [0x100, 0x200])"
    by (auto simp: Let_def simp del: chain_data_simps mchain.simps)
  moreover have "chain_data (mbs ?st) (bytes ?st) [0x100, 0x200] = [1, 2, 3, 0, 1, 2, 3]"
    by (simp add: sample_chain_def sample_mbuf_def mbuf_data_def bytes_at_def upt_rec)
  ultimately have "chain_data (mbs st') (bytes st') [0x100, 0x200] = [2, 3]" by (simp del: chain_data_simps)
  with st'(1) show ?thesis by blast
qed

text \<open>C37: \<open>m_copym\<close> of a part of a chain returns a chain of new descriptors that reads as exactly these bytes, without
  copying any; the bytes in memory do not change. \<open>m_freem\<close> of the copy restores all descriptors, reference
  counts included, and the pools get their blocks back.\<close>

theorem copy_shares_data:
  assumes "mchain (mbs st) mb ps" "lens_ok (mbs st) ps" "sharable (mbs st) (length ps) ps"
    and "task_ok (kst st)" "hdrs_free tnet (mbs st) (kst st)" "length ps \<le> length (free_blocks (kst st) (lobuf_mpool tnet))"
    and "0 \<le> off" "0 < len" "off + len \<le> chain_len (mbs st) ps"
  shows "\<exists>qs st' st''. m_copym tnet mb off len MB_NOWAIT st = Some (hd qs, st') \<and> mchain (mbs st') (hd qs) qs \<and> bytes st' = bytes st \<and>
    chain_data (mbs st') (bytes st') qs = take (nat len) (drop (nat off) (chain_data (mbs st) (bytes st) ps)) \<and>
    m_tlen (the (mbs st' (hd qs))) = to_bits 20 len \<and>
    m_freem tnet (hd qs) st' = Some (0, st'') \<and> mbs st'' = mbs st \<and> bytes st'' = bytes st \<and>
    (\<forall>k. mset (free_blocks (kst st'') k) = mset (free_blocks (kst st) k))"
proof -
  obtain qs es st' where c: "m_copym tnet mb off len MB_NOWAIT st = Some (hd qs, st')" "copied tnet (mbs st) [] [] qs [] es st st'"
    "concat (map (mbuf_data (bytes st)) es) = take (nat len) (drop (nat off) (chain_data (mbs st) (bytes st) ps))"
    "m_tlen (hd es) = to_bits 20 len"
    using m_copym_ok [OF assms] by blast
  have b: "bytes st' = bytes st" using c(2) by (simp add: copied_def)
  obtain st'' where "m_freem tnet (hd qs) st' = Some (0, st'')" "mbs st'' = mbs st" "bytes st'' = bytes st"
    "\<forall>k. mset (free_blocks (kst st'') k) = mset (free_blocks (kst st) k)" using copy_free [OF c(2) assms(5)] by blast
  moreover have "chain_data (mbs st') (bytes st') qs = take (nat len) (drop (nat off) (chain_data (mbs st) (bytes st) ps))"
    unfolding copied_chain(2) [OF c(2)] b by (rule c(3))
  ultimately show ?thesis using c(1,4) copied_chain(1,3) [OF c(2)] b by metis
qed

theorem copy_shares_data_witness:
  "\<exists>st qs st'. mbs st = sample_chain \<and> m_copym sample_net 0x100 2 3 MB_NOWAIT st = Some (hd qs, st') \<and>
     chain_data (mbs st') (bytes st') qs = [3, 0, 1]"
proof -
  obtain s where s: "task_ok s" "free_blocks s 0 = blocks 32 64 0x40001000"
    "\<And>h m. \<forall>k. \<forall>a \<in> set (free_blocks s k). h a = None \<Longrightarrow> net_wf sample_net \<lparr>kst = s, mbs = h, bytes = m\<rparr>"
    "\<forall>k. \<forall>a \<in> set (free_blocks s k). 0x40001000 \<le> a" using sample_net_state by blast
  let ?st = "\<lparr>kst = s, mbs = sample_chain, bytes = (\<lambda>a. ucast a)\<rparr>"
  have n: "sample_chain a = None" if "a \<in> set (free_blocks s k)" for a k
    using s(4) that by (fastforce simp: sample_chain_def)
  then have "net_wf sample_net ?st" using s(3) by blast
  then have hf: "hdrs_free sample_net (mbs ?st) (kst ?st)" by (auto simp: net_wf_def hdrs_free_def net_pools_def)
  have c: "mchain (mbs ?st) 0x100 [0x100, 0x200]" "lens_ok (mbs ?st) [0x100, 0x200]" "sharable (mbs ?st) (length [0x100, 0x200 :: addr]) [0x100, 0x200]"
    "chain_len (mbs ?st) [0x100, 0x200] = 7" "chain_data (mbs ?st) (bytes ?st) [0x100, 0x200] = [1, 2, 3, 0, 1, 2, 3]"
    by (simp_all add: sample_chain_def sample_mbuf_def sharable_def pri_of_def mbuf_data_def bytes_at_def upt_rec)
  have fb: "length [0x100, 0x200 :: addr] \<le> length (free_blocks (kst ?st) (lobuf_mpool sample_net))" using s(2) by (simp add: sample_net_def)
  obtain qs st' where "m_copym sample_net 0x100 2 3 MB_NOWAIT ?st = Some (hd qs, st')"
    "chain_data (mbs st') (bytes st') qs = take 3 (drop 2 (chain_data (mbs ?st) (bytes ?st) [0x100, 0x200]))"
    using copy_shares_data [of ?st "0x100" "[0x100, 0x200]" sample_net 2 3, OF c(1-3) _ hf fb] s(1) c(4)
    by (auto simp del: chain_data_simps mchain.simps chain_len_simps)
  then show ?thesis unfolding c(5) by (intro exI [of _ ?st]) auto
qed

text \<open>C38: \<open>buf_to_mbuf\<close> returns a chain of new buffers of at most 128 bytes that hold the bytes of the block, with a packet
  header; \<open>m_freem\<close> of the chain gives all memory back. When the pools run out of memory it returns
  \<open>NULL\<close> and has given back what it had taken; with enough memory that does not happen.\<close>

theorem filled_chain_holds_block:
  assumes "task_ok (kst st)" "net_wf tnet st" "areas_ok (set (free_blocks (kst st) (data_pool tnet MB_MID1 tx)))"
    "outside (set (free_blocks (kst st) (data_pool tnet MB_MID1 tx))) buf n" "n \<noteq> 0"
  shows "\<exists>qs st'. buf_to_mbuf tnet buf (int n) tx st = Some (if qs = [] then 0 else hd qs, st') \<and>
    (lobuf_mpool tnet \<noteq> data_pool tnet MB_MID1 tx \<and> n \<le> 128 * length (free_blocks (kst st) (lobuf_mpool tnet)) \<and>
       n \<le> 128 * length (free_blocks (kst st) (data_pool tnet MB_MID1 tx)) \<longrightarrow> qs \<noteq> []) \<and>
    (qs = [] \<longrightarrow> mbs st' = mbs st \<and> (\<forall>k. mset (free_blocks (kst st') k) = mset (free_blocks (kst st) k))) \<and>
    (qs \<noteq> [] \<longrightarrow> mchain (mbs st') (hd qs) qs \<and> chain_data (mbs st') (bytes st') qs = bytes_at (bytes st) buf n \<and>
      m_flags (the (mbs st' (hd qs))) AND M_PKTHDR \<noteq> 0 \<and> m_tlen (the (mbs st' (hd qs))) = to_bits 20 (int n) \<and>
      (\<exists>st2. m_freem tnet (hd qs) st' = Some (0, st2) \<and> mbs st2 = mbs st \<and>
         (\<forall>k. mset (free_blocks (kst st2) k) = mset (free_blocks (kst st) k))))"
  using buf_to_mbuf_ok [OF assms(1,2) refl assms(3,4,5)]
proof (rule disjE; elim exE conjE)
  fix st' assume "buf_to_mbuf tnet buf (int n) tx st = Some (0, st')" "mbs st' = mbs st"
    "\<forall>k. mset (free_blocks (kst st') k) = mset (free_blocks (kst st) k)" "short_of tnet (data_pool tnet MB_MID1 tx) n (kst st)"
  then show ?thesis by (intro exI [of _ "[]"] exI [of _ st']) (auto simp: short_of_def)
next
  fix qs es st'
  assume r: "buf_to_mbuf tnet buf (int n) tx st = Some (hd qs, st')" "filled tnet (data_pool tnet MB_MID1 tx) (mbs st) qs es st'"
    "n \<le> 128 * length qs" "concat (map (mbuf_data (bytes st')) es) = bytes_at (bytes st) buf n"
    "m_flags (the (mbs st' (hd qs))) AND M_PKTHDR \<noteq> 0" "m_tlen (the (mbs st' (hd qs))) = to_bits 20 (int n)"
    "\<forall>r. mset (free_blocks (kst st) r) = of_pool (own_blocks tnet (data_pool tnet MB_MID1 tx) qs es) r + mset (free_blocks (kst st') r)"
  have ne: "qs \<noteq> []" using r(3) assms(5) by auto
  obtain st2 where "m_freem tnet (hd qs) st' = Some (0, st2)" "mbs st2 = mbs st"
    "\<forall>k. mset (free_blocks (kst st2) k) = mset (free_blocks (kst st) k)" using filled_free [OF r(2) ne] r(7) by auto
  with r ne filled_chain(1,2) [OF r(2) ne] show ?thesis by (intro exI [of _ qs] exI [of _ st']) auto
qed

theorem filled_chain_holds_block_witness:
  "\<exists>st p qs st'. buf_to_mbuf sample_net 0x1000 200 True st = Some (p, st') \<and> p \<noteq> 0 \<and> mchain (mbs st') p qs \<and>
     chain_data (mbs st') (bytes st') qs = bytes_at (\<lambda>a. ucast a) 0x1000 200"
proof -
  obtain s where s: "task_ok s" "length (free_blocks s 0) = 64" "length (free_blocks s 4) = 48" "areas_ok (set (free_blocks s 4))"
    "outside (set (free_blocks s 4)) 0x1000 200" "net_wf sample_net \<lparr>kst = s, mbs = Map.empty, bytes = (\<lambda>a. ucast a)\<rparr>"
    using sample_tx_state by blast
  let ?st = "\<lparr>kst = s, mbs = Map.empty, bytes = (\<lambda>a. ucast a)\<rparr>"
  have d: "data_pool sample_net MB_MID1 True = 4" "lobuf_mpool sample_net = 0" by (simp_all add: data_pool_def sample_net_def)
  obtain qs st' where r: "buf_to_mbuf sample_net 0x1000 (int 200) True ?st = Some (if qs = [] then 0 else hd qs, st')" "qs \<noteq> []"
    "mchain (mbs st') (hd qs) qs" "chain_data (mbs st') (bytes st') qs = bytes_at (bytes ?st) 0x1000 200"
    using filled_chain_holds_block [of ?st sample_net True "0x1000" 200] s unfolding d by auto
  moreover from r(2,3) have "hd qs \<noteq> 0" by (cases qs) auto
  ultimately show ?thesis by (intro exI [of _ ?st] exI [of _ "hd qs"] exI [of _ qs] exI [of _ st']) simp
qed



section \<open>Text, control blocks and address resolution\<close>

text \<open>C15: \<open>in_pcbbind\<close> of a control block in the ring returns. It fails without a change to any control block, or it gives the
  control block the address and port that were asked for, or one of the ports from 1024 to 5000; unless ports
  are shared, no other unconnected control block has them. It finds a port as long as the ring has fewer
  control blocks than there are ports.\<close>

theorem bind_gives_unused_address:
  assumes "pcb_sys st head ps" "inp \<in> set ps" "ni_chain (netifs st) (netif_list st) ns" "nam = 0 \<or> mbs (nst st) nam \<noteq> None"
  shows "\<exists>rc st'. in_pcbbind inp nam st = Some (rc, st') \<and> pcb_ring st' head ps \<and>
    (let laddr = (if nam = 0 then 0 else sin_addr (m_data (the (mbs (nst st) nam))) st);
         wanted = (if nam = 0 then 0 else sin_port (m_data (the (mbs (nst st) nam))) st);
         b = the (pcbs st inp) in
     if rc = 0 then
       \<exists>p. pcbs st' inp = Some (b\<lparr>inp_laddr := laddr, inp_lport := p\<rparr>) \<and> (\<forall>q \<in> set ps - {inp}. pcbs st' q = pcbs st q) \<and>
         (wanted \<noteq> 0 \<longrightarrow> p = wanted) \<and> (wanted = 0 \<longrightarrow> 1024 \<le> htons p \<and> htons p \<le> 5000) \<and>
         (so_options (the (get_so (inp_socket b) st)) AND SO_REUSEPORT = 0 \<or> wanted = 0 \<longrightarrow>
           (\<forall>q \<in> set ps - {inp}. \<not> (inp_laddr (the (pcbs st q)) = laddr \<and> inp_lport (the (pcbs st q)) = p \<and> inp_faddr (the (pcbs st q)) = 0)))
     else rc \<in> {EINVAL, EADDRINUSE, EADDRNOTAVAIL} \<and> pcbs st' = pcbs st) \<and>
    (inp_lport (the (pcbs st inp)) = 0 \<and> inp_laddr (the (pcbs st inp)) = 0 \<and> nam = 0 \<longrightarrow> rc = 0)"
proof -
  obtain rc st' where r: "in_pcbbind inp nam st = Some (rc, st')" "pcb_ring st' head ps" "bind_result st ps inp nam rc st'"
    "inp_lport (the (pcbs st inp)) = 0 \<and> inp_laddr (the (pcbs st inp)) = 0 \<and> nam = 0 \<longrightarrow> rc = 0" using in_pcbbind_ok [OF assms] by blast
  have "distinct ps" using assms(1) by (auto simp: pcb_sys_def pcb_ring_def ring_def)
  then have rest: "set (remove1 inp ps) = set ps - {inp}" by simp
  show ?thesis
  proof (intro exI [of _ rc] exI [of _ st'] conjI, goal_cases)
    case 3
    show ?case
    proof (cases "rc = 0")
      case True
      show ?thesis using r(3) unfolding bind_result_def bound_def taken_def rest Let_def if_P [OF True] by blast
    qed (use r(3) in \<open>simp add: bind_result_def Let_def\<close>)
  qed (use r in blast)+
qed

theorem bind_gives_unused_address_witness:
  "\<exists>st'. in_pcbbind 0x120 0 sample_pstate = Some (0, st') \<and> 1024 \<le> htons (inp_lport (the (pcbs st' 0x120)))"
proof -
  have "ni_chain (netifs sample_pstate) (netif_list sample_pstate) []" by (simp add: sample_pstate_def)
  moreover have "inp_lport (the (pcbs sample_pstate 0x120)) = 0" "inp_laddr (the (pcbs sample_pstate 0x120)) = 0"
    by (simp_all add: sample_pstate_def sample_pcbs_def zero_pcb_def)
  ultimately show ?thesis using bind_gives_unused_address [OF sample_pcb_sys, of "0x120" "[]" 0] by (auto simp: Let_def)
qed






text \<open>C40: reading the text of an IP address gives the address back.\<close>

theorem address_text_round_trip: "\<exists>s. ip4_num_to_str ip4_addr = Some s \<and> ip4_str_to_num s = Some ip4_addr"
  using ip4_round_trip [of ip4_addr] by (simp add: bind_eq_Some)

end
